(* ===== verification/Prelude.thy ===== *)
theory Prelude
  imports Main "HOL-Library.Word" "HOL-Library.Monad_Syntax"
begin

text \<open>
  Shared vocabulary of the development: the machine integers of the rv64 target, the
  byte-addressed physical memory every component works on, little-endian 64-bit accesses,
  alignment, and the convention for code that does not return.

  \<^item> A C object of type \<open>uint64_t\<close>, \<open>size_t\<close> or \<open>uintptr_t\<close> and every pointer is a
    \<open>u64\<close>; arithmetic wraps around, as it does on the target.
  \<^item> Memory is one function from addresses to bytes. The kernel identity-maps physical
    memory, so a pointer of the kernel is a physical address.
  \<^item> \<open>panic()\<close> never returns and neither does a loop that never ends. Both are the value
    \<open>None\<close> of an \<open>option\<close> result: an operation returns exactly when its model is \<open>Some\<close>.
    The debug build is modelled (\<open>BUILD ?= debug\<close> in config.mk), so \<open>assert\<close> is active.
\<close>

unbundle bit_operations_syntax

subsection \<open>Machine integers\<close>

type_synonym u8 = "8 word"
type_synonym u16 = "16 word"
type_synonym u32 = "32 word"
type_synonym u64 = "64 word"
type_synonym memory = "u64 \<Rightarrow> u8"

named_theorems mem_simps \<open>loads and stores on byte memory\<close>
named_theorems unat_simps \<open>moving word arithmetic to the naturals\<close>

text \<open>The effect of \<open>assert\<close>: a failed assertion panics and never returns.\<close>

definition cassert :: "bool \<Rightarrow> unit option" where
  "cassert b = (if b then Some () else None)"

lemma cassert_True [simp]: "cassert True = Some ()"
  by (simp add: cassert_def)

lemma cassert_False [simp]: "cassert False = None"
  by (simp add: cassert_def)

lemma cassert_eq_Some [simp]: "cassert b = Some u \<longleftrightarrow> b"
  by (simp add: cassert_def)

lemma bind_cassert [simp]: "b \<Longrightarrow> cassert b \<bind> f = f ()"
  by (simp add: cassert_def)

subsection \<open>Words and natural numbers\<close>

lemma unat_less_2p64 [simp]: "unat (x :: u64) < 2 ^ 64"
  using unsigned_less [of x] by simp

lemma unat_less_num [simp]: "unat (x :: u64) < 18446744073709551616"
  using unsigned_less [of x] by simp

lemma unat_add_64 [unat_simps]:
  "unat x + unat y < 2 ^ 64 \<Longrightarrow> unat (x + y :: u64) = unat x + unat y"
  by (simp add: unat_word_ariths)

lemma unat_add_num:
  "unat x + unat y < 18446744073709551616 \<Longrightarrow> unat (x + y :: u64) = unat x + unat y"
  by (simp add: unat_word_ariths)

lemma unat_sub_64 [unat_simps]:
  "unat y \<le> unat x \<Longrightarrow> unat (x - y :: u64) = unat x - unat y"
  by (simp add: unat_sub word_le_nat_alt)

lemma unat_of_nat_64 [unat_simps]: "n < 2 ^ 64 \<Longrightarrow> unat (of_nat n :: u64) = n"
  by (simp add: unat_of_nat)

lemma u64_eqI: "unat x = unat y \<Longrightarrow> x = (y :: u64)"
  by (simp add: word_unat_eq_iff)

lemma u64_neqI: "unat x \<noteq> unat y \<Longrightarrow> x \<noteq> (y :: u64)"
  by auto

lemma unat_mod_64 [unat_simps]: "unat (x mod y :: u64) = unat x mod unat y"
  by (rule unat_mod)

lemma unat_dec_less: "0 < n \<Longrightarrow> unat (n - 1 :: u64) < unat n"
  by (simp add: unat_minus_one word_gt_0 unat_gt_0)

lemma unat_sub_less: "k < n \<Longrightarrow> 0 < k \<Longrightarrow> unat (n - k :: u64) < unat n"
  by (simp add: unat_sub word_less_nat_alt order.strict_implies_order)

lemma one_le_word: "0 < n \<Longrightarrow> (1 :: u64) \<le> n"
  by (simp add: word_le_nat_alt word_less_nat_alt)

lemma bit_ff: "bit (255 :: int) k \<longleftrightarrow> k < 8"
proof -
  have "bit (mask 8 :: int) k \<longleftrightarrow> k < 8"
    by (simp only: bit_mask_iff) auto
  then show ?thesis by (simp add: mask_eq_exp_minus_1)
qed

lemma unat_pos_iff: "0 < unat (x :: u64) \<longleftrightarrow> x \<noteq> 0"
  by (simp add: unat_gt_0)

lemma unat_and_minus_exp: "unat (x AND - (2 ^ k)) = unat x div 2 ^ k * 2 ^ k" for x :: u64
proof -
  have "x AND - (2 ^ k) = x - take_bit k x"
  proof -
    have "x AND NOT (mask k) = x AND NOT (take_bit k x)" by (rule bit_word_eqI) (auto simp: bit_simps)
    moreover have "NOT x AND take_bit k x = 0" by (rule bit_word_eqI) (auto simp: bit_simps)
    ultimately show ?thesis by (simp add: disjunctive_diff_eq_and_not minus_exp_eq_not_mask)
  qed
  moreover have t: "unat (take_bit k x) = unat x mod 2 ^ k" unfolding unsigned_take_bit_eq by (simp add: take_bit_eq_mod)
  ultimately have "unat (x AND - (2 ^ k)) = unat x - unat x mod 2 ^ k"
    by (simp add: unat_sub_64)
  then show ?thesis by (simp add: minus_mod_eq_div_mult)
qed

end
