(* ===== verification/Memory.thy ===== *)
theory Memory
  imports Prelude
begin

text \<open>
  Byte-addressed memory: little-endian 64-bit loads and stores (what a dereference of a
  \<open>uint64_t*\<close> or of a pointer field compiles to), eight-byte alignment, and regions.
  The facts of \<open>mem_simps\<close> reduce a load after an aligned store to a case distinction on
  the two addresses, so proofs over linked structures in memory never look at bytes.
\<close>

unbundle bit_operations_syntax

subsection \<open>Little-endian accesses\<close>

definition store8 :: "memory \<Rightarrow> u64 \<Rightarrow> u8 \<Rightarrow> memory" where
  "store8 m a v = m(a := v)"

definition load64 :: "memory \<Rightarrow> u64 \<Rightarrow> u64" where
  "load64 m a =
     ucast (m a) OR push_bit 8 (ucast (m (a + 1))) OR push_bit 16 (ucast (m (a + 2)))
     OR push_bit 24 (ucast (m (a + 3))) OR push_bit 32 (ucast (m (a + 4)))
     OR push_bit 40 (ucast (m (a + 5))) OR push_bit 48 (ucast (m (a + 6)))
     OR push_bit 56 (ucast (m (a + 7)))"

definition store64 :: "memory \<Rightarrow> u64 \<Rightarrow> u64 \<Rightarrow> memory" where
  "store64 m a v = m(a := ucast v, a + 1 := ucast (drop_bit 8 v), a + 2 := ucast (drop_bit 16 v),
     a + 3 := ucast (drop_bit 24 v), a + 4 := ucast (drop_bit 32 v),
     a + 5 := ucast (drop_bit 40 v), a + 6 := ucast (drop_bit 48 v),
     a + 7 := ucast (drop_bit 56 v))"

definition aligned8 :: "u64 \<Rightarrow> bool" where
  "aligned8 a \<longleftrightarrow> unat a mod 8 = 0"

lemma load64_store64_same [mem_simps]: "load64 (store64 m a v) a = v"
proof (rule bit_word_eqI)
  fix n assume "n < LENGTH(64)"
  then have n: "n < 64" by simp
  have m: "store64 m a v a = ucast v" "store64 m a v (a + 1) = ucast (drop_bit 8 v)"
    "store64 m a v (a + 2) = ucast (drop_bit 16 v)" "store64 m a v (a + 3) = ucast (drop_bit 24 v)"
    "store64 m a v (a + 4) = ucast (drop_bit 32 v)" "store64 m a v (a + 5) = ucast (drop_bit 40 v)"
    "store64 m a v (a + 6) = ucast (drop_bit 48 v)" "store64 m a v (a + 7) = ucast (drop_bit 56 v)"
    by (simp_all add: store64_def)
  consider "n < 8" | "8 \<le> n" "n < 16" | "16 \<le> n" "n < 24" | "24 \<le> n" "n < 32" | "32 \<le> n" "n < 40"
    | "40 \<le> n" "n < 48" | "48 \<le> n" "n < 56" | "56 \<le> n" using n by linarith
  then show "bit (load64 (store64 m a v) a) n = bit v n"
    unfolding load64_def m using n
    by cases (auto simp: bit_simps)
qed


lemma aligned8_unat_offset:
  assumes "aligned8 a" "k < 8"
  shows "unat (a + of_nat k) = unat a + k"
proof -
  have "unat a mod 8 = 0" and "unat a < 18446744073709551616"
    using assms by (simp_all add: aligned8_def)
  then have "unat a + k < 18446744073709551616"
    using assms(2) by presburger
  then show ?thesis
    using assms(2) by (simp add: unat_word_ariths unat_of_nat)
qed

lemma aligned8_offset_neq:
  assumes "aligned8 a" "aligned8 b" "a \<noteq> b" "i < 8" "j < 8"
  shows "a + of_nat i \<noteq> b + of_nat j"
proof
  assume "a + of_nat i = b + of_nat j"
  then have "unat a + i = unat b + j"
    using assms by (metis aligned8_unat_offset)
  moreover have "unat a mod 8 = 0" "unat b mod 8 = 0"
    using assms by (simp_all add: aligned8_def)
  ultimately have "unat a = unat b"
    using assms(4,5) by presburger
  then show False using assms(3) by (simp add: word_unat_eq_iff)
qed

lemma store64_outside: "(\<And>i. i < 8 \<Longrightarrow> b \<noteq> a + of_nat i) \<Longrightarrow> store64 m a v b = m b"
proof -
  assume h: "\<And>i. i < 8 \<Longrightarrow> b \<noteq> a + of_nat i"
  have "b \<noteq> a" "b \<noteq> a + 1" "b \<noteq> a + 2" "b \<noteq> a + 3" "b \<noteq> a + 4" "b \<noteq> a + 5" "b \<noteq> a + 6" "b \<noteq> a + 7"
    using h [of 0] h [of 1] h [of 2] h [of 3] h [of 4] h [of 5] h [of 6] h [of 7] by simp_all
  then show ?thesis by (simp add: store64_def)
qed

lemma load64_cong:
  assumes "\<And>i. i < 8 \<Longrightarrow> m (a + of_nat i) = m' (a + of_nat i)"
  shows "load64 m a = load64 m' a"
  using assms [of 0] assms [of 1] assms [of 2] assms [of 3] assms [of 4] assms [of 5]
    assms [of 6] assms [of 7]
  by (simp add: load64_def)

lemma load64_store64_other:
  assumes "aligned8 a" "aligned8 b" "a \<noteq> b"
  shows "load64 (store64 m a v) b = load64 m b"
  by (rule load64_cong) (metis assms aligned8_offset_neq store64_outside)

lemma load64_store64 [mem_simps]:
  "aligned8 a \<Longrightarrow> aligned8 b \<Longrightarrow> load64 (store64 m a v) b = (if a = b then v else load64 m b)"
  by (simp add: load64_store64_same load64_store64_other)

lemma aligned8_add [simp]: "aligned8 a \<Longrightarrow> aligned8 b \<Longrightarrow> aligned8 (a + b)"
proof -
  assume "aligned8 a" "aligned8 b"
  then have "(unat a + unat b) mod 8 = 0" by (simp add: aligned8_def mod_add_eq [symmetric])
  then have "(unat a + unat b) mod 2 ^ 64 mod 8 = 0" by (simp add: mod_mod_cancel)
  then show ?thesis by (simp add: aligned8_def unat_word_ariths)
qed

lemma aligned8_numerals [simp]: "aligned8 0" "aligned8 8" "aligned8 16"
  by (simp_all add: aligned8_def)
subsection \<open>Regions\<close>

definition in_region :: "u64 \<Rightarrow> nat \<Rightarrow> u64 \<Rightarrow> bool" where
  "in_region p n b \<longleftrightarrow> unat (b - p) < n"

definition fill :: "memory \<Rightarrow> u64 \<Rightarrow> u8 \<Rightarrow> nat \<Rightarrow> memory" where
  "fill m p c n = (\<lambda>b. if in_region p n b then c else m b)"

definition copied :: "memory \<Rightarrow> u64 \<Rightarrow> u64 \<Rightarrow> nat \<Rightarrow> memory" where
  "copied m d s n = (\<lambda>b. if in_region d n b then m (s + (b - d)) else m b)"

lemma in_region_0 [simp]: "\<not> in_region p 0 b"
  by (simp add: in_region_def)

lemma in_region_iff:
  assumes "unat p + n \<le> 2 ^ 64"
  shows "in_region p n b \<longleftrightarrow> unat p \<le> unat b \<and> unat b < unat p + n"
proof (cases "unat p \<le> unat b")
  case True
  then show ?thesis by (auto simp: in_region_def unat_sub_64)
next
  case False
  have "unat (b - p) = 2 ^ 64 + unat b - unat p"
    using False by (simp add: unat_sub_if' )
  then show ?thesis using False assms unat_less_2p64 [of b] by (simp add: in_region_def)
qed

lemma in_region_add:
  "k + j < 2 ^ 64 \<Longrightarrow> in_region p (k + j) b \<longleftrightarrow> in_region p k b \<or> in_region (p + of_nat k) j b"
proof -
  assume k: "k + j < 2 ^ 64"
  have e: "b - (p + of_nat k) = (b - p) - of_nat k" by simp
  show ?thesis
  proof (cases "unat (b - p) < k")
    case True then show ?thesis by (simp add: in_region_def)
  next
    case False
    then have "unat ((b - p) - of_nat k) = unat (b - p) - k"
      using k by (subst unat_sub_64) (simp_all add: unat_of_nat_64)
    then show ?thesis using False by (auto simp: in_region_def e)
  qed
qed

lemma fill_0 [simp]: "fill m p c 0 = m"
  by (simp add: fill_def)

lemma copied_0 [simp]: "copied m d s 0 = m"
  by (simp add: copied_def)

lemma fill_fill: "k + j < 2 ^ 64 \<Longrightarrow> fill (fill m p c k) (p + of_nat k) c j = fill m p c (k + j)"
  by (auto simp: fill_def in_region_add fun_eq_iff)

lemma in_region_1 [simp]: "in_region p (Suc 0) b \<longleftrightarrow> b = p"
  by (simp add: in_region_def unat_eq_0)

lemma unat_less_8_iff:
  "unat x < 8 \<longleftrightarrow> x = 0 \<or> x = 1 \<or> x = 2 \<or> x = 3 \<or> x = 4 \<or> x = 5 \<or> x = 6 \<or> x = (7 :: u64)"
proof
  assume "unat x < 8"
  then have "unat x = 0 \<or> unat x = 1 \<or> unat x = 2 \<or> unat x = 3 \<or> unat x = 4 \<or> unat x = 5
    \<or> unat x = 6 \<or> unat x = 7" by arith
  then show "x = 0 \<or> x = 1 \<or> x = 2 \<or> x = 3 \<or> x = 4 \<or> x = 5 \<or> x = 6 \<or> x = 7"
    by (auto simp: word_unat_eq_iff)
qed auto

text \<open>A 64-bit store seen byte by byte, at an offset from its address.\<close>

lemma store64_offset:
  "store64 m p v (p + x) = (if unat x < 8 then ucast (drop_bit (8 * unat x) v) else m (p + x))"
  by (auto simp: store64_def unat_less_8_iff)

lemma load64_byte: "i < 8 \<Longrightarrow> ucast (drop_bit (8 * i) (load64 m a)) = m (a + of_nat i)"
proof -
  assume "i < 8"
  then consider "i = 0" | "i = 1" | "i = 2" | "i = 3" | "i = 4" | "i = 5" | "i = 6" | "i = 7"
    by linarith
  then show ?thesis
    by cases (rule bit_word_eqI, auto simp: load64_def bit_simps dest: bit_imp_le_length)+
qed

lemma store64_load64: "store64 m d (load64 m s) = copied m d s 8"
proof
  fix b
  have "store64 m d (load64 m s) (d + x) = copied m d s 8 (d + x)" for x
    by (simp add: store64_offset load64_byte copied_def in_region_def)
  from this [of "b - d"] show "store64 m d (load64 m s) b = copied m d s 8 b" by simp
qed

lemma store64_repeat:
  assumes "\<And>i. i < 8 \<Longrightarrow> ucast (drop_bit (8 * i) v) = c"
  shows "store64 m p v = fill m p c 8"
proof
  fix b
  have "store64 m p v (p + x) = fill m p c 8 (p + x)" for x
    by (simp add: store64_offset assms fill_def in_region_def)
  from this [of "b - p"] show "store64 m p v b = fill m p c 8 b" by simp
qed

lemma unat_shifted:
  assumes "unat d \<le> unat b" "unat b < unat d + n" "unat s + n \<le> 2 ^ 64"
  shows "unat (s + (b - d) :: u64) = unat s + (unat b - unat d)"
  using assms by (subst unat_add_64) (simp_all add: unat_sub_64)

lemma copied_at:
  assumes "unat d + n \<le> 2 ^ 64"
  shows "copied m d s n b =
    (if unat d \<le> unat b \<and> unat b < unat d + n then m (s + (b - d)) else m b)"
  using assms by (auto simp: copied_def in_region_iff)

lemma copied_outside: "unat d + n \<le> 2 ^ 64 \<Longrightarrow> unat b < unat d \<or> unat d + n \<le> unat b \<Longrightarrow>
    copied m d s n b = m b"
  by (auto simp: copied_at)

text \<open>
  A copy may be done in two parts: front part first when the destination lies below the
  source, back part first when it lies above.
\<close>

lemma copied_forward:
  assumes "unat d + n \<le> 2 ^ 64" "unat s + n \<le> 2 ^ 64" "unat d \<le> unat s" "j < n"
  shows "copied (copied m d s j) (d + of_nat j) (s + of_nat j) (n - j) = copied m d s n"
proof
  fix b
  have u: "unat (d + of_nat j) = unat d + j" using assms by (simp add: unat_word_ariths unat_of_nat)
  have src: "copied m d s j (s + (b - d)) = m (s + (b - d))"
    if "unat d + j \<le> unat b" "unat b < unat d + n"
    using that assms by (intro copied_outside) (auto simp: unat_shifted [of d b n s])
  show "copied (copied m d s j) (d + of_nat j) (s + of_nat j) (n - j) b = copied m d s n b"
    using assms src by (auto simp: copied_at u)
qed

lemma copied_backward:
  assumes "unat d + n \<le> 2 ^ 64" "unat s + n \<le> 2 ^ 64" "unat s \<le> unat d" "j < n"
  shows "copied (copied m (d + of_nat j) (s + of_nat j) (n - j)) d s j = copied m d s n"
proof
  fix b
  have u: "unat (d + of_nat j) = unat d + j" using assms by (simp add: unat_word_ariths unat_of_nat)
  have src: "copied m (d + of_nat j) (s + of_nat j) (n - j) (s + (b - d)) = m (s + (b - d))"
    if "unat d \<le> unat b" "unat b < unat d + j"
    using that assms by (intro copied_outside) (auto simp: u unat_shifted [of d b n s])
  show "copied (copied m (d + of_nat j) (s + of_nat j) (n - j)) d s j b = copied m d s n b"
    using assms src by (auto simp: copied_at u)
qed

end
