(* ===== verification/MemOps.thy ===== *)
theory MemOps
  imports Memory
begin

text \<open>
  Model of kernel/src/libc/lib/memop.c: \<open>memset\<close>, \<open>memmove\<close> and \<open>memcpy\<close>, loop by loop.
  Each loop is one recursive function over the loop's variables; the pointer the C function
  returns is part of the result. The lemmas show that the word-wise fast paths compute the
  same memory as the byte-wise specification (\<open>fill\<close> and \<open>copied\<close> of theory Memory), for
  every alignment and, for \<open>memmove\<close>, for overlapping buffers.
\<close>

unbundle bit_operations_syntax

subsection \<open>memset\<close>

function memset_head :: "memory \<Rightarrow> u64 \<Rightarrow> u32 \<Rightarrow> u64 \<Rightarrow> memory \<times> u64 \<times> u64" where
  "memset_head m mem byte n =
     (if 0 < n \<and> mem mod 8 \<noteq> 0 then memset_head (store8 m mem (ucast byte)) (mem + 1) byte (n - 1)
      else (m, mem, n))"
  by pat_completeness auto
termination
  by (relation "measure (\<lambda>(m, mem, byte, n). unat n)") (auto intro: unat_dec_less)

definition memset_big_value :: "u32 \<Rightarrow> u64" where
  "memset_big_value byte =
     fold (\<lambda>i big. big OR push_bit (8 * i) (scast byte AND 0xff)) [0, 1, 2, 3, 4, 5, 6, 7] 0"

function memset_big :: "memory \<Rightarrow> u64 \<Rightarrow> u64 \<Rightarrow> u64 \<Rightarrow> memory \<times> u64 \<times> u64" where
  "memset_big m mem big n =
     (if n > 8 then memset_big (store64 m mem big) (mem + 8) big (n - 8) else (m, mem, n))"
  by pat_completeness auto
termination
  by (relation "measure (\<lambda>(m, mem, big, n). unat n)") (auto intro: unat_sub_less)

function memset_tail :: "memory \<Rightarrow> u64 \<Rightarrow> u32 \<Rightarrow> u64 \<Rightarrow> memory \<times> u64" where
  "memset_tail m mem byte n =
     (if 0 < n then memset_tail (store8 m mem (ucast byte)) (mem + 1) byte (n - 1) else (m, mem))"
  by pat_completeness auto
termination
  by (relation "measure (\<lambda>(m, mem, byte, n). unat n)") (auto intro: unat_dec_less)

definition memset :: "memory \<Rightarrow> u64 \<Rightarrow> u32 \<Rightarrow> u64 \<Rightarrow> memory \<times> u64" where
  "memset m mem byte n =
     (case memset_head m mem byte n of (m, mem, n) \<Rightarrow>
      (case (if n > 8 then memset_big m mem (memset_big_value byte) n else (m, mem, n)) of
         (m, mem, n) \<Rightarrow> memset_tail m mem byte n))"

subsection \<open>memmove and memcpy\<close>

function memmove_fwd_bytes :: "(u64 \<Rightarrow> u64 \<Rightarrow> bool) \<Rightarrow> memory \<Rightarrow> u64 \<Rightarrow> u64 \<Rightarrow> u64 \<Rightarrow> memory \<times> u64 \<times> u64 \<times> u64"
where
  "memmove_fwd_bytes go m dest src n =
     (if 0 < n \<and> go dest src
      then memmove_fwd_bytes go (store8 m dest (m src)) (dest + 1) (src + 1) (n - 1)
      else (m, dest, src, n))"
  by pat_completeness auto
termination
  by (relation "measure (\<lambda>(go, m, d, s, n). unat n)") (auto intro: unat_dec_less)

function memmove_fwd_words :: "memory \<Rightarrow> u64 \<Rightarrow> u64 \<Rightarrow> u64 \<Rightarrow> memory \<times> u64 \<times> u64 \<times> u64" where
  "memmove_fwd_words m dest src n =
     (if n > 8 then memmove_fwd_words (store64 m dest (load64 m src)) (dest + 8) (src + 8) (n - 8)
      else (m, dest, src, n))"
  by pat_completeness auto
termination
  by (relation "measure (\<lambda>(m, d, s, n). unat n)") (auto intro: unat_sub_less)

function memmove_bwd_bytes :: "(u64 \<Rightarrow> u64 \<Rightarrow> bool) \<Rightarrow> memory \<Rightarrow> u64 \<Rightarrow> u64 \<Rightarrow> u64 \<Rightarrow> memory \<times> u64 \<times> u64 \<times> u64"
where
  "memmove_bwd_bytes go m dest src n =
     (if 0 < n \<and> go dest src
      then memmove_bwd_bytes go (store8 m (dest - 1) (m (src - 1))) (dest - 1) (src - 1) (n - 1)
      else (m, dest, src, n))"
  by pat_completeness auto
termination
  by (relation "measure (\<lambda>(go, m, d, s, n). unat n)") (auto intro: unat_dec_less)

function memmove_bwd_words :: "memory \<Rightarrow> u64 \<Rightarrow> u64 \<Rightarrow> u64 \<Rightarrow> memory \<times> u64 \<times> u64 \<times> u64" where
  "memmove_bwd_words m dest src n =
     (if n > 8 then memmove_bwd_words (store64 m (dest - 8) (load64 m (src - 8))) (dest - 8) (src - 8) (n - 8)
      else (m, dest, src, n))"
  by pat_completeness auto
termination
  by (relation "measure (\<lambda>(m, d, s, n). unat n)") (auto intro: unat_sub_less)

definition memmove_unaligned :: "u64 \<Rightarrow> u64 \<Rightarrow> bool" where
  "memmove_unaligned dest src \<longleftrightarrow> dest mod 8 \<noteq> 0 \<or> src mod 8 \<noteq> 0"

definition memmove :: "memory \<Rightarrow> u64 \<Rightarrow> u64 \<Rightarrow> u64 \<Rightarrow> memory \<times> u64" where
  "memmove m dest src n =
     (if dest < src then
        (case memmove_fwd_bytes memmove_unaligned m dest src n of (m, dest, src, n) \<Rightarrow>
         (case memmove_fwd_words m dest src n of (m, dest, src, n) \<Rightarrow>
          (case memmove_fwd_bytes (\<lambda>_ _. True) m dest src n of (m, dest, _, _) \<Rightarrow> (m, dest))))
      else
        (case memmove_bwd_bytes memmove_unaligned m (dest + n) (src + n) n of (m, dest, src, n) \<Rightarrow>
         (case memmove_bwd_words m dest src n of (m, dest, src, n) \<Rightarrow>
          (case memmove_bwd_bytes (\<lambda>_ _. True) m dest src n of (m, dest, _, _) \<Rightarrow> (m, dest)))))"

definition memcpy :: "memory \<Rightarrow> u64 \<Rightarrow> u64 \<Rightarrow> u64 \<Rightarrow> memory \<times> u64" where
  "memcpy m dest src n = memmove m dest src n"

declare memset_head.simps [simp del] memset_big.simps [simp del] memset_tail.simps [simp del]
  memmove_fwd_bytes.simps [simp del] memmove_fwd_words.simps [simp del]
  memmove_bwd_bytes.simps [simp del] memmove_bwd_words.simps [simp del]

subsection \<open>memset fills the region\<close>

lemma store8_fill: "store8 m p c = fill m p c 1"
  by (auto simp: fill_def store8_def)

lemma fill_step: "0 < n \<Longrightarrow> fill (store8 m p c) (p + 1) c (unat (n - 1)) = fill m p c (unat (n :: u64))"
proof -
  assume n: "0 < n"
  then have u: "unat n = 1 + unat (n - 1)" by (simp add: unat_minus_one word_gt_0 unat_gt_0 Suc_leI)
  have "1 + unat (n - 1) < 2 ^ 64" using u unat_less_2p64 [of n] by simp
  from fill_fill [OF this, of m p c] show ?thesis unfolding u store8_fill by simp
qed

lemma memset_head_spec:
  "memset_head m mem byte n = (m', mem', n') \<Longrightarrow>
     fill m' mem' (ucast byte) (unat n') = fill m mem (ucast byte) (unat n) \<and> mem' + n' = mem + n"
proof (induction m mem byte n rule: memset_head.induct)
  case (1 m mem byte n)
  show ?case
  proof (cases "0 < n \<and> mem mod 8 \<noteq> 0")
    case True
    from "1.IH" [OF True] "1.prems" True show ?thesis
      by (auto simp: memset_head.simps [of m] fill_step)
  next
    case False
    then have "memset_head m mem byte n = (m, mem, n)" by (simp only: memset_head.simps [of m] if_False)
    with "1.prems" show ?thesis by simp
  qed
qed

lemma memset_tail_spec:
  "memset_tail m mem byte n = (fill m mem (ucast byte) (unat n), mem + n)"
proof (induction m mem byte n rule: memset_tail.induct)
  case (1 m mem byte n)
  then show ?case
    by (cases "0 < n") (auto simp: memset_tail.simps [of m] fill_step word_gt_0)
qed

lemma memset_big_value_bytes:
  assumes "i < 8"
  shows "ucast (drop_bit (8 * i) (memset_big_value byte)) = (ucast byte :: u8)"
proof -
  define x :: u64 where "x = scast byte AND 0xff"
  have x: "bit x k \<longleftrightarrow> k < 8 \<and> bit byte k" for k
    by (auto simp: x_def bit_simps bit_ff min_def)
  have v: "memset_big_value byte = x OR push_bit 8 x OR push_bit 16 x OR push_bit 24 x
      OR push_bit 32 x OR push_bit 40 x OR push_bit 48 x OR push_bit 56 x"
    by (simp add: memset_big_value_def x_def [symmetric] or.assoc del: push_bit_and push_bit_of_1)
  consider "i = 0" | "i = 1" | "i = 2" | "i = 3" | "i = 4" | "i = 5" | "i = 6" | "i = 7"
    using assms by linarith
  then show ?thesis
    unfolding v by cases (rule bit_word_eqI, auto simp: bit_simps x)+
qed

lemma memset_big_spec:
  assumes "\<And>i. i < 8 \<Longrightarrow> ucast (drop_bit (8 * i) big) = c"
  shows "memset_big m mem big n = (m', mem', n') \<Longrightarrow>
     fill m' mem' c (unat n') = fill m mem c (unat n) \<and> mem' + n' = mem + n"
  using assms
proof (induction m mem big n rule: memset_big.induct)
  case (1 m mem big n)
  show ?case
  proof (cases "n > 8")
    case True
    then have u: "unat n = 8 + unat (n - 8)" by (simp add: unat_sub_64 word_less_nat_alt)
    then have "8 + unat (n - 8) < 2 ^ 64" using unat_less_2p64 [of n] by simp
    from fill_fill [OF this, of m mem c] store64_repeat [of big c m mem] "1.prems"(2)
    have "fill (store64 m mem big) (mem + 8) c (unat (n - 8)) = fill m mem c (unat n)"
      unfolding u by simp
    with "1.IH" [OF True _ "1.prems"(2)] "1.prems"(1) True show ?thesis
      by (auto simp: memset_big.simps [of m])
  next
    case False
    then show ?thesis using "1.prems" by (auto simp: memset_big.simps [of m])
  qed
qed

lemma memset_spec: "memset m mem byte n = (fill m mem (ucast byte) (unat n), mem + n)"
proof -
  obtain m1 p1 n1 where h: "memset_head m mem byte n = (m1, p1, n1)" by (cases "memset_head m mem byte n")
  obtain m2 p2 n2 where b: "memset_big m1 p1 (memset_big_value byte) n1 = (m2, p2, n2)"
    by (cases "memset_big m1 p1 (memset_big_value byte) n1")
  show ?thesis
    using memset_head_spec [OF h] memset_big_spec [OF memset_big_value_bytes b]
    by (simp add: memset_def h b memset_tail_spec)
qed

subsection \<open>memmove copies, overlapping or not\<close>

lemma store8_copied: "store8 m d (m s) = copied m d s 1"
  by (auto simp: copied_def store8_def)

lemma copied_split_fwd:
  assumes "unat d + unat n < 2 ^ 64" "unat s + unat n < 2 ^ 64" "unat d \<le> unat s" "k \<le> n"
  shows "copied (copied m d s (unat k)) (d + k) (s + k) (unat (n - k)) = copied m d s (unat (n :: u64))"
proof (cases "k = n")
  case False
  then have "unat k < unat n" using assms(4) by (simp add: word_le_nat_alt word_unat_eq_iff)
  then show ?thesis
    using copied_forward [of d "unat n" s "unat k" m] assms by (simp add: unat_sub_64)
qed simp

lemma copied_split_bwd:
  assumes "unat d + unat n < 2 ^ 64" "unat s + unat n < 2 ^ 64" "unat s \<le> unat d" "k \<le> n"
  shows "copied (copied m (d + (n - k)) (s + (n - k)) (unat k)) d s (unat (n - k)) = copied m d s (unat (n :: u64))"
proof (cases "k = 0")
  case False
  then have "0 < unat k" by (simp add: unat_gt_0)
  then have "unat (n - k) < unat n" "unat n - unat (n - k) = unat k"
    using assms(4) by (auto simp: word_le_nat_alt unat_sub_64)
  then show ?thesis
    using copied_backward [of d "unat n" s "unat (n - k)" m] assms by simp
qed simp

text \<open>The loop invariant of the forward loops: some prefix of the buffer is copied.\<close>

definition fwd_prefix :: "memory \<Rightarrow> u64 \<Rightarrow> u64 \<Rightarrow> u64 \<Rightarrow> memory \<times> u64 \<times> u64 \<times> u64 \<Rightarrow> bool" where
  "fwd_prefix m dest src n r \<longleftrightarrow>
     (\<exists>k. k \<le> n \<and> r = (copied m dest src (unat k), dest + k, src + k, n - k))"

lemma fwd_prefix_step:
  assumes "unat dest + unat n < 2 ^ 64" "unat src + unat n < 2 ^ 64" "unat dest \<le> unat src"
    and "j \<le> n" "fwd_prefix (copied m dest src (unat j)) (dest + j) (src + j) (n - j) r"
  shows "fwd_prefix m dest src n r"
proof -
  obtain k where k: "k \<le> n - j"
    and r: "r = (copied (copied m dest src (unat j)) (dest + j) (src + j) (unat k), dest + j + k, src + j + k, n - j - k)"
    using assms(5) by (auto simp: fwd_prefix_def)
  have nj: "unat j + unat k \<le> unat n"
    using k assms(4) by (simp add: word_le_nat_alt unat_sub_64)
  then have jk: "unat (j + k) = unat j + unat k"
    using unat_less_2p64 [of n] by (intro unat_add_64) linarith
  have "copied (copied m dest src (unat j)) (dest + j) (src + j) (unat (j + k - j)) = copied m dest src (unat (j + k))"
    using assms nj by (intro copied_split_fwd) (simp_all add: jk word_le_nat_alt)
  then show ?thesis
    using r nj jk unfolding fwd_prefix_def
    by (intro exI [of _ "j + k"]) (simp add: word_le_nat_alt algebra_simps)
qed

lemma fwd_prefix_refl: "fwd_prefix m dest src n (m, dest, src, n)"
  unfolding fwd_prefix_def by (rule exI [of _ 0]) simp

lemma fwd_range_step:
  assumes "unat dest + unat n < 2 ^ 64" "unat src + unat n < 2 ^ 64" "unat dest \<le> unat src" "j \<le> (n :: u64)"
  shows "unat (dest + j) + unat (n - j) < 2 ^ 64" "unat (src + j) + unat (n - j) < 2 ^ 64"
    "unat (dest + j) \<le> unat (src + j)"
proof -
  have j: "unat j \<le> unat n" using assms(4) by (simp add: word_le_nat_alt)
  then have "unat (dest + j) = unat dest + unat j" "unat (src + j) = unat src + unat j"
    using assms by (auto intro: unat_add_64)
  then show "unat (dest + j) + unat (n - j) < 2 ^ 64" "unat (src + j) + unat (n - j) < 2 ^ 64"
    "unat (dest + j) \<le> unat (src + j)"
    using assms j by (simp_all add: unat_sub_64)
qed

lemma memmove_fwd_bytes_prefix:
  assumes "unat dest + unat n < 2 ^ 64" "unat src + unat n < 2 ^ 64" "unat dest \<le> unat src"
  shows "fwd_prefix m dest src n (memmove_fwd_bytes go m dest src n)"
  using assms
proof (induction go m dest src n rule: memmove_fwd_bytes.induct)
  case (1 go m dest src n)
  show ?case
  proof (cases "0 < n \<and> go dest src")
    case True
    then have "1 \<le> n" by (simp add: one_le_word)
    from fwd_prefix_step [OF "1.prems" this] "1.IH" [OF True] fwd_range_step [OF "1.prems" this] True
    show ?thesis by (simp add: memmove_fwd_bytes.simps [of go m] store8_copied)
  next
    case False
    then have "memmove_fwd_bytes go m dest src n = (m, dest, src, n)"
      by (simp only: memmove_fwd_bytes.simps [of go m] if_False)
    then show ?thesis by (simp add: fwd_prefix_refl)
  qed
qed

lemma memmove_fwd_words_prefix:
  assumes "unat dest + unat n < 2 ^ 64" "unat src + unat n < 2 ^ 64" "unat dest \<le> unat src"
  shows "fwd_prefix m dest src n (memmove_fwd_words m dest src n)"
  using assms
proof (induction m dest src n rule: memmove_fwd_words.induct)
  case (1 m dest src n)
  show ?case
  proof (cases "n > 8")
    case True
    then have "8 \<le> n" by simp
    from fwd_prefix_step [OF "1.prems" this] "1.IH" [OF True] fwd_range_step [OF "1.prems" this] True
    show ?thesis by (simp add: memmove_fwd_words.simps [of m] store64_load64)
  next
    case False
    then have "memmove_fwd_words m dest src n = (m, dest, src, n)"
      by (simp only: memmove_fwd_words.simps [of m] if_False)
    then show ?thesis by (simp add: fwd_prefix_refl)
  qed
qed

text \<open>The backward loops copy a suffix; the pointers stand at its start.\<close>

definition bwd_suffix :: "memory \<Rightarrow> u64 \<Rightarrow> u64 \<Rightarrow> u64 \<Rightarrow> memory \<times> u64 \<times> u64 \<times> u64 \<Rightarrow> bool" where
  "bwd_suffix m dest src n r \<longleftrightarrow>
     (\<exists>k. k \<le> n \<and> r = (copied m (dest + (n - k)) (src + (n - k)) (unat k), dest + (n - k), src + (n - k), n - k))"

lemma bwd_suffix_step:
  assumes "unat dest + unat n < 2 ^ 64" "unat src + unat n < 2 ^ 64" "unat src \<le> unat dest"
    and "j \<le> n" "bwd_suffix (copied m (dest + (n - j)) (src + (n - j)) (unat j)) dest src (n - j) r"
  shows "bwd_suffix m dest src n r"
proof -
  obtain k where k: "k \<le> n - j"
    and r: "r = (copied (copied m (dest + (n - j)) (src + (n - j)) (unat j)) (dest + (n - j - k)) (src + (n - j - k)) (unat k),
        dest + (n - j - k), src + (n - j - k), n - j - k)"
    using assms(5) by (auto simp: bwd_suffix_def)
  have nj: "unat j + unat k \<le> unat n"
    using k assms(4) by (simp add: word_le_nat_alt unat_sub_64)
  then have jk: "unat (j + k) = unat j + unat k"
    using unat_less_2p64 [of n] by (intro unat_add_64) linarith
  let ?d = "dest + (n - (j + k))" and ?s = "src + (n - (j + k))"
  have off: "unat (n - (j + k)) = unat n - (unat j + unat k)" using nj jk by (simp add: unat_sub_64)
  have ds: "unat ?d = unat dest + (unat n - (unat j + unat k))" "unat ?s = unat src + (unat n - (unat j + unat k))"
    using unat_add_64 [of dest "n - (j + k)"] unat_add_64 [of src "n - (j + k)"] assms(1,2) off by simp_all
  have "copied (copied m (?d + (j + k - j)) (?s + (j + k - j)) (unat j)) ?d ?s (unat (j + k - j))
      = copied m ?d ?s (unat (j + k))"
    using assms nj by (intro copied_split_bwd) (simp_all add: ds jk word_le_nat_alt)
  moreover have "?d + (j + k - j) = dest + (n - j)" "?s + (j + k - j) = src + (n - j)"
    "n - j - k = n - (j + k)" by simp_all
  ultimately show ?thesis
    using r nj jk unfolding bwd_suffix_def
    by (intro exI [of _ "j + k"]) (simp add: word_le_nat_alt diff_diff_eq)
qed

lemma bwd_suffix_refl: "bwd_suffix m dest src n (m, dest + n, src + n, n)"
  unfolding bwd_suffix_def by (rule exI [of _ 0]) simp

lemma bwd_range_step:
  assumes "unat dest + unat n < 2 ^ 64" "unat src + unat n < 2 ^ 64" "j \<le> (n :: u64)"
  shows "unat dest + unat (n - j) < 2 ^ 64" "unat src + unat (n - j) < 2 ^ 64"
  using assms by (simp_all add: word_le_nat_alt unat_sub_64)

lemma memmove_bwd_bytes_suffix:
  assumes "unat dest + unat n < 2 ^ 64" "unat src + unat n < 2 ^ 64" "unat src \<le> unat dest"
  shows "bwd_suffix m dest src n (memmove_bwd_bytes go m (dest + n) (src + n) n)"
  using assms
proof (induction "unat n" arbitrary: n m rule: less_induct)
  case (less n m)
  show ?case
  proof (cases "0 < n \<and> go (dest + n) (src + n)")
    case True
    then have one: "1 \<le> n" by (simp add: one_le_word)
    let ?m = "copied m (dest + (n - 1)) (src + (n - 1)) (unat (1 :: u64))"
    have e: "memmove_bwd_bytes go m (dest + n) (src + n) n
        = memmove_bwd_bytes go ?m (dest + (n - 1)) (src + (n - 1)) (n - 1)"
      using True by (subst memmove_bwd_bytes.simps) (simp add: store8_copied add_diff_eq)
    have "bwd_suffix ?m dest src (n - 1) (memmove_bwd_bytes go ?m (dest + (n - 1)) (src + (n - 1)) (n - 1))"
      using True bwd_range_step [OF less.prems(1,2) one] less.prems(3)
      by (intro less.hyps) (simp_all add: unat_dec_less)
    then show ?thesis unfolding e by (rule bwd_suffix_step [OF less.prems one])
  next
    case False
    then have "memmove_bwd_bytes go m (dest + n) (src + n) n = (m, dest + n, src + n, n)"
      by (simp only: memmove_bwd_bytes.simps [of go m] if_False)
    then show ?thesis by (simp add: bwd_suffix_refl)
  qed
qed

lemma memmove_bwd_words_suffix:
  assumes "unat dest + unat n < 2 ^ 64" "unat src + unat n < 2 ^ 64" "unat src \<le> unat dest"
  shows "bwd_suffix m dest src n (memmove_bwd_words m (dest + n) (src + n) n)"
  using assms
proof (induction "unat n" arbitrary: n m rule: less_induct)
  case (less n m)
  show ?case
  proof (cases "n > 8")
    case True
    then have eight: "8 \<le> n" by simp
    let ?m = "copied m (dest + (n - 8)) (src + (n - 8)) (unat (8 :: u64))"
    have e: "memmove_bwd_words m (dest + n) (src + n) n
        = memmove_bwd_words ?m (dest + (n - 8)) (src + (n - 8)) (n - 8)"
      using True by (subst memmove_bwd_words.simps) (simp add: store64_load64 add_diff_eq)
    have "bwd_suffix ?m dest src (n - 8) (memmove_bwd_words ?m (dest + (n - 8)) (src + (n - 8)) (n - 8))"
      using True bwd_range_step [OF less.prems(1,2) eight] less.prems(3)
      by (intro less.hyps) (simp_all add: unat_sub_less)
    then show ?thesis unfolding e by (rule bwd_suffix_step [OF less.prems eight])
  next
    case False
    then have "memmove_bwd_words m (dest + n) (src + n) n = (m, dest + n, src + n, n)"
      by (simp only: memmove_bwd_words.simps [of m] if_False)
    then show ?thesis by (simp add: bwd_suffix_refl)
  qed
qed

lemma memmove_fwd_bytes_all:
  "memmove_fwd_bytes go m d s n = (m', d', s', n') \<Longrightarrow> \<forall>d s. go d s \<Longrightarrow> n' = 0"
proof (induction go m d s n rule: memmove_fwd_bytes.induct)
  case (1 go m d s n)
  show ?case
  proof (cases "0 < n")
    case True
    with "1.prems"(2) have g: "0 < n \<and> go d s" by blast
    show ?thesis
      by (rule "1.IH" [OF g _ "1.prems"(2)])
        (use "1.prems"(1) g in \<open>simp only: memmove_fwd_bytes.simps [of go m d s n] simp_thms if_True\<close>)
  next
    case False
    with "1.prems"(1) show ?thesis by (simp add: memmove_fwd_bytes.simps [of go m] word_gt_0)
  qed
qed

lemma memmove_bwd_bytes_all:
  "memmove_bwd_bytes go m d s n = (m', d', s', n') \<Longrightarrow> \<forall>d s. go d s \<Longrightarrow> n' = 0"
proof (induction go m d s n rule: memmove_bwd_bytes.induct)
  case (1 go m d s n)
  show ?case
  proof (cases "0 < n")
    case True
    with "1.prems"(2) have g: "0 < n \<and> go d s" by blast
    show ?thesis
      by (rule "1.IH" [OF g _ "1.prems"(2)])
        (use "1.prems"(1) g in \<open>simp only: memmove_bwd_bytes.simps [of go m d s n] simp_thms if_True\<close>)
  next
    case False
    with "1.prems"(1) show ?thesis by (simp add: memmove_bwd_bytes.simps [of go m] word_gt_0)
  qed
qed

lemma memmove_spec:
  assumes "unat dest + unat n < 2 ^ 64" "unat src + unat n < 2 ^ 64"
  shows "memmove m dest src n = (copied m dest src (unat n), if dest < src then dest + n else dest)"
proof (cases "dest < src")
  case True
  then have ds: "unat dest \<le> unat src" by (simp add: word_less_nat_alt)
  obtain k where k: "k \<le> n" and a: "memmove_fwd_bytes memmove_unaligned m dest src n
      = (copied m dest src (unat k), dest + k, src + k, n - k)" (is "_ = (?m1, ?d1, ?s1, ?n1)")
    using memmove_fwd_bytes_prefix [OF assms ds, of m memmove_unaligned] by (auto simp: fwd_prefix_def)
  note r1 = fwd_range_step [OF assms ds k]
  obtain m2 d2 s2 n2 where b: "memmove_fwd_words ?m1 ?d1 ?s1 ?n1 = (m2, d2, s2, n2)"
    by (cases "memmove_fwd_words ?m1 ?d1 ?s1 ?n1")
  have fw: "fwd_prefix ?m1 ?d1 ?s1 ?n1 (m2, d2, s2, n2)"
    using memmove_fwd_words_prefix [OF r1, of ?m1] by (simp add: b)
  have "fwd_prefix m dest src n (m2, d2, s2, n2)"
    by (rule fwd_prefix_step [OF assms ds k fw])
  then obtain j where j: "j \<le> n" "m2 = copied m dest src (unat j)" "d2 = dest + j" "s2 = src + j" "n2 = n - j"
    by (auto simp: fwd_prefix_def)
  note r2 = fwd_range_step [OF assms ds j(1)]
  obtain m3 d3 s3 n3 where c: "memmove_fwd_bytes (\<lambda>_ _. True) m2 d2 s2 n2 = (m3, d3, s3, n3)"
    by (cases "memmove_fwd_bytes (\<lambda>_ _. True) m2 d2 s2 n2")
  have "fwd_prefix m2 d2 s2 n2 (m3, d3, s3, n3)"
    using memmove_fwd_bytes_prefix [OF r2, of m2 "\<lambda>_ _. True"] c j by simp
  then have "fwd_prefix m dest src n (m3, d3, s3, n3)"
    unfolding j by (rule fwd_prefix_step [OF assms ds j(1)])
  with memmove_fwd_bytes_all [OF c, simplified] have "m3 = copied m dest src (unat n)" "d3 = dest + n"
    by (auto simp: fwd_prefix_def)
  then show ?thesis using True by (simp add: memmove_def a b c)
next
  case False
  then have ds: "unat src \<le> unat dest" by (simp add: word_less_nat_alt)
  obtain k where k: "k \<le> n" and a: "memmove_bwd_bytes memmove_unaligned m (dest + n) (src + n) n
      = (copied m (dest + (n - k)) (src + (n - k)) (unat k), dest + (n - k), src + (n - k), n - k)"
      (is "_ = (?m1, ?d1, ?s1, ?n1)")
    using memmove_bwd_bytes_suffix [OF assms ds, of m memmove_unaligned] by (auto simp: bwd_suffix_def)
  obtain m2 d2 s2 n2 where b: "memmove_bwd_words ?m1 ?d1 ?s1 ?n1 = (m2, d2, s2, n2)"
    by (cases "memmove_bwd_words ?m1 ?d1 ?s1 ?n1")
  have bw: "bwd_suffix ?m1 dest src ?n1 (m2, d2, s2, n2)"
    using memmove_bwd_words_suffix [OF bwd_range_step [OF assms k] ds, of ?m1] by (simp add: b)
  have "bwd_suffix m dest src n (m2, d2, s2, n2)"
    by (rule bwd_suffix_step [OF assms ds k bw])
  then obtain j where j: "j \<le> n" "m2 = copied m (dest + (n - j)) (src + (n - j)) (unat j)"
      "d2 = dest + (n - j)" "s2 = src + (n - j)" "n2 = n - j"
    by (auto simp: bwd_suffix_def)
  obtain m3 d3 s3 n3 where c: "memmove_bwd_bytes (\<lambda>_ _. True) m2 d2 s2 n2 = (m3, d3, s3, n3)"
    by (cases "memmove_bwd_bytes (\<lambda>_ _. True) m2 d2 s2 n2")
  have "bwd_suffix m2 dest src n2 (m3, d3, s3, n3)"
    using memmove_bwd_bytes_suffix [OF bwd_range_step [OF assms j(1)] ds, of m2 "\<lambda>_ _. True"] c j by simp
  then have "bwd_suffix m dest src n (m3, d3, s3, n3)"
    unfolding j by (rule bwd_suffix_step [OF assms ds j(1)])
  with memmove_bwd_bytes_all [OF c, simplified] have "m3 = copied m dest src (unat n)" "d3 = dest"
    by (auto simp: bwd_suffix_def)
  then show ?thesis using False by (simp add: memmove_def a b c)
qed

text \<open>
  \<open>memset(p, byte, n)\<close> writes the low byte of its argument to each
  of the \<open>n\<close> bytes from \<open>p\<close> and to no other byte, whatever the alignment of \<open>p\<close> and
  whichever of its three loops writes a byte. The pointer it returns is \<open>p + n\<close>, the end of
  the region (the C standard's \<open>memset\<close> returns \<open>p\<close>).
\<close>

theorem memset_correct:
  "fst (memset m p byte n) b = (if unat (b - p) < unat n then ucast byte else m b)
   \<and> snd (memset m p byte n) = p + n"
  by (simp add: memset_spec fill_def in_region_def)

text \<open>
  Property C39 (memmove_correct). For buffers that do not run past the end of the address space,
  overlapping or not, \<open>memmove(dest, src, n)\<close> leaves in byte \<open>k\<close> of the destination what byte
  \<open>k\<close> of the source held before the call, and changes no byte outside the destination.
\<close>

theorem memmove_correct:
  assumes "unat dest + unat n < 2 ^ 64" "unat src + unat n < 2 ^ 64"
  shows "(\<forall>k. unat k < unat n \<longrightarrow> fst (memmove m dest src n) (dest + k) = m (src + k))
    \<and> (\<forall>b. unat n \<le> unat (b - dest) \<longrightarrow> fst (memmove m dest src n) b = m b)"
  by (simp add: memmove_spec [OF assms] copied_def in_region_def)

text \<open>Witness: a three-byte copy between overlapping buffers.\<close>

theorem memmove_correct_witness:
  "fst (memmove ucast 0x1001 0x1000 3) 0x1003 = 2"
  using memmove_correct [of "0x1001" 3 "0x1000" ucast, THEN conjunct1, THEN spec, of 2]
  by simp

end
