(* ===== verification/Util.thy ===== *)
theory Util
  imports Memory
begin

text \<open>
  Model of kernel/src/util/util.c: minimum and maximum on the two signednesses, the integer
  and string hashes the kernel's hash tables use, and big-endian reads. A pointer argument
  is an address in byte memory. \<open>char\<close> is unsigned on RISC-V, so a character is a \<open>u8\<close>.
\<close>

unbundle bit_operations_syntax

subsection \<open>Minimum and maximum\<close>

definition umin :: "u64 \<Rightarrow> u64 \<Rightarrow> u64" where
  "umin a b = (if a < b then a else b)"

definition umax :: "u64 \<Rightarrow> u64 \<Rightarrow> u64" where
  "umax a b = (if a > b then a else b)"

definition smin :: "u64 \<Rightarrow> u64 \<Rightarrow> u64" where
  "smin a b = (if a <s b then a else b)"

definition smax :: "u64 \<Rightarrow> u64 \<Rightarrow> u64" where
  "smax a b = (if b <s a then a else b)"

lemma unat_umin: "unat (umin a b) = min (unat a) (unat b)"
  by (auto simp: umin_def word_less_nat_alt)

lemma unat_umax: "unat (umax a b) = max (unat a) (unat b)"
  by (auto simp: umax_def word_less_nat_alt)

lemma sint_smax: "sint (smax a b) = max (sint a) (sint b)"
  by (auto simp: smax_def word_sless_alt)

lemma sint_smin: "sint (smin a b) = min (sint a) (sint b)"
  by (auto simp: smin_def word_sless_alt)

subsection \<open>Hashes\<close>

definition hashInt64 :: "u64 \<Rightarrow> u64" where
  "hashInt64 x =
     (let x = (x XOR drop_bit 30 x) * 0xbf58476d1ce4e5b9;
          x = (x XOR drop_bit 27 x) * 0x94d049bb133111eb
      in x XOR drop_bit 31 x)"

definition hashInt32 :: "u32 \<Rightarrow> u32" where
  "hashInt32 x =
     (let x = (x XOR drop_bit 15 x) * 0xd168aaad;
          x = (x XOR drop_bit 15 x) * 0xaf723597
      in x XOR drop_bit 15 x)"

partial_function (option) hashString_loop :: "memory \<Rightarrow> u64 \<Rightarrow> u64 \<Rightarrow> u64 option" where
  "hashString_loop m s hash =
     (if m s \<noteq> 0 then hashString_loop m (s + 1) (hash * 293 + ucast (m s)) else Some hash)"

definition hashString :: "memory \<Rightarrow> u64 \<Rightarrow> u64 option" where
  "hashString m s = map_option hashInt64 (hashString_loop m s 7919)"

definition hashCombine :: "u64 \<Rightarrow> u64 \<Rightarrow> u64" where
  "hashCombine first second = first XOR (second + 0x9e3779b9 + push_bit 6 first + drop_bit 2 first)"

subsection \<open>Big-endian reads\<close>

definition read16be :: "memory \<Rightarrow> u64 \<Rightarrow> u16" where
  "read16be m bytes = push_bit 8 (ucast (m bytes)) OR ucast (m (bytes + 1))"

definition read32be :: "memory \<Rightarrow> u64 \<Rightarrow> u32" where
  "read32be m bytes = push_bit 16 (ucast (read16be m bytes)) OR ucast (read16be m (bytes + 2))"

definition read64be :: "memory \<Rightarrow> u64 \<Rightarrow> u64" where
  "read64be m bytes = push_bit 32 (ucast (read32be m bytes)) OR ucast (read32be m (bytes + 4))"

subsection \<open>The integer hashes are permutations\<close>

lemma drop_bit_fixpoint_zero:
  fixes z :: "'a::len word"
  assumes "z = drop_bit k z" "0 < k"
  shows "z = 0"
proof -
  have "z = drop_bit (n * k) z" for n
    by (induction n) (simp, metis assms(1) drop_bit_drop_bit mult_Suc add.commute)
  then have "z = drop_bit (LENGTH('a) * k) z" .
  also have "\<dots> = 0" using assms(2)
    by (intro bit_word_eqI) (auto simp: bit_simps dest!: bit_imp_le_length)
  finally show ?thesis .
qed

lemma inj_xorshift: "0 < k \<Longrightarrow> inj (\<lambda>x :: 'a::len word. x XOR drop_bit k x)"
proof (rule injI)
  fix x y :: "'a word"
  assume k: "0 < k" and eq: "x XOR drop_bit k x = y XOR drop_bit k y"
  have "x XOR y = drop_bit k (x XOR y)"
    by (metis (no_types, lifting) eq drop_bit_xor xor.assoc xor.commute xor.left_commute xor_self_eq xor.left_neutral)
  then have "x XOR y = 0" using k by (rule drop_bit_fixpoint_zero)
  then show "x = y" by (metis xor.assoc xor_self_eq xor.left_neutral xor.right_neutral)
qed

lemma inj_times_unit: "c * c' = 1 \<Longrightarrow> inj (\<lambda>x :: 'a::len word. x * c)"
  by (rule injI) (metis mult.assoc mult.right_neutral)

lemma hashInt64_compose:
  "hashInt64 = (\<lambda>x. x XOR drop_bit 31 x) \<circ> (\<lambda>x. x * 0x94d049bb133111eb) \<circ> (\<lambda>x. x XOR drop_bit 27 x)
      \<circ> (\<lambda>x. x * 0xbf58476d1ce4e5b9) \<circ> (\<lambda>x. x XOR drop_bit 30 x)"
  by (simp add: fun_eq_iff hashInt64_def Let_def)

lemma hashInt32_compose:
  "hashInt32 = (\<lambda>x. x XOR drop_bit 15 x) \<circ> (\<lambda>x. x * 0xaf723597) \<circ> (\<lambda>x. x XOR drop_bit 15 x)
      \<circ> (\<lambda>x. x * 0xd168aaad) \<circ> (\<lambda>x. x XOR drop_bit 15 x)"
  by (simp add: fun_eq_iff hashInt32_def Let_def)

lemma inj_hash_factors:
  "inj (\<lambda>x :: u64. x * 0x94d049bb133111eb)" "inj (\<lambda>x :: u64. x * 0xbf58476d1ce4e5b9)"
  "inj (\<lambda>x :: u32. x * 0xaf723597)" "inj (\<lambda>x :: u32. x * 0xd168aaad)"
  by (rule inj_times_unit [of _ "0x319642b2d24d8ec3"], simp)
    (rule inj_times_unit [of _ "0x96de1b173f119089"], simp,
     rule inj_times_unit [of _ "0x172b9a27"], simp,
     rule inj_times_unit [of _ "0xaa844925"], simp)

lemma hashInt64_inj: "inj hashInt64"
  unfolding hashInt64_compose by (intro inj_compose inj_hash_factors inj_xorshift) simp_all

lemma hashInt32_inj: "inj hashInt32"
  unfolding hashInt32_compose by (intro inj_compose inj_hash_factors inj_xorshift) simp_all

text \<open>
  Both integer hashes are permutations of their word type: two
  different page addresses (or node numbers) never have the same full hash, so collisions in
  the kernel's hash tables come from the reduction modulo the capacity only.
\<close>

theorem hash_permutations: "bij hashInt64 \<and> bij hashInt32"
  by (simp add: bij_def hashInt64_inj hashInt32_inj finite_UNIV_inj_surj)

subsection \<open>Strings in memory\<close>

text \<open>\<open>cstr m p xs\<close>: memory \<open>m\<close> holds at \<open>p\<close> the characters \<open>xs\<close>, none of them NUL, then a NUL.\<close>

fun cstr :: "memory \<Rightarrow> u64 \<Rightarrow> u8 list \<Rightarrow> bool" where
  "cstr m p [] \<longleftrightarrow> m p = 0"
| "cstr m p (x # xs) \<longleftrightarrow> x \<noteq> 0 \<and> m p = x \<and> cstr m (p + 1) xs"

lemma cstr_unique: "cstr m p xs \<Longrightarrow> cstr m p ys \<Longrightarrow> xs = ys"
  by (induction m p xs arbitrary: ys rule: cstr.induct) (case_tac ys; auto)+

definition hash_chars :: "u8 list \<Rightarrow> u64" where
  "hash_chars xs = hashInt64 (foldl (\<lambda>h x. h * 293 + ucast x) 7919 xs)"

lemma hashString_loop_cstr:
  "cstr m p xs \<Longrightarrow> hashString_loop m p h = Some (foldl (\<lambda>h x. h * 293 + ucast x) h xs)"
  by (induction m p xs arbitrary: h rule: cstr.induct) (auto simp: hashString_loop.simps)

lemma hashString_cstr: "cstr m p xs \<Longrightarrow> hashString m p = Some (hash_chars xs)"
  by (simp add: hashString_def hashString_loop_cstr hash_chars_def)

subsection \<open>Big-endian reads invert big-endian stores\<close>

lemma read16be_bit: "bit (read16be m p) n \<longleftrightarrow> (if n < 8 then bit (m (p + 1)) n else bit (m p) (n - 8))"
  by (auto simp: read16be_def bit_simps dest: bit_imp_le_length)

lemma read32be_bit: "bit (read32be m p) n \<longleftrightarrow> (if n < 16 then bit (read16be m (p + 2)) n else bit (read16be m p) (n - 16))"
  by (auto simp: read32be_def bit_simps dest: bit_imp_le_length)

lemma read64be_bit: "bit (read64be m p) n \<longleftrightarrow> (if n < 32 then bit (read32be m (p + 4)) n else bit (read32be m p) (n - 32))"
  by (auto simp: read64be_def bit_simps dest: bit_imp_le_length)

text \<open>
  Reading eight bytes big-endian returns the word whose bytes,
  most significant first, they are.
\<close>

theorem read64be_roundtrip:
  "(\<forall>i<8. m (p + of_nat i) = ucast (drop_bit (8 * (7 - i)) x)) \<Longrightarrow> read64be m p = x"
proof -
  assume h: "\<forall>i<8. m (p + of_nat i) = ucast (drop_bit (8 * (7 - i)) x)"
  have b: "m p = ucast (drop_bit 56 x)" "m (p + 1) = ucast (drop_bit 48 x)"
    "m (p + 2) = ucast (drop_bit 40 x)" "m (p + 3) = ucast (drop_bit 32 x)"
    "m (p + 4) = ucast (drop_bit 24 x)" "m (p + 5) = ucast (drop_bit 16 x)"
    "m (p + 6) = ucast (drop_bit 8 x)" "m (p + 7) = ucast x"
    using h [rule_format, of 0] h [rule_format, of 1] h [rule_format, of 2] h [rule_format, of 3]
      h [rule_format, of 4] h [rule_format, of 5] h [rule_format, of 6] h [rule_format, of 7]
    by simp_all
  show ?thesis
    by (rule bit_word_eqI)
      (auto simp: read64be_bit read32be_bit read16be_bit b add.assoc bit_simps)
qed

theorem read64be_roundtrip_witness:
  "read64be (\<lambda>a. if a = 1 then 2 else if a = 7 then 9 else 0) 0 = 0x0002000000000009"
proof (rule read64be_roundtrip, intro allI impI)
  fix i :: nat assume "i < 8"
  then consider "i = 0" | "i = 1" | "i = 2" | "i = 3" | "i = 4" | "i = 5" | "i = 6" | "i = 7"
    by linarith
  then show "(if (0 :: u64) + of_nat i = 1 then 2 else if 0 + of_nat i = (7 :: u64) then 9 else 0)
      = (ucast (drop_bit (8 * (7 - i)) (0x0002000000000009 :: u64)) :: u8)"
    by cases simp_all
qed

end
