(* ===== verification/StringOps.thy ===== *)
theory StringOps
  imports Util "HOL-Library.Sublist"
begin

text \<open>
  Model of kernel/src/libc/lib/string.c. The functions walk byte memory until a NUL; a memory
  without one would make them run forever, so they are partial, and the lemmas state that they
  return for NUL-terminated arguments (\<open>cstr\<close>). \<open>strcmp\<close> and \<open>strncmp\<close> test the pointer
  \<open>s2\<close>, not the character \<open>*s2\<close>, in their loop condition; the model keeps that.
\<close>

unbundle bit_operations_syntax

subsection \<open>The functions\<close>

definition char_diff :: "u8 \<Rightarrow> u8 \<Rightarrow> int" where
  "char_diff a b = uint a - uint b"

partial_function (option) strcmp :: "memory \<Rightarrow> u64 \<Rightarrow> u64 \<Rightarrow> int option" where
  "strcmp m s1 s2 =
     (if m s1 \<noteq> 0 \<and> s2 \<noteq> 0 then
        (if m s1 \<noteq> m s2 then Some (char_diff (m s1) (m s2)) else strcmp m (s1 + 1) (s2 + 1))
      else Some (char_diff (m s1) (m s2)))"

partial_function (option) strncmp :: "memory \<Rightarrow> u64 \<Rightarrow> u64 \<Rightarrow> u64 \<Rightarrow> int option" where
  "strncmp m s1 s2 n =
     (if n > 0 \<and> m s1 \<noteq> 0 \<and> s2 \<noteq> 0 then
        (if m s1 \<noteq> m s2 then Some (char_diff (m s1) (m s2)) else strncmp m (s1 + 1) (s2 + 1) (n - 1))
      else if n > 0 then Some (char_diff (m s1) (m s2)) else Some 0)"

partial_function (option) strlen_loop :: "memory \<Rightarrow> u64 \<Rightarrow> u64 \<Rightarrow> u64 option" where
  "strlen_loop m s len = (if m (s + len) \<noteq> 0 then strlen_loop m s (len + 1) else Some len)"

definition strlen :: "memory \<Rightarrow> u64 \<Rightarrow> u64 option" where
  "strlen m s = strlen_loop m s 0"

partial_function (option) strstr_match :: "memory \<Rightarrow> u64 \<Rightarrow> u64 \<Rightarrow> (u64 \<times> u64) option" where
  "strstr_match m st1 st2 =
     (if m st1 \<noteq> 0 \<and> m st2 \<noteq> 0 then
        (if m st1 \<noteq> m st2 then Some (st1, st2) else strstr_match m (st1 + 1) (st2 + 1))
      else Some (st1, st2))"

partial_function (option) strstr :: "memory \<Rightarrow> u64 \<Rightarrow> u64 \<Rightarrow> u64 option" where
  "strstr m s1 s2 =
     (if m s1 \<noteq> 0 then
        do { (st1, st2) \<leftarrow> strstr_match m s1 s2;
             if m st2 = 0 then Some s1 else strstr m (s1 + 1) s2 }
      else Some 0)"

subsection \<open>Comparison\<close>

text \<open>The difference of the first characters that differ, a NUL standing for the end.\<close>

fun cmp_chars :: "u8 list \<Rightarrow> u8 list \<Rightarrow> int" where
  "cmp_chars [] [] = 0"
| "cmp_chars [] (y # ys) = char_diff 0 y"
| "cmp_chars (x # xs) [] = char_diff x 0"
| "cmp_chars (x # xs) (y # ys) = (if x = y then cmp_chars xs ys else char_diff x y)"

lemma char_diff_0_iff [simp]: "char_diff a b = 0 \<longleftrightarrow> a = b"
  by (simp add: char_diff_def word_uint_eq_iff)

lemma char_diff_neg_iff: "char_diff a b < 0 \<longleftrightarrow> a < b"
  by (simp add: char_diff_def word_less_def)

lemma cmp_chars_0_iff:
  "0 \<notin> set xs \<Longrightarrow> 0 \<notin> set ys \<Longrightarrow> cmp_chars xs ys = 0 \<longleftrightarrow> xs = ys"
  by (induction xs ys rule: cmp_chars.induct) auto

lemma cmp_chars_neg_iff:
  "0 \<notin> set xs \<Longrightarrow> 0 \<notin> set ys \<Longrightarrow> cmp_chars xs ys < 0 \<longleftrightarrow> (xs, ys) \<in> lexord {(a, b). a < b}"
  by (induction xs ys rule: cmp_chars.induct) (auto simp: char_diff_neg_iff word_gt_0)

lemma cstr_no_nul: "cstr m p xs \<Longrightarrow> 0 \<notin> set xs"
  by (induction m p xs rule: cstr.induct) auto

text \<open>\<open>within q n\<close>: none of the addresses \<open>q, \<dots>, q + n\<close> is NULL (a string lies there).\<close>

fun within :: "u64 \<Rightarrow> nat \<Rightarrow> bool" where
  "within q 0 \<longleftrightarrow> q \<noteq> 0"
| "within q (Suc n) \<longleftrightarrow> q \<noteq> 0 \<and> within (q + 1) n"

lemma withinI: "q \<noteq> 0 \<Longrightarrow> unat q + n < 2 ^ 64 \<Longrightarrow> within q n"
proof (induction n arbitrary: q)
  case (Suc n)
  then have "unat (q + 1) = unat q + unat (1 :: u64)" by (intro unat_add_64) simp
  then show ?case using Suc by (auto simp: unat_eq_0 [symmetric])
qed simp

lemma strcmp_cstr:
  "cstr m p xs \<Longrightarrow> cstr m q ys \<Longrightarrow> within q (length ys) \<Longrightarrow> strcmp m p q = Some (cmp_chars xs ys)"
proof (induction xs ys arbitrary: p q rule: cmp_chars.induct)
  case (4 x xs y ys)
  then show ?case by (auto simp: strcmp.simps [of m p q])
qed (auto simp: strcmp.simps [of m _ _])

lemma strncmp_cstr:
  "cstr m p xs \<Longrightarrow> cstr m q ys \<Longrightarrow> within q (length ys) \<Longrightarrow>
     strncmp m p q n = Some (cmp_chars (take (unat n) xs) (take (unat n) ys))"
proof (induction xs ys arbitrary: p q n rule: cmp_chars.induct)
  case (4 x xs y ys)
  show ?case
  proof (cases "n = 0")
    case False
    then obtain k where k: "unat n = Suc k" by (cases "unat n") (auto simp: unat_eq_0)
    then have "unat (n - 1) = k" using False by (simp add: unat_minus_one)
    with 4 k False show ?thesis by (auto simp: strncmp.simps [of m p q] word_gt_0)
  qed (use 4 in \<open>auto simp: strncmp.simps [of m p q]\<close>)
qed (case_tac "unat n", auto simp: strncmp.simps [of m _ _] word_gt_0 unat_eq_0)+



subsection \<open>Length and search\<close>

lemma strlen_loop_cstr:
  "cstr m (p + n) xs \<Longrightarrow> strlen_loop m p n = Some (n + of_nat (length xs))"
proof (induction xs arbitrary: n)
  case (Cons x xs)
  then have "strlen_loop m p (n + 1) = Some (n + 1 + of_nat (length xs))"
    by (intro Cons.IH) (simp add: add.assoc)
  with Cons.prems show ?case by (subst strlen_loop.simps) (simp add: add.assoc)
qed (simp add: strlen_loop.simps)

lemma strlen_cstr: "cstr m p xs \<Longrightarrow> strlen m p = Some (of_nat (length xs))"
  by (simp add: strlen_def strlen_loop_cstr)

lemma strstr_match_cstr:
  "cstr m p xs \<Longrightarrow> cstr m q ys \<Longrightarrow>
     \<exists>st1 st2. strstr_match m p q = Some (st1, st2) \<and> (m st2 = 0 \<longleftrightarrow> prefix ys xs)"
proof (induction xs ys arbitrary: p q rule: cmp_chars.induct)
  case (4 x xs y ys)
  then show ?case by (cases "x = y") (auto simp: strstr_match.simps [of m p q])
qed (auto simp: strstr_match.simps [of m _ _])

text \<open>The search loop visits the non-empty suffixes of the first string in order.\<close>

fun first_occ :: "u8 list \<Rightarrow> u8 list \<Rightarrow> nat option" where
  "first_occ [] ys = None"
| "first_occ (x # xs) ys = (if prefix ys (x # xs) then Some 0 else map_option Suc (first_occ xs ys))"

lemma strstr_cstr:
  assumes "cstr m p xs" "cstr m q ys"
  shows "strstr m p q = Some (case first_occ xs ys of None \<Rightarrow> 0 | Some i \<Rightarrow> p + of_nat i)"
  using assms
proof (induction xs arbitrary: p)
  case (Cons x xs)
  obtain st1 st2 where "strstr_match m p q = Some (st1, st2)" "m st2 = 0 \<longleftrightarrow> prefix ys (x # xs)"
    using strstr_match_cstr [OF Cons.prems] by blast
  then show ?case using Cons by (auto simp: strstr.simps [of m p q] split: option.splits)
qed (simp add: strstr.simps)

lemma first_occ_Some:
  "first_occ xs ys = Some i \<longleftrightarrow> i < length xs \<and> prefix ys (drop i xs) \<and> (\<forall>j<i. \<not> prefix ys (drop j xs))"
proof (induction xs arbitrary: i)
  case (Cons x xs)
  then show ?case by (cases i) (auto simp: All_less_Suc2)
qed simp

lemma first_occ_None: "first_occ xs ys = None \<longleftrightarrow> (\<forall>j<length xs. \<not> prefix ys (drop j xs))"
proof (induction xs)
  case (Cons x xs)
  then show ?case by (auto simp: All_less_Suc2)
qed simp

text \<open>
  On NUL-terminated strings \<open>strstr\<close> returns the address of the first
  position of the first string where the second occurs, and NULL when there is none. The
  position after the last character is not searched, so the empty string is not found in the
  empty string.
\<close>

theorem strstr_correct:
  assumes "cstr m p xs" "cstr m q ys"
  shows "(\<exists>i<length xs. strstr m p q = Some (p + of_nat i) \<and> prefix ys (drop i xs)
            \<and> (\<forall>j<i. \<not> prefix ys (drop j xs)))
    \<or> strstr m p q = Some 0 \<and> (\<forall>j<length xs. \<not> prefix ys (drop j xs))"
proof (cases "first_occ xs ys")
  case None
  then have "\<forall>j<length xs. \<not> prefix ys (drop j xs)" by (simp only: first_occ_None)
  then show ?thesis using None by (simp add: strstr_cstr [OF assms])
next
  case (Some i)
  then have "i < length xs" "prefix ys (drop i xs)" "\<forall>j<i. \<not> prefix ys (drop j xs)"
    by (simp_all add: first_occ_Some)
  then show ?thesis using Some by (auto simp: strstr_cstr [OF assms])
qed

theorem strstr_correct_witness:
  "strstr (\<lambda>a. if a = 1 then 7 else if a = 2 then 8 else if a = 5 then 8 else 0) 1 5 = Some 2"
proof -
  let ?m = "\<lambda>a :: u64. (if a = 1 then 7 else if a = 2 then 8 else if a = 5 then 8 else 0) :: u8"
  have "(\<exists>i<length [7, 8 :: u8]. strstr ?m 1 5 = Some (1 + of_nat i) \<and> prefix [8] (drop i [7, 8 :: u8])
            \<and> (\<forall>j<i. \<not> prefix [8] (drop j [7, 8 :: u8])))
    \<or> strstr ?m 1 5 = Some 0 \<and> (\<forall>j<length [7, 8 :: u8]. \<not> prefix [8] (drop j [7, 8 :: u8]))"
    by (rule strstr_correct) simp_all
  then show ?thesis by (auto simp: less_Suc_eq all_conj_distrib)
qed

end
