(* ===== verification/Allocator.thy ===== *)
theory Allocator
  imports MemOps Util
begin

text \<open>
  Model of kernel/src/memory/allocator.c, the free-list allocator behind both the page
  allocator and \<open>kalloc\<close>. The free list lives in the free memory itself: a free chunk at
  address \<open>a\<close> starts with a \<open>FreeMemory\<close> header, its size at \<open>a\<close> and the address of the next
  chunk at \<open>a + 8\<close>. A \<open>FreeMemory**\<close> is a \<open>slot\<close>: the allocator's \<open>first_free\<close> field or the
  \<open>next\<close> field of a chunk.

  An allocator may have a backing allocator, which may have one too: an allocator is given
  with its backing chain, a list whose head is the allocator and whose tail is the chain of
  \<open>alloc->backing\<close>; \<open>backing == NULL\<close> is the empty tail.
\<close>

unbundle bit_operations_syntax

subsection \<open>Data\<close>

record Allocator =
  block_size :: u64
  min_backing_free :: u64
  first_free :: u64
  special_range_start :: u64
  special_range_end :: u64

datatype slot = First | Next u64

definition MINIMUM_FREE :: u64 where
  "MINIMUM_FREE = 16"

definition get_slot :: "Allocator \<Rightarrow> memory \<Rightarrow> slot \<Rightarrow> u64" where
  "get_slot al m c = (case c of First \<Rightarrow> first_free al | Next a \<Rightarrow> load64 m (a + 8))"

definition set_slot :: "Allocator \<Rightarrow> memory \<Rightarrow> slot \<Rightarrow> u64 \<Rightarrow> Allocator \<times> memory" where
  "set_slot al m c v =
     (case c of First \<Rightarrow> (al\<lparr>first_free := v\<rparr>, m) | Next a \<Rightarrow> (al, store64 m (a + 8) v))"

definition fm_size :: "memory \<Rightarrow> u64 \<Rightarrow> u64" where
  "fm_size m a = load64 m a"

definition fm_next :: "memory \<Rightarrow> u64 \<Rightarrow> u64" where
  "fm_next m a = load64 m (a + 8)"

definition set_fm_size :: "memory \<Rightarrow> u64 \<Rightarrow> u64 \<Rightarrow> memory" where
  "set_fm_size m a v = store64 m a v"

definition set_fm_next :: "memory \<Rightarrow> u64 \<Rightarrow> u64 \<Rightarrow> memory" where
  "set_fm_next m a v = store64 m (a + 8) v"

definition initAllocator :: "u64 \<Rightarrow> Allocator list \<Rightarrow> Allocator option" where
  "initAllocator bs backs =
     (case backs of [] \<Rightarrow> None
      | b # _ \<Rightarrow> do {
          cassert (block_size b mod bs = 0);
          Some \<lparr>block_size = bs, min_backing_free = 0, first_free = 0,
                special_range_start = 0, special_range_end = 0\<rparr> })"

subsection \<open>The free list\<close>

partial_function (option) findOverlappingFreeMemory :: "memory \<Rightarrow> u64 \<Rightarrow> u64 \<Rightarrow> u64 \<Rightarrow> unit option" where
  "findOverlappingFreeMemory m current start sz =
     (if current \<noteq> 0 then
        (if start + sz \<le> current \<or> start \<ge> current + fm_size m current
         then findOverlappingFreeMemory m (fm_next m current) start sz else None)
      else Some ())"

partial_function (option) insertFreeMemory_loop ::
  "Allocator \<Rightarrow> memory \<Rightarrow> slot \<Rightarrow> u64 \<Rightarrow> (slot \<times> u64 \<times> Allocator \<times> memory) option" where
  "insertFreeMemory_loop al m current memory =
     (let c = get_slot al m current in
      if c \<noteq> 0 \<and> c < memory then
        (if c + fm_size m c = memory then
           (let m1 = set_fm_size m c (fm_size m c + fm_size m memory);
                (al2, m2) = set_slot al m1 current (fm_next m1 c)
            in insertFreeMemory_loop al2 m2 current c)
         else insertFreeMemory_loop al m (Next c) memory)
      else Some (current, memory, al, m))"

definition insertFreeMemory_link :: "Allocator \<Rightarrow> memory \<Rightarrow> slot \<Rightarrow> u64 \<Rightarrow> slot \<times> Allocator \<times> memory" where
  "insertFreeMemory_link al m current memory =
     (let c = get_slot al m current;
          m1 = (if c \<noteq> 0 \<and> memory + fm_size m memory = c
                then let m1 = set_fm_next m memory (fm_next m c)
                     in set_fm_size m1 memory (fm_size m1 memory + fm_size m1 c)
                else set_fm_next m memory c);
          (al2, m2) = set_slot al m1 current memory
      in (current, al2, m2))"

definition insertFreeMemory :: "Allocator \<Rightarrow> memory \<Rightarrow> u64 \<Rightarrow> (slot \<times> Allocator \<times> memory) option" where
  "insertFreeMemory al m memory = do {
     findOverlappingFreeMemory m (first_free al) memory (fm_size m memory);
     (current, memory, al, m) \<leftarrow> insertFreeMemory_loop al m First memory;
     Some (insertFreeMemory_link al m current memory) }"

partial_function (option) findFreeMemoryThatFits_loop ::
  "Allocator \<Rightarrow> memory \<Rightarrow> slot \<Rightarrow> u64 \<Rightarrow> slot option option" where
  "findFreeMemoryThatFits_loop al m current sz =
     (let c = get_slot al m current in
      if c \<noteq> 0 then
        (if fm_size m c \<ge> sz then Some (Some current)
         else findFreeMemoryThatFits_loop al m (Next c) sz)
      else Some None)"

definition findFreeMemoryThatFits :: "Allocator \<Rightarrow> memory \<Rightarrow> u64 \<Rightarrow> slot option option" where
  "findFreeMemoryThatFits al m sz = findFreeMemoryThatFits_loop al m First sz"

subsection \<open>Allocation\<close>

definition round_up_block :: "u64 \<Rightarrow> u64 \<Rightarrow> u64" where
  "round_up_block sz bs = (let r = sz + bs - 1 in r - r mod bs)"

definition takeFreeMemory :: "Allocator \<Rightarrow> memory \<Rightarrow> slot \<Rightarrow> u64 \<Rightarrow> u64 \<times> Allocator \<times> memory" where
  "takeFreeMemory al m memory sz =
     (let min_size = round_up_block (sz + MINIMUM_FREE) (block_size al);
          free = get_slot al m memory
      in if fm_size m free \<ge> min_size then
           (let moved = free + sz;
                m1 = set_fm_size m moved (fm_size m free - sz);
                m2 = set_fm_next m1 moved (fm_next m1 free);
                (al3, m3) = set_slot al m2 memory moved
            in (free, al3, m3))
         else if fm_size m free \<ge> sz then
           (let (al1, m1) = set_slot al m memory (fm_next m free) in (free, al1, m1))
         else (0, al, m))"

fun allocMemory :: "Allocator list \<Rightarrow> memory \<Rightarrow> u64 \<Rightarrow> (u64 \<times> Allocator list \<times> memory) option"
  and basicAllocMemory :: "Allocator list \<Rightarrow> memory \<Rightarrow> u64 \<Rightarrow> (u64 \<times> Allocator list \<times> memory) option"
  and addNewMemory :: "Allocator list \<Rightarrow> memory \<Rightarrow> u64 \<Rightarrow> (slot option \<times> Allocator list \<times> memory) option"
where
  "allocMemory [] m sz = None"
| "allocMemory (al # backs) m sz = do {
     cassert (sz mod block_size al = 0);
     if sz = 0 then Some (0, al # backs, m) else basicAllocMemory (al # backs) m sz }"
| "basicAllocMemory [] m sz = None"
| "basicAllocMemory (al # backs) m sz = do {
     cassert (sz mod block_size al = 0);
     found \<leftarrow> findFreeMemoryThatFits al m sz;
     (memory, chain, m) \<leftarrow>
        (if found = None \<and> backs \<noteq> [] then addNewMemory (al # backs) m sz else Some (found, al # backs, m));
     (case memory of None \<Rightarrow> Some (0, chain, m)
      | Some c \<Rightarrow>
          (case takeFreeMemory (hd chain) m c sz of (ret, al, m) \<Rightarrow> Some (ret, al # tl chain, m))) }"
| "addNewMemory [] m sz = None"
| "addNewMemory (al # backs) m sz = do {
     cassert (sz > 0);
     (if backs = [] then None
      else let backing_size = round_up_block sz (block_size (hd backs)) in do {
        (new_free, backs, m) \<leftarrow> allocMemory backs m backing_size;
        if new_free \<noteq> 0 then do {
          (current, al, m) \<leftarrow> insertFreeMemory al (set_fm_size m new_free backing_size) new_free;
          Some (Some current, al # backs, m) }
        else Some (None, al # backs, m) }) }"
subsection \<open>Deallocation\<close>

text \<open>
  The bounds \<open>tryFreeingOldMemory\<close> computes for the chunk at \<open>start\<close> with size \<open>sz\<close>: the values
  of \<open>mem_end\<close>, \<open>page_start\<close> and \<open>page_end\<close> when the test on them is made. As in the source it
  is \<open>mem_end\<close> that is rounded down to the backing block size, not \<open>page_end\<close>.
\<close>

definition release_bounds :: "u64 \<Rightarrow> u64 \<Rightarrow> u64 \<Rightarrow> u64 \<times> u64 \<times> u64" where
  "release_bounds bbs start sz =
     (let mem_end = start + sz;
          page_start = start - start mod bbs;
          page_end = mem_end;
          mem_end = mem_end - mem_end mod bbs;
          page_start = (if page_start \<noteq> start
                        then let p = start + MINIMUM_FREE + bbs - 1 in p - p mod bbs else page_start);
          page_end = (if page_end \<noteq> mem_end
                      then let p = mem_end - MINIMUM_FREE in p - p mod bbs else page_end)
      in (mem_end, page_start, page_end))"

definition release_ok :: "Allocator \<Rightarrow> u64 \<Rightarrow> u64 \<times> u64 \<times> u64 \<Rightarrow> bool" where
  "release_ok al mem_start b =
     (case b of (mem_end, page_start, page_end) \<Rightarrow>
        (mem_end \<le> special_range_start al \<or> mem_start \<ge> special_range_end al)
        \<and> ((mem_start = page_start \<and> mem_end = page_end) \<or> page_end \<ge> page_start + min_backing_free al))"

definition release_relink :: "Allocator \<Rightarrow> memory \<Rightarrow> slot \<Rightarrow> u64 \<times> u64 \<times> u64 \<Rightarrow> Allocator \<times> memory" where
  "release_relink al m memory b =
     (case b of (mem_end, page_start, page_end) \<Rightarrow>
      let mem_start = get_slot al m memory in
      if page_start = mem_start \<and> page_end = mem_end then set_slot al m memory (fm_next m mem_start)
      else if mem_end = page_end then (al, set_fm_size m mem_start (page_start - mem_start))
      else if mem_start = page_start then
        (let m1 = set_fm_next m page_end (fm_next m mem_start);
             m2 = set_fm_size m1 page_end (mem_end - page_end)
         in set_slot al m2 memory page_end)
      else
        (let m1 = set_fm_size m mem_start (page_start - mem_start);
             m2 = set_fm_next m1 page_end (fm_next m1 mem_start);
             m3 = set_fm_size m2 page_end (mem_end - page_end)
         in (al, set_fm_next m3 mem_start page_end)))"

fun deallocMemory :: "Allocator list \<Rightarrow> memory \<Rightarrow> u64 \<Rightarrow> u64 \<Rightarrow> (Allocator list \<times> memory) option"
  and tryFreeingOldMemory :: "Allocator list \<Rightarrow> memory \<Rightarrow> slot \<Rightarrow> (Allocator list \<times> memory) option"
where
  "deallocMemory [] m ptr sz = None"
| "deallocMemory (al # backs) m ptr sz = do {
     cassert (sz mod block_size al = 0);
     if sz \<noteq> 0 then do {
       (current, al, m) \<leftarrow> insertFreeMemory al (set_fm_size m ptr sz) ptr;
       tryFreeingOldMemory (al # backs) m current }
     else Some (al # backs, m) }"
| "tryFreeingOldMemory [] m memory = None"
| "tryFreeingOldMemory (al # backs) m memory =
     (if backs \<noteq> [] then
        (let mem_start = get_slot al m memory;
             (mem_end, page_start, page_end) =
               release_bounds (block_size (hd backs)) mem_start (fm_size m mem_start)
         in if release_ok al mem_start (mem_end, page_start, page_end) then
              (let (al, m) = release_relink al m memory (mem_end, page_start, page_end)
               in do { (backs, m) \<leftarrow> deallocMemory backs m page_start (page_end - page_start);
                       Some (al # backs, m) })
            else Some (al # backs, m))
      else Some (al # backs, m))"

partial_function (option) deinitAllocator_loop ::
  "Allocator \<Rightarrow> Allocator list \<Rightarrow> memory \<Rightarrow> (Allocator list \<times> memory) option" where
  "deinitAllocator_loop al backs m =
     (if first_free al \<noteq> 0 then
        (let free = first_free al; al = al\<lparr>first_free := fm_next m free\<rparr> in do {
           (backs, m) \<leftarrow> deallocMemory backs m free (fm_size m free);
           deinitAllocator_loop al backs m })
      else Some (al # backs, m))"

definition deinitAllocator :: "Allocator list \<Rightarrow> memory \<Rightarrow> (Allocator list \<times> memory) option" where
  "deinitAllocator chain m =
     (case chain of [] \<Rightarrow> None
      | al # backs \<Rightarrow> do { cassert (backs \<noteq> []); deinitAllocator_loop al backs m })"

subsection \<open>Reallocation\<close>

partial_function (option) reallocMemory_loop ::
  "Allocator \<Rightarrow> memory \<Rightarrow> slot \<Rightarrow> u64 \<Rightarrow> u64 \<Rightarrow> u64 \<Rightarrow> (slot \<times> u64 \<times> u64 \<times> Allocator \<times> memory) option" where
  "reallocMemory_loop al m current old_ptr free_mem free_size =
     (let c = get_slot al m current in
      if c \<noteq> 0 \<and> c < free_mem then
        (if c + fm_size m c = old_ptr then
           (let (al1, m1) = set_slot al m current (fm_next m c)
            in reallocMemory_loop al1 m1 current old_ptr c (free_size + fm_size m c))
         else reallocMemory_loop al m (Next c) old_ptr free_mem free_size)
      else Some (current, free_mem, free_size, al, m))"

definition reallocMemory_absorb_next ::
  "Allocator \<Rightarrow> memory \<Rightarrow> slot \<Rightarrow> u64 \<Rightarrow> u64 \<Rightarrow> u64 \<times> Allocator \<times> memory" where
  "reallocMemory_absorb_next al m current free_mem free_size =
     (let c = get_slot al m current in
      if c \<noteq> 0 \<and> free_mem + free_size = c
      then (let (al1, m1) = set_slot al m current (fm_next m c) in (free_size + fm_size m c, al1, m1))
      else (free_size, al, m))"

definition reallocMemory_in_place ::
  "Allocator \<Rightarrow> Allocator list \<Rightarrow> memory \<Rightarrow> slot \<Rightarrow> u64 \<Rightarrow> u64 \<Rightarrow> u64 \<Rightarrow> u64 \<Rightarrow> u64
    \<Rightarrow> (u64 \<times> Allocator list \<times> memory) option" where
  "reallocMemory_in_place al backs m current old_ptr copy_size new_size free_mem free_size =
     (let m = (if free_mem \<noteq> old_ptr then fst (memmove m free_mem old_ptr copy_size) else m);
          min_size = round_up_block (new_size + MINIMUM_FREE) (block_size al)
      in if free_size \<ge> min_size then
           (let still_free = free_mem + new_size;
                m = set_fm_next m still_free (get_slot al m current);
                m = set_fm_size m still_free (free_size - new_size);
                (al, m) = set_slot al m current still_free
            in do { (chain, m) \<leftarrow> tryFreeingOldMemory (al # backs) m current; Some (free_mem, chain, m) })
         else Some (free_mem, al # backs, m))"

definition reallocMemory_move ::
  "Allocator \<Rightarrow> Allocator list \<Rightarrow> memory \<Rightarrow> slot \<Rightarrow> u64 \<Rightarrow> u64 \<Rightarrow> u64 \<Rightarrow> u64 \<Rightarrow> u64
    \<Rightarrow> (u64 \<times> Allocator list \<times> memory) option" where
  "reallocMemory_move al backs m current old_ptr copy_size new_size free_mem free_size = do {
     (new_ptr, chain, m) \<leftarrow> basicAllocMemory (al # backs) m new_size;
     let m = fst (memmove m new_ptr old_ptr copy_size);
     let m = set_fm_next m free_mem (get_slot (hd chain) m current);
     let m = set_fm_size m free_mem free_size;
     let (al, m) = set_slot (hd chain) m current free_mem;
     (chain, m) \<leftarrow> tryFreeingOldMemory (al # tl chain) m current;
     Some (new_ptr, chain, m) }"

definition reallocMemory ::
  "Allocator list \<Rightarrow> memory \<Rightarrow> u64 \<Rightarrow> u64 \<Rightarrow> u64 \<Rightarrow> (u64 \<times> Allocator list \<times> memory) option" where
  "reallocMemory chain m old_ptr old_size new_size =
     (case chain of [] \<Rightarrow> None | al # backs \<Rightarrow> do {
        cassert (old_size mod block_size al = 0 \<and> new_size mod block_size al = 0);
        if old_size = 0 then allocMemory chain m new_size
        else if new_size = 0 then do {
          (chain, m) \<leftarrow> deallocMemory chain m old_ptr old_size; Some (0, chain, m) }
        else do {
          findOverlappingFreeMemory m (first_free al) old_ptr old_size;
          (current, free_mem, free_size, al, m) \<leftarrow> reallocMemory_loop al m First old_ptr old_ptr old_size;
          let (free_size, al, m) = reallocMemory_absorb_next al m current free_mem free_size;
          if free_size \<ge> new_size
          then reallocMemory_in_place al backs m current old_ptr (umin new_size old_size) new_size free_mem free_size
          else reallocMemory_move al backs m current old_ptr (umin new_size old_size) new_size free_mem free_size } })"

end
