(* ===== verification/RegionAlloc.thy ===== *)
theory RegionAlloc
  imports Prelude
begin

text \<open>
  The contract of an allocator of byte regions and what its clients may rely on. A client
  allocates, releases and writes to the regions it holds, in any order; the lemmas show that
  the regions handed out stay disjoint from each other and from the free memory, and that no
  byte is lost.
\<close>

definition bytes :: "u64 \<Rightarrow> u64 \<Rightarrow> nat set" where
  "bytes p s = {unat p ..< unat p + unat s}"

definition live_bytes :: "(u64 \<times> u64) list \<Rightarrow> nat set" where
  "live_bytes ls = (\<Union>(p, s)\<in>set ls. bytes p s)"

fun disjoint_regions :: "(u64 \<times> u64) list \<Rightarrow> bool" where
  "disjoint_regions [] \<longleftrightarrow> True"
| "disjoint_regions ((p, s) # ls) \<longleftrightarrow> bytes p s \<inter> live_bytes ls = {} \<and> disjoint_regions ls"

lemma live_bytes_Nil [simp]: "live_bytes [] = {}"
  by (simp add: live_bytes_def)

lemma live_bytes_Cons [simp]: "live_bytes ((p, s) # ls) = bytes p s \<union> live_bytes ls"
  by (auto simp: live_bytes_def)

lemma live_bytes_append [simp]: "live_bytes (xs @ ys) = live_bytes xs \<union> live_bytes ys"
  by (auto simp: live_bytes_def)

lemma disjoint_regions_remove:
  "disjoint_regions (xs @ (p, s) # ys) \<Longrightarrow>
     disjoint_regions (xs @ ys) \<and> bytes p s \<inter> live_bytes (xs @ ys) = {}"
  by (induction xs) auto

text \<open>
  \<open>owns s F\<close>: the allocator in state \<open>s\<close> is well formed and the bytes \<open>F\<close> are free.
  \<open>fits F n\<close>: a request for \<open>n\<close> bytes can be served from \<open>F\<close>. \<open>writes s A s'\<close>: the client
  changed bytes in \<open>A\<close> only.
\<close>

locale region_allocator =
  fixes owns :: "'s \<Rightarrow> nat set \<Rightarrow> bool"
    and allowed :: "u64 \<Rightarrow> bool"
    and alloc :: "'s \<Rightarrow> u64 \<Rightarrow> (u64 \<times> 's) option"
    and release :: "'s \<Rightarrow> u64 \<Rightarrow> u64 \<Rightarrow> 's option"
    and writes :: "'s \<Rightarrow> nat set \<Rightarrow> 's \<Rightarrow> bool"
    and region_ok :: "u64 \<Rightarrow> u64 \<Rightarrow> bool"
  assumes alloc_law: "owns s F \<Longrightarrow> allowed n \<Longrightarrow>
      \<exists>p s' F'. alloc s n = Some (p, s') \<and> owns s' F'
        \<and> (if p = 0 then F' = F
           else region_ok p n \<and> bytes p n \<subseteq> F \<and> F' = F - bytes p n)"
    and release_law: "owns s F \<Longrightarrow> region_ok p n \<Longrightarrow> bytes p n \<inter> F = {} \<Longrightarrow>
      \<exists>s'. release s p n = Some s' \<and> owns s' (F \<union> bytes p n)"
    and writes_law: "owns s F \<Longrightarrow> writes s A s' \<Longrightarrow> A \<inter> F = {} \<Longrightarrow> owns s' F"
begin

inductive client :: "'s \<times> (u64 \<times> u64) list \<Rightarrow> 's \<times> (u64 \<times> u64) list \<Rightarrow> bool" where
  allocate: "allowed n \<Longrightarrow> alloc s n = Some (p, s') \<Longrightarrow>
    client (s, live) (s', if p = 0 then live else (p, n) # live)"
| free: "release s p n = Some s' \<Longrightarrow> client (s, xs @ (p, n) # ys) (s', xs @ ys)"
| update: "writes s A s' \<Longrightarrow> A \<subseteq> live_bytes live \<Longrightarrow> client (s, live) (s', live)"

definition accounted :: "nat set \<Rightarrow> 's \<times> (u64 \<times> u64) list \<Rightarrow> bool" where
  "accounted H c \<longleftrightarrow> (\<exists>F. owns (fst c) F \<and> F \<inter> live_bytes (snd c) = {} \<and> F \<union> live_bytes (snd c) = H
     \<and> disjoint_regions (snd c) \<and> (\<forall>(p, n)\<in>set (snd c). region_ok p n))"

lemma client_keeps_accounted:
  assumes "client c c'" "accounted H c"
  shows "accounted H c'"
  using assms
proof (induction rule: client.induct)
  case (allocate n s p s' live)
  then obtain F where F: "owns s F" "F \<inter> live_bytes live = {}" "F \<union> live_bytes live = H"
    "disjoint_regions live" "\<forall>(p, n)\<in>set live. region_ok p n" by (auto simp: accounted_def)
  from alloc_law [OF F(1) allocate(1)] allocate(2) obtain F' where
    F': "owns s' F'" "if p = 0 then F' = F else region_ok p n \<and> bytes p n \<subseteq> F \<and> F' = F - bytes p n"
    by auto
  show ?case
  proof (cases "p = 0")
    case True
    then show ?thesis using F F' by (auto simp: accounted_def)
  next
    case False
    then have f: "region_ok p n" "bytes p n \<subseteq> F" "F' = F - bytes p n" using F'(2) by auto
    show ?thesis
      unfolding accounted_def fst_conv snd_conv
      using F F'(1) f False by (intro exI [of _ F']) auto
  qed
next
  case (free s p n s' xs ys)
  then obtain F where F: "owns s F" "F \<inter> live_bytes (xs @ (p, n) # ys) = {}" "F \<union> live_bytes (xs @ (p, n) # ys) = H"
    "disjoint_regions (xs @ (p, n) # ys)" "\<forall>(p, n)\<in>set (xs @ (p, n) # ys). region_ok p n"
    by (auto simp: accounted_def)
  have d: "bytes p n \<inter> F = {}" "region_ok p n" using F by auto
  then have "owns s' (F \<union> bytes p n)" using release_law [OF F(1) d(2,1)] free by auto
  then show ?case
    unfolding accounted_def fst_conv snd_conv
    using F disjoint_regions_remove [OF F(4)] by (intro exI [of _ "F \<union> bytes p n"]) auto
next
  case (update s A s' live)
  then obtain F where "owns s F" "F \<inter> live_bytes live = {}" "F \<union> live_bytes live = H"
    "disjoint_regions live" "\<forall>(p, n)\<in>set live. region_ok p n" by (auto simp: accounted_def)
  moreover have "owns s' F" using writes_law [OF calculation(1) update(1)] update(2) calculation(2) by blast
  ultimately show ?case by (auto simp: accounted_def)
qed

lemma clients_keep_accounted: "client\<^sup>*\<^sup>* c c' \<Longrightarrow> accounted H c \<Longrightarrow> accounted H c'"
  by (induction rule: rtranclp_induct) (auto intro: client_keeps_accounted)

lemma client_never_stuck:
  assumes "accounted H (s, live)"
  shows "allowed n \<Longrightarrow> \<exists>p s'. alloc s n = Some (p, s')"
    and "live = xs @ (p, n) # ys \<Longrightarrow> \<exists>s'. release s p n = Some s'"
proof -
  from assms obtain F where F: "owns s F" "F \<inter> live_bytes live = {}" "\<forall>(p, n)\<in>set live. region_ok p n"
    by (auto simp: accounted_def)
  then show "allowed n \<Longrightarrow> \<exists>p s'. alloc s n = Some (p, s')" using alloc_law by blast
  assume "live = xs @ (p, n) # ys"
  then have "region_ok p n" "bytes p n \<inter> F = {}" using F by auto
  then show "\<exists>s'. release s p n = Some s'" using release_law [OF F(1)] by blast
qed

end

end
