(* ===== verification/FreeList.thy ===== *)
theory FreeList
  imports Allocator RegionAlloc
begin

text \<open>
  Correctness of the free list of allocator.c. \<open>flist al m c xs\<close> says that the linked list that
  starts in slot \<open>c\<close> of memory \<open>m\<close> consists of the chunks \<open>xs\<close>, \<open>free_list\<close> adds that they are
  ascending, in whole blocks and that no two touch. \<open>insertFreeMemory\<close> refines the insertion
  \<open>ins\<close> on lists of chunks, first fit refines \<open>take_fit\<close>, and both are described by the set of
  bytes a list covers, which determines the list.
\<close>


subsection \<open>Memory that changes in given cells only\<close>

definition same_except :: "u64 set \<Rightarrow> memory \<Rightarrow> memory \<Rightarrow> bool" where
  "same_except C m m' \<longleftrightarrow> (\<forall>b. (\<forall>c\<in>C. \<not> in_region c 8 b) \<longrightarrow> m' b = m b)"

lemma same_except_refl [simp]: "same_except C m m"
  by (simp add: same_except_def)

lemma same_except_trans: "same_except C m m' \<Longrightarrow> same_except D m' m'' \<Longrightarrow> same_except (C \<union> D) m m''"
  by (auto simp: same_except_def)

lemma same_except_trans_same:
  "same_except C m m' \<Longrightarrow> same_except C m' m'' \<Longrightarrow> same_except C m m''"
  by (simp add: same_except_def)

lemma same_except_mono: "same_except C m m' \<Longrightarrow> C \<subseteq> D \<Longrightarrow> same_except D m m'"
  by (auto simp: same_except_def)

lemma same_except_store64: "a \<in> C \<Longrightarrow> same_except C m (store64 m a v)"
proof -
  assume a: "a \<in> C"
  have "store64 m a v b = m b" if "\<not> in_region a 8 b" for b
    using store64_offset [of m a v "b - a"] that by (simp add: in_region_def)
  then show ?thesis using a by (auto simp: same_except_def)
qed

lemma same_except_store: "same_except C m m' \<Longrightarrow> a \<in> C \<Longrightarrow> same_except C m (store64 m' a v)"
  using same_except_trans [OF _ same_except_store64 [of a C m' v], of C m] by simp

lemma same_except_load:
  assumes "same_except C m m'" "\<forall>c\<in>C. aligned8 c" "aligned8 b" "b \<notin> C"
  shows "load64 m' b = load64 m b"
proof (rule load64_cong)
  fix i :: nat assume i: "i < 8"
  have "\<not> in_region c 8 (b + of_nat i)" if c: "c \<in> C" for c
  proof
    assume "in_region c 8 (b + of_nat i)"
    then have lt: "unat (b + of_nat i - c) < 8" by (simp add: in_region_def)
    have "b + of_nat i = c + of_nat (unat (b + of_nat i - c))" by simp
    moreover have "c + of_nat (unat (b + of_nat i - c)) \<noteq> b + of_nat i"
      using assms c i lt by (intro aligned8_offset_neq) auto
    ultimately show False by simp
  qed
  then show "m' (b + of_nat i) = m (b + of_nat i)"
    using assms(1) by (simp add: same_except_def)
qed

subsection \<open>Free lists in memory\<close>

type_synonym chunk = "u64 \<times> u64"

fun flist :: "Allocator \<Rightarrow> memory \<Rightarrow> slot \<Rightarrow> chunk list \<Rightarrow> bool" where
  "flist al m c [] \<longleftrightarrow> get_slot al m c = 0"
| "flist al m c ((a, s) # xs) \<longleftrightarrow> get_slot al m c = a \<and> fm_size m a = s \<and> flist al m (Next a) xs"

text \<open>
  Well-formed lists: chunks lie in ascending order beyond \<open>lo\<close>, with a gap between any two
  (adjacent chunks are merged), aligned and sized in blocks, large enough for a header.
\<close>

definition chunk_ok :: "nat \<Rightarrow> chunk \<Rightarrow> bool" where
  "chunk_ok bs c \<longleftrightarrow> unat (fst c) mod bs = 0 \<and> unat (snd c) mod bs = 0 \<and> 16 \<le> unat (snd c)
     \<and> unat (fst c) + unat (snd c) < 2 ^ 64"

fun chunks_ok :: "nat \<Rightarrow> nat \<Rightarrow> chunk list \<Rightarrow> bool" where
  "chunks_ok bs lo [] \<longleftrightarrow> True"
| "chunks_ok bs lo (c # xs) \<longleftrightarrow> lo < unat (fst c) \<and> chunk_ok bs c \<and> chunks_ok bs (unat (fst c) + unat (snd c)) xs"

fun cells :: "chunk list \<Rightarrow> u64 set" where
  "cells [] = {}"
| "cells (c # xs) = {fst c, fst c + 8} \<union> cells xs"

fun slot_cells :: "slot \<Rightarrow> u64 set" where
  "slot_cells First = {}"
| "slot_cells (Next b) = {b + 8}"

fun slot_before :: "slot \<Rightarrow> nat \<Rightarrow> bool" where
  "slot_before First lo \<longleftrightarrow> True"
| "slot_before (Next b) lo \<longleftrightarrow> aligned8 b \<and> unat b + 16 \<le> lo"

definition slot_alloc :: "slot \<Rightarrow> u64 \<Rightarrow> Allocator \<Rightarrow> Allocator" where
  "slot_alloc c v al = (case c of First \<Rightarrow> al\<lparr>first_free := v\<rparr> | Next _ \<Rightarrow> al)"

lemma chunk_okD:
  assumes "chunk_ok bs (a, s)" "8 dvd bs"
  shows "aligned8 a" "aligned8 s" "unat (a + 8) = unat a + 8" "unat (a + s) = unat a + unat s"
proof -
  show "aligned8 a" "aligned8 s"
    using assms by (auto simp: chunk_ok_def aligned8_def elim!: dvdE)
  have "unat a + 8 < 2 ^ 64" "unat a + unat s < 2 ^ 64" using assms by (simp_all add: chunk_ok_def)
  then show "unat (a + 8) = unat a + 8" "unat (a + s) = unat a + unat s"
    using unat_add_64 [of a 8] unat_add_64 [of a s] by simp_all
qed

lemma chunks_ok_mono: "chunks_ok bs lo xs \<Longrightarrow> lo' \<le> lo \<Longrightarrow> chunks_ok bs lo' xs"
  by (cases xs) auto

lemma cells_aligned: "chunks_ok bs lo xs \<Longrightarrow> 8 dvd bs \<Longrightarrow> b \<in> cells xs \<Longrightarrow> aligned8 b"
proof (induction xs arbitrary: lo)
  case (Cons c xs)
  then show ?case using chunk_okD(1) [of bs "fst c" "snd c"] by auto
qed simp

lemma cells_above: "chunks_ok bs lo xs \<Longrightarrow> 8 dvd bs \<Longrightarrow> b \<in> cells xs \<Longrightarrow> lo < unat b"
proof (induction xs arbitrary: lo)
  case (Cons c xs)
  have "unat (fst c + 8) = unat (fst c) + 8" using chunk_okD(3) [of bs "fst c" "snd c"] Cons.prems by auto
  then show ?case using Cons by force
qed simp

lemma slot_cells_aligned: "slot_before c lo \<Longrightarrow> b \<in> slot_cells c \<Longrightarrow> aligned8 b"
  by (cases c) auto

lemma slot_cells_below: "slot_before c lo \<Longrightarrow> b \<in> slot_cells c \<Longrightarrow> lo < 2 ^ 64 \<Longrightarrow> unat b + 8 \<le> lo"
proof (cases c)
  case (Next a)
  assume "slot_before c lo" "b \<in> slot_cells c" "lo < 2 ^ 64"
  with Next show ?thesis using unat_add_64 [of a 8] by auto
qed simp

lemma get_slot_frame:
  assumes "same_except C m m'" "\<forall>c\<in>C. aligned8 c" "slot_cells c \<inter> C = {}" "\<forall>b\<in>slot_cells c. aligned8 b"
    "first_free al' = first_free al"
  shows "get_slot al' m' c = get_slot al m c"
  using assms by (cases c) (auto simp: get_slot_def intro: same_except_load)

lemma flist_frame:
  assumes "flist al m c xs" "chunks_ok bs lo xs" "8 dvd bs"
    and "same_except C m m'" "\<forall>c\<in>C. aligned8 c" "C \<inter> cells xs = {}"
    and "get_slot al' m' c' = get_slot al m c"
  shows "flist al' m' c' xs"
  using assms(1,2,6,7)
proof (induction xs arbitrary: c c' lo)
  case (Cons x xs)
  obtain a s where x: "x = (a, s)" by (cases x)
  have al: "aligned8 a" using Cons.prems(2) assms(3) chunk_okD(1) by (auto simp: x)
  have ld: "load64 m' a = load64 m a" "load64 m' (a + 8) = load64 m (a + 8)"
    using Cons.prems(3) al assms(4,5) by (auto simp: x intro!: same_except_load)
  then have "flist al' m' (Next a) xs"
    using Cons.prems by (intro Cons.IH [of "Next a" "unat a + unat s" "Next a"]) (auto simp: x get_slot_def)
  then show ?case using Cons.prems ld by (auto simp: x fm_size_def)
qed simp

subsection \<open>Inserting a chunk\<close>

fun merge_next :: "chunk \<Rightarrow> chunk list \<Rightarrow> chunk list" where
  "merge_next (p, s) [] = [(p, s)]"
| "merge_next (p, s) ((a, t) # xs) = (if p + s = a then (p, s + t) # xs else (p, s) # (a, t) # xs)"

fun ins :: "chunk \<Rightarrow> chunk list \<Rightarrow> chunk list" where
  "ins (p, s) [] = [(p, s)]"
| "ins (p, s) ((a, t) # xs) =
     (if a < p then (if a + t = p then merge_next (a, t + s) xs else (a, t) # ins (p, s) xs)
      else merge_next (p, s) ((a, t) # xs))"

lemmas fm_defs = fm_size_def fm_next_def set_fm_size_def set_fm_next_def

lemma set_slot_eq:
  "set_slot al m c v = (slot_alloc c v al, case c of First \<Rightarrow> m | Next a \<Rightarrow> store64 m (a + 8) v)"
  by (cases c) (simp_all add: set_slot_def slot_alloc_def)

lemma set_slot_get:
  assumes "set_slot al m c v = (al', m')"
  shows "get_slot al' m' c = v"
  using assms by (cases c) (auto simp: set_slot_def get_slot_def load64_store64_same)

lemma set_slot_frame:
  assumes "set_slot al m c v = (al', m')"
  shows "same_except (slot_cells c) m m'" "al' = slot_alloc c v al"
  using assms by (auto simp: set_slot_def slot_alloc_def intro: same_except_store64 split: slot.splits)

lemma first_free_slot_alloc_Next [simp]: "slot_alloc (Next a) v al = al"
  by (simp add: slot_alloc_def)

text \<open>Changing the header of one chunk and the slot that points to it keeps a list behind it.\<close>

lemma relink_cells:
  assumes "chunks_ok bs lo xs" "8 dvd bs" "slot_before c (unat p)" "aligned8 p"
    "unat p + 16 \<le> lo + 1" "lo < 2 ^ 64"
  shows "(slot_cells c \<union> {p, p + 8}) \<inter> cells xs = {}" "\<forall>b\<in>slot_cells c \<union> {p, p + 8}. aligned8 b"
    "slot_cells c \<inter> {p, p + 8} = {}"
proof -
  have p8: "unat (p + 8) = unat p + 8" using unat_add_64 [of p 8] assms by simp
  have "unat b \<le> lo" if "b \<in> slot_cells c \<union> {p, p + 8}" for b
    using that slot_cells_below [OF assms(3)] assms(5) p8 by fastforce
  then show "(slot_cells c \<union> {p, p + 8}) \<inter> cells xs = {}"
    using cells_above [OF assms(1,2)] by fastforce
  show "\<forall>b\<in>slot_cells c \<union> {p, p + 8}. aligned8 b"
    using slot_cells_aligned [OF assms(3)] assms(4) by auto
  have "unat b < unat p" if "b \<in> slot_cells c" for b
    using slot_cells_below [OF assms(3) that] by simp
  then show "slot_cells c \<inter> {p, p + 8} = {}" using p8 by force
qed

lemma flist_put_head:
  assumes se: "same_except {p, p + 8} m m1" and hd: "load64 m1 p = s'" "load64 m1 (p + 8) = get_slot al m c0"
    and fl: "flist al m c0 ys" and ok: "chunks_ok bs lo ys" "8 dvd bs" "lo < 2 ^ 64"
    and p: "aligned8 p" "unat p + 16 \<le> lo + 1" and c: "slot_before c (unat p)"
    and st: "set_slot al m1 c p = (al', m')"
  shows "flist al' m' c ((p, s') # ys)" "same_except (slot_cells c \<union> {p, p + 8}) m m'"
proof -
  note cl = relink_cells [OF ok(1,2) c p ok(3)]
  have se1: "same_except (slot_cells c) m1 m'" using set_slot_frame [OF st] by simp
  show se2: "same_except (slot_cells c \<union> {p, p + 8}) m m'"
    using same_except_trans [OF se se1] by (simp add: Un_commute)
  have ld: "load64 m' p = s'" "load64 m' (p + 8) = get_slot al m c0"
    using same_except_load [OF se1] cl(2,3) p(1) hd by auto
  have "flist al' m' (Next p) ys"
    by (rule flist_frame [OF fl ok(1,2) se2 cl(2,1)]) (simp add: get_slot_def ld)
  then show "flist al' m' c ((p, s') # ys)"
    using set_slot_get [OF st] ld by (simp add: fm_size_def)
qed

lemma insertFreeMemory_link_spec:
  assumes fl: "flist al m c xs" and ok: "chunks_ok bs (unat p + unat s - 1) xs" "8 dvd bs"
    and c: "slot_before c (unat p)" and p: "chunk_ok bs (p, s)" "fm_size m p = s"
  shows "\<exists>al' m'. insertFreeMemory_link al m c p = (c, al', m') \<and> flist al' m' c (merge_next (p, s) xs)
     \<and> same_except (slot_cells c \<union> {p, p + 8}) m m' \<and> al' = slot_alloc c p al"
proof -
  have p': "aligned8 p" "16 \<le> unat s" "unat p + unat s < 2 ^ 64" and ps: "unat (p + s) = unat p + unat s"
    using p(1) chunk_okD [OF p(1) ok(2)] by (simp_all add: chunk_ok_def)
  show ?thesis
  proof (cases "\<exists>t ys. xs = (p + s, t) # ys")
    case True
    then obtain t ys where xs: "xs = (p + s, t) # ys" by blast
    let ?a = "p + s"
    have a: "get_slot al m c = ?a" "fm_size m ?a = t" "flist al m (Next ?a) ys" "?a \<noteq> 0" "aligned8 ?a"
      and oky: "chunks_ok bs (unat ?a + unat t) ys" "16 \<le> unat t" "unat ?a + unat t < 2 ^ 64"
      using fl ok p'(2) ps chunk_okD(1) [of bs ?a t] by (auto simp: xs chunk_ok_def)
    have ne: "p + 8 \<noteq> ?a" "p \<noteq> ?a"
      using ps p'(2,3) unat_add_64 [of p 8] by (auto simp: word_unat_eq_iff)
    let ?m1 = "store64 (store64 m (p + 8) (load64 m (?a + 8))) p (s + t)"
    obtain al' m' where st: "set_slot al ?m1 c p = (al', m')" by fastforce
    have "insertFreeMemory_link al m c p = (c, al', m')"
      using a p p'(1) ne st by (simp add: insertFreeMemory_link_def fm_defs Let_def load64_store64)
    moreover have "flist al' m' c ((p, s + t) # ys)" "same_except (slot_cells c \<union> {p, p + 8}) m m'"
      using p'(1) ps p'(2) c a oky ok(2)
      by (intro flist_put_head [OF _ _ _ a(3) oky(1) ok(2) _ _ _ _ st];
          simp add: load64_store64 get_slot_def same_except_store)+
    ultimately show ?thesis using set_slot_frame [OF st] by (simp add: xs)
  next
    case False
    let ?m1 = "store64 m (p + 8) (get_slot al m c)"
    obtain al' m' where st: "set_slot al ?m1 c p = (al', m')" by fastforce
    have nm: "\<not> (get_slot al m c \<noteq> 0 \<and> p + fm_size m p = get_slot al m c)"
      using fl False p(2) by (cases xs) auto
    have "insertFreeMemory_link al m c p = (c, al', m')"
      using st nm by (auto simp: insertFreeMemory_link_def Let_def set_fm_next_def)
    moreover have "flist al' m' c ((p, s) # xs)" "same_except (slot_cells c \<union> {p, p + 8}) m m'"
      using p'(1,2,3) p(2) c
      by (intro flist_put_head [OF _ _ _ fl ok(1,2) _ _ _ _ st];
          simp add: load64_store64 fm_size_def same_except_store)+
    moreover have "merge_next (p, s) xs = (p, s) # xs"
      using False by (cases xs) auto
    ultimately show ?thesis using set_slot_frame [OF st] by simp
  qed
qed

text \<open>The chunk to insert lies beyond \<open>lo\<close> and overlaps no chunk of the list.\<close>

fun apart :: "chunk \<Rightarrow> chunk list \<Rightarrow> bool" where
  "apart (p, s) [] \<longleftrightarrow> True"
| "apart (p, s) ((a, t) # xs) \<longleftrightarrow>
     (unat p + unat s \<le> unat a \<or> unat a + unat t \<le> unat p) \<and> apart (p, s) xs"

definition insert_from :: "Allocator \<Rightarrow> memory \<Rightarrow> slot \<Rightarrow> u64 \<Rightarrow> (slot \<times> Allocator \<times> memory) option" where
  "insert_from al m c p = do {
     (current, memory, al, m) \<leftarrow> insertFreeMemory_loop al m c p;
     Some (insertFreeMemory_link al m current memory) }"

lemma insert_from_stop:
  assumes "flist al m c xs" "chunks_ok bs lo xs" "\<forall>(a, t)\<in>set (take 1 xs). \<not> a < p"
  shows "insert_from al m c p = Some (insertFreeMemory_link al m c p)"
proof -
  have "\<not> (get_slot al m c \<noteq> 0 \<and> get_slot al m c < p)"
    using assms by (cases xs) auto
  then have "insertFreeMemory_loop al m c p = Some (c, p, al, m)"
    by (subst insertFreeMemory_loop.simps) (auto simp: Let_def)
  then show ?thesis by (simp add: insert_from_def)
qed

lemma insert_from_skip:
  assumes "flist al m c ((a, t) # xs)" "a \<noteq> 0" "a < p" "a + t \<noteq> p"
  shows "insert_from al m c p = insert_from al m (Next a) p"
proof -
  have "insertFreeMemory_loop al m c p = insertFreeMemory_loop al m (Next a) p"
    using assms by (subst insertFreeMemory_loop.simps) (auto simp: Let_def)
  then show ?thesis by (simp add: insert_from_def)
qed

lemma insert_from_merge:
  assumes "flist al m c ((a, t) # xs)" "a \<noteq> 0" "a < p" "a + t = p" "fm_size m p = s" "aligned8 a"
    and "set_slot al (store64 m a (t + s)) c (fm_next m a) = (al2, m2)"
  shows "insert_from al m c p = insert_from al2 m2 c a"
proof -
  have "insertFreeMemory_loop al m c p = insertFreeMemory_loop al2 m2 c a"
    using assms by (subst insertFreeMemory_loop.simps) (auto simp: Let_def fm_defs load64_store64)
  then show ?thesis by (simp add: insert_from_def)
qed

lemma chunks_after_apart:
  assumes "chunks_ok bs lo xs" "8 dvd bs" "apart (p, s) xs" "\<forall>(a, t)\<in>set (take 1 xs). \<not> a < p" "0 < unat s"
  shows "chunks_ok bs (unat p + unat s - 1) xs"
proof (cases xs)
  case (Cons x ys)
  obtain a t where x: "x = (a, t)" by (cases x)
  have "16 \<le> unat t" using assms(1) by (simp add: Cons x chunk_ok_def)
  then have "unat p + unat s \<le> unat a" using assms(3,4) by (auto simp: Cons x word_less_nat_alt)
  then show ?thesis using assms(1,5) by (simp add: Cons x)
qed simp

fun slot_of :: "slot \<Rightarrow> chunk list \<Rightarrow> nat \<Rightarrow> slot" where
  "slot_of c xs 0 = c"
| "slot_of c [] (Suc i) = c"
| "slot_of c (x # xs) (Suc i) = slot_of (Next (fst x)) xs i"

text \<open>\<open>holds_chunk c ys c' p\<close>: the slot \<open>c'\<close> of the list \<open>ys\<close> from \<open>c\<close> points to the chunk with byte \<open>p\<close>.\<close>

definition holds_chunk :: "slot \<Rightarrow> chunk list \<Rightarrow> slot \<Rightarrow> u64 \<Rightarrow> bool" where
  "holds_chunk c ys c' p \<longleftrightarrow> (\<exists>i<length ys. c' = slot_of c ys i \<and> unat (fst (ys ! i)) \<le> unat p
     \<and> unat p < unat (fst (ys ! i)) + unat (snd (ys ! i)))"

lemma merge_next_ok:
  assumes "chunk_ok bs (p, s)" "chunks_ok bs (unat p + unat s - 1) xs" "8 dvd bs" "lo < unat p"
  shows "chunks_ok bs lo (merge_next (p, s) xs)" "unat s \<le> unat (snd (hd (merge_next (p, s) xs)))"
proof -
  note ps = chunk_okD(4) [OF assms(1,3)]
  have "chunks_ok bs lo (merge_next (p, s) xs) \<and> unat s \<le> unat (snd (hd (merge_next (p, s) xs)))"
  proof (cases "\<exists>t ys. xs = (p + s, t) # ys")
    case True
    then obtain t ys where xs: "xs = (p + s, t) # ys" by blast
    have t: "unat (p + s) + unat t < 2 ^ 64" "unat t mod bs = 0" "chunks_ok bs (unat p + unat s + unat t) ys"
      using assms(2) by (auto simp: xs chunk_ok_def ps)
    have st: "unat (s + t) = unat s + unat t" using t(1) ps by (intro unat_add_64) simp
    moreover have "(unat s + unat t) mod bs = 0" using t(2) assms(1) by (auto simp: chunk_ok_def)
    ultimately show ?thesis using t assms ps by (auto simp: xs chunk_ok_def add.assoc)
  next
    case False
    then have m: "merge_next (p, s) xs = (p, s) # xs" by (cases xs) auto
    have "chunks_ok bs (unat p + unat s) xs"
    proof (cases xs)
      case (Cons x ys)
      then have "unat (fst x) \<noteq> unat p + unat s" using False ps by (cases x) (auto simp: word_unat_eq_iff)
      then show ?thesis using assms(2) by (auto simp: Cons)
    qed simp
    then show ?thesis using assms by (simp add: m)
  qed
  then show "chunks_ok bs lo (merge_next (p, s) xs)" "unat s \<le> unat (snd (hd (merge_next (p, s) xs)))" by auto
qed

lemma merge_next_head: "fst (hd (merge_next (p, s) xs)) = p" "merge_next (p, s) xs \<noteq> []"
proof -
  have "fst (hd (merge_next (p, s) xs)) = p \<and> merge_next (p, s) xs \<noteq> []"
  proof (cases xs)
    case (Cons x ys)
    then show ?thesis by (cases x) simp
  qed simp
  then show "fst (hd (merge_next (p, s) xs)) = p" "merge_next (p, s) xs \<noteq> []" by simp_all
qed

lemma holds_chunk_head:
  assumes "unat p \<le> unat q" "unat q < unat p + unat s" "unat s \<le> unat (snd (hd (merge_next (p, s) xs)))"
  shows "holds_chunk c (merge_next (p, s) xs) c q"
  unfolding holds_chunk_def
  using assms merge_next_head [of p s xs]
  by (intro exI [of _ 0]) (simp add: hd_conv_nth [OF merge_next_head(2), symmetric])

lemma holds_chunk_Cons: "holds_chunk (Next a) ys c' p \<Longrightarrow> holds_chunk c ((a, t) # ys) c' p"
proof -
  assume "holds_chunk (Next a) ys c' p"
  then obtain i where "i < length ys" "c' = slot_of (Next a) ys i" "unat (fst (ys ! i)) \<le> unat p"
    "unat p < unat (fst (ys ! i)) + unat (snd (ys ! i))"
    by (auto simp: holds_chunk_def)
  then show ?thesis unfolding holds_chunk_def by (intro exI [of _ "Suc i"]) auto
qed

text \<open>The result of inserting from slot \<open>c\<close>.\<close>

definition inserted :: "Allocator \<Rightarrow> memory \<Rightarrow> slot \<Rightarrow> u64 set \<Rightarrow> chunk list \<Rightarrow> u64 \<Rightarrow> (slot \<times> Allocator \<times> memory) option \<Rightarrow> bool" where
  "inserted al m c C ys p r \<longleftrightarrow> (\<exists>c' al' m'. r = Some (c', al', m') \<and> flist al' m' c ys
     \<and> same_except C m m' \<and> al' = slot_alloc c (fst (hd ys)) al \<and> holds_chunk c ys c' p)"

lemma insert_from_link:
  assumes "flist al m c xs" "chunks_ok bs lo xs" "8 dvd bs" "slot_before c (unat p)"
    and "chunk_ok bs (p, s)" "fm_size m p = s" "apart (p, s) xs" "\<forall>(a, t)\<in>set (take 1 xs). \<not> a < p"
    and "slot_cells c \<union> {p, p + 8} \<subseteq> C" "unat p \<le> unat q" "unat q < unat p + unat s" "0 < unat p"
  shows "inserted al m c C (merge_next (p, s) xs) q (insert_from al m c p)"
proof -
  have ok: "chunks_ok bs (unat p + unat s - 1) xs"
    using assms by (intro chunks_after_apart) auto
  from insertFreeMemory_link_spec [OF assms(1) this assms(3,4,5,6)]
  obtain al' m' where l: "insertFreeMemory_link al m c p = (c, al', m')" "flist al' m' c (merge_next (p, s) xs)"
    "same_except (slot_cells c \<union> {p, p + 8}) m m'" "al' = slot_alloc c p al" by blast
  have "holds_chunk c (merge_next (p, s) xs) c q"
    using assms(10-12) merge_next_ok(2) [OF assms(5) ok assms(3)] by (intro holds_chunk_head) auto
  then show ?thesis
    unfolding inserted_def insert_from_stop [OF assms(1,2,8)] l(1)
    using l assms(9) by (auto simp: merge_next_head intro: same_except_mono)
qed

lemma slot_alloc_twice [simp]: "slot_alloc c v (slot_alloc c w al) = slot_alloc c v al"
  by (cases c) (simp_all add: slot_alloc_def)

lemma apart_extend:
  "apart (p, s) xs \<Longrightarrow> chunks_ok bs (unat a + unat t) xs \<Longrightarrow> unat a + unat t = unat p \<Longrightarrow>
     unat (t + s) = unat t + unat s \<Longrightarrow> apart (a, t + s) xs"
proof (induction xs)
  case (Cons x xs)
  obtain a' t' where x: "x = (a', t')" by (cases x)
  have "chunks_ok bs (unat a + unat t) xs"
    using Cons.prems(2) by (auto simp: x intro: chunks_ok_mono)
  with Cons show ?case by (auto simp: x)
qed simp

lemma insert_from_merged:
  assumes fl: "flist al m c ((a, t) # xs)" and ok: "chunks_ok bs lo ((a, t) # xs)" "8 dvd bs"
    and c: "slot_before c (lo + 1)" and p: "chunk_ok bs (p, s)" "fm_size m p = s" "apart (p, s) xs" "a + t = p"
  shows "inserted al m c (slot_cells c \<union> {a, a + 8}) (merge_next (a, t + s) xs) p (insert_from al m c p)"
proof -
  have a: "aligned8 a" "a \<noteq> 0" "get_slot al m c = a" "unat (a + t) = unat a + unat t" "lo < unat a" "16 \<le> unat t"
    "chunks_ok bs (unat a + unat t) xs" "flist al m (Next a) xs" "unat t mod bs = 0" "unat a mod bs = 0"
    using fl ok chunk_okD [of bs a t] by (auto simp: chunk_ok_def)
  have ca: "slot_before c (unat a)" using c a(5) by (cases c) auto
  have ps: "16 \<le> unat s" "unat p + unat s < 2 ^ 64" "unat s mod bs = 0" using p(1) by (auto simp: chunk_ok_def)
  have up: "unat p = unat a + unat t" using a(4) p(4) by simp
  have ts: "unat (t + s) = unat t + unat s" using ps(2) up by (intro unat_add_64) simp
  have cok: "chunk_ok bs (a, t + s)"
    using a ps up by (auto simp: chunk_ok_def ts add.assoc)
  let ?m1 = "store64 m a (t + s)"
  obtain al2 m2 where st: "set_slot al ?m1 c (fm_next m a) = (al2, m2)" by fastforce
  note cl = relink_cells [OF a(7) ok(2) ca a(1)]
  have lo: "unat a + 16 \<le> unat a + unat t + 1" "unat a + unat t < 2 ^ 64" using a(6) up unat_less_2p64 [of p] by auto
  have se: "same_except (slot_cells c \<union> {a, a + 8}) m m2"
    using same_except_trans [OF same_except_store64 [of a "{a, a + 8}" m "t + s"] set_slot_frame(1) [OF st]]
    by (simp add: Un_commute)
  have fl2: "flist al2 m2 c xs"
    by (rule flist_frame [OF a(8,7) ok(2) se cl(2) cl(1)]) (use lo set_slot_get [OF st] in \<open>auto simp: get_slot_def fm_next_def\<close>)
  have sz: "fm_size m2 a = t + s"
    using same_except_load [OF set_slot_frame(1) [OF st], of a] cl(2,3) lo a(1)
    by (auto simp: fm_size_def load64_store64_same)
  have "\<forall>(a', t')\<in>set (take 1 xs). \<not> a' < a"
    using a(7) by (cases xs) (auto simp: word_less_nat_alt)
  then have "inserted al2 m2 c (slot_cells c \<union> {a, a + 8}) (merge_next (a, t + s) xs) p (insert_from al2 m2 c a)"
    using up ts ps a apart_extend [OF p(3) a(7) up [symmetric] ts]
    by (intro insert_from_link [OF fl2 a(7) ok(2) ca cok sz]) auto
  moreover have "insert_from al m c p = insert_from al2 m2 c a"
    using a up p by (intro insert_from_merge [OF fl _ _ _ _ _ st]) (auto simp: word_less_nat_alt)
  ultimately show ?thesis
    using set_slot_frame(2) [OF st] same_except_trans_same [OF se]
    by (auto simp: inserted_def)
qed

lemma insert_from_spec:
  assumes "flist al m c xs" "chunks_ok bs lo xs" "8 dvd bs" "slot_before c (lo + 1)"
    and "chunk_ok bs (p, s)" "fm_size m p = s" "apart (p, s) xs" "lo < unat p"
  shows "inserted al m c (slot_cells c \<union> cells xs \<union> {p, p + 8}) (ins (p, s) xs) p (insert_from al m c p)"
  using assms
proof (induction xs arbitrary: al m c lo)
  case Nil
  have "slot_before c (unat p)" using Nil.prems by (cases c) auto
  then have "inserted al m c (slot_cells c \<union> cells [] \<union> {p, p + 8}) (merge_next (p, s) []) p (insert_from al m c p)"
    using Nil.prems(5,8) by (intro insert_from_link [OF Nil.prems(1-3) _ Nil.prems(5-7)]) (simp_all add: chunk_ok_def)
  then show ?case by simp
next
  case (Cons x xs)
  obtain a t where x: "x = (a, t)" by (cases x)
  have cp: "slot_before c (unat p)" using Cons.prems by (cases c) auto
  have a: "aligned8 a" "a \<noteq> 0" "get_slot al m c = a" "fm_size m a = t" "unat (a + 8) = unat a + 8"
    "unat (a + t) = unat a + unat t" "lo < unat a" "16 \<le> unat t" "chunks_ok bs (unat a + unat t) xs" "flist al m (Next a) xs"
    using Cons.prems(1,2,3) chunk_okD [of bs a t] by (auto simp: x chunk_ok_def)
  have p: "aligned8 p" "unat (p + 8) = unat p + 8" using chunk_okD [OF Cons.prems(5,3)] by auto
  show ?case
  proof (cases "a < p")
    case False
    have "inserted al m c (slot_cells c \<union> cells (x # xs) \<union> {p, p + 8}) (merge_next (p, s) (x # xs)) p (insert_from al m c p)"
      using Cons.prems(5,8) False
      by (intro insert_from_link [OF Cons.prems(1-3) cp Cons.prems(5-7)]) (auto simp: x chunk_ok_def)
    then show ?thesis using False by (simp add: x)
  next
    case True
    then have ap: "unat a + unat t \<le> unat p" "apart (p, s) xs"
      using Cons.prems(5,7) by (auto simp: x word_less_nat_alt chunk_ok_def)
    show ?thesis
    proof (cases "a + t = p")
      case False
      then have lt: "unat a + unat t < unat p" using ap a(6) by (metis le_neq_implies_less word_unat_eq_iff)
      let ?C = "slot_cells (Next a) \<union> cells xs \<union> {p, p + 8}"
      have "inserted al m (Next a) ?C (ins (p, s) xs) p (insert_from al m (Next a) p)"
        using a lt ap Cons.prems(3,5,6) by (intro Cons.IH [OF a(10,9)]) auto
      then obtain c' m' where r: "insert_from al m (Next a) p = Some (c', al, m')"
        "flist al m' (Next a) (ins (p, s) xs)" "same_except ?C m m'" "holds_chunk (Next a) (ins (p, s) xs) c' p"
        by (auto simp: inserted_def)
      have low: "unat b \<le> unat a \<Longrightarrow> b \<notin> ?C" for b
        using cells_above [OF a(9) Cons.prems(3), of b] a(5,8) lt p(2) by auto
      have alC: "\<forall>b\<in>?C. aligned8 b" using a p cells_aligned [OF a(9) Cons.prems(3)] by auto
      have "load64 m' a = load64 m a" using low a(1) by (intro same_except_load [OF r(3) alC]) auto
      moreover have "get_slot al m' c = get_slot al m c"
      proof (rule get_slot_frame [OF r(3) alC])
        have "unat b \<le> unat a" if "b \<in> slot_cells c" for b
          using slot_cells_below [OF Cons.prems(4) that] a(7) unat_less_2p64 [of a] by linarith
        then show "slot_cells c \<inter> ?C = {}" using low by blast
      qed (use slot_cells_aligned [OF Cons.prems(4)] in auto)
      ultimately have "flist al m' c ((a, t) # ins (p, s) xs)" using r a by (simp add: fm_size_def)
      moreover have "same_except (slot_cells c \<union> cells (x # xs) \<union> {p, p + 8}) m m'"
        by (rule same_except_mono [OF r(3)]) (auto simp: x)
      moreover have "slot_alloc c a al = al" using a(3) by (cases c) (auto simp: slot_alloc_def get_slot_def)
      ultimately show ?thesis
        unfolding insert_from_skip [OF Cons.prems(1) [unfolded x] a(2) True False]
        using True False r by (auto simp: x inserted_def holds_chunk_Cons)
    next
      case merge: True
      have "inserted al m c (slot_cells c \<union> {a, a + 8}) (merge_next (a, t + s) xs) p (insert_from al m c p)"
        using Cons.prems ap merge by (intro insert_from_merged [of al m c a t xs bs lo]) (auto simp: x)
      then show ?thesis
        using merge True by (auto simp: x inserted_def elim!: same_except_mono)
    qed
  qed
qed


subsection \<open>What a free list covers\<close>

fun covered :: "chunk list \<Rightarrow> nat set" where
  "covered [] = {}"
| "covered (c # xs) = bytes (fst c) (snd c) \<union> covered xs"

lemma covered_above: "chunks_ok bs lo xs \<Longrightarrow> x \<in> covered xs \<Longrightarrow> lo < x"
  by (induction bs lo xs rule: chunks_ok.induct) (force simp: bytes_def)+

lemma apart_iff: "0 < unat s \<Longrightarrow> chunks_ok bs lo xs \<Longrightarrow> apart (p, s) xs \<longleftrightarrow> bytes p s \<inter> covered xs = {}"
proof (induction xs arbitrary: lo)
  case (Cons x xs)
  obtain a t where x: "x = (a, t)" by (cases x)
  have "16 \<le> unat t" using Cons.prems by (simp add: x chunk_ok_def)
  then have "(unat p + unat s \<le> unat a \<or> unat a + unat t \<le> unat p) \<longleftrightarrow> bytes p s \<inter> bytes a t = {}"
    using Cons.prems(1) by (auto simp: bytes_def)
  moreover have "apart (p, s) xs \<longleftrightarrow> bytes p s \<inter> covered xs = {}"
    using Cons by (auto simp: x)
  ultimately show ?case by (auto simp: x)
qed simp

lemma merge_next_covered:
  assumes "chunk_ok bs (p, s)" "chunks_ok bs (unat p + unat s - 1) xs" "8 dvd bs"
  shows "covered (merge_next (p, s) xs) = bytes p s \<union> covered xs"
proof (cases xs)
  case (Cons x ys)
  obtain a t where x: "x = (a, t)" by (cases x)
  note ps = chunk_okD(4) [OF assms(1,3)]
  show ?thesis
  proof (cases "p + s = a")
    case True
    then have "unat (s + t) = unat s + unat t"
      using assms(2) ps by (intro unat_add_64) (auto simp: Cons x chunk_ok_def)
    then show ?thesis using True ps by (auto simp: Cons x bytes_def)
  qed (auto simp: Cons x)
qed simp

lemma ins_ok_covered:
  assumes "chunks_ok bs lo xs" "8 dvd bs" "chunk_ok bs (p, s)" "apart (p, s) xs" "lo < unat p"
  shows "chunks_ok bs lo (ins (p, s) xs) \<and> covered (ins (p, s) xs) = bytes p s \<union> covered xs"
  using assms
proof (induction xs arbitrary: lo)
  case (Cons x xs)
  obtain a t where x: "x = (a, t)" by (cases x)
  have at: "unat (a + t) = unat a + unat t" "chunks_ok bs (unat a + unat t) xs" "chunk_ok bs (a, t)" "lo < unat a"
    using Cons.prems chunk_okD(4) [of bs a t] by (auto simp: x)
  have s: "16 \<le> unat s" "unat p + unat s < 2 ^ 64" using Cons.prems(3) by (auto simp: chunk_ok_def)
  show ?case
  proof (cases "a < p")
    case False
    then have ok: "chunks_ok bs (unat p + unat s - 1) (x # xs)"
      using Cons.prems s by (intro chunks_after_apart) (auto simp: x)
    show ?thesis
      using merge_next_ok [OF Cons.prems(3) ok assms(2) Cons.prems(5)]
        merge_next_covered [OF Cons.prems(3) ok assms(2)] False
      by (simp add: x)
  next
    case True
    then have ap: "unat a + unat t \<le> unat p" "apart (p, s) xs"
      using Cons.prems(4) s by (auto simp: x word_less_nat_alt)
    show ?thesis
    proof (cases "a + t = p")
      case eq: True
      then have up: "unat p = unat a + unat t" using at by simp
      have ts: "unat (t + s) = unat t + unat s" using s up by (intro unat_add_64) simp
      have cok: "chunk_ok bs (a, t + s)" using at(3) Cons.prems(3) up by (auto simp: chunk_ok_def ts add.assoc)
      have "\<forall>(a', t')\<in>set (take 1 xs). \<not> a' < a"
        using at(2) by (cases xs) (auto simp: word_less_nat_alt)
      then have ok: "chunks_ok bs (unat a + unat (t + s) - 1) xs"
        using at apart_extend [OF ap(2) at(2) up [symmetric] ts] ts s assms(2)
        by (intro chunks_after_apart) auto
      have i: "ins (p, s) (x # xs) = merge_next (a, t + s) xs" using True eq by (simp add: x)
      have b: "bytes a (t + s) = bytes p s \<union> bytes a t"
        unfolding bytes_def ts up by auto
      show ?thesis unfolding i merge_next_covered [OF cok ok assms(2)] b
        using merge_next_ok(1) [OF cok ok assms(2) at(4)] by (simp add: x Un_assoc)
    next
      case False
      then have "unat a + unat t < unat p" using ap at(1) by (metis le_neq_implies_less word_unat_eq_iff)
      note IH = Cons.IH [OF at(2) assms(2) Cons.prems(3) ap(2) this]
      have i: "ins (p, s) (x # xs) = (a, t) # ins (p, s) xs" using True False by (simp add: x)
      show ?thesis unfolding i using IH at(3,4) by (simp add: x Un_left_commute)
    qed
  qed
qed simp

text \<open>A well-formed list is determined by the bytes it covers: it is the list of maximal runs.\<close>

lemma covered_hd:
  assumes "chunks_ok bs lo ((a, s) # xs)" "chunks_ok bs' lo' ((b, t) # ys)"
    "covered ((a, s) # xs) = covered ((b, t) # ys)"
  shows "a = b \<and> s = t"
proof -
  have le: "unat c \<le> x" if "chunks_ok k l ((c, u) # zs)" "x \<in> covered ((c, u) # zs)" for k l c u zs and x
    using that covered_above [of k "unat c + unat u" zs x] by (auto simp: bytes_def)
  have mem: "unat c \<in> covered ((c, u) # zs)" if "chunks_ok k l ((c, u) # zs)" for k l c u zs
    using that by (auto simp: bytes_def chunk_ok_def)
  have "unat a \<le> unat b" by (rule le [OF assms(1)]) (simp only: assms(3) mem [OF assms(2)])
  moreover have "unat b \<le> unat a" by (rule le [OF assms(2)]) (simp only: assms(3) [symmetric] mem [OF assms(1)])
  ultimately have ab: "unat a = unat b" by simp
  have end_out: "unat c + unat u \<notin> covered ((c, u) # zs)" if "chunks_ok k l ((c, u) # zs)" for k l c u zs
    using that covered_above [of k "unat c + unat u" zs "unat c + unat u"] by (auto simp: bytes_def)
  have "\<not> unat s < unat t"
    using end_out [OF assms(1)] ab assms(3) by (auto simp: bytes_def)
  moreover have "\<not> unat t < unat s"
    using end_out [OF assms(2)] ab assms(3) [symmetric] by (auto simp: bytes_def)
  ultimately have "unat s = unat t" by simp
  with ab show ?thesis by (simp add: word_unat_eq_iff)
qed

lemma covered_inj:
  "chunks_ok bs lo xs \<Longrightarrow> chunks_ok bs' lo' ys \<Longrightarrow> covered xs = covered ys \<Longrightarrow> xs = ys"
proof (induction xs arbitrary: ys lo lo')
  case Nil
  then show ?case by (cases ys) (auto simp: bytes_def chunk_ok_def)
next
  case (Cons x xs)
  obtain a s where x: "x = (a, s)" by (cases x)
  show ?case
  proof (cases ys)
    case Nil
    with Cons.prems show ?thesis by (auto simp: x bytes_def chunk_ok_def)
  next
    case Y: (Cons y ys')
    obtain b t where y: "y = (b, t)" by (cases y)
    have ab: "a = b" "s = t"
      using covered_hd [of bs lo a s xs bs' lo' b t ys'] Cons.prems by (auto simp: x y Y)
    have "bytes a s \<inter> covered xs = {}" "bytes a s \<inter> covered ys' = {}"
      using Cons.prems covered_above [of bs "unat a + unat s" xs] covered_above [of bs' "unat a + unat s" ys'] ab
      by (force simp: x y Y bytes_def)+
    then have "covered xs = covered ys'" using Cons.prems(3) ab by (auto simp: x y Y)
    then show ?thesis using Cons ab by (auto simp: x y Y)
  qed
qed


lemma findOverlappingFreeMemory_apart:
  assumes "flist al m c xs" "chunks_ok bs lo xs" "8 dvd bs" "chunk_ok bs (p, s)" "apart (p, s) xs"
  shows "findOverlappingFreeMemory m (get_slot al m c) p s = Some ()"
  using assms(1,2,5)
proof (induction xs arbitrary: c lo)
  case Nil
  then show ?case by (subst findOverlappingFreeMemory.simps) simp
next
  case (Cons x xs)
  obtain a t where x: "x = (a, t)" by (cases x)
  have a: "unat (a + t) = unat a + unat t" "get_slot al m c = a" "fm_size m a = t"
    "fm_next m a = get_slot al m (Next a)"
    using Cons.prems chunk_okD(4) [of bs a t] assms(3) by (auto simp: x fm_next_def get_slot_def)
  have "p + s \<le> a \<or> a + t \<le> p"
    using Cons.prems(3) chunk_okD(4) [OF assms(4,3)] a(1) by (auto simp: x word_le_nat_alt)
  then show ?case
    using Cons.IH [of "Next a" "unat a + unat t"] Cons.prems a
    by (subst findOverlappingFreeMemory.simps) (auto simp: x)
qed

text \<open>
  The invariant of an allocator: \<open>xs\<close> is its free list, ascending, with no two chunks touching,
  in whole blocks and above the null page.
\<close>

definition free_list :: "Allocator \<Rightarrow> memory \<Rightarrow> chunk list \<Rightarrow> bool" where
  "free_list al m xs \<longleftrightarrow> flist al m First xs \<and> chunks_ok (unat (block_size al)) 0 xs \<and> 8 dvd unat (block_size al)"

lemma insertFreeMemory_spec:
  assumes "free_list al m xs" "chunk_ok (unat (block_size al)) (p, s)" "fm_size m p = s" "apart (p, s) xs" "p \<noteq> 0"
  shows "inserted al m First (cells xs \<union> {p, p + 8}) (ins (p, s) xs) p (insertFreeMemory al m p)"
proof -
  have "insertFreeMemory al m p = insert_from al m First p"
    using findOverlappingFreeMemory_apart [of al m First xs _ _ p s] assms
    by (auto simp: insertFreeMemory_def insert_from_def free_list_def get_slot_def)
  then show ?thesis
    using insert_from_spec [of al m First xs "unat (block_size al)" 0 p s] assms
    by (auto simp: free_list_def unat_gt_0)
qed

subsection \<open>Taking memory out of a free list\<close>

text \<open>First fit: the first chunk that is large enough, split when the rest can hold a header.\<close>

fun take_fit :: "u64 \<Rightarrow> u64 \<Rightarrow> chunk list \<Rightarrow> (u64 \<times> chunk list) option" where
  "take_fit mn sz [] = None"
| "take_fit mn sz ((a, t) # xs) =
     (if sz \<le> t then Some (a, if mn \<le> t then (a + sz, t - sz) # xs else xs)
      else map_option (map_prod id (Cons (a, t))) (take_fit mn sz xs))"

definition alloc_from :: "Allocator \<Rightarrow> memory \<Rightarrow> slot \<Rightarrow> u64 \<Rightarrow> (u64 \<times> Allocator \<times> memory) option" where
  "alloc_from al m c sz = do {
     found \<leftarrow> findFreeMemoryThatFits_loop al m c sz;
     Some (case found of None \<Rightarrow> (0, al, m) | Some c' \<Rightarrow> takeFreeMemory al m c' sz) }"

definition alloc_result :: "Allocator \<Rightarrow> memory \<Rightarrow> slot \<Rightarrow> u64 set \<Rightarrow> (u64 \<times> chunk list) option
    \<Rightarrow> (u64 \<times> Allocator \<times> memory) option \<Rightarrow> bool" where
  "alloc_result al m c C t r \<longleftrightarrow>
     (case t of None \<Rightarrow> r = Some (0, al, m)
      | Some (p, ys) \<Rightarrow> \<exists>al' m'. r = Some (p, al', m') \<and> flist al' m' c ys \<and> same_except C m m'
           \<and> (\<exists>v. al' = slot_alloc c v al))"

lemma round_up_block_unat:
  assumes "0 < unat bs" "unat sz + unat bs \<le> 2 ^ 64"
  shows "unat (round_up_block sz bs) = (unat sz + unat bs - 1) div unat bs * unat bs"
proof -
  have "unat (sz + bs - 1) = unat sz + unat bs - 1"
  proof (cases "unat sz + unat bs < 2 ^ 64")
    case True
    then show ?thesis using assms by (simp add: unat_sub_64 unat_add_64)
  next
    case False
    then have "sz + bs = 0" using assms by (intro u64_eqI) (simp add: unat_word_ariths)
    then show ?thesis using False assms unat_less_2p64 [of sz] by (simp add: unsigned_minus_1_eq_mask mask_eq_exp_minus_1)
  qed
  then have "unat (round_up_block sz bs) = unat sz + unat bs - 1 - (unat sz + unat bs - 1) mod unat bs"
    by (simp add: round_up_block_def Let_def unat_sub_64 unat_mod_64)
  then show ?thesis by (simp add: minus_mod_eq_div_mult)
qed

lemma round_up_nat:
  fixes n b :: nat
  assumes "0 < b"
  shows "n \<le> (n + b - 1) div b * b" "(n + b - 1) div b * b mod b = 0" "(n + b - 1) div b * b < n + b"
proof -
  have e: "(n + b - 1) div b * b = n + b - 1 - (n + b - 1) mod b" by (simp add: minus_mod_eq_div_mult)
  moreover have "(n + b - 1) mod b < b" using assms by simp
  ultimately show "n \<le> (n + b - 1) div b * b" "(n + b - 1) div b * b < n + b"
    using mod_less_eq_dividend [of "n + b - 1" b] assms by linarith+
qed simp

lemma alloc_from_head:
  assumes fl: "flist al m c ((a, t) # xs)" and ok: "chunks_ok bs lo ((a, t) # xs)" "8 dvd bs"
    and c: "slot_before c (lo + 1)" and sz: "sz \<le> t" "16 \<le> unat sz" "unat sz mod bs = 0" "block_size al = of_nat bs" "bs < 2 ^ 64"
    "unat sz + bs + 16 < 2 ^ 64"
    and mn: "mn = round_up_block (sz + 16) (block_size al)"
  shows "alloc_result al m c (slot_cells c \<union> (if mn \<le> t then {a + sz, a + sz + 8} else {}))
    (take_fit mn sz ((a, t) # xs)) (alloc_from al m c sz)"
proof -
  have a: "aligned8 a" "a \<noteq> 0" "get_slot al m c = a" "fm_size m a = t" "lo < unat a" "16 \<le> unat t"
    "chunks_ok bs (unat a + unat t) xs" "flist al m (Next a) xs" "unat a + unat t < 2 ^ 64" "0 < bs"
    using fl ok chunk_okD [of bs a t] by (auto simp: chunk_ok_def intro: Nat.gr0I)
  have ubs: "unat (block_size al) = bs" using sz by (simp add: unat_of_nat_64)
  have run: "alloc_from al m c sz = Some (takeFreeMemory al m c sz)"
    using a sz by (simp add: alloc_from_def findFreeMemoryThatFits_loop.simps [of al m c] Let_def)
  have szt: "unat sz \<le> unat t" "aligned8 sz" using sz ok(2) by (auto simp: word_le_nat_alt aligned8_def elim!: dvdE)
  have asz: "unat (a + sz) = unat a + unat sz" using a szt by (intro unat_add_64) linarith
  have "unat (sz + 16) = unat sz + 16" using sz(6) unat_add_64 [of sz 16] by simp
  then have umn: "unat sz + 16 \<le> unat mn"
    using round_up_block_unat [of "block_size al" "sz + 16"] round_up_nat(1) [of bs "unat sz + 16"] sz(6) ubs a(10)
    unfolding mn by simp
  show ?thesis
  proof (cases "mn \<le> t")
    case True
    let ?q = "a + sz"
    let ?m2 = "store64 (store64 m ?q (t - sz)) (?q + 8) (load64 m (a + 8))"
    obtain al' m' where st: "set_slot al ?m2 c ?q = (al', m')" by fastforce
    have q: "aligned8 ?q" "unat ?q + 16 \<le> unat a + unat t" using a szt asz umn True by (auto simp: word_le_nat_alt)
    have "unat (a + 8) = unat a + 8" using a unat_add_64 [of a 8] by simp
    then have "?q \<noteq> a + 8" using asz sz(2) by (intro u64_neqI) simp
    then have tk: "takeFreeMemory al m c sz = (a, al', m')"
      using True a st q(1)
      by (simp add: takeFreeMemory_def Let_def fm_defs load64_store64 mn MINIMUM_FREE_def)
    have "?q + 8 \<noteq> ?q" by simp
    then have ld: "load64 ?m2 ?q = t - sz" "load64 ?m2 (?q + 8) = get_slot al m (Next a)"
      using q(1) by (simp_all add: load64_store64 get_slot_def)
    have se: "same_except {?q, ?q + 8} m ?m2" by (simp add: same_except_store64 same_except_store)
    have "slot_before c (unat ?q)" using c a(5) asz by (cases c) auto
    then have "flist al' m' c ((?q, t - sz) # xs)" "same_except (slot_cells c \<union> {?q, ?q + 8}) m m'"
      using flist_put_head [OF se ld a(8,7) ok(2) a(9) q(1) _ _ st] q(2) by auto
    then show ?thesis
      using True sz(1) run tk set_slot_frame(2) [OF st] by (auto simp: alloc_result_def)
  next
    case False
    obtain al' m' where st: "set_slot al m c (fm_next m a) = (al', m')" by fastforce
    have tk: "takeFreeMemory al m c sz = (a, al', m')"
      using False a st sz(1) by (simp add: takeFreeMemory_def Let_def mn MINIMUM_FREE_def)
    have ca: "slot_before c (unat a)" using c a(5) by (cases c) auto
    have "unat a + 16 \<le> unat a + unat t + 1" using a(6) by simp
    note cl = relink_cells [OF a(7) ok(2) ca a(1) this a(9)]
    have "flist al' m' c xs"
      by (rule flist_frame [OF a(8,7) ok(2) set_slot_frame(1) [OF st]])
        (use cl set_slot_get [OF st] in \<open>auto simp: get_slot_def fm_next_def\<close>)
    then show ?thesis
      using False sz(1) run tk set_slot_frame [OF st] by (auto simp: alloc_result_def)
  qed
qed

lemma alloc_from_skip:
  assumes "flist al m c ((a, t) # xs)" "a \<noteq> 0" "\<not> sz \<le> t"
  shows "alloc_from al m c sz = alloc_from al m (Next a) sz"
proof -
  have "findFreeMemoryThatFits_loop al m c sz = findFreeMemoryThatFits_loop al m (Next a) sz"
    using assms by (subst findFreeMemoryThatFits_loop.simps) (auto simp: Let_def)
  then show ?thesis by (simp add: alloc_from_def)
qed

lemma take_fit_shape:
  assumes "take_fit mn sz xs = Some (p, ys)" "chunks_ok bs lo xs" "unat sz mod bs = 0" "8 dvd bs"
    "unat sz + 16 \<le> unat mn" "16 \<le> unat sz"
  shows "chunks_ok bs lo ys \<and> lo < unat p \<and> unat p mod bs = 0 \<and> unat p + unat sz < 2 ^ 64
    \<and> (\<exists>t. covered xs = bytes p t \<union> covered ys \<and> bytes p t \<inter> covered ys = {} \<and> unat sz \<le> unat t
       \<and> unat t mod bs = 0 \<and> (t = sz \<or> unat t < unat mn))"
  using assms(1,2)
proof (induction xs arbitrary: lo ys)
  case (Cons x xs)
  obtain a t where x: "x = (a, t)" by (cases x)
  have a: "lo < unat a" "chunks_ok bs (unat a + unat t) xs" "unat a + unat t < 2 ^ 64" "unat a mod bs = 0"
    "unat t mod bs = 0" "16 \<le> unat t"
    using Cons.prems(2) by (auto simp: x chunk_ok_def)
  have disj: "bytes a s \<inter> covered xs = {}" if s: "unat s \<le> unat t" for s
  proof -
    have "False" if "y \<in> bytes a s" "y \<in> covered xs" for y
      using that(1) covered_above [OF a(2) that(2)] s by (simp add: bytes_def)
    then show ?thesis by blast
  qed
  show ?case
  proof (cases "sz \<le> t")
    case True
    then have szt: "unat sz \<le> unat t" by (simp add: word_le_nat_alt)
    have asz: "unat (a + sz) = unat a + unat sz" using a szt by (intro unat_add_64) linarith
    have tsz: "unat (t - sz) = unat t - unat sz" using szt by (simp add: unat_sub_64)
    show ?thesis
    proof (cases "mn \<le> t")
      case mn: True
      have p: "p = a" "ys = (a + sz, t - sz) # xs" using Cons.prems(1) True mn by (auto simp: x)
      have "chunk_ok bs (a + sz, t - sz)"
        using a szt asz tsz mn assms(3,5)
        by (simp add: chunk_ok_def word_le_nat_alt mod_eq_0_iff_dvd dvd_diff_nat)
      moreover have "bytes a t = bytes a sz \<union> bytes (a + sz) (t - sz)"
        "bytes a sz \<inter> bytes (a + sz) (t - sz) = {}"
        using szt by (auto simp: bytes_def asz tsz)
      moreover have "chunks_ok bs (unat (a + sz) + unat (t - sz)) xs" using a(2) szt by (simp add: asz tsz)
      moreover have "lo < unat (a + sz)" using a(1) asz by simp
      ultimately show ?thesis
        using a(1,3,4) szt disj [OF szt] assms(3) unfolding p
        by (intro conjI exI [of _ sz]) (simp_all add: x Un_assoc Int_Un_distrib)
    next
      case False
      have p: "p = a" "ys = xs" using Cons.prems(1) True False by (auto simp: x)
      show ?thesis
        using a szt disj [of t] False chunks_ok_mono [OF a(2), of lo] unfolding p
        by (intro conjI exI [of _ t]) (simp_all add: x word_le_nat_alt)
    qed
  next
    case False
    then obtain zs where zs: "take_fit mn sz xs = Some (p, zs)" "ys = (a, t) # zs"
      using Cons.prems(1) by (auto simp: x)
    note IH = Cons.IH [OF zs(1) a(2)]
    from IH obtain u where u: "covered xs = bytes p u \<union> covered zs" "bytes p u \<inter> covered zs = {}"
      "unat sz \<le> unat u" "unat u mod bs = 0" "u = sz \<or> unat u < unat mn" by (elim conjE exE)
    have "bytes p u \<inter> bytes a t = {}" using disj [of t] unfolding u(1) by blast
    moreover have "covered (x # xs) = bytes p u \<union> covered ys" by (simp add: zs(2) x u(1) Un_left_commute)
    moreover have "chunks_ok bs lo ys" using Cons.prems(2) IH by (simp add: x zs(2))
    ultimately show ?thesis
      using IH a(1) u by (intro conjI exI [of _ u]) (simp_all add: zs(2) Int_Un_distrib)
  qed
qed simp

lemma alloc_from_spec:
  assumes "flist al m c xs" "chunks_ok bs lo xs" "8 dvd bs" "slot_before c (lo + 1)"
    and sz: "16 \<le> unat sz" "unat sz mod bs = 0" "block_size al = of_nat bs" "bs < 2 ^ 64" "unat sz + bs + 16 < 2 ^ 64"
    and mn: "mn = round_up_block (sz + 16) (block_size al)" "unat sz + 16 \<le> unat mn"
  shows "alloc_result al m c (slot_cells c \<union> cells xs \<union> \<Union> (cells ` snd ` set_option (take_fit mn sz xs)))
    (take_fit mn sz xs) (alloc_from al m c sz)"
  using assms(1,2,4)
proof (induction xs arbitrary: c lo)
  case Nil
  then show ?case
    by (simp add: alloc_result_def alloc_from_def findFreeMemoryThatFits_loop.simps [of al m c])
next
  case (Cons x xs)
  obtain a t where x: "x = (a, t)" by (cases x)
  have a: "aligned8 a" "a \<noteq> 0" "get_slot al m c = a" "fm_size m a = t" "unat (a + 8) = unat a + 8"
    "lo < unat a" "16 \<le> unat t" "chunks_ok bs (unat a + unat t) xs" "flist al m (Next a) xs"
    using Cons.prems assms(3) chunk_okD [of bs a t] by (auto simp: x chunk_ok_def)
  show ?case
  proof (cases "sz \<le> t")
    case True
    have "alloc_result al m c (slot_cells c \<union> (if mn \<le> t then {a + sz, a + sz + 8} else {}))
        (take_fit mn sz ((a, t) # xs)) (alloc_from al m c sz)"
      using Cons.prems True by (intro alloc_from_head [OF _ _ assms(3) _ _ sz mn(1)]) (auto simp: x)
    then show ?thesis
      using True by (auto simp: x alloc_result_def elim!: same_except_mono split: if_splits)
  next
    case False
    then have run: "alloc_from al m c sz = alloc_from al m (Next a) sz"
      using Cons.prems(1) a(2) by (intro alloc_from_skip) (auto simp: x)
    let ?C = "slot_cells (Next a) \<union> cells xs \<union> \<Union> (cells ` snd ` set_option (take_fit mn sz xs))"
    have IH: "alloc_result al m (Next a) ?C (take_fit mn sz xs) (alloc_from al m (Next a) sz)"
      using a by (intro Cons.IH) auto
    show ?thesis
    proof (cases "take_fit mn sz xs")
      case None
      then show ?thesis using IH False run by (simp add: x alloc_result_def)
    next
      case (Some r)
      obtain p ys where r: "r = (p, ys)" by (cases r)
      obtain m' where m': "alloc_from al m (Next a) sz = Some (p, al, m')" "flist al m' (Next a) ys"
        "same_except ?C m m'"
        using IH by (auto simp: alloc_result_def Some r)
      have ys: "chunks_ok bs (unat a + unat t) ys"
        using take_fit_shape [OF Some [unfolded r] a(8) sz(2) assms(3) mn(2) sz(1)] by simp
      have C: "?C = {a + 8} \<union> cells xs \<union> cells ys" by (simp add: Some r)
      have low: "unat b \<le> unat a \<Longrightarrow> b \<notin> ?C" for b
        unfolding C using cells_above [OF a(8) assms(3), of b] cells_above [OF ys assms(3), of b] a(5,7) by auto
      have alC: "\<forall>b\<in>?C. aligned8 b"
        unfolding C using a(1) cells_aligned [OF a(8) assms(3)] cells_aligned [OF ys assms(3)] by auto
      have "load64 m' a = load64 m a" using low a(1) by (intro same_except_load [OF m'(3) alC]) auto
      moreover have "get_slot al m' c = get_slot al m c"
      proof (rule get_slot_frame [OF m'(3) alC])
        have "unat b \<le> unat a" if "b \<in> slot_cells c" for b
          using slot_cells_below [OF Cons.prems(3) that] a(6) unat_less_2p64 [of a] by linarith
        then show "slot_cells c \<inter> ?C = {}" using low by blast
      qed (use slot_cells_aligned [OF Cons.prems(3)] in auto)
      ultimately have "flist al m' c ((a, t) # ys)" using m'(2) a by (simp add: fm_size_def)
      moreover have "same_except (slot_cells c \<union> cells (x # xs) \<union> cells ((a, t) # ys)) m m'"
        by (rule same_except_mono [OF m'(3)]) (unfold C, auto simp: x)
      moreover have "al = slot_alloc c a al" using a(3) by (cases c) (auto simp: slot_alloc_def get_slot_def)
      ultimately show ?thesis using False run m'(1) by (auto simp: alloc_result_def x Some r)
    qed
  qed
qed


lemma allocMemory_root:
  assumes "sz mod block_size al = 0" "sz \<noteq> 0"
  shows "allocMemory [al] m sz = map_option (\<lambda>(p, al, m). (p, [al], m)) (alloc_from al m First sz)"
  using assms
  by (cases "findFreeMemoryThatFits_loop al m First sz")
    (auto simp: alloc_from_def findFreeMemoryThatFits_def split: option.splits prod.splits)

lemma min_size_bound:
  assumes "unat sz + unat bs + 16 < 2 ^ 64" "0 < unat bs"
  shows "unat sz + 16 \<le> unat (round_up_block (sz + 16) bs)" "unat (round_up_block (sz + 16) bs) < unat sz + 16 + unat bs"
proof -
  have "unat (sz + 16) = unat sz + 16" using assms unat_add_64 [of sz 16] by simp
  then have "unat (round_up_block (sz + 16) bs) = (unat sz + 16 + unat bs - 1) div unat bs * unat bs"
    using assms by (subst round_up_block_unat) simp_all
  then show "unat sz + 16 \<le> unat (round_up_block (sz + 16) bs)" "unat (round_up_block (sz + 16) bs) < unat sz + 16 + unat bs"
    using round_up_nat [of "unat bs" "unat sz + 16"] assms by simp_all
qed

text \<open>With blocks of at least 16 bytes a chunk is split exactly when it is larger than the request.\<close>

lemma min_size_block:
  assumes "unat sz + unat bs + 16 < 2 ^ 64" "16 \<le> unat bs" "unat sz mod unat bs = 0"
    "unat t mod unat bs = 0" "unat sz \<le> unat t" "unat t < unat (round_up_block (sz + 16) bs)"
  shows "t = sz"
proof -
  let ?b = "unat bs"
  have "unat (sz + 16) = unat sz + 16" using assms unat_add_64 [of sz 16] by simp
  then have r: "unat (round_up_block (sz + 16) bs) = (unat sz + 16 + ?b - 1) div ?b * ?b"
    using assms by (subst round_up_block_unat) simp_all
  obtain k where k: "unat sz = k * ?b" using assms(3) by (metis dvd_div_mult_self mod_0_imp_dvd)
  obtain j where j: "unat t = j * ?b" using assms(4) by (metis dvd_div_mult_self mod_0_imp_dvd)
  have "(unat sz + 16 + ?b - 1) div ?b \<le> (unat sz + 2 * ?b - 1) div ?b"
    using assms(2) by (intro div_le_mono) linarith
  moreover have e: "unat sz + 2 * ?b - 1 = (?b - 1) + (k + 1) * ?b" using assms(2) k by (simp add: algebra_simps)
  have "(unat sz + 2 * ?b - 1) div ?b = k + 1"
    unfolding e using assms(2) by (subst div_mult_self1) auto
  ultimately have le: "(unat sz + 16 + ?b - 1) div ?b \<le> k + 1" by simp
  have "unat t < (k + 1) * ?b" using assms(6) mult_le_mono1 [OF le, of ?b] unfolding r by linarith
  then have "j < k + 1" using j by (metis mult_less_cancel2)
  moreover have "k \<le> j" using assms(2,5) j k by simp
  ultimately show ?thesis using j k by (intro u64_eqI) simp
qed

definition block_request :: "Allocator \<Rightarrow> u64 \<Rightarrow> bool" where
  "block_request al sz \<longleftrightarrow> sz \<noteq> 0 \<and> sz mod block_size al = 0 \<and> unat sz + unat (block_size al) + 16 < 2 ^ 64"

lemma mod_word_0: "x mod y = 0 \<longleftrightarrow> unat x mod unat y = 0" for x y :: u64
  by (simp add: word_unat_eq_iff unat_mod_64)

lemma block_request_size:
  assumes "block_request al sz" "16 \<le> unat (block_size al)"
  shows "16 \<le> unat sz"
proof -
  have "unat (block_size al) \<le> unat sz"
    using assms(1) by (intro dvd_imp_le) (auto simp: block_request_def mod_word_0 unat_gt_0)
  with assms(2) show ?thesis by simp
qed

definition same_params :: "Allocator \<Rightarrow> Allocator \<Rightarrow> bool" where
  "same_params al al' \<longleftrightarrow> (\<exists>v. al' = al\<lparr>first_free := v\<rparr>)"

lemma same_params_block_size: "same_params al al' \<Longrightarrow> block_size al' = block_size al"
  by (auto simp: same_params_def)

lemma same_params_slot_alloc [simp]: "same_params al (slot_alloc First v al)"
  by (auto simp: same_params_def slot_alloc_def)

text \<open>What \<open>allocMemory\<close> does to the free list \<open>xs\<close> of an allocator without backing.\<close>

lemma allocMemory_spec:
  assumes "free_list al m xs" "16 \<le> unat (block_size al)" "block_request al sz"
  shows "case take_fit (round_up_block (sz + 16) (block_size al)) sz xs of
      None \<Rightarrow> allocMemory [al] m sz = Some (0, [al], m)
    | Some (p, ys) \<Rightarrow> \<exists>al' m'. allocMemory [al] m sz = Some (p, [al'], m') \<and> free_list al' m' ys
        \<and> same_params al al' \<and> same_except (cells xs \<union> cells ys) m m'
        \<and> covered xs = bytes p sz \<union> covered ys \<and> bytes p sz \<inter> covered ys = {}
        \<and> chunk_ok (unat (block_size al)) (p, sz) \<and> p \<noteq> 0"
proof -
  let ?bs = "unat (block_size al)" and ?mn = "round_up_block (sz + 16) (block_size al)"
  have h: "flist al m First xs" "chunks_ok ?bs 0 xs" "8 dvd ?bs" using assms(1) by (auto simp: free_list_def)
  have r: "unat sz mod ?bs = 0" "unat sz + ?bs + 16 < 2 ^ 64" "sz \<noteq> 0" "sz mod block_size al = 0"
    using assms(3) by (auto simp: block_request_def mod_word_0)
  note s16 = block_request_size [OF assms(3,2)]
  have mn: "unat sz + 16 \<le> unat ?mn" using min_size_bound(1) [OF r(2)] assms(2) by simp
  have ar: "alloc_result al m First (cells xs \<union> \<Union> (cells ` snd ` set_option (take_fit ?mn sz xs)))
      (take_fit ?mn sz xs) (alloc_from al m First sz)"
    using alloc_from_spec [OF h _ s16 r(1) _ _ r(2) refl mn] by simp
  show ?thesis
  proof (cases "take_fit ?mn sz xs")
    case None
    then show ?thesis using ar allocMemory_root [OF r(4,3)] by (simp add: alloc_result_def)
  next
    case (Some q)
    obtain p ys where q: "q = (p, ys)" by (cases q)
    note sh = take_fit_shape [OF Some [unfolded q] h(2) r(1) h(3) mn s16]
    from sh obtain t where t: "covered xs = bytes p t \<union> covered ys" "bytes p t \<inter> covered ys = {}"
      "unat sz \<le> unat t" "unat t mod ?bs = 0" "t = sz \<or> unat t < unat ?mn" by (elim conjE exE)
    have "t = sz" using t(5) min_size_block [OF r(2) assms(2) r(1) t(4,3)] by blast
    moreover from ar obtain al' m' where "alloc_from al m First sz = Some (p, al', m')" "flist al' m' First ys"
      "same_except (cells xs \<union> cells ys) m m'" "same_params al al'"
      by (auto simp: alloc_result_def Some q)
    moreover have "chunk_ok ?bs (p, sz)" "p \<noteq> 0" using sh r(1) s16 by (auto simp: chunk_ok_def)
    ultimately show ?thesis
      using sh t h(3) allocMemory_root [OF r(4,3)] by (simp add: Some q free_list_def same_params_block_size)
  qed
qed

lemma take_fit_None: "take_fit mn sz xs = None \<longleftrightarrow> (\<forall>(a, t)\<in>set xs. t < sz)"
  by (induction mn sz xs rule: take_fit.induct) auto

lemma free_list_apart:
  "free_list al m xs \<Longrightarrow> chunk_ok bs (p, s) \<Longrightarrow> bytes p s \<inter> covered xs = {} \<longleftrightarrow> apart (p, s) xs"
  using apart_iff [of s "unat (block_size al)" 0 xs p] by (auto simp: free_list_def chunk_ok_def)

lemma region_cells_apart:
  assumes "chunks_ok bs lo xs" "8 dvd bs" "chunk_ok bs (p, s)" "apart (p, s) xs"
  shows "{p, p + 8} \<inter> cells xs = {}"
  using assms(1,4)
proof (induction xs arbitrary: lo)
  case (Cons x xs)
  obtain a t where x: "x = (a, t)" by (cases x)
  have a: "unat (a + 8) = unat a + 8" "16 \<le> unat t" using Cons.prems(1) assms(2) chunk_okD(3) [of bs a t] by (auto simp: x chunk_ok_def)
  have p: "unat (p + 8) = unat p + 8" "16 \<le> unat s" using assms(2,3) chunk_okD(3) [of bs p s] by (auto simp: chunk_ok_def)
  have "unat p + unat s \<le> unat a \<or> unat a + unat t \<le> unat p" using Cons.prems by (simp add: x)
  then have "p \<noteq> a" "p \<noteq> a + 8" "p + 8 \<noteq> a" "p + 8 \<noteq> a + 8" using a p by (auto simp: word_unat_eq_iff)
  with Cons show ?case by (auto simp: x)
qed simp

lemma free_list_store_size:
  assumes "free_list al m xs" "chunk_ok (unat (block_size al)) (p, s)" "apart (p, s) xs"
  shows "free_list al (set_fm_size m p v) xs"
proof -
  have h: "flist al m First xs" "chunks_ok (unat (block_size al)) 0 xs" "8 dvd unat (block_size al)"
    using assms(1) by (auto simp: free_list_def)
  have "flist al (store64 m p v) First xs"
    using region_cells_apart [OF h(2,3) assms(2,3)] chunk_okD(1) [OF assms(2) h(3)]
    by (intro flist_frame [OF h same_except_store64 [of p "{p}"]]) (auto simp: get_slot_def)
  then show ?thesis using h by (simp add: free_list_def set_fm_size_def)
qed

lemma deallocMemory_spec:
  assumes fl: "free_list al m xs" and p: "chunk_ok (unat (block_size al)) (p, s)" "p \<noteq> 0"
    "bytes p s \<inter> covered xs = {}"
  shows "\<exists>al' m'. deallocMemory [al] m p s = Some ([al'], m') \<and> free_list al' m' (ins (p, s) xs)
    \<and> same_params al al' \<and> same_except (cells xs \<union> {p, p + 8}) m m'
    \<and> covered (ins (p, s) xs) = bytes p s \<union> covered xs"
proof -
  have ap: "apart (p, s) xs" using free_list_apart [OF fl p(1)] p(3) by simp
  have h: "chunks_ok (unat (block_size al)) 0 xs" "8 dvd unat (block_size al)" using fl by (auto simp: free_list_def)
  let ?m = "set_fm_size m p s"
  have s: "s mod block_size al = 0" "s \<noteq> 0" using p(1) by (auto simp: mod_word_0 chunk_ok_def)
  have "inserted al ?m First (cells xs \<union> {p, p + 8}) (ins (p, s) xs) p (insertFreeMemory al ?m p)"
    using insertFreeMemory_spec [OF free_list_store_size [OF fl p(1) ap] p(1) _ ap p(2)]
    by (simp add: fm_defs load64_store64_same)
  then obtain c' al' m' where r: "insertFreeMemory al ?m p = Some (c', al', m')" "flist al' m' First (ins (p, s) xs)"
    "same_except (cells xs \<union> {p, p + 8}) ?m m'" "same_params al al'"
    by (auto simp: inserted_def)
  have "same_except (cells xs \<union> {p, p + 8}) m m'"
    by (rule same_except_trans_same [OF _ r(3)]) (simp add: set_fm_size_def same_except_store64)
  moreover have "chunks_ok (unat (block_size al)) 0 (ins (p, s) xs) \<and> covered (ins (p, s) xs) = bytes p s \<union> covered xs"
    using p(2) by (intro ins_ok_covered [OF h p(1) ap]) (simp add: unat_gt_0)
  ultimately show ?thesis
    using r s h by (simp add: free_list_def same_params_block_size)
qed

lemma free_list_unique: "free_list al m xs \<Longrightarrow> free_list al m ys \<Longrightarrow> xs = ys"
proof -
  have "xs = ys" if "flist al m c xs" "flist al m c ys" "chunks_ok bs lo xs" "chunks_ok bs' lo' ys" for c bs bs' lo lo'
    using that
  proof (induction xs arbitrary: c ys lo lo')
    case Nil
    then show ?case by (cases ys) auto
  next
    case (Cons x xs)
    then show ?case by (cases ys; cases x) auto
  qed
  then show "free_list al m xs \<Longrightarrow> free_list al m ys \<Longrightarrow> xs = ys" by (auto simp: free_list_def)
qed

text \<open>The debug check of \<open>insertFreeMemory\<close>: memory that overlaps a free chunk cannot be freed.\<close>

lemma findOverlappingFreeMemory_overlap:
  assumes "flist al m c xs" "chunks_ok bs lo xs" "8 dvd bs" "16 \<le> bs" "unat p mod bs = 0" "unat s mod bs = 0" "s \<noteq> 0"
    "unat p + unat s < 2 ^ 64" "\<not> apart (p, s) xs" "q = get_slot al m c"
  shows "findOverlappingFreeMemory (set_fm_size m p s) q p s = None"
  using assms(1,2,9,10)
proof (induction xs arbitrary: c lo q)
  case (Cons x xs)
  obtain a t where x: "x = (a, t)" by (cases x)
  have a: "aligned8 a" "unat (a + 8) = unat a + 8" "unat (a + t) = unat a + unat t" "q = a" "fm_size m a = t"
    "unat a mod bs = 0" "a \<noteq> 0" "flist al m (Next a) xs" "chunks_ok bs (unat a + unat t) xs"
    using Cons.prems chunk_okD [of bs a t] assms(3) by (auto simp: x chunk_ok_def)
  have ps: "unat (p + s) = unat p + unat s" using assms(8) by (rule unat_add_64)
  have p8: "aligned8 p" using assms(3,5) by (auto simp: aligned8_def elim!: dvdE)
  have "(unat a + 8) mod bs = 8" using assms(4) a(6) by (auto simp: mod_add_left_eq [symmetric])
  then have "p \<noteq> a + 8" using a(2) assms(5) by auto
  then have nx: "fm_next (set_fm_size m p s) a = get_slot al m (Next a)"
    using p8 a(1) by (simp add: fm_defs load64_store64 get_slot_def)
  have sz: "fm_size (set_fm_size m p s) a = (if p = a then s else t)"
    using p8 a(1,5) by (simp add: fm_defs load64_store64)
  show ?case
  proof (cases "p + s \<le> a \<or> a + fm_size (set_fm_size m p s) a \<le> p")
    case True
    have "p \<noteq> a"
    proof
      assume "p = a"
      then have "p + s \<le> p" using True sz by auto
      then show False using ps assms(7) by (simp add: word_le_nat_alt unat_gt_0 unat_eq_0)
    qed
    then have "unat p + unat s \<le> unat a \<or> unat a + unat t \<le> unat p"
      using True sz ps a(3) by (simp add: word_le_nat_alt)
    then have "\<not> apart (p, s) xs" using Cons.prems(3) by (simp add: x)
    then have "findOverlappingFreeMemory (set_fm_size m p s) (fm_next (set_fm_size m p s) a) p s = None"
      using nx by (intro Cons.IH [OF a(8,9)]) auto
    then show ?thesis using a(4,7) by (subst findOverlappingFreeMemory.simps) simp
  next
    case False
    then show ?thesis using a(4,7) by (subst findOverlappingFreeMemory.simps) simp
  qed
qed simp

lemma deallocMemory_double_free:
  assumes "free_list al m xs" "16 \<le> unat (block_size al)" "p mod block_size al = 0" "s mod block_size al = 0"
    "unat p + unat s < 2 ^ 64" "bytes p s \<inter> covered xs \<noteq> {}"
  shows "deallocMemory [al] m p s = None"
proof -
  have s: "s \<noteq> 0" using assms(6) by (auto simp: bytes_def)
  moreover have "\<not> apart (p, s) xs"
    using assms apart_iff [of s "unat (block_size al)" 0 xs p] s by (auto simp: free_list_def unat_gt_0)
  ultimately have "findOverlappingFreeMemory (set_fm_size m p s) (first_free al) p s = None"
    using assms
    by (intro findOverlappingFreeMemory_overlap [of al m First xs "unat (block_size al)" 0])
      (auto simp: free_list_def mod_word_0 get_slot_def)
  then show ?thesis
    using assms(4) s by (simp add: insertFreeMemory_def fm_defs load64_store64_same)
qed

declare allocMemory.simps [simp del] basicAllocMemory.simps [simp del] addNewMemory.simps [simp del]
declare deallocMemory.simps [simp del] tryFreeingOldMemory.simps [simp del]

end
