(* ===== verification/PageAlloc.thy ===== *)
theory PageAlloc
  imports FreeList
begin

text \<open>
  Model of kernel/src/memory/pagealloc.c and reclaim.c: the page allocator, an allocator with
  blocks of one page and no backing, and the list of reclaim functions it calls when it runs
  out of memory. The linker symbols \<open>__heap_start\<close> and \<open>__heap_end\<close> are arguments. The state
  is an extensible record: the rest of the kernel, on which reclaim functions act, is its
  extension. One hart is modelled, so taking and releasing \<open>alloc_lock\<close> has no effect.
\<close>

unbundle bit_operations_syntax

subsection \<open>Reclaimable memory\<close>

type_synonym priority = u8

definition HIGHEST_PRIORITY :: priority where "HIGHEST_PRIORITY = 0"
definition LOWEST_PRIORITY :: priority where "LOWEST_PRIORITY = 39"

record 'f Reclaimable =
  r_priority :: priority
  r_reclaim :: 'f
  r_udata :: u64

definition registerReclaimable :: "priority \<Rightarrow> 'f \<Rightarrow> u64 \<Rightarrow> 'f Reclaimable list \<Rightarrow> 'f Reclaimable list" where
  "registerReclaimable p f u rs = \<lparr>r_priority = p, r_reclaim = f, r_udata = u\<rparr> # rs"

fun unregisterReclaimable :: "priority \<Rightarrow> 'f \<Rightarrow> u64 \<Rightarrow> 'f Reclaimable list \<Rightarrow> 'f Reclaimable list" where
  "unregisterReclaimable p f u [] = []"
| "unregisterReclaimable p f u (r # rs) =
     (if r_priority r = p \<and> r_reclaim r = f \<and> r_udata r = u then unregisterReclaimable p f u rs
      else r # unregisterReclaimable p f u rs)"

text \<open>\<open>call f p u s\<close> is the call of the reclaim function \<open>f\<close> with priority \<open>p\<close> and data \<open>u\<close>.\<close>

fun tryReclaimingMemory :: "('f \<Rightarrow> priority \<Rightarrow> u64 \<Rightarrow> 's \<Rightarrow> (bool \<times> 's) option) \<Rightarrow> 'f Reclaimable list
    \<Rightarrow> priority \<Rightarrow> 's \<Rightarrow> (bool \<times> 's) option" where
  "tryReclaimingMemory call [] p s = Some (False, s)"
| "tryReclaimingMemory call (r # rs) p s =
     (if r_priority r \<ge> p then do {
        (b, s) \<leftarrow> call (r_reclaim r) p (r_udata r) s;
        if b then Some (True, s) else tryReclaimingMemory call rs p s }
      else tryReclaimingMemory call rs p s)"

subsection \<open>Pages\<close>

definition PAGE_SIZE :: u64 where "PAGE_SIZE = 4096"

record PageAllocation =
  pa_ptr :: u64
  pa_size :: u64

record PageMem =
  page_allocator :: Allocator
  pmem :: memory
  zero_page :: u64

definition init_page_allocator :: Allocator where
  "init_page_allocator = \<lparr>block_size = PAGE_SIZE, min_backing_free = 0, first_free = 0,
     special_range_start = 0, special_range_end = 0\<rparr>"

definition basicAllocPages :: "u64 \<Rightarrow> 'a PageMem_scheme \<Rightarrow> (PageAllocation \<times> 'a PageMem_scheme) option" where
  "basicAllocPages pages s =
     (if pages \<noteq> 0 then do {
        (p, chain, m) \<leftarrow> allocMemory [page_allocator s] (pmem s) (pages * PAGE_SIZE);
        Some (\<lparr>pa_ptr = p, pa_size = if p \<noteq> 0 then pages else 0\<rparr>,
              s\<lparr>page_allocator := hd chain, pmem := m\<rparr>) }
      else Some (\<lparr>pa_ptr = 0, pa_size = 0\<rparr>, s))"

partial_function (option) allocPages_reclaim ::
  "(priority \<Rightarrow> 'a PageMem_scheme \<Rightarrow> (bool \<times> 'a PageMem_scheme) option) \<Rightarrow> u64 \<Rightarrow> priority \<Rightarrow> PageAllocation
    \<Rightarrow> 'a PageMem_scheme \<Rightarrow> (PageAllocation \<times> 'a PageMem_scheme) option" where
  "allocPages_reclaim try_reclaim pages p alloc s = do {
     (b, s) \<leftarrow> try_reclaim p s;
     if b \<or> p > HIGHEST_PRIORITY then do {
       (alloc, s) \<leftarrow> basicAllocPages pages s;
       if pa_size alloc > 0 then Some (alloc, s)
       else allocPages_reclaim try_reclaim pages (if p > HIGHEST_PRIORITY then p - 1 else p) alloc s }
     else Some (alloc, s) }"

definition allocPages ::
  "(priority \<Rightarrow> 'a PageMem_scheme \<Rightarrow> (bool \<times> 'a PageMem_scheme) option) \<Rightarrow> u64 \<Rightarrow> 'a PageMem_scheme
    \<Rightarrow> (PageAllocation \<times> 'a PageMem_scheme) option" where
  "allocPages try_reclaim pages s = do {
     (alloc, s) \<leftarrow> basicAllocPages pages s;
     if pages \<noteq> 0 \<and> pa_size alloc = 0
     then allocPages_reclaim try_reclaim pages LOWEST_PRIORITY alloc s
     else Some (alloc, s) }"

definition allocPage where
  "allocPage try_reclaim s = map_option (map_prod pa_ptr id) (allocPages try_reclaim 1 s)"

definition deallocPages :: "u64 \<Rightarrow> u64 \<Rightarrow> PageAllocation \<Rightarrow> 'a PageMem_scheme \<Rightarrow> 'a PageMem_scheme option" where
  "deallocPages heap_start heap_end alloc s =
     (if pa_ptr alloc \<noteq> 0 \<and> pa_size alloc \<noteq> 0 then do {
        cassert (pa_ptr alloc \<ge> heap_start \<and> pa_ptr alloc \<le> heap_end);
        cassert (pa_ptr alloc + pa_size alloc * PAGE_SIZE \<ge> heap_start
                 \<and> pa_ptr alloc + pa_size alloc * PAGE_SIZE \<le> heap_end);
        (chain, m) \<leftarrow> deallocMemory [page_allocator s] (pmem s) (pa_ptr alloc) (pa_size alloc * PAGE_SIZE);
        Some (s\<lparr>page_allocator := hd chain, pmem := m\<rparr>) }
      else Some s)"

definition deallocPage where
  "deallocPage heap_start heap_end p s = deallocPages heap_start heap_end \<lparr>pa_ptr = p, pa_size = 1\<rparr> s"

definition zallocPages ::
  "(priority \<Rightarrow> 'a PageMem_scheme \<Rightarrow> (bool \<times> 'a PageMem_scheme) option) \<Rightarrow> u64 \<Rightarrow> 'a PageMem_scheme
    \<Rightarrow> (PageAllocation \<times> 'a PageMem_scheme) option" where
  "zallocPages try_reclaim pages s = do {
     (alloc, s) \<leftarrow> allocPages try_reclaim pages s;
     Some (alloc, s\<lparr>pmem := fst (memset (pmem s) (pa_ptr alloc) 0 (pa_size alloc * PAGE_SIZE))\<rparr>) }"

definition zallocPage where
  "zallocPage try_reclaim s = map_option (map_prod pa_ptr id) (zallocPages try_reclaim 1 s)"

definition initPageAllocator ::
  "(priority \<Rightarrow> 'a PageMem_scheme \<Rightarrow> (bool \<times> 'a PageMem_scheme) option) \<Rightarrow> u64 \<Rightarrow> u64 \<Rightarrow> 'a PageMem_scheme
    \<Rightarrow> 'a PageMem_scheme option" where
  "initPageAllocator try_reclaim heap_start heap_end s =
     (let start = (heap_start + PAGE_SIZE - 1) AND - PAGE_SIZE;
          end_addr = heap_end AND - PAGE_SIZE
      in do {
        cassert (end_addr \<ge> start);
        (chain, m) \<leftarrow> deallocMemory [page_allocator s] (pmem s) start (end_addr - start);
        (z, s) \<leftarrow> zallocPage try_reclaim (s\<lparr>page_allocator := hd chain, pmem := m\<rparr>);
        Some (s\<lparr>zero_page := z\<rparr>) })"

subsection \<open>Invariant\<close>

definition heap_bytes :: "u64 \<Rightarrow> u64 \<Rightarrow> nat set" where
  "heap_bytes hs he = {unat hs ..< unat he}"

definition page_free :: "'a PageMem_scheme \<Rightarrow> chunk list \<Rightarrow> bool" where
  "page_free s xs \<longleftrightarrow> free_list (page_allocator s) (pmem s) xs \<and> block_size (page_allocator s) = PAGE_SIZE"

definition page_owns :: "u64 \<Rightarrow> u64 \<Rightarrow> 'a PageMem_scheme \<Rightarrow> nat set \<Rightarrow> bool" where
  "page_owns hs he s F \<longleftrightarrow> F \<subseteq> heap_bytes hs he \<and> (\<exists>xs. page_free s xs \<and> covered xs = F)"

definition page_count :: "u64 \<Rightarrow> bool" where
  "page_count n \<longleftrightarrow> n \<noteq> 0 \<and> unat n < 2 ^ 51"

lemma page_bytes:
  assumes "page_count n"
  shows "unat (n * PAGE_SIZE) = unat n * 4096" "block_size al = PAGE_SIZE \<Longrightarrow> block_request al (n * PAGE_SIZE)"
proof -
  show u: "unat (n * PAGE_SIZE) = unat n * 4096"
    using assms by (simp add: page_count_def PAGE_SIZE_def unat_word_ariths)
  show "block_size al = PAGE_SIZE \<Longrightarrow> block_request al (n * PAGE_SIZE)"
    using assms u unfolding block_request_def mod_word_0
    by (auto simp: page_count_def PAGE_SIZE_def unat_eq_0 [symmetric] simp del: unat_eq_0)
qed

lemma basicAllocPages_spec:
  assumes "page_free s xs" "page_count n"
  shows "case take_fit (round_up_block (n * PAGE_SIZE + 16) PAGE_SIZE) (n * PAGE_SIZE) xs of
      None \<Rightarrow> basicAllocPages n s = Some (\<lparr>pa_ptr = 0, pa_size = 0\<rparr>, s)
    | Some (p, ys) \<Rightarrow> \<exists>al' m'. basicAllocPages n s = Some (\<lparr>pa_ptr = p, pa_size = n\<rparr>, s\<lparr>page_allocator := al', pmem := m'\<rparr>)
        \<and> page_free (s\<lparr>page_allocator := al', pmem := m'\<rparr>) ys \<and> same_except (cells xs \<union> cells ys) (pmem s) m'
        \<and> covered xs = bytes p (n * PAGE_SIZE) \<union> covered ys \<and> bytes p (n * PAGE_SIZE) \<inter> covered ys = {}
        \<and> chunk_ok 4096 (p, n * PAGE_SIZE) \<and> p \<noteq> 0"
proof -
  have s: "free_list (page_allocator s) (pmem s) xs" "block_size (page_allocator s) = PAGE_SIZE"
    using assms(1) by (auto simp: page_free_def)
  have u: "unat PAGE_SIZE = 4096" "16 \<le> unat (block_size (page_allocator s))" "n \<noteq> 0"
    using s(2) assms(2) by (auto simp: PAGE_SIZE_def page_count_def)
  note sp = allocMemory_spec [OF s(1) u(2) page_bytes(2) [OF assms(2) s(2)], unfolded s(2) u(1)]
  show ?thesis
  proof (cases "take_fit (round_up_block (n * PAGE_SIZE + 16) PAGE_SIZE) (n * PAGE_SIZE) xs")
    case None
    then show ?thesis using sp u(3) by (simp add: basicAllocPages_def)
  next
    case (Some r)
    obtain p ys where r: "r = (p, ys)" by (cases r)
    from sp obtain al' m' where
      "allocMemory [page_allocator s] (pmem s) (n * PAGE_SIZE) = Some (p, [al'], m')" "free_list al' m' ys"
      "block_size al' = PAGE_SIZE" "same_except (cells xs \<union> cells ys) (pmem s) m'"
      "covered xs = bytes p (n * PAGE_SIZE) \<union> covered ys" "bytes p (n * PAGE_SIZE) \<inter> covered ys = {}"
      "chunk_ok 4096 (p, n * PAGE_SIZE)" "p \<noteq> 0"
      using s(2) by (auto simp: Some r same_params_block_size)
    then show ?thesis
      using u(3) unfolding Some r option.case prod.case
      by (intro exI [of _ al'] exI [of _ m']) (simp add: basicAllocPages_def page_free_def)
  qed
qed

lemma deallocPages_spec:
  assumes "page_free s xs" "page_count n" "chunk_ok 4096 (p, n * PAGE_SIZE)" "p \<noteq> 0"
    "bytes p (n * PAGE_SIZE) \<inter> covered xs = {}" "unat hs \<le> unat p" "unat p + unat n * 4096 \<le> unat he"
  shows "\<exists>al' m'. deallocPages hs he \<lparr>pa_ptr = p, pa_size = n\<rparr> s = Some (s\<lparr>page_allocator := al', pmem := m'\<rparr>)
    \<and> page_free (s\<lparr>page_allocator := al', pmem := m'\<rparr>) (ins (p, n * PAGE_SIZE) xs)
    \<and> covered (ins (p, n * PAGE_SIZE) xs) = bytes p (n * PAGE_SIZE) \<union> covered xs
    \<and> same_except (cells xs \<union> {p, p + 8}) (pmem s) m'"
proof -
  have s: "free_list (page_allocator s) (pmem s) xs" "block_size (page_allocator s) = PAGE_SIZE" "unat PAGE_SIZE = 4096"
    using assms(1) by (auto simp: page_free_def PAGE_SIZE_def)
  have n: "n \<noteq> 0" using assms(2) by (simp add: page_count_def)
  have "unat (p + n * PAGE_SIZE) = unat p + unat n * 4096"
    using assms(3) page_bytes(1) [OF assms(2)] by (subst unat_add_64) (simp_all add: chunk_ok_def)
  then have b: "hs \<le> p" "p \<le> he" "hs \<le> p + n * PAGE_SIZE" "p + n * PAGE_SIZE \<le> he"
    using assms(6,7) by (simp_all add: word_le_nat_alt)
  have "chunk_ok (unat (block_size (page_allocator s))) (p, n * PAGE_SIZE)" using assms(3) s by simp
  from deallocMemory_spec [OF s(1) this assms(4,5)] obtain al' m' where
    "deallocMemory [page_allocator s] (pmem s) p (n * PAGE_SIZE) = Some ([al'], m')"
    "free_list al' m' (ins (p, n * PAGE_SIZE) xs)" "block_size al' = PAGE_SIZE"
    "same_except (cells xs \<union> {p, p + 8}) (pmem s) m'"
    "covered (ins (p, n * PAGE_SIZE) xs) = bytes p (n * PAGE_SIZE) \<union> covered xs"
    using s(2) by (auto simp: same_params_block_size)
  then show ?thesis
    using b n assms(4) by (intro exI [of _ al'] exI [of _ m']) (simp add: deallocPages_def page_free_def)
qed

lemma page_bytes_div: "unat n mod 4096 = 0 \<Longrightarrow> n div PAGE_SIZE * PAGE_SIZE = n"
  by (rule u64_eqI) (auto simp: PAGE_SIZE_def unat_div unat_word_ariths)

definition page_region :: "u64 \<Rightarrow> u64 \<Rightarrow> u64 \<Rightarrow> u64 \<Rightarrow> bool" where
  "page_region hs he p n \<longleftrightarrow> chunk_ok 4096 (p, n) \<and> p \<noteq> 0 \<and> unat n < 2 ^ 63 \<and> unat hs \<le> unat p \<and> unat p + unat n \<le> unat he"

definition page_request :: "u64 \<Rightarrow> bool" where
  "page_request n \<longleftrightarrow> n \<noteq> 0 \<and> unat n mod 4096 = 0 \<and> unat n < 2 ^ 63"

definition page_get :: "'a PageMem_scheme \<Rightarrow> u64 \<Rightarrow> (u64 \<times> 'a PageMem_scheme) option" where
  "page_get s n = map_option (map_prod pa_ptr id) (basicAllocPages (n div PAGE_SIZE) s)"

definition page_put :: "u64 \<Rightarrow> u64 \<Rightarrow> 'a PageMem_scheme \<Rightarrow> u64 \<Rightarrow> u64 \<Rightarrow> 'a PageMem_scheme option" where
  "page_put hs he s p n = deallocPages hs he \<lparr>pa_ptr = p, pa_size = n div PAGE_SIZE\<rparr> s"

definition page_writes :: "'a PageMem_scheme \<Rightarrow> nat set \<Rightarrow> 'a PageMem_scheme \<Rightarrow> bool" where
  "page_writes s A s' \<longleftrightarrow> page_allocator s' = page_allocator s \<and> (\<forall>b. unat b \<notin> A \<longrightarrow> pmem s' b = pmem s b)"

lemma page_count_div:
  assumes "n \<noteq> 0" "unat n mod 4096 = 0" "unat n < 2 ^ 63"
  shows "page_count (n div PAGE_SIZE)" "n div PAGE_SIZE * PAGE_SIZE = n" "unat (n div PAGE_SIZE) * 4096 = unat n"
proof -
  show e: "n div PAGE_SIZE * PAGE_SIZE = n" using assms(2) by (rule page_bytes_div)
  show "unat (n div PAGE_SIZE) * 4096 = unat n" using assms(2) by (auto simp: unat_div PAGE_SIZE_def)
  have "n div PAGE_SIZE \<noteq> 0" using e assms(1) by auto
  then show "page_count (n div PAGE_SIZE)" using assms(3) by (simp add: page_count_def unat_div PAGE_SIZE_def)
qed

lemma page_free_covered_cells:
  assumes "chunks_ok bs lo xs" "8 dvd bs" "c \<in> cells xs" "in_region c 8 b"
  shows "unat b \<in> covered xs"
  using assms(1,3)
proof (induction xs arbitrary: lo)
  case (Cons x xs)
  obtain a t where x: "x = (a, t)" by (cases x)
  have a: "unat (a + 8) = unat a + 8" "16 \<le> unat t" "unat a + unat t < 2 ^ 64"
    using Cons.prems assms(2) chunk_okD(3) [of bs a t] by (auto simp: x chunk_ok_def)
  consider "c = a" | "c = a + 8" | "c \<in> cells xs" using Cons.prems(2) by (auto simp: x)
  then show ?case
  proof cases
    case 1
    then have "unat a \<le> unat b \<and> unat b < unat a + 8" using in_region_iff [of c 8 b] a assms(4) by simp
    then show ?thesis using a by (simp add: x bytes_def)
  next
    case 2
    then have "unat a + 8 \<le> unat b \<and> unat b < unat a + 16" using in_region_iff [of c 8 b] a assms(4) by simp
    then show ?thesis using a by (simp add: x bytes_def)
  next
    case 3
    then show ?thesis using Cons by (auto simp: x)
  qed
qed simp

lemma page_free_writes:
  assumes "page_free s xs" "page_writes s A s'" "A \<inter> covered xs = {}"
  shows "page_free s' xs"
proof -
  have h: "flist (page_allocator s) (pmem s) First xs" "chunks_ok (unat (block_size (page_allocator s))) 0 xs"
    "8 dvd unat (block_size (page_allocator s))"
    using assms(1) by (auto simp: page_free_def free_list_def)
  let ?C = "{c. aligned8 c \<and> c \<notin> cells xs}"
  have "same_except ?C (pmem s) (pmem s')"
    unfolding same_except_def
  proof (intro allI impI)
    fix b assume b: "\<forall>c\<in>?C. \<not> in_region c 8 b"
    let ?c = "b - b mod 8"
    have m: "unat (b mod 8) = unat b mod 8" by (simp add: unat_mod_64)
    then have "unat ?c = unat b - unat b mod 8" by (simp add: unat_sub_64)
    then have "aligned8 ?c" by (simp add: aligned8_def minus_mod_eq_mult_div)
    moreover have i: "in_region ?c 8 b" using m by (simp add: in_region_def)
    ultimately have "?c \<in> cells xs" using b by auto
    then have "unat b \<in> covered xs" using page_free_covered_cells [OF h(2,3) _ i] by simp
    then show "pmem s' b = pmem s b" using assms(2,3) by (auto simp: page_writes_def)
  qed
  then have "flist (page_allocator s') (pmem s') First xs"
    using assms(2) by (intro flist_frame [OF h]) (auto simp: get_slot_def page_writes_def)
  then show ?thesis using assms(1,2) by (auto simp: page_free_def free_list_def page_writes_def)
qed

interpretation pages: region_allocator "page_owns hs he" page_request page_get "page_put hs he" page_writes "page_region hs he"
proof
  fix s :: "'a PageMem_scheme" and F n
  assume o: "page_owns hs he s F" and n: "page_request n"
  then obtain xs where xs: "page_free s xs" "covered xs = F" "F \<subseteq> heap_bytes hs he" by (auto simp: page_owns_def)
  note d = page_count_div [of n, OF _ _ _]
  have n': "n \<noteq> 0" "unat n mod 4096 = 0" "unat n < 2 ^ 63" using n by (auto simp: page_request_def)
  note d = page_count_div [OF n']
  note sp = basicAllocPages_spec [OF xs(1) d(1), unfolded d(2)]
  show "\<exists>p s' F'. page_get s n = Some (p, s') \<and> page_owns hs he s' F'
      \<and> (if p = 0 then F' = F else page_region hs he p n \<and> bytes p n \<subseteq> F \<and> F' = F - bytes p n)"
  proof (cases "take_fit (round_up_block (n + 16) PAGE_SIZE) n xs")
    case None
    then show ?thesis using sp o by (simp add: page_get_def)
  next
    case (Some r)
    obtain p ys where r: "r = (p, ys)" by (cases r)
    from sp obtain al' m' where a: "basicAllocPages (n div PAGE_SIZE) s =
        Some (\<lparr>pa_ptr = p, pa_size = n div PAGE_SIZE\<rparr>, s\<lparr>page_allocator := al', pmem := m'\<rparr>)"
      "page_free (s\<lparr>page_allocator := al', pmem := m'\<rparr>) ys" "covered xs = bytes p n \<union> covered ys"
      "bytes p n \<inter> covered ys = {}" "chunk_ok 4096 (p, n)" "p \<noteq> 0"
      by (auto simp: Some r)
    have sub: "bytes p n \<subseteq> F" "covered ys = F - bytes p n" using a(3,4) xs(2) by auto
    have "unat hs \<le> unat p \<and> unat p + unat n \<le> unat he"
      using subset_trans [OF sub(1) xs(3)] n'(1) unat_gt_0 [of n]
      by (simp add: bytes_def heap_bytes_def ivl_subset)
    then have "page_region hs he p n" using a(5,6) n'(3) by (simp add: page_region_def)
    moreover have "page_owns hs he (s\<lparr>page_allocator := al', pmem := m'\<rparr>) (F - bytes p n)"
      using a(2) sub(2) xs(3) by (auto simp: page_owns_def)
    ultimately show ?thesis using a(1,6) sub(1) by (simp add: page_get_def)
  qed
next
  fix s :: "'a PageMem_scheme" and F p n
  assume "page_owns hs he s F" and r: "page_region hs he p n" and dj: "bytes p n \<inter> F = {}"
  then obtain xs where xs: "page_free s xs" "covered xs = F" "F \<subseteq> heap_bytes hs he" by (auto simp: page_owns_def)
  have r': "chunk_ok 4096 (p, n)" "p \<noteq> 0" "n \<noteq> 0" "unat n mod 4096 = 0" "unat n < 2 ^ 63" "unat hs \<le> unat p"
    "unat p + unat n \<le> unat he" using r by (auto simp: page_region_def chunk_ok_def)
  note d = page_count_div [OF r'(3-5)]
  from deallocPages_spec [OF xs(1) d(1), unfolded d, OF r'(1,2) _ r'(6,7)] obtain al' m' where
    "page_put hs he s p n = Some (s\<lparr>page_allocator := al', pmem := m'\<rparr>)"
    "page_free (s\<lparr>page_allocator := al', pmem := m'\<rparr>) (ins (p, n) xs)"
    "covered (ins (p, n) xs) = bytes p n \<union> covered xs"
    using dj xs(2) by (auto simp: page_put_def)
  moreover have "bytes p n \<subseteq> heap_bytes hs he" using r'(6,7) by (auto simp: bytes_def heap_bytes_def)
  ultimately show "\<exists>s'. page_put hs he s p n = Some s' \<and> page_owns hs he s' (F \<union> bytes p n)"
    using xs(2,3) by (auto simp: page_owns_def)
next
  fix s s' :: "'a PageMem_scheme" and F A
  assume "page_owns hs he s F" "page_writes s A s'" "A \<inter> F = {}"
  then show "page_owns hs he s' F" by (auto simp: page_owns_def intro: page_free_writes)
qed

subsection \<open>Properties\<close>

text \<open>
  Property C1 (page_clients_safe). Whatever sequence of allocations, releases of regions it holds
  and writes to them a client makes from a state whose free pages are \<open>H\<close>: the regions it holds
  never overlap, none of them overlaps free memory, and free and held memory together are
  exactly \<open>H\<close>, so no page is lost or handed out twice.
\<close>

theorem page_clients_safe:
  assumes "page_owns hs he s H" "(pages.client hs he)\<^sup>*\<^sup>* (s, []) (s', live)"
  shows "disjoint_regions live \<and> (\<exists>xs. page_free s' xs \<and> covered xs \<inter> live_bytes live = {}
    \<and> covered xs \<union> live_bytes live = H)"
proof -
  have "pages.accounted hs he H (s, [])" using assms(1) by (simp add: pages.accounted_def)
  from pages.clients_keep_accounted [OF assms(2) this] show ?thesis
    by (auto simp: pages.accounted_def page_owns_def)
qed

definition example_heap :: PageMem where
  "example_heap = \<lparr>page_allocator = init_page_allocator\<lparr>first_free := 0x80001000\<rparr>,
     pmem = store64 (store64 (\<lambda>_. 0) 0x80001000 0x3000) 0x80001008 0, zero_page = 0\<rparr>"

lemma example_heap_free: "page_free example_heap [(0x80001000, 0x3000)]"
  by (simp add: page_free_def free_list_def example_heap_def init_page_allocator_def PAGE_SIZE_def
      get_slot_def fm_defs load64_store64 aligned8_def chunk_ok_def)

lemma example_heap_owns: "page_owns 0x80000000 0x80004000 example_heap {0x80001000..<0x80004000}"
  using example_heap_free
  by (auto simp: page_owns_def heap_bytes_def bytes_def intro!: exI [of _ "[(0x80001000, 0x3000)]"])


lemmas page_eval = page_get_def basicAllocPages_def allocMemory.simps basicAllocMemory.simps
  findFreeMemoryThatFits_def findFreeMemoryThatFits_loop.simps [of _ _ First] takeFreeMemory_def
  example_heap_def init_page_allocator_def PAGE_SIZE_def get_slot_def fm_defs set_slot_def
  round_up_block_def MINIMUM_FREE_def load64_store64 aligned8_def

lemma example_heap_get: "\<exists>s'. page_get example_heap 0x1000 = Some (0x80001000, s')"
  by (simp add: page_eval)

text \<open>Witness: a client allocates one page of a heap with three free pages.\<close>

theorem page_clients_safe_witness:
  "\<exists>s' xs. (pages.client 0x80000000 0x80004000)\<^sup>*\<^sup>* (example_heap, []) (s', [(0x80001000, 0x1000)])
     \<and> page_free s' xs \<and> covered xs \<inter> bytes 0x80001000 0x1000 = {}
     \<and> covered xs \<union> bytes 0x80001000 0x1000 = {0x80001000..<0x80004000}"
proof -
  obtain s' where "page_get example_heap 0x1000 = Some (0x80001000, s')" using example_heap_get by blast
  then have "pages.client 0x80000000 0x80004000 (example_heap, [])
      (s', if (0x80001000 :: u64) = 0 then [] else [(0x80001000, 0x1000)])"
    by (intro pages.allocate) (simp_all add: page_request_def)
  then have "(pages.client 0x80000000 0x80004000)\<^sup>*\<^sup>* (example_heap, []) (s', [(0x80001000, 0x1000)])" by simp
  then show ?thesis using page_clients_safe [OF example_heap_owns] by fastforce
qed

text \<open>
  Property C2 (page_alloc_release). On a well-formed heap \<open>basicAllocPages(n)\<close> returns. It fails
  exactly when no free chunk has \<open>n\<close> pages and then leaves the heap as it was. Otherwise
  \<open>deallocPages\<close> of the result returns and the free list is, chunk for chunk, what it was
  before the allocation: splitting and merging are inverse.
\<close>

theorem page_alloc_release:
  assumes "page_free s xs" "page_count n" "covered xs \<subseteq> heap_bytes hs he"
  shows "\<exists>a s1. basicAllocPages n s = Some (a, s1) \<and>
    (if \<forall>(p, t)\<in>set xs. t < n * PAGE_SIZE then a = \<lparr>pa_ptr = 0, pa_size = 0\<rparr> \<and> s1 = s
     else pa_size a = n \<and> bytes (pa_ptr a) (n * PAGE_SIZE) \<subseteq> covered xs
       \<and> (\<exists>s2. deallocPages hs he a s1 = Some s2 \<and> page_free s2 xs))"
proof (cases "take_fit (round_up_block (n * PAGE_SIZE + 16) PAGE_SIZE) (n * PAGE_SIZE) xs")
  case None
  then show ?thesis using basicAllocPages_spec [OF assms(1,2)] take_fit_None [of _ "n * PAGE_SIZE" xs] by auto
next
  case (Some r)
  obtain p ys where r: "r = (p, ys)" by (cases r)
  from basicAllocPages_spec [OF assms(1,2)] obtain al' m' where
    a: "basicAllocPages n s = Some (\<lparr>pa_ptr = p, pa_size = n\<rparr>, s\<lparr>page_allocator := al', pmem := m'\<rparr>)"
      "page_free (s\<lparr>page_allocator := al', pmem := m'\<rparr>) ys"
      "covered xs = bytes p (n * PAGE_SIZE) \<union> covered ys" "bytes p (n * PAGE_SIZE) \<inter> covered ys = {}"
      "chunk_ok 4096 (p, n * PAGE_SIZE)" "p \<noteq> 0"
    by (auto simp: Some r)
  have "bytes p (n * PAGE_SIZE) \<subseteq> heap_bytes hs he" using a(3) assms(3) by auto
  moreover have u: "unat (n * PAGE_SIZE) = unat n * 4096" using page_bytes(1) [OF assms(2)] .
  moreover have "0 < unat n" using assms(2) by (simp add: page_count_def unat_gt_0)
  ultimately have "unat hs \<le> unat p \<and> unat p + unat n * 4096 \<le> unat he"
    by (simp add: bytes_def heap_bytes_def ivl_subset)
  with deallocPages_spec [OF a(2) assms(2) a(5,6,4), of hs he] obtain s2 where
    d: "deallocPages hs he \<lparr>pa_ptr = p, pa_size = n\<rparr> (s\<lparr>page_allocator := al', pmem := m'\<rparr>) = Some s2"
      "page_free s2 (ins (p, n * PAGE_SIZE) ys)" "covered (ins (p, n * PAGE_SIZE) ys) = covered xs"
    using a(3) by auto
  have "ins (p, n * PAGE_SIZE) ys = xs"
    using d(2,3) assms(1) by (intro covered_inj) (auto simp: page_free_def free_list_def)
  moreover have "\<not> (\<forall>(p, t)\<in>set xs. t < n * PAGE_SIZE)"
    using take_fit_None [of "round_up_block (n * PAGE_SIZE + 16) PAGE_SIZE" "n * PAGE_SIZE" xs] Some by simp
  ultimately show ?thesis using a d by auto
qed

text \<open>Witness: two pages of the three free pages.\<close>

theorem page_alloc_release_witness:
  "\<exists>a s1 s2. basicAllocPages 2 example_heap = Some (a, s1) \<and> pa_size a = 2
     \<and> deallocPages 0x80000000 0x80004000 a s1 = Some s2 \<and> page_free s2 [(0x80001000, 0x3000)]"
proof -
  have "covered [(0x80001000, 0x3000)] \<subseteq> heap_bytes 0x80000000 0x80004000" by (simp add: heap_bytes_def bytes_def)
  from page_alloc_release [OF example_heap_free _ this, of 2] show ?thesis
    by (auto simp: page_count_def PAGE_SIZE_def)
qed

text \<open>
  Releasing pages that are free, wholly or in part, never returns:
  the overlap assertion of \<open>insertFreeMemory\<close> fails.
\<close>

theorem page_double_free:
  assumes "page_free s xs" "page_count n" "p mod PAGE_SIZE = 0" "unat p + unat n * 4096 < 2 ^ 64" "p \<noteq> 0"
    "bytes p (n * PAGE_SIZE) \<inter> covered xs \<noteq> {}"
  shows "deallocPages hs he \<lparr>pa_ptr = p, pa_size = n\<rparr> s = None"
proof -
  have "deallocMemory [page_allocator s] (pmem s) p (n * PAGE_SIZE) = None"
  proof (rule deallocMemory_double_free)
    show "free_list (page_allocator s) (pmem s) xs" "p mod block_size (page_allocator s) = 0"
      "16 \<le> unat (block_size (page_allocator s))" "bytes p (n * PAGE_SIZE) \<inter> covered xs \<noteq> {}"
      using assms by (auto simp: page_free_def PAGE_SIZE_def)
    show "n * PAGE_SIZE mod block_size (page_allocator s) = 0" "unat p + unat (n * PAGE_SIZE) < 2 ^ 64"
      using assms page_bytes(1) [OF assms(2)] page_bytes(2) [OF assms(2), of "page_allocator s"] by (auto simp: page_free_def block_request_def)
  qed
  then show ?thesis using assms(2,5) by (simp add: deallocPages_def page_count_def cassert_def)
qed

theorem page_double_free_witness:
  "deallocPages 0x80000000 0x80004000 \<lparr>pa_ptr = 0x80002000, pa_size = 1\<rparr> example_heap = None"
  by (rule page_double_free [OF example_heap_free]) (simp_all add: page_count_def PAGE_SIZE_def bytes_def)

subsection \<open>Reclaiming memory\<close>

text \<open>
  \<open>reclaim_ok\<close>: what the loop of \<open>allocPages\<close> relies on in a reclaim function. It returns, keeps the
  allocator well formed, and reports success only when the amount \<open>\<mu>\<close> of reclaimable memory
  went down.
\<close>

definition reclaim_ok where
  "reclaim_ok J \<mu> tr \<longleftrightarrow> (\<forall>p s. J s \<longrightarrow> (\<exists>xs. page_free s xs) \<and>
     (\<exists>b s'. tr p s = Some (b, s') \<and> J s' \<and> (\<mu> s' :: nat) \<le> \<mu> s \<and> (b \<longrightarrow> \<mu> s' < \<mu> s)))"

lemma reclaim_okD:
  assumes "reclaim_ok J \<mu> tr" "J s"
  obtains b s' where "tr p s = Some (b, s')" "J s'" "\<mu> s' \<le> \<mu> s" "b \<longrightarrow> \<mu> s' < \<mu> s"
  using assms unfolding reclaim_ok_def by meson

lemma basicAllocPages_cases:
  assumes "page_free s xs" "page_count n"
  shows "basicAllocPages n s = Some (\<lparr>pa_ptr = 0, pa_size = 0\<rparr>, s)
    \<or> (\<exists>p s'. basicAllocPages n s = Some (\<lparr>pa_ptr = p, pa_size = n\<rparr>, s') \<and> p \<noteq> 0)"
  using basicAllocPages_spec [OF assms] by (auto split: option.splits)

lemma allocPages_reclaim_returns:
  assumes ok: "reclaim_ok J \<mu> tr" and n: "page_count n" and i: "J s"
  shows "\<exists>a s'. allocPages_reclaim tr n p \<lparr>pa_ptr = 0, pa_size = 0\<rparr> s = Some (a, s') \<and>
    (pa_size a = n \<and> pa_ptr a \<noteq> 0
     \<or> a = \<lparr>pa_ptr = 0, pa_size = 0\<rparr> \<and> J s' \<and> (\<exists>s0. tr HIGHEST_PRIORITY s0 = Some (False, s')))"
  using i
proof (induction "\<mu> s * 256 + unat p" arbitrary: s p rule: less_induct)
  case less
  from ok less.prems obtain b s1 where r: "tr p s = Some (b, s1)" "J s1" "\<mu> s1 \<le> \<mu> s" "b \<longrightarrow> \<mu> s1 < \<mu> s"
    by (rule reclaim_okD)
  show ?case
  proof (cases "b \<or> p > HIGHEST_PRIORITY")
    case False
    then have "p = HIGHEST_PRIORITY" "\<not> b" by (auto simp: HIGHEST_PRIORITY_def word_gt_0)
    then show ?thesis using r by (subst allocPages_reclaim.simps) auto
  next
    case True
    obtain xs where xs: "page_free s1 xs" using ok r(2) by (auto simp: reclaim_ok_def)
    show ?thesis
      using basicAllocPages_cases [OF xs n]
    proof (elim disjE exE conjE)
      assume 1: "basicAllocPages n s1 = Some (\<lparr>pa_ptr = 0, pa_size = 0\<rparr>, s1)"
      let ?p = "if p > HIGHEST_PRIORITY then p - 1 else p"
      have "unat ?p \<le> unat p" "\<not> b \<Longrightarrow> unat ?p < unat p"
        using True by (auto simp: HIGHEST_PRIORITY_def unat_minus_one word_gt_0 unat_gt_0)
      moreover have "unat ?p < 256" using unsigned_less [of ?p] by simp
      ultimately have "\<mu> s1 * 256 + unat ?p < \<mu> s * 256 + unat p"
        using r(3,4) by (cases b) auto
      from less.hyps [OF this r(2)] show ?thesis
        using True r(1) 1 by (subst allocPages_reclaim.simps) (simp add: word_gt_0)
    next
      fix q s' assume "basicAllocPages n s1 = Some (\<lparr>pa_ptr = q, pa_size = n\<rparr>, s')" "q \<noteq> 0"
      moreover have "n > 0" using n by (simp add: page_count_def word_gt_0)
      ultimately show ?thesis using True r(1) by (subst allocPages_reclaim.simps) auto
    qed
  qed
qed



subsection \<open>Initialisation\<close>

lemma and_minus_page: "unat (x AND - PAGE_SIZE) = unat x div 4096 * 4096"
  using unat_and_minus_exp [of x 12] by (simp add: PAGE_SIZE_def)

text \<open>An allocation of one page takes it from the first chunk; a zeroed one clears it.\<close>

lemma allocPage_head:
  assumes "page_free s ((p, t) # xs)"
  shows "\<exists>al' m' ys. allocPages tr 1 s = Some (\<lparr>pa_ptr = p, pa_size = 1\<rparr>, s\<lparr>page_allocator := al', pmem := m'\<rparr>)
    \<and> page_free (s\<lparr>page_allocator := al', pmem := m'\<rparr>) ys
    \<and> covered ((p, t) # xs) = bytes p PAGE_SIZE \<union> covered ys \<and> bytes p PAGE_SIZE \<inter> covered ys = {}
    \<and> (\<forall>b. unat b \<notin> covered ((p, t) # xs) \<longrightarrow> m' b = pmem s b) \<and> chunk_ok 4096 (p, PAGE_SIZE) \<and> p \<noteq> 0"
proof -
  have pc: "page_count 1" by (simp add: page_count_def)
  have bs: "unat PAGE_SIZE = 4096" by (simp add: PAGE_SIZE_def)
  have c: "chunk_ok 4096 (p, t)" using assms bs by (auto simp: page_free_def free_list_def)
  then have "PAGE_SIZE \<le> t" by (auto simp: chunk_ok_def word_le_nat_alt bs intro!: dvd_imp_le)
  then obtain ys where tf: "take_fit (round_up_block (1 * PAGE_SIZE + 16) PAGE_SIZE) (1 * PAGE_SIZE) ((p, t) # xs) = Some (p, ys)"
    by simp
  from basicAllocPages_spec [OF assms pc, unfolded tf option.case prod.case] obtain al' m' where
    a: "basicAllocPages 1 s = Some (\<lparr>pa_ptr = p, pa_size = 1\<rparr>, s\<lparr>page_allocator := al', pmem := m'\<rparr>)"
      "page_free (s\<lparr>page_allocator := al', pmem := m'\<rparr>) ys" "covered ((p, t) # xs) = bytes p PAGE_SIZE \<union> covered ys"
      "bytes p PAGE_SIZE \<inter> covered ys = {}" "chunk_ok 4096 (p, PAGE_SIZE)" "p \<noteq> 0"
      "same_except (cells ((p, t) # xs) \<union> cells ys) (pmem s) m'"
    by auto
  have h: "chunks_ok 4096 0 ((p, t) # xs)" "chunks_ok 4096 0 ys"
    using assms a(2) bs by (auto simp: page_free_def free_list_def)
  have fr: "m' b = pmem s b" if b: "unat b \<notin> covered ((p, t) # xs)" for b
  proof -
    have "\<not> in_region c 8 b" if "c \<in> cells ((p, t) # xs) \<union> cells ys" for c
      using that
    proof
      assume "c \<in> cells ((p, t) # xs)"
      then show ?thesis using page_free_covered_cells [OF h(1), of c b] b by auto
    next
      assume "c \<in> cells ys"
      then show ?thesis using page_free_covered_cells [OF h(2), of c b] b unfolding a(3) by auto
    qed
    then show ?thesis using a(7) by (auto simp: same_except_def)
  qed
  have "allocPages tr 1 s = Some (\<lparr>pa_ptr = p, pa_size = 1\<rparr>, s\<lparr>page_allocator := al', pmem := m'\<rparr>)"
    using a(1) by (simp add: allocPages_def)
  then show ?thesis using a(2-6) fr by blast
qed

lemma in_region_page: "chunk_ok 4096 (p, PAGE_SIZE) \<Longrightarrow> in_region p 4096 b \<longleftrightarrow> unat b \<in> bytes p PAGE_SIZE"
  by (subst in_region_iff) (auto simp: chunk_ok_def bytes_def PAGE_SIZE_def)

lemma zallocPage_head:
  assumes "page_free s ((p, t) # xs)"
  shows "\<exists>al' m' ys. zallocPage tr s = Some (p, s\<lparr>page_allocator := al', pmem := m'\<rparr>)
    \<and> page_free (s\<lparr>page_allocator := al', pmem := m'\<rparr>) ys
    \<and> covered ((p, t) # xs) = bytes p PAGE_SIZE \<union> covered ys \<and> bytes p PAGE_SIZE \<inter> covered ys = {}
    \<and> (\<forall>b. unat b \<in> bytes p PAGE_SIZE \<longrightarrow> m' b = 0)
    \<and> (\<forall>b. unat b \<notin> covered ((p, t) # xs) \<longrightarrow> m' b = pmem s b) \<and> chunk_ok 4096 (p, PAGE_SIZE) \<and> p \<noteq> 0"
proof -
  from allocPage_head [OF assms, of tr] obtain al' m' ys where
    a: "allocPages tr 1 s = Some (\<lparr>pa_ptr = p, pa_size = 1\<rparr>, s\<lparr>page_allocator := al', pmem := m'\<rparr>)"
      "page_free (s\<lparr>page_allocator := al', pmem := m'\<rparr>) ys" "covered ((p, t) # xs) = bytes p PAGE_SIZE \<union> covered ys"
      "bytes p PAGE_SIZE \<inter> covered ys = {}" "\<forall>b. unat b \<notin> covered ((p, t) # xs) \<longrightarrow> m' b = pmem s b"
      "chunk_ok 4096 (p, PAGE_SIZE)" "p \<noteq> 0"
    by blast
  let ?m = "fst (memset m' p 0 PAGE_SIZE)"
  have bs: "unat PAGE_SIZE = 4096" by (simp add: PAGE_SIZE_def)
  have z: "unat b \<in> bytes p PAGE_SIZE \<longrightarrow> ?m b = 0" "unat b \<notin> bytes p PAGE_SIZE \<longrightarrow> ?m b = m' b" for b
    using in_region_page [OF a(6)] by (simp_all add: memset_spec fill_def bs)
  have "page_free (s\<lparr>page_allocator := al', pmem := ?m\<rparr>) ys"
    using z(2) a(4) by (intro page_free_writes [OF a(2), of "bytes p PAGE_SIZE"]) (auto simp: page_writes_def)
  moreover have "zallocPage tr s = Some (p, s\<lparr>page_allocator := al', pmem := ?m\<rparr>)"
    using a(1) by (simp add: zallocPage_def zallocPages_def)
  moreover have "\<forall>b. unat b \<notin> covered ((p, t) # xs) \<longrightarrow> ?m b = pmem s b" using z(2) a(5) unfolding a(3) by simp
  ultimately show ?thesis using a(3,4,6,7) z(1) by blast
qed

text \<open>
  Property C36 (initPageAllocator_correct). From the statically initialised allocator and a heap
  \<open>[hs, he)\<close> that contains a whole page, \<open>initPageAllocator\<close> returns with a well-formed allocator
  that owns every whole page of the heap but the zero page, and the zero page is all zeros.
\<close>

theorem initPageAllocator_correct:
  assumes "page_allocator s = init_page_allocator" "0 < unat hs" "unat hs + 4096 \<le> 2 ^ 64"
    and lo: "lo = (unat hs + 4095) div 4096 * 4096" and hi: "hi = unat he div 4096 * 4096" and "lo < hi"
  shows "\<exists>s'. initPageAllocator tr hs he s = Some s' \<and> page_owns hs he s' {lo + 4096 ..< hi}
    \<and> unat (zero_page s') = lo \<and> (\<forall>b. lo \<le> unat b \<longrightarrow> unat b < lo + 4096 \<longrightarrow> pmem s' b = 0)"
proof -
  let ?start = "(hs + PAGE_SIZE - 1) AND - PAGE_SIZE" and ?end_addr = "he AND - PAGE_SIZE"
  have bs: "unat PAGE_SIZE = 4096" by (simp add: PAGE_SIZE_def)
  have "hs + PAGE_SIZE - 1 = hs + 4095" by (simp add: PAGE_SIZE_def)
  moreover have "unat (hs + 4095) = unat hs + 4095" using assms(3) unat_add_64 [of hs 4095] by simp
  ultimately have st: "unat ?start = lo" by (simp only: and_minus_page lo)
  have en: "unat ?end_addr = hi" by (simp add: and_minus_page hi)
  have le: "?start \<le> ?end_addr" using st en assms(6) by (simp add: word_le_nat_alt)
  have sz: "unat (?end_addr - ?start) = hi - lo" using st en assms(6) by (simp add: unat_sub_64)
  have bounds: "unat hs \<le> lo" "hi \<le> unat he" "4096 dvd lo" "4096 dvd hi" "lo + 4096 \<le> hi"
  proof -
    show "unat hs \<le> lo" using round_up_nat(1) [of 4096 "unat hs"] by (simp add: lo)
    show d: "4096 dvd lo" "4096 dvd hi" "hi \<le> unat he" by (simp_all add: lo hi)
    have "4096 dvd hi - lo" using d by (simp add: dvd_diff_nat)
    then show "lo + 4096 \<le> hi" using assms(6) by (auto dest: dvd_imp_le)
  qed
  have ck: "chunk_ok 4096 (?start, ?end_addr - ?start)"
    using bounds st sz assms(6) en unat_less_2p64 [of ?end_addr] by (auto simp: chunk_ok_def dvd_diff_nat)
  have nz: "?start \<noteq> 0" using st bounds(1) assms(2) by auto
  have fl: "free_list (page_allocator s) (pmem s) []"
    by (simp add: assms(1) free_list_def init_page_allocator_def get_slot_def PAGE_SIZE_def)
  have bl: "block_size (page_allocator s) = PAGE_SIZE" by (simp add: assms(1) init_page_allocator_def)
  from deallocMemory_spec [OF fl, of ?start "?end_addr - ?start"] obtain al1 m1 where
    d: "deallocMemory [page_allocator s] (pmem s) ?start (?end_addr - ?start) = Some ([al1], m1)"
      "free_list al1 m1 [(?start, ?end_addr - ?start)]" "block_size al1 = PAGE_SIZE"
    using ck nz bl bs by (auto simp: same_params_block_size)
  let ?s1 = "s\<lparr>page_allocator := al1, pmem := m1\<rparr>"
  have "page_free ?s1 [(?start, ?end_addr - ?start)]" using d by (simp add: page_free_def)
  from zallocPage_head [OF this] obtain al' m' ys where
    z: "zallocPage tr ?s1 = Some (?start, ?s1\<lparr>page_allocator := al', pmem := m'\<rparr>)"
      "page_free (?s1\<lparr>page_allocator := al', pmem := m'\<rparr>) ys"
      "covered [(?start, ?end_addr - ?start)] = bytes ?start PAGE_SIZE \<union> covered ys"
      "bytes ?start PAGE_SIZE \<inter> covered ys = {}" "\<forall>b. unat b \<in> bytes ?start PAGE_SIZE \<longrightarrow> m' b = 0"
    by blast
  have by1: "bytes ?start PAGE_SIZE = {lo..<lo + 4096}" "bytes ?start (?end_addr - ?start) = {lo..<hi}"
    using bounds(5) by (simp_all add: bytes_def st bs sz)
  have cov: "covered ys = {lo + 4096..<hi}"
  proof -
    have "covered ys = {lo..<hi} - {lo..<lo + 4096}" using z(3,4) by1 by auto
    then show ?thesis using bounds(5) by auto
  qed
  let ?s' = "?s1\<lparr>page_allocator := al', pmem := m', zero_page := ?start\<rparr>"
  have "initPageAllocator tr hs he s = Some ?s'"
    using le d(1) z(1) by (simp add: initPageAllocator_def Let_def)
  moreover have "page_owns hs he ?s' {lo + 4096..<hi}"
    using z(2) cov bounds(1,2) by (auto simp: page_owns_def page_free_def heap_bytes_def)
  ultimately show ?thesis using z(5) st by1 by auto
qed

text \<open>Witness: a heap of a little more than three pages that starts in the middle of a page.\<close>

theorem initPageAllocator_correct_witness:
  "\<exists>s'. initPageAllocator (\<lambda>_ s. Some (False, s)) 0x80000800 0x80004010 (example_heap\<lparr>page_allocator := init_page_allocator\<rparr>) = Some s'
     \<and> page_owns 0x80000800 0x80004010 s' {0x80002000 ..< 0x80004000} \<and> unat (zero_page s') = 0x80001000"
  using initPageAllocator_correct [OF _ _ _ refl refl, where s = "example_heap\<lparr>page_allocator := init_page_allocator\<rparr>"
      and hs = "0x80000800" and he = "0x80004010" and tr = "\<lambda>_ s. Some (False, s)"]
  by auto

end
