(* ===== verification/Kalloc.thy ===== *)
theory Kalloc
  imports PageAlloc
begin

text \<open>
  Model of kernel/src/memory/kalloc.c in the debug build: the byte allocator, backed by the page
  allocator, and the list \<open>allocated\<close> of all allocations, linked through the headers
  \<open>AllocatedMemory\<close> in front of the memory handed out (size at offset 0, next at offset 8, the
  user's bytes from offset 16). A \<open>AllocatedMemory**\<close> is an \<open>aslot\<close>. \<open>kalloc\<close> reaches the page
  allocator through \<open>alloc->backing\<close>, not through \<open>allocPages\<close>: reclaim functions are not called
  and \<open>alloc_lock\<close> is not taken.
\<close>

unbundle bit_operations_syntax

record KMem = PageMem +
  byte_allocator :: Allocator
  allocated :: u64

datatype aslot = AFirst | ANext u64

definition KALLOC_MEM_ALIGN :: u64 where "KALLOC_MEM_ALIGN = 8"
definition KALLOC_MIN_FREE :: u64 where "KALLOC_MIN_FREE = 32 * PAGE_SIZE"
definition sizeof_AllocatedMemory :: u64 where "sizeof_AllocatedMemory = 16"
definition sizeof_small_buffer :: u64 where "sizeof_small_buffer = 1024 * 16"

definition init_byte_allocator :: "u64 \<Rightarrow> Allocator" where
  "init_byte_allocator small_buffer = \<lparr>block_size = KALLOC_MEM_ALIGN, min_backing_free = KALLOC_MIN_FREE,
     first_free = small_buffer, special_range_start = small_buffer,
     special_range_end = small_buffer + sizeof_small_buffer\<rparr>"

definition kallocActualSizeFor :: "u64 \<Rightarrow> u64" where
  "kallocActualSizeFor user_size =
     umax ((user_size + sizeof_AllocatedMemory + KALLOC_MEM_ALIGN - 1) AND - KALLOC_MEM_ALIGN) MINIMUM_FREE"

text \<open>The calls of the allocator on \<open>&byte_allocator\<close> and its backing \<open>&page_allocator\<close>.\<close>

definition set_chain :: "KMem \<Rightarrow> Allocator list \<Rightarrow> memory \<Rightarrow> KMem" where
  "set_chain s chain m = s\<lparr>byte_allocator := hd chain, page_allocator := hd (tl chain), pmem := m\<rparr>"

definition link_allocated :: "KMem \<Rightarrow> u64 \<Rightarrow> u64 \<Rightarrow> KMem" where
  "link_allocated s res actual_size =
     (let m = store64 (pmem s) res actual_size;
          m = store64 m (res + 8) (allocated s)
      in s\<lparr>pmem := m, allocated := res\<rparr>)"

definition kalloc :: "u64 \<Rightarrow> KMem \<Rightarrow> (u64 \<times> KMem) option" where
  "kalloc sz s =
     (if sz = 0 then Some (0, s)
      else let actual_size = kallocActualSizeFor sz in do {
        (res, chain, m) \<leftarrow> allocMemory [byte_allocator s, page_allocator s] (pmem s) actual_size;
        let s = set_chain s chain m;
        if res \<noteq> 0 then Some (res + 16, link_allocated s res actual_size) else Some (0, s) })"

definition zalloc :: "u64 \<Rightarrow> KMem \<Rightarrow> (u64 \<times> KMem) option" where
  "zalloc sz s = do {
     (mem, s) \<leftarrow> kalloc sz s;
     Some (mem, if mem \<noteq> 0 then s\<lparr>pmem := fst (memset (pmem s) mem 0 sz)\<rparr> else s) }"

definition get_aslot :: "KMem \<Rightarrow> aslot \<Rightarrow> u64" where
  "get_aslot s c = (case c of AFirst \<Rightarrow> allocated s | ANext a \<Rightarrow> load64 (pmem s) (a + 8))"

definition set_aslot :: "KMem \<Rightarrow> aslot \<Rightarrow> u64 \<Rightarrow> KMem" where
  "set_aslot s c v = (case c of AFirst \<Rightarrow> s\<lparr>allocated := v\<rparr> | ANext a \<Rightarrow> s\<lparr>pmem := store64 (pmem s) (a + 8) v\<rparr>)"

partial_function (option) findAllocatedMemoryFor_loop :: "KMem \<Rightarrow> aslot \<Rightarrow> u64 \<Rightarrow> bool \<Rightarrow> (u64 \<times> KMem) option" where
  "findAllocatedMemoryFor_loop s cur ptr remove =
     (let c = get_aslot s cur in
      if c \<noteq> 0 then
        (if c + 16 = ptr then
           Some (c, if remove then set_aslot s cur (load64 (pmem s) (c + 8)) else s)
         else findAllocatedMemoryFor_loop s (ANext c) ptr remove)
      else None)"

definition findAllocatedMemoryFor :: "KMem \<Rightarrow> u64 \<Rightarrow> bool \<Rightarrow> (u64 \<times> KMem) option" where
  "findAllocatedMemoryFor s ptr remove = findAllocatedMemoryFor_loop s AFirst ptr remove"

definition dealloc :: "u64 \<Rightarrow> KMem \<Rightarrow> KMem option" where
  "dealloc ptr s =
     (if ptr \<noteq> 0 then do {
        (mem, s) \<leftarrow> findAllocatedMemoryFor s ptr True;
        (chain, m) \<leftarrow> deallocMemory [byte_allocator s, page_allocator s] (pmem s) mem (load64 (pmem s) mem);
        Some (set_chain s chain m) }
      else Some s)"

definition krealloc :: "u64 \<Rightarrow> u64 \<Rightarrow> KMem \<Rightarrow> (u64 \<times> KMem) option" where
  "krealloc ptr sz s =
     (if sz = 0 then do { s \<leftarrow> dealloc ptr s; Some (0, s) }
      else if ptr = 0 then kalloc sz s
      else let actual_size = kallocActualSizeFor sz in do {
        (mem, s) \<leftarrow> findAllocatedMemoryFor s ptr True;
        (res, chain, m) \<leftarrow> reallocMemory [byte_allocator s, page_allocator s] (pmem s) mem (load64 (pmem s) mem) actual_size;
        let s = set_chain s chain m;
        if res \<noteq> 0 then Some (res + 16, link_allocated s res actual_size) else Some (0, s) })"

definition kallocSize :: "u64 \<Rightarrow> KMem \<Rightarrow> (u64 \<times> KMem) option" where
  "kallocSize ptr s =
     (if ptr = 0 then Some (0, s)
      else do { (mem, s) \<leftarrow> findAllocatedMemoryFor s ptr False; Some (load64 (pmem s) mem, s) })"

subsection \<open>The list of allocations\<close>

lemma bind_Some_pair: "x \<bind> (\<lambda>(a, b). Some (f a b)) = map_option (\<lambda>(a, b). f a b) x"
  by (cases x) auto

fun alloc_list :: "KMem \<Rightarrow> aslot \<Rightarrow> u64 list \<Rightarrow> bool" where
  "alloc_list s c [] \<longleftrightarrow> get_aslot s c = 0"
| "alloc_list s c (a # as) \<longleftrightarrow> get_aslot s c = a \<and> a \<noteq> 0 \<and> aligned8 a \<and> alloc_list s (ANext a) as"

lemma findAllocatedMemoryFor_absent:
  "alloc_list s c as \<Longrightarrow> ptr \<notin> (\<lambda>a. a + 16) ` set as \<Longrightarrow> findAllocatedMemoryFor_loop s c ptr rm = None"
proof (induction as arbitrary: c)
  case Nil
  then show ?case by (subst findAllocatedMemoryFor_loop.simps) (simp add: Let_def)
next
  case (Cons a as)
  then show ?case by (subst findAllocatedMemoryFor_loop.simps) (auto simp: Let_def)
qed

lemma alloc_list_frame:
  assumes "alloc_list s c as" "aligned8 x" "x \<notin> (\<lambda>a. a + 8) ` set as" "get_aslot (s\<lparr>pmem := store64 (pmem s) x v\<rparr>) c' = get_aslot s c"
  shows "alloc_list (s\<lparr>pmem := store64 (pmem s) x v\<rparr>) c' as"
  using assms
proof (induction as arbitrary: c c')
  case (Cons a as)
  have "get_aslot (s\<lparr>pmem := store64 (pmem s) x v\<rparr>) (ANext a) = get_aslot s (ANext a)"
    using Cons.prems by (auto simp: get_aslot_def load64_store64)
  with Cons show ?case by auto
qed simp

lemma alloc_list_aligned: "alloc_list s c as \<Longrightarrow> a \<in> set as \<Longrightarrow> aligned8 a"
  by (induction as arbitrary: c) auto

lemma alloc_list_first: "alloc_list (s\<lparr>allocated := v\<rparr>) (ANext a) as = alloc_list s (ANext a) as"
proof (induction as arbitrary: a)
  case (Cons b as)
  then show ?case by (simp add: get_aslot_def)
qed (simp add: get_aslot_def)

lemma findAllocatedMemoryFor_found:
  assumes "alloc_list s c as" "distinct as" "a \<in> set as" "\<And>b. c = ANext b \<Longrightarrow> aligned8 b \<and> b \<notin> set as"
  shows "\<exists>d v. findAllocatedMemoryFor_loop s c (a + 16) True = Some (a, set_aslot s d v)
    \<and> alloc_list (set_aslot s d v) c (remove1 a as) \<and> (d = c \<or> d \<in> ANext ` set as)"
  using assms
proof (induction as arbitrary: c)
  case (Cons h as)
  have h: "get_aslot s c = h" "h \<noteq> 0" "aligned8 h" "alloc_list s (ANext h) as" using Cons.prems(1) by auto
  show ?case
  proof (cases "h = a")
    case True
    let ?s = "set_aslot s c (load64 (pmem s) (h + 8))"
    have "findAllocatedMemoryFor_loop s c (a + 16) True = Some (a, ?s)"
      using h True by (subst findAllocatedMemoryFor_loop.simps) (simp add: Let_def)
    moreover have "alloc_list ?s c as"
    proof (cases c)
      case AFirst
      from h(4) have "alloc_list ?s (ANext h) as" by (simp add: AFirst set_aslot_def alloc_list_first)
      then show ?thesis by (cases as) (auto simp: AFirst set_aslot_def get_aslot_def)
    next
      case (ANext b)
      then have b: "aligned8 b" "b \<notin> set (h # as)" using Cons.prems(4) by auto
      have "get_aslot ?s c = get_aslot s (ANext h)"
        by (simp add: ANext set_aslot_def get_aslot_def load64_store64_same)
      moreover have "b + 8 \<notin> (\<lambda>a. a + 8) ` set as" using b(2) by auto
      ultimately show ?thesis
        using alloc_list_frame [OF h(4), of "b + 8" "load64 (pmem s) (h + 8)" c] b(1)
        by (simp add: ANext set_aslot_def)
    qed
    ultimately show ?thesis using True by auto
  next
    case False
    have "\<exists>d v. findAllocatedMemoryFor_loop s (ANext h) (a + 16) True = Some (a, set_aslot s d v)
      \<and> alloc_list (set_aslot s d v) (ANext h) (remove1 a as) \<and> (d = ANext h \<or> d \<in> ANext ` set as)"
      using Cons.prems False h by (intro Cons.IH) auto
    then obtain b v where b: "findAllocatedMemoryFor_loop s (ANext h) (a + 16) True = Some (a, set_aslot s (ANext b) v)"
      "alloc_list (set_aslot s (ANext b) v) (ANext h) (remove1 a as)" "b \<in> set (h # as)" by auto
    have "aligned8 b" using b(3) h(3) alloc_list_aligned [OF h(4)] by auto
    then have "get_aslot (set_aslot s (ANext b) v) c = h"
      using Cons.prems(4) b(3) h(1) by (cases c) (auto simp: get_aslot_def set_aslot_def load64_store64)
    moreover have "findAllocatedMemoryFor_loop s c (a + 16) True = findAllocatedMemoryFor_loop s (ANext h) (a + 16) True"
      using h False by (subst findAllocatedMemoryFor_loop.simps) (simp add: Let_def)
    ultimately show ?thesis
      using False h b by (intro exI [of _ "ANext b"] exI [of _ v]) auto
  qed
qed simp

lemma set_aslot_frame:
  "aligned8 x \<Longrightarrow> \<forall>b. d = ANext b \<longrightarrow> aligned8 b \<and> x \<noteq> b + 8 \<Longrightarrow> load64 (pmem (set_aslot s d v)) x = load64 (pmem s) x"
  "byte_allocator (set_aslot s d v) = byte_allocator s" "page_allocator (set_aslot s d v) = page_allocator s"
  by (auto simp: set_aslot_def load64_store64 split: aslot.splits)

lemma kallocActualSizeFor_bounds:
  assumes "unat n + 23 < 2 ^ 64"
  shows "unat n + 16 \<le> unat (kallocActualSizeFor n) \<and> unat (kallocActualSizeFor n) < unat n + 24
    \<and> unat (kallocActualSizeFor n) mod 8 = 0"
proof -
  have "unat (n + 23) = unat n + 23" using assms unat_add_64 [of n 23] by simp
  then have "unat ((n + sizeof_AllocatedMemory + KALLOC_MEM_ALIGN - 1) AND - KALLOC_MEM_ALIGN) = (unat n + 23) div 8 * 8"
    using unat_and_minus_exp [of "n + 23" 3]
    by (simp add: sizeof_AllocatedMemory_def KALLOC_MEM_ALIGN_def add.commute [of 23])
  moreover have "16 \<le> (unat n + 23) div 8 * 8" by linarith
  ultimately have k: "unat (kallocActualSizeFor n) = (unat n + 23) div 8 * 8"
    by (simp add: kallocActualSizeFor_def unat_umax MINIMUM_FREE_def)
  have "(unat n + 23) div 8 * 8 = unat n + 23 - (unat n + 23) mod 8" by (simp add: minus_mod_eq_div_mult)
  moreover have "(unat n + 23) mod 8 < 8" by simp
  ultimately have "unat n + 16 \<le> (unat n + 23) div 8 * 8" "(unat n + 23) div 8 * 8 < unat n + 24" by linarith+
  then show ?thesis by (simp add: k)
qed


definition example_kmem :: KMem where
  "example_kmem = \<lparr>page_allocator = init_page_allocator, pmem = store64 (store64 (\<lambda>_. 0) 0x2000 24) 0x2008 0, zero_page = 0,
     byte_allocator = init_byte_allocator 0x9000, allocated = 0x2000\<rparr>"


text \<open>
  Property C38 (kalloc_size_correct). The block size computed for a request is a multiple of the
  block size of the byte allocator, has room for the header and the request, and wastes less
  than eight bytes; for requests close to the size of the address space it wraps around.
\<close>

theorem kalloc_size_correct:
  "(unat n + 23 < 2 ^ 64 \<longrightarrow> unat n + 16 \<le> unat (kallocActualSizeFor n)
      \<and> unat (kallocActualSizeFor n) < unat n + 24 \<and> unat (kallocActualSizeFor n) mod 8 = 0)
   \<and> kallocActualSizeFor (2 ^ 64 - 16) = 16"
  using kallocActualSizeFor_bounds [of n]
  by (simp add: kallocActualSizeFor_def umax_def sizeof_AllocatedMemory_def KALLOC_MEM_ALIGN_def MINIMUM_FREE_def)

theorem kalloc_size_correct_witness:
  "unat (kallocActualSizeFor 100) = 120 \<and> 100 + 16 \<le> unat (kallocActualSizeFor 100)"
  using kalloc_size_correct [of 100]
  by (simp add: kallocActualSizeFor_def umax_def sizeof_AllocatedMemory_def KALLOC_MEM_ALIGN_def MINIMUM_FREE_def)
end
