(* ===== verification/OpenAddressing.thy ===== *)
theory OpenAddressing
  imports Prelude
begin

text \<open>
  The search loops shared by the kernel's three open-addressing hash tables (pageref.c,
  stringmap.c, vfs/cache.c) and the facts about linear probing they rest on. A table of capacity
  \<open>cap\<close> is described by the key \<open>K i\<close> in slot \<open>i\<close>, whether the slot is \<open>live\<close> and whether it is
  \<open>used\<close>, that is live or a deleted entry that searches must step over.
\<close>

subsection \<open>Search loops\<close>

text \<open>\<open>while (cont(idx)) { idx = (idx + 1) % cap; if (idx == start) break; }\<close>\<close>

partial_function (option) probe_find :: "(nat \<Rightarrow> bool) \<Rightarrow> nat \<Rightarrow> nat \<Rightarrow> nat \<Rightarrow> nat option" where
  "probe_find cont cap start idx =
     (if cont idx then
        let idx' = (idx + 1) mod cap in
        if idx' = start then Some idx' else probe_find cont cap start idx'
      else Some idx)"

text \<open>\<open>while (cont(idx)) { idx = (idx + 1) % cap; }\<close>\<close>

partial_function (option) probe_free :: "(nat \<Rightarrow> bool) \<Rightarrow> nat \<Rightarrow> nat \<Rightarrow> nat option" where
  "probe_free cont cap idx =
     (if cont idx then probe_free cont cap ((idx + 1) mod cap) else Some idx)"

definition probe :: "nat \<Rightarrow> nat \<Rightarrow> nat \<Rightarrow> nat" where
  "probe cap start j = (start + j) mod cap"

lemma probe_less [simp]: "0 < cap \<Longrightarrow> probe cap start j < cap"
  by (simp add: probe_def)

lemma probe_0 [simp]: "start < cap \<Longrightarrow> probe cap start 0 = start"
  by (simp add: probe_def)

lemma probe_Suc: "(probe cap start j + 1) mod cap = probe cap start (Suc j)"
  by (simp add: probe_def mod_Suc_eq)

lemma probe_cap: "start < cap \<Longrightarrow> probe cap start cap = start"
  by (simp add: probe_def)

lemma probe_eq_start: "start < cap \<Longrightarrow> j < cap \<Longrightarrow> probe cap start j = start \<longleftrightarrow> j = 0"
proof -
  assume h: "start < cap" "j < cap"
  show ?thesis
  proof (cases "start + j < cap")
    case False
    then have "(start + j) mod cap = start + j - cap" using h by (simp add: le_mod_geq)
    then show ?thesis using h False by (auto simp: probe_def)
  qed (simp add: probe_def)
qed

lemma probe_surj: "start < cap \<Longrightarrow> i < cap \<Longrightarrow> \<exists>j<cap. probe cap start j = i"
proof (cases "start \<le> i")
  case True
  assume "start < cap" "i < cap"
  with True show ?thesis by (intro exI [of _ "i - start"]) (simp add: probe_def)
next
  case False
  assume "start < cap" "i < cap"
  with False show ?thesis by (intro exI [of _ "cap + i - start"]) (simp add: probe_def)
qed

lemma probe_find_stop:
  assumes "start < cap" "j < cap" "\<forall>k<j. cont (probe cap start k)" "\<not> cont (probe cap start j)"
  shows "probe_find cont cap start start = Some (probe cap start j)"
proof -
  have "probe_find cont cap start (probe cap start i) = Some (probe cap start j)" if "i \<le> j" for i
    using that
  proof (induction "j - i" arbitrary: i)
    case 0
    then show ?case using assms(4) by (subst probe_find.simps) simp
  next
    case (Suc n)
    then have "i < j" by simp
    moreover have "probe cap start (Suc i) \<noteq> start"
      using \<open>i < j\<close> assms(1,2) by (simp add: probe_eq_start)
    ultimately show ?case
      using Suc.hyps(1) [of "Suc i"] Suc.hyps(2) assms(3)
      by (subst probe_find.simps) (simp add: Let_def probe_Suc del: One_nat_def)
  qed
  from this [of 0] show ?thesis using assms(1) by simp
qed

lemma probe_find_full:
  assumes "start < cap" "\<forall>k<cap. cont (probe cap start k)"
  shows "probe_find cont cap start start = Some start"
proof -
  have "probe_find cont cap start (probe cap start i) = Some start" if "i < cap" for i
    using that
  proof (induction "cap - 1 - i" arbitrary: i)
    case 0
    then have "Suc i = cap" by simp
    then have "probe cap start (Suc i) = start" using assms(1) by (simp add: probe_cap)
    then show ?case using assms(2) 0 by (subst probe_find.simps) (simp add: Let_def probe_Suc del: One_nat_def)
  next
    case (Suc n)
    then show ?case
      using Suc.hyps(1) [of "Suc i"] assms(2)
      by (subst probe_find.simps) (simp add: Let_def probe_Suc del: One_nat_def)
  qed
  from this [of 0] show ?thesis using assms(1) by simp
qed

lemma first_stop:
  assumes "\<exists>j<cap. \<not> cont (probe cap start j)"
  obtains j where "j < cap" "\<not> cont (probe cap start j)" "\<forall>k<j. cont (probe cap start k)"
proof -
  let ?j = "LEAST j. \<not> cont (probe cap start j)"
  obtain j where "j < cap" "\<not> cont (probe cap start j)" using assms by blast
  then have "\<not> cont (probe cap start ?j)" "?j < cap"
    using LeastI [of "\<lambda>j. \<not> cont (probe cap start j)" j] Least_le [of "\<lambda>j. \<not> cont (probe cap start j)" j] by auto
  moreover have "\<forall>k<?j. cont (probe cap start k)" using not_less_Least by blast
  ultimately show thesis using that by blast
qed

lemma probe_find_returns:
  assumes "start < cap"
  obtains r where "probe_find cont cap start start = Some r" "r < cap"
    "cont r \<Longrightarrow> r = start \<and> (\<forall>i<cap. cont i)"
proof (cases "\<exists>j<cap. \<not> cont (probe cap start j)")
  case True
  then obtain j where "j < cap" "\<not> cont (probe cap start j)" "\<forall>k<j. cont (probe cap start k)" by (rule first_stop)
  then show thesis using that [of "probe cap start j"] probe_find_stop [OF assms] assms by auto
next
  case False
  then have "\<forall>i<cap. cont i" using probe_surj [OF assms] by metis
  then show thesis using that [of start] probe_find_full [OF assms] assms by (metis gr_implies_not0 neq0_conv probe_less)
qed

lemma probe_free_stop:
  assumes "start < cap" "j < cap" "\<forall>k<j. cont (probe cap start k)" "\<not> cont (probe cap start j)"
  shows "probe_free cont cap start = Some (probe cap start j)"
proof -
  have "probe_free cont cap (probe cap start i) = Some (probe cap start j)" if "i \<le> j" for i
    using that
  proof (induction "j - i" arbitrary: i)
    case 0
    then show ?case using assms(4) by (subst probe_free.simps) simp
  next
    case (Suc n)
    then show ?case
      using Suc.hyps(1) [of "Suc i"] assms(3)
      by (subst probe_free.simps) (simp add: probe_Suc del: One_nat_def)
  qed
  from this [of 0] show ?thesis using assms(1) by simp
qed

subsection \<open>The probing invariant\<close>

definition reaches :: "('k \<Rightarrow> nat) \<Rightarrow> nat \<Rightarrow> (nat \<Rightarrow> 'k) \<Rightarrow> (nat \<Rightarrow> bool) \<Rightarrow> 'k \<Rightarrow> nat \<Rightarrow> bool" where
  "reaches h cap K used k i \<longleftrightarrow> (\<exists>d<cap. i = probe cap (h k mod cap) d \<and>
     (\<forall>j<d. used (probe cap (h k mod cap) j) \<and> K (probe cap (h k mod cap) j) \<noteq> k))"

definition probing :: "('k \<Rightarrow> nat) \<Rightarrow> nat \<Rightarrow> (nat \<Rightarrow> 'k) \<Rightarrow> (nat \<Rightarrow> bool) \<Rightarrow> (nat \<Rightarrow> bool) \<Rightarrow> bool" where
  "probing h cap K live used \<longleftrightarrow> (\<forall>i<cap. live i \<longrightarrow> used i \<and> reaches h cap K used (K i) i)"

lemma probing_unique:
  assumes "probing h cap K live used" "i < cap" "live i" "i' < cap" "live i'" "K i = K i'"
  shows "i = i'"
proof -
  have "reaches h cap K used (K i) i" "reaches h cap K used (K i) i'" using assms by (auto simp: probing_def)
  then obtain d d' where d: "i = probe cap (h (K i) mod cap) d" "\<forall>j<d. K (probe cap (h (K i) mod cap) j) \<noteq> K i"
    "i' = probe cap (h (K i) mod cap) d'" "\<forall>j<d'. K (probe cap (h (K i) mod cap) j) \<noteq> K i"
    unfolding reaches_def by blast
  then show ?thesis using assms(6) by (metis linorder_neqE_nat)
qed

lemma find_live:
  assumes "probing h cap K live used" "i < cap" "live i" "\<And>idx. idx < cap \<Longrightarrow> cont idx \<longleftrightarrow> K idx \<noteq> K i \<and> used idx"
  shows "probe_find cont cap (h (K i) mod cap) (h (K i) mod cap) = Some i"
proof -
  have "reaches h cap K used (K i) i" using assms by (auto simp: probing_def)
  then obtain d where "d < cap" "i = probe cap (h (K i) mod cap) d"
    "\<forall>j<d. used (probe cap (h (K i) mod cap) j) \<and> K (probe cap (h (K i) mod cap) j) \<noteq> K i"
    by (auto simp: reaches_def)
  then show ?thesis
    using assms(4) [of "probe cap (h (K i) mod cap) _"] assms(2,4) probe_find_stop [of "h (K i) mod cap" cap d cont] by auto
qed

text \<open>Storing a key that is not live in the first slot that is not live, or has this key.\<close>

lemma probing_insert:
  assumes ok: "probing h cap K live used" and free: "\<exists>i<cap. \<not> live i"
    and absent: "\<forall>i<cap. live i \<longrightarrow> K i \<noteq> k" and cont: "\<And>idx. idx < cap \<Longrightarrow> cont idx \<longleftrightarrow> K idx \<noteq> k \<and> live idx"
  obtains idx where "probe_free cont cap (h k mod cap) = Some idx" "idx < cap" "\<not> live idx"
    "probing h cap (K(idx := k)) (live(idx := True)) (used(idx := True))"
proof -
  let ?s = "h k mod cap"
  have s: "?s < cap" using free by (auto intro: mod_less_divisor)
  have "\<exists>j<cap. \<not> cont (probe cap ?s j)" using free probe_surj [OF s] cont by metis
  then obtain j where j: "j < cap" "\<not> cont (probe cap ?s j)" "\<forall>i<j. cont (probe cap ?s i)" by (rule first_stop)
  let ?idx = "probe cap ?s j"
  have lt: "?idx < cap" using s by simp
  have nl: "\<not> live ?idx" using j(2) cont absent lt by blast
  have "probe_free cont cap ?s = Some ?idx" using probe_free_stop [OF s j(1,3,2)] .
  moreover have "probing h cap (K(?idx := k)) (live(?idx := True)) (used(?idx := True))"
    unfolding probing_def
  proof (intro allI impI conjI)
    fix i assume i: "i < cap" "(live(?idx := True)) i"
    then show "(used(?idx := True)) i" using ok by (auto simp: probing_def)
    show "reaches h cap (K(?idx := k)) (used(?idx := True)) ((K(?idx := k)) i) i"
    proof (cases "i = ?idx")
      case True
      have "used (probe cap ?s l) \<and> K (probe cap ?s l) \<noteq> k \<and> probe cap ?s l \<noteq> ?idx" if "l < j" for l
      proof -
        have c: "cont (probe cap ?s l)" using j(3) that by blast
        then have n: "probe cap ?s l \<noteq> ?idx" using j(2) by metis
        have lt: "probe cap ?s l < cap" using s by simp
        then have "used (probe cap ?s l)" using c cont ok by (auto simp: probing_def)
        then show ?thesis using c cont [OF lt] n by blast
      qed
      then show ?thesis using True j(1) by (auto simp: reaches_def)
    next
      case False
      then have l: "live i" "K i \<noteq> k" using i absent by auto
      then obtain d where d: "d < cap" "i = probe cap (h (K i) mod cap) d"
        "\<forall>j<d. used (probe cap (h (K i) mod cap) j) \<and> K (probe cap (h (K i) mod cap) j) \<noteq> K i"
        using ok i(1) by (auto simp: probing_def reaches_def)
      then show ?thesis using False l by (auto simp: reaches_def intro!: exI [of _ d])
    qed
  qed
  ultimately show thesis using that [of ?idx] lt nl by blast
qed

lemma probing_delete:
  "probing h cap K live used \<Longrightarrow> probing h cap K (live(i := False)) used"
  by (auto simp: probing_def)

lemma probing_empty: "probing h cap K (\<lambda>_. False) used"
  by (simp add: probing_def)

text \<open>Deleting by storing a marker that is nobody's key.\<close>

lemma probing_retire:
  assumes "probing h cap K live used" "\<forall>i<cap. live i \<longrightarrow> K i \<noteq> x" "used r" "\<not> live' r" "\<forall>i. i \<noteq> r \<longrightarrow> live' i = live i"
  shows "probing h cap (K(r := x)) live' used"
  unfolding probing_def
proof (intro allI impI conjI)
  fix i assume i: "i < cap" "live' i"
  then have "i \<noteq> r" "live i" using assms(4,5) by auto
  then show "used i" using assms(1) i by (auto simp: probing_def)
  have "K i \<noteq> x" using assms(2) i(1) \<open>live i\<close> by blast
  then show "reaches h cap (K(r := x)) used ((K(r := x)) i) i"
    using assms(1) i \<open>i \<noteq> r\<close> \<open>live i\<close> by (fastforce simp: probing_def reaches_def)
qed

end
