(* ===== verification/RefCount.thy ===== *)
theory RefCount
  imports Prelude
begin

text \<open>
  The contract between the page reference table and the copy-on-write code of memspace.c. The
  table keeps the number of references of every page that has at least two; \<open>rel t f\<close> says that
  table \<open>t\<close> keeps the numbers \<open>f\<close>, 0 standing for no entry. A client that owns one reference to a
  page may share it (\<open>copyMemoryPageEntry\<close>) and drop it (\<open>freePageEntryData\<close>).
\<close>

datatype ref_op = Share u64 | Drop u64

definition shared_counts :: "(u64 \<Rightarrow> nat) \<Rightarrow> u64 \<Rightarrow> nat" where
  "shared_counts r = (\<lambda>k. if r k \<ge> 2 then r k else 0)"

text \<open>The effect of an operation on the true number of references, where it is allowed.\<close>

fun ref_step :: "ref_op \<Rightarrow> (u64 \<Rightarrow> nat) \<Rightarrow> (u64 \<Rightarrow> nat) option" where
  "ref_step (Share k) r = (if r k = 0 then None else Some (r(k := r k + 1)))"
| "ref_step (Drop k) r = (if r k = 0 then None else Some (r(k := r k - 1)))"

fun ref_steps :: "ref_op list \<Rightarrow> (u64 \<Rightarrow> nat) \<Rightarrow> (u64 \<Rightarrow> nat) option" where
  "ref_steps [] r = Some r"
| "ref_steps (x # xs) r = ref_step x r \<bind> ref_steps xs"

text \<open>The pages whose last reference a run drops.\<close>

fun freed :: "ref_op list \<Rightarrow> (u64 \<Rightarrow> nat) \<Rightarrow> u64 list" where
  "freed [] r = []"
| "freed (x # xs) r = (case x of Share k \<Rightarrow> [] | Drop k \<Rightarrow> if r k = 1 then [k] else [])
     @ (case ref_step x r of None \<Rightarrow> [] | Some r' \<Rightarrow> freed xs r')"

locale reference_table =
  fixes rel :: "'t \<Rightarrow> (u64 \<Rightarrow> nat) \<Rightarrow> bool"
    and others :: "'t \<Rightarrow> u64 \<Rightarrow> bool option"
    and add :: "'t \<Rightarrow> u64 \<Rightarrow> 't option"
    and remove :: "'t \<Rightarrow> u64 \<Rightarrow> 't option"
    and counted :: "u64 \<Rightarrow> bool"
  assumes others_law: "rel t f \<Longrightarrow> counted k \<Longrightarrow> others t k = Some (f k \<ge> 2)"
    and add_law: "rel t f \<Longrightarrow> \<exists>t'. add t k = Some t' \<and> rel t' (f(k := if f k = 0 then 2 else f k + 1))"
    and remove_law: "rel t f \<Longrightarrow> \<exists>t'. remove t k = Some t' \<and> rel t' (f(k := if f k \<le> 2 then 0 else f k - 1))"
begin

text \<open>One operation of a client; dropping the last reference reports that the page is to be freed.\<close>

fun apply_op :: "ref_op \<Rightarrow> 't \<Rightarrow> (u64 list \<times> 't) option" where
  "apply_op (Share k) t = map_option (Pair []) (add t k)"
| "apply_op (Drop k) t = others t k \<bind> (\<lambda>b. if b then map_option (Pair []) (remove t k) else Some ([k], t))"

fun apply_ops :: "ref_op list \<Rightarrow> 't \<Rightarrow> (u64 list \<times> 't) option" where
  "apply_ops [] t = Some ([], t)"
| "apply_ops (x # xs) t = apply_op x t \<bind> (\<lambda>(fs, t). map_option (map_prod ((@) fs) id) (apply_ops xs t))"

lemma shared_counts_share: "r k \<noteq> 0 \<Longrightarrow>
    (shared_counts r)(k := if shared_counts r k = 0 then 2 else shared_counts r k + 1) = shared_counts (r(k := r k + 1))"
  by (auto simp: shared_counts_def fun_eq_iff)

lemma shared_counts_drop: "2 \<le> r k \<Longrightarrow>
    (shared_counts r)(k := if shared_counts r k \<le> 2 then 0 else shared_counts r k - 1) = shared_counts (r(k := r k - 1))"
  by (auto simp: shared_counts_def fun_eq_iff)

lemma shared_counts_last: "r k = 1 \<Longrightarrow> shared_counts (r(k := r k - 1)) = shared_counts r"
  by (auto simp: shared_counts_def fun_eq_iff)

lemma apply_op_spec:
  assumes "rel t (shared_counts r)" "ref_step x r = Some r'" "\<forall>k. x = Drop k \<longrightarrow> counted k"
  shows "\<exists>t'. apply_op x t = Some (case x of Share k \<Rightarrow> [] | Drop k \<Rightarrow> if r k = 1 then [k] else [], t')
    \<and> rel t' (shared_counts r')"
proof (cases x)
  case (Share k)
  then have "r k \<noteq> 0" "r' = r(k := r k + 1)" using assms(2) by (auto split: if_splits)
  with add_law [OF assms(1), of k] show ?thesis by (auto simp: Share shared_counts_share simp del: fun_upd_apply)
next
  case (Drop k)
  then have r: "r k \<noteq> 0" "r' = r(k := r k - 1)" using assms(2) by (auto split: if_splits)
  have o: "others t k = Some (r k \<ge> 2)" using others_law [OF assms(1)] assms(3) Drop by (auto simp: shared_counts_def)
  show ?thesis
  proof (cases "r k = 1")
    case True
    then have "shared_counts r' = shared_counts r" unfolding r(2) by (rule shared_counts_last)
    then show ?thesis using o True assms(1) by (simp add: Drop)
  next
    case False
    then have "2 \<le> r k" using r by simp
    with remove_law [OF assms(1), of k] show ?thesis
      using o r False by (auto simp: Drop shared_counts_drop simp del: fun_upd_apply)
  qed
qed

text \<open>
  Over any run of operations the table answers as the true counts do, and the pages reported to
  be freed are those whose last reference was dropped.
\<close>

lemma apply_ops_spec:
  assumes "rel t (shared_counts r)" "ref_steps xs r = Some r'" "\<forall>k. Drop k \<in> set xs \<longrightarrow> counted k"
  shows "\<exists>t'. apply_ops xs t = Some (freed xs r, t') \<and> rel t' (shared_counts r')"
  using assms
proof (induction xs arbitrary: t r)
  case (Cons x xs)
  from Cons.prems(2) obtain r1 where r1: "ref_step x r = Some r1" "ref_steps xs r1 = Some r'"
    by (auto split: bind_splits)
  from apply_op_spec [OF Cons.prems(1) r1(1)] Cons.prems(3) obtain t1 where
    t1: "apply_op x t = Some (case x of Share k \<Rightarrow> [] | Drop k \<Rightarrow> if r k = 1 then [k] else [], t1)" "rel t1 (shared_counts r1)"
    by auto
  from Cons.IH [OF t1(2) r1(2)] Cons.prems(3) obtain t' where "apply_ops xs t1 = Some (freed xs r1, t')" "rel t' (shared_counts r')"
    by auto
  then show ?case using t1(1) r1(1) by simp
qed simp

end

end
