(* ===== verification/PageRef.thy ===== *)
theory PageRef
  imports OpenAddressing RefCount Util
begin

text \<open>
  Model of kernel/src/memory/pageref.c: the hash table that counts the references to pages
  shared copy-on-write. A page with one reference has no live entry; an entry with value 1 is a
  deleted entry. Indices, counts and capacities are natural numbers: a table with an entry for
  every physical page is far below the range of \<open>size_t\<close>. The two arrays are lists; the
  allocations of \<open>rebuildPageRefTable\<close> are taken to succeed, as the code does.
\<close>

record PageRefTable =
  pr_count :: nat
  pr_capacity :: nat
  pr_keys :: "u64 list"
  pr_values :: "nat list"

definition MIN_TABLE_CAPACITY :: nat where
  "MIN_TABLE_CAPACITY = 128"

definition page_hash :: "u64 \<Rightarrow> nat" where
  "page_hash page = unat (hashInt64 page)"

fun rebuildPageRefTable_loop :: "u64 list \<Rightarrow> nat list \<Rightarrow> nat \<Rightarrow> nat list \<Rightarrow> u64 list \<times> nat list
    \<Rightarrow> (u64 list \<times> nat list) option" where
  "rebuildPageRefTable_loop keys vals new_size [] new = Some new"
| "rebuildPageRefTable_loop keys vals new_size (i # is) (new_keys, new_values) =
     (if vals ! i > 1 then do {
        idx \<leftarrow> probe_free (\<lambda>idx. new_values ! idx \<ge> 1) new_size (page_hash (keys ! i) mod new_size);
        rebuildPageRefTable_loop keys vals new_size is (new_keys[idx := keys ! i], new_values[idx := vals ! i]) }
      else rebuildPageRefTable_loop keys vals new_size is (new_keys, new_values))"

definition rebuildPageRefTable :: "PageRefTable \<Rightarrow> nat \<Rightarrow> PageRefTable option" where
  "rebuildPageRefTable table new_size = do {
     (new_keys, new_values) \<leftarrow> rebuildPageRefTable_loop (pr_keys table) (pr_values table) new_size
        [0..<pr_capacity table] (replicate new_size 0, replicate new_size 0);
     Some (table\<lparr>pr_keys := new_keys, pr_values := new_values, pr_capacity := new_size\<rparr>) }"

definition testForResize :: "PageRefTable \<Rightarrow> PageRefTable option" where
  "testForResize table =
     (if pr_capacity table < MIN_TABLE_CAPACITY then rebuildPageRefTable table MIN_TABLE_CAPACITY
      else if pr_capacity table > MIN_TABLE_CAPACITY \<and> pr_count table * 4 < pr_capacity table
      then rebuildPageRefTable table (pr_capacity table div 2)
      else if pr_count table * 3 > pr_capacity table * 2
      then rebuildPageRefTable table (pr_capacity table * 3 div 2)
      else Some table)"

text \<open>The search loop of the three operations, from the start index of the page.\<close>

definition pr_search :: "PageRefTable \<Rightarrow> u64 \<Rightarrow> nat option" where
  "pr_search table page =
     (let start = page_hash page mod pr_capacity table in
      probe_find (\<lambda>idx. pr_keys table ! idx \<noteq> page \<and> pr_values table ! idx \<ge> 1) (pr_capacity table) start start)"

definition hasOtherReferences :: "u64 \<Rightarrow> PageRefTable \<Rightarrow> u64 \<Rightarrow> bool option" where
  "hasOtherReferences zero_page table page =
     (if page = zero_page then Some True
      else if pr_count table = 0 then Some False
      else do {
        idx \<leftarrow> pr_search table page;
        Some (if pr_keys table ! idx = page then pr_values table ! idx > 1 else False) })"

definition addReferenceFor :: "PageRefTable \<Rightarrow> u64 \<Rightarrow> PageRefTable option" where
  "addReferenceFor table page = do {
     table \<leftarrow> testForResize table;
     idx \<leftarrow> pr_search table page;
     if pr_keys table ! idx = page \<and> pr_values table ! idx > 1
     then Some (table\<lparr>pr_values := (pr_values table)[idx := pr_values table ! idx + 1]\<rparr>)
     else do {
       idx \<leftarrow> probe_free (\<lambda>idx. pr_keys table ! idx \<noteq> page \<and> pr_values table ! idx > 1)
                (pr_capacity table) (page_hash page mod pr_capacity table);
       Some (table\<lparr>pr_keys := (pr_keys table)[idx := page], pr_values := (pr_values table)[idx := 2],
                   pr_count := pr_count table + 1\<rparr>) } }"

definition removeReferenceFor :: "PageRefTable \<Rightarrow> u64 \<Rightarrow> PageRefTable option" where
  "removeReferenceFor table page =
     (if pr_count table \<noteq> 0 then do {
        idx \<leftarrow> pr_search table page;
        if pr_keys table ! idx = page \<and> pr_values table ! idx > 1 then
          (let table = table\<lparr>pr_values := (pr_values table)[idx := pr_values table ! idx - 1]\<rparr> in
           if pr_values table ! idx = 1
           then testForResize (table\<lparr>pr_count := pr_count table - 1\<rparr>)
           else Some table)
        else Some table }
      else Some table)"

subsection \<open>Refinement relation\<close>

text \<open>
  \<open>counts f ks vs\<close>: the live entries of the arrays are exactly the pages with at least two
  references, \<open>f\<close> giving their number (0 for a page without entry).
\<close>

definition live_slots :: "nat list \<Rightarrow> nat set" where
  "live_slots vs = {i. i < length vs \<and> vs ! i > 1}"

definition table_ok :: "u64 list \<Rightarrow> nat list \<Rightarrow> bool" where
  "table_ok ks vs \<longleftrightarrow> length ks = length vs
     \<and> probing page_hash (length vs) (\<lambda>i. ks ! i) (\<lambda>i. vs ! i > 1) (\<lambda>i. vs ! i \<ge> 1)"

definition counts :: "(u64 \<Rightarrow> nat) \<Rightarrow> u64 list \<Rightarrow> nat list \<Rightarrow> bool" where
  "counts f ks vs \<longleftrightarrow> (\<forall>k. f k = 0 \<longleftrightarrow> (\<forall>i\<in>live_slots vs. ks ! i \<noteq> k)) \<and> (\<forall>i\<in>live_slots vs. f (ks ! i) = vs ! i)"

definition pr_rel :: "PageRefTable \<Rightarrow> (u64 \<Rightarrow> nat) \<Rightarrow> bool" where
  "pr_rel t f \<longleftrightarrow> table_ok (pr_keys t) (pr_values t) \<and> counts f (pr_keys t) (pr_values t)
     \<and> pr_capacity t = length (pr_values t) \<and> pr_count t = card (live_slots (pr_values t))"

lemma counts_zero: "counts f ks vs \<Longrightarrow> f k = 0 \<longleftrightarrow> (\<forall>i\<in>live_slots vs. ks ! i \<noteq> k)"
  unfolding counts_def by (elim conjE allE [of _ k])

lemma live_slots_finite [simp]: "finite (live_slots vs)"
  by (simp add: live_slots_def)

lemma live_slots_card: "card (live_slots vs) \<le> length vs"
  using card_mono [of "{..<length vs}" "live_slots vs"] by (auto simp: live_slots_def)

lemma live_slots_update:
  "i < length vs \<Longrightarrow> live_slots (vs[i := v]) = (if v > 1 then insert i (live_slots vs) else live_slots vs - {i})"
  by (auto simp: live_slots_def nth_list_update)

lemma free_slot: "card (live_slots vs) < length vs \<Longrightarrow> \<exists>i<length vs. \<not> vs ! i > 1"
proof (rule ccontr)
  assume "card (live_slots vs) < length vs" "\<not> (\<exists>i<length vs. \<not> vs ! i > 1)"
  then have "live_slots vs = {..<length vs}" by (auto simp: live_slots_def)
  then show False using \<open>card (live_slots vs) < length vs\<close> by simp
qed

lemma counts_search:
  assumes "table_ok ks vs" "counts f ks vs" "0 < length vs"
  obtains r where "probe_find (\<lambda>idx. ks ! idx \<noteq> k \<and> vs ! idx \<ge> 1) (length vs) (page_hash k mod length vs) (page_hash k mod length vs) = Some r"
    "r < length vs" "f k = 0 \<Longrightarrow> \<not> (ks ! r = k \<and> vs ! r > 1)" "f k \<noteq> 0 \<Longrightarrow> ks ! r = k \<and> vs ! r = f k \<and> vs ! r > 1"
proof -
  let ?c = "\<lambda>idx. ks ! idx \<noteq> k \<and> vs ! idx \<ge> 1" and ?s = "page_hash k mod length vs"
  have st: "?s < length vs" using assms(3) by simp
  show thesis
  proof (cases "f k = 0")
    case True
    obtain r where r: "probe_find ?c (length vs) ?s ?s = Some r" "r < length vs"
      by (rule probe_find_returns [OF st, of ?c])
    have "\<not> (ks ! r = k \<and> vs ! r > 1)" using True assms(2) r(2) by (auto simp: counts_def live_slots_def)
    with True show thesis by (intro that [OF r]) simp_all
  next
    case False
    then have "\<not> (\<forall>i\<in>live_slots vs. ks ! i \<noteq> k)" using counts_zero [OF assms(2)] by simp
    then obtain i where i: "i < length vs" "vs ! i > 1" "ks ! i = k" by (auto simp: live_slots_def)
    have "probe_find ?c (length vs) ?s ?s = Some i"
      using find_live [of page_hash "length vs" "\<lambda>i. ks ! i" "\<lambda>i. vs ! i > 1" "\<lambda>i. vs ! i \<ge> 1" i ?c] assms(1) i
      by (simp add: table_ok_def)
    moreover have "f k = vs ! i" using i assms(2) by (auto simp: counts_def live_slots_def)
    ultimately show thesis using i False by (intro that [of i]) simp_all
  qed
qed

lemma table_insert:
  assumes "table_ok ks vs" "counts f ks vs" "f k = 0" "card (live_slots vs) < length vs" "1 < v"
    and cont: "\<And>idx. idx < length vs \<Longrightarrow> cont idx \<longleftrightarrow> ks ! idx \<noteq> k \<and> vs ! idx > 1"
  obtains idx where "probe_free cont (length vs) (page_hash k mod length vs) = Some idx" "idx < length vs" "\<not> vs ! idx > 1"
    "table_ok (ks[idx := k]) (vs[idx := v])" "counts (f(k := v)) (ks[idx := k]) (vs[idx := v])"
    "card (live_slots (vs[idx := v])) = card (live_slots vs) + 1"
proof -
  have p: "probing page_hash (length vs) (\<lambda>i. ks ! i) (\<lambda>i. vs ! i > 1) (\<lambda>i. vs ! i \<ge> 1)" "length ks = length vs"
    using assms(1) by (auto simp: table_ok_def)
  have "\<forall>i<length vs. vs ! i > 1 \<longrightarrow> ks ! i \<noteq> k" using assms(2,3) by (auto simp: counts_def live_slots_def)
  from probing_insert [OF p(1) free_slot [OF assms(4)] this cont] obtain idx where
    i: "probe_free cont (length vs) (page_hash k mod length vs) = Some idx" "idx < length vs" "\<not> vs ! idx > 1"
      "probing page_hash (length vs) ((\<lambda>i. ks ! i)(idx := k)) ((\<lambda>i. vs ! i > 1)(idx := True)) ((\<lambda>i. vs ! i \<ge> 1)(idx := True))"
    by blast
  have "(\<lambda>i. ks ! i)(idx := k) = (\<lambda>i. ks[idx := k] ! i)" "(\<lambda>i. vs ! i > 1)(idx := True) = (\<lambda>i. vs[idx := v] ! i > 1)"
    "(\<lambda>i. vs ! i \<ge> 1)(idx := True) = (\<lambda>i. vs[idx := v] ! i \<ge> 1)"
    using i(2) p(2) assms(5) by (auto simp: fun_eq_iff nth_list_update)
  then have "table_ok (ks[idx := k]) (vs[idx := v])" using i(4) p(2) by (simp add: table_ok_def)
  moreover have n: "idx \<notin> live_slots vs" using i(3) by (simp add: live_slots_def)
  moreover have "counts (f(k := v)) (ks[idx := k]) (vs[idx := v])"
    using assms(2,3,5) i(2) n p(2) by (auto simp: counts_def live_slots_update nth_list_update)
  ultimately show thesis using that [OF i(1-3)] i(2) assms(5) by (simp add: live_slots_update)
qed

lemma table_update:
  assumes "table_ok ks vs" "counts f ks vs" "i \<in> live_slots vs" "1 \<le> v"
  shows "table_ok ks (vs[i := v])" "counts (f(ks ! i := if v = 1 then 0 else v)) ks (vs[i := v])"
    "card (live_slots (vs[i := v])) = (if v = 1 then card (live_slots vs) - 1 else card (live_slots vs))"
proof -
  have i: "i < length vs" "vs ! i > 1" using assms(3) by (auto simp: live_slots_def)
  have p: "probing page_hash (length vs) (\<lambda>i. ks ! i) (\<lambda>i. vs ! i > 1) (\<lambda>i. vs ! i \<ge> 1)" "length ks = length vs"
    using assms(1) by (auto simp: table_ok_def)
  have u: "(\<lambda>j. vs[i := v] ! j \<ge> 1) = (\<lambda>j. vs ! j \<ge> 1)" using i assms(4) by (auto simp: fun_eq_iff nth_list_update)
  have l: "(\<lambda>j. vs[i := v] ! j > 1) = (if v = 1 then (\<lambda>j. vs ! j > 1)(i := False) else (\<lambda>j. vs ! j > 1))"
    using i assms(4) by (auto simp: fun_eq_iff nth_list_update)
  show "table_ok ks (vs[i := v])"
    using p probing_delete [OF p(1), of i] unfolding table_ok_def length_list_update u l by simp
  have uniq: "j = i" if "j \<in> live_slots vs" "ks ! j = ks ! i" for j
    using probing_unique [OF p(1), of j i] that i by (auto simp: live_slots_def)
  show "counts (f(ks ! i := if v = 1 then 0 else v)) ks (vs[i := v])"
  proof (cases "v = 1")
    case True
    have "f k = 0 \<longleftrightarrow> (\<forall>j\<in>live_slots vs. ks ! j \<noteq> k)" for k using assms(2) unfolding counts_def by blast
    then show ?thesis
      using True i uniq assms(2) by (auto simp: counts_def live_slots_update nth_list_update)
  next
    case False
    then show ?thesis
      using i uniq assms by (auto simp: counts_def live_slots_update nth_list_update insert_absorb)
  qed
  show "card (live_slots (vs[i := v])) = (if v = 1 then card (live_slots vs) - 1 else card (live_slots vs))"
    using i assms(3,4) by (simp add: live_slots_update insert_absorb)
qed

subsection \<open>Rebuilding\<close>

text \<open>\<open>copied_upto\<close>: the new arrays hold the live entries of the old ones among the slots \<open>S\<close>, and no deleted entry.\<close>

definition copied_upto :: "u64 list \<Rightarrow> nat list \<Rightarrow> (u64 \<Rightarrow> nat) \<Rightarrow> nat set \<Rightarrow> nat \<Rightarrow> u64 list \<Rightarrow> nat list \<Rightarrow> bool" where
  "copied_upto ks vs f S n nk nv \<longleftrightarrow> table_ok nk nv \<and> length nv = n \<and> (\<forall>j<n. nv ! j \<noteq> 1)
     \<and> counts (\<lambda>k. if \<exists>i\<in>S \<inter> live_slots vs. ks ! i = k then f k else 0) nk nv
     \<and> card (live_slots nv) = card (S \<inter> live_slots vs)"

lemma rebuild_loop_spec:
  assumes "table_ok ks vs" "counts f ks vs" "card (live_slots vs) < n"
    and "copied_upto ks vs f S n nk nv" "distinct is" "set is \<inter> S = {}" "set is \<union> S = {..<length vs}"
  shows "\<exists>nk' nv'. rebuildPageRefTable_loop ks vs n is (nk, nv) = Some (nk', nv')
    \<and> copied_upto ks vs f {..<length vs} n nk' nv'"
  using assms(4-)
proof (induction "is" arbitrary: S nk nv)
  case Nil
  then show ?case by auto
next
  case (Cons i js)
  have i: "i < length vs" "i \<notin> S" "i \<notin> set js" using Cons.prems by auto
  have S: "set js \<inter> insert i S = {}" "set js \<union> insert i S = {..<length vs}" "distinct js" using Cons.prems by auto
  show ?case
  proof (cases "vs ! i > 1")
    case False
    then have "insert i S \<inter> live_slots vs = S \<inter> live_slots vs" by (auto simp: live_slots_def)
    then have "copied_upto ks vs f (insert i S) n nk nv" using Cons.prems(1) by (simp add: copied_upto_def)
    from Cons.IH [OF this S(3,1,2)] show ?thesis using False by simp
  next
    case True
    let ?f = "\<lambda>k. if \<exists>i\<in>S \<inter> live_slots vs. ks ! i = k then f k else 0"
    have nv: "table_ok nk nv" "length nv = n" "\<forall>j<n. nv ! j \<noteq> 1" "counts ?f nk nv" "card (live_slots nv) = card (S \<inter> live_slots vs)"
      using Cons.prems(1) by (auto simp: copied_upto_def)
    have li: "i \<in> live_slots vs" using True i by (simp add: live_slots_def)
    have uniq: "j = i" if "j \<in> live_slots vs" "ks ! j = ks ! i" for j
      using probing_unique [of page_hash "length vs" "\<lambda>i. ks ! i" _ _ j i] assms(1) that li by (auto simp: table_ok_def live_slots_def)
    have f0: "?f (ks ! i) = 0" using uniq i(2) by auto
    have "card (S \<inter> live_slots vs) \<le> card (live_slots vs)" by (intro card_mono) auto
    then have room: "card (live_slots nv) < length nv" using nv(2,5) assms(3) by simp
    have cont: "nv ! idx \<ge> 1 \<longleftrightarrow> nk ! idx \<noteq> ks ! i \<and> nv ! idx > 1" if "idx < length nv" for idx
    proof -
      have "nv ! idx > 1 \<Longrightarrow> nk ! idx \<noteq> ks ! i" using f0 nv(4) that unfolding counts_def live_slots_def by blast
      moreover have "nv ! idx \<noteq> 1" using nv(2,3) that by simp
      ultimately show ?thesis by linarith
    qed
    obtain idx where idx: "probe_free (\<lambda>idx. nv ! idx \<ge> 1) (length nv) (page_hash (ks ! i) mod length nv) = Some idx"
      "idx < length nv" "table_ok (nk[idx := ks ! i]) (nv[idx := vs ! i])"
      "counts (?f(ks ! i := vs ! i)) (nk[idx := ks ! i]) (nv[idx := vs ! i])"
      "card (live_slots (nv[idx := vs ! i])) = card (live_slots nv) + 1"
      by (rule table_insert [OF nv(1,4) f0 room True cont]) auto
    have fi: "f (ks ! i) = vs ! i" using assms(2) li by (auto simp: counts_def)
    have "?f(ks ! i := vs ! i) = (\<lambda>k. if \<exists>j\<in>insert i S \<inter> live_slots vs. ks ! j = k then f k else 0)"
      using li fi by (auto simp: fun_eq_iff)
    moreover have "insert i S \<inter> live_slots vs = insert i (S \<inter> live_slots vs)" using li by auto
    ultimately have "copied_upto ks vs f (insert i S) n (nk[idx := ks ! i]) (nv[idx := vs ! i])"
      using idx nv True i(2) by (auto simp: copied_upto_def nth_list_update)
    from Cons.IH [OF this S(3,1,2)] show ?thesis using True idx(1) nv(2) by simp
  qed
qed

lemma rebuildPageRefTable_spec:
  assumes "pr_rel t f" "pr_count t < n"
  shows "\<exists>t'. rebuildPageRefTable t n = Some t' \<and> pr_rel t' f \<and> pr_capacity t' = n \<and> pr_count t' = pr_count t"
proof -
  let ?ks = "pr_keys t" and ?vs = "pr_values t"
  have t: "table_ok ?ks ?vs" "counts f ?ks ?vs" "pr_capacity t = length ?vs" "pr_count t = card (live_slots ?vs)"
    using assms(1) by (auto simp: pr_rel_def)
  have "live_slots (replicate n 0) = {}" by (auto simp: live_slots_def)
  then have "copied_upto ?ks ?vs f {} n (replicate n 0) (replicate n 0)"
    by (auto simp: copied_upto_def table_ok_def counts_def probing_def)
  from rebuild_loop_spec [OF t(1,2) _ this, of "[0..<length ?vs]"] obtain nk nv where
    r: "rebuildPageRefTable_loop ?ks ?vs n [0..<length ?vs] (replicate n 0, replicate n 0) = Some (nk, nv)"
      "copied_upto ?ks ?vs f {..<length ?vs} n nk nv"
    using assms(2) t(4) by (auto simp: lessThan_atLeast0)
  have "{..<length ?vs} \<inter> live_slots ?vs = live_slots ?vs" by (auto simp: live_slots_def)
  moreover have "(if \<exists>i\<in>live_slots ?vs. ?ks ! i = k then f k else 0) = f k" for k
    using t(2) unfolding counts_def by auto
  ultimately have "table_ok nk nv" "length nv = n" "counts f nk nv" "card (live_slots nv) = pr_count t"
    using r(2) t(4) by (auto simp: copied_upto_def)
  then show ?thesis using r(1) t(3) by (simp add: rebuildPageRefTable_def pr_rel_def)
qed

lemma testForResize_spec:
  assumes "pr_rel t f"
  shows "\<exists>t'. testForResize t = Some t' \<and> pr_rel t' f \<and> pr_count t' < pr_capacity t' \<and> pr_count t' = pr_count t"
proof -
  have r: "\<exists>t'. rebuildPageRefTable t n = Some t' \<and> pr_rel t' f \<and> pr_count t' < pr_capacity t' \<and> pr_count t' = pr_count t"
    if "pr_count t < n" for n using rebuildPageRefTable_spec [OF assms that] that by auto
  have "pr_count t \<le> pr_capacity t" using assms live_slots_card [of "pr_values t"] by (simp add: pr_rel_def)
  then have "pr_capacity t < 128 \<Longrightarrow> pr_count t < 128" "pr_capacity t > 128 \<Longrightarrow> pr_count t * 4 < pr_capacity t \<Longrightarrow> pr_count t < pr_capacity t div 2"
    "pr_capacity t \<ge> 128 \<Longrightarrow> pr_count t < pr_capacity t * 3 div 2"
    by linarith+
  then show ?thesis
    unfolding testForResize_def MIN_TABLE_CAPACITY_def using assms by (auto intro!: r)
qed

subsection \<open>The operations\<close>

lemma pr_search_spec:
  assumes "pr_rel t f" "0 < pr_capacity t"
  shows "\<exists>r. pr_search t k = Some r \<and> r < pr_capacity t \<and>
    (if f k = 0 then \<not> (pr_keys t ! r = k \<and> pr_values t ! r > 1)
     else pr_keys t ! r = k \<and> pr_values t ! r = f k \<and> pr_values t ! r > 1)"
proof -
  have t: "table_ok (pr_keys t) (pr_values t)" "counts f (pr_keys t) (pr_values t)" "pr_capacity t = length (pr_values t)"
    using assms(1) by (auto simp: pr_rel_def)
  have "0 < length (pr_values t)" using assms(2) t(3) by simp
  then show ?thesis unfolding pr_search_def Let_def t(3) by (rule counts_search [OF t(1,2), of k]) auto
qed

lemma pr_rel_no_count: "pr_rel t f \<Longrightarrow> pr_count t = 0 \<Longrightarrow> f k = 0"
  using counts_zero [of f "pr_keys t" "pr_values t" k] by (auto simp: pr_rel_def)

lemma pr_rel_capacity: "pr_rel t f \<Longrightarrow> pr_count t \<noteq> 0 \<Longrightarrow> 0 < pr_capacity t"
  using live_slots_card [of "pr_values t"] by (auto simp: pr_rel_def)

lemma pr_rel_two: "pr_rel t f \<Longrightarrow> f k \<noteq> 0 \<Longrightarrow> 2 \<le> f k"
  using counts_zero [of f "pr_keys t" "pr_values t" k] by (auto simp: pr_rel_def counts_def live_slots_def)

lemma hasOtherReferences_spec:
  assumes "pr_rel t f"
  shows "hasOtherReferences z t k = Some (k = z \<or> f k \<ge> 2)"
proof (cases "pr_count t = 0")
  case True
  then show ?thesis using pr_rel_no_count [OF assms] by (simp add: hasOtherReferences_def)
next
  case False
  obtain r where "pr_search t k = Some r"
    "if f k = 0 then \<not> (pr_keys t ! r = k \<and> pr_values t ! r > 1)
     else pr_keys t ! r = k \<and> pr_values t ! r = f k \<and> pr_values t ! r > 1"
    using pr_search_spec [OF assms pr_rel_capacity [OF assms False], of k] by blast
  then show ?thesis using False by (cases "f k = 0") (auto simp: hasOtherReferences_def)
qed

lemma addReferenceFor_spec:
  assumes "pr_rel t f"
  shows "\<exists>t'. addReferenceFor t k = Some t' \<and> pr_rel t' (f(k := if f k = 0 then 2 else f k + 1))"
proof -
  from testForResize_spec [OF assms] obtain t1 where t1: "testForResize t = Some t1" "pr_rel t1 f" "pr_count t1 < pr_capacity t1"
    by blast
  have ok: "table_ok (pr_keys t1) (pr_values t1)" "counts f (pr_keys t1) (pr_values t1)"
    "pr_capacity t1 = length (pr_values t1)" "pr_count t1 = card (live_slots (pr_values t1))"
    using t1(2) by (auto simp: pr_rel_def)
  have "0 < pr_capacity t1" using t1(3) by simp
  from pr_search_spec [OF t1(2) this, of k] obtain r where r: "pr_search t1 k = Some r" "r < pr_capacity t1"
    "if f k = 0 then \<not> (pr_keys t1 ! r = k \<and> pr_values t1 ! r > 1)
     else pr_keys t1 ! r = k \<and> pr_values t1 ! r = f k \<and> pr_values t1 ! r > 1"
    by blast
  show ?thesis
  proof (cases "f k = 0")
    case True
    obtain idx where i: "probe_free (\<lambda>idx. pr_keys t1 ! idx \<noteq> k \<and> pr_values t1 ! idx > 1) (length (pr_values t1))
        (page_hash k mod length (pr_values t1)) = Some idx" "idx < length (pr_values t1)"
      "table_ok ((pr_keys t1)[idx := k]) ((pr_values t1)[idx := 2])"
      "counts (f(k := 2)) ((pr_keys t1)[idx := k]) ((pr_values t1)[idx := 2])"
      "card (live_slots ((pr_values t1)[idx := 2])) = card (live_slots (pr_values t1)) + 1"
      by (rule table_insert [OF ok(1,2) True, of 2 "\<lambda>idx. pr_keys t1 ! idx \<noteq> k \<and> pr_values t1 ! idx > 1"])
        (use t1(3) ok(3,4) in simp_all)
    then show ?thesis
      using r True t1(1) ok(3,4) by (auto simp: addReferenceFor_def pr_rel_def)
  next
    case False
    then have li: "r \<in> live_slots (pr_values t1)" using r ok(3) by (simp add: live_slots_def)
    have v: "1 < pr_values t1 ! r + 1" "pr_values t1 ! r + 1 \<noteq> 1" using r(3) False by auto
    note u = table_update [OF ok(1,2) li, of "pr_values t1 ! r + 1"]
    show ?thesis
      using u v r False t1(1) ok(3,4) by (auto simp: addReferenceFor_def pr_rel_def)
  qed
qed

lemma removeReferenceFor_spec:
  assumes "pr_rel t f"
  shows "\<exists>t'. removeReferenceFor t k = Some t' \<and> pr_rel t' (f(k := if f k \<le> 2 then 0 else f k - 1))"
proof (cases "f k = 0")
  case True
  show ?thesis
  proof (cases "pr_count t = 0")
    case False
    obtain r where "pr_search t k = Some r" "\<not> (pr_keys t ! r = k \<and> pr_values t ! r > 1)"
      using pr_search_spec [OF assms pr_rel_capacity [OF assms False], of k] True by auto
    then show ?thesis using True assms by (auto simp: removeReferenceFor_def fun_upd_idem)
  qed (use True assms in \<open>simp add: removeReferenceFor_def fun_upd_idem\<close>)
next
  case False
  then have c: "pr_count t \<noteq> 0" using pr_rel_no_count [OF assms, of k] by auto
  have ok: "table_ok (pr_keys t) (pr_values t)" "counts f (pr_keys t) (pr_values t)"
    "pr_capacity t = length (pr_values t)" "pr_count t = card (live_slots (pr_values t))"
    using assms by (auto simp: pr_rel_def)
  obtain r where r: "pr_search t k = Some r" "r < pr_capacity t"
    "pr_keys t ! r = k \<and> pr_values t ! r = f k \<and> pr_values t ! r > 1"
    using pr_search_spec [OF assms pr_rel_capacity [OF assms c], of k] False by auto
  then have v: "pr_keys t ! r = k" "pr_values t ! r = f k" "2 \<le> f k" using False pr_rel_two [OF assms] by auto
  have li: "r \<in> live_slots (pr_values t)" using r v ok(3) by (simp add: live_slots_def)
  note u = table_update [OF ok(1,2) li, of "f k - 1"]
  let ?t1 = "t\<lparr>pr_values := (pr_values t)[r := f k - 1]\<rparr>"
  have run: "removeReferenceFor t k = (if f k - 1 = 1 then testForResize (?t1\<lparr>pr_count := pr_count t - 1\<rparr>) else Some ?t1)"
    using c r(1,2) v ok(3) by (simp add: removeReferenceFor_def Let_def)
  show ?thesis
  proof (cases "f k = 2")
    case True
    then have "pr_rel (?t1\<lparr>pr_count := pr_count t - 1\<rparr>) (f(k := 0))"
      using u v ok(3,4) by (simp add: pr_rel_def)
    from testForResize_spec [OF this] show ?thesis using run True by auto
  next
    case False
    then have "f k - 1 \<noteq> 1" using v(3) by simp
    then show ?thesis using u v run ok(3,4) False by (simp add: pr_rel_def)
  qed
qed

interpretation page_refs: reference_table pr_rel "hasOtherReferences z" addReferenceFor removeReferenceFor "\<lambda>k. k \<noteq> z"
proof
  show "hasOtherReferences z t k = Some (f k \<ge> 2)" if "pr_rel t f" "k \<noteq> z" for t f k
    using hasOtherReferences_spec [OF that(1)] that(2) by simp
qed (use addReferenceFor_spec removeReferenceFor_spec in blast)+

definition empty_table :: PageRefTable where
  "empty_table = \<lparr>pr_count = 0, pr_capacity = 0, pr_keys = [], pr_values = []\<rparr>"

lemma empty_table_rel: "pr_rel empty_table (\<lambda>_. 0)"
  by (simp add: pr_rel_def empty_table_def table_ok_def counts_def live_slots_def probing_def)

text \<open>
  Property C4 (page_references_exact). Start from the empty table with every page referenced once
  or not at all, and let clients share and drop references they own, in any order and number.
  Every operation returns, whatever resizing and deleted entries it meets; afterwards the table
  is in the refinement relation with the true counts; and exactly the pages whose last
  reference was dropped were reported as free.
\<close>

theorem page_references_exact:
  assumes "\<forall>k. r k \<le> 1" "ref_steps xs r = Some r'" "\<forall>k. Drop k \<in> set xs \<longrightarrow> k \<noteq> z"
  shows "\<exists>t. page_refs.apply_ops z xs empty_table = Some (freed xs r, t) \<and> pr_rel t (shared_counts r')
    \<and> (\<forall>k. hasOtherReferences z t k = Some (k = z \<or> r' k \<ge> 2))"
proof -
  have "\<not> r k \<ge> 2" for k using assms(1) [THEN spec, of k] by simp
  then have "shared_counts r = (\<lambda>_. 0)" by (simp add: shared_counts_def fun_eq_iff)
  then have "pr_rel empty_table (shared_counts r)" using empty_table_rel by simp
  from page_refs.apply_ops_spec [OF this assms(2,3)] obtain t where
    "page_refs.apply_ops z xs empty_table = Some (freed xs r, t)" "pr_rel t (shared_counts r')" by blast
  then show ?thesis using hasOtherReferences_spec by (auto simp: shared_counts_def)
qed

text \<open>Witness: a page shared twice and dropped three times is freed by the third drop.\<close>

theorem page_references_exact_witness:
  "\<exists>t. page_refs.apply_ops 0x1000 [Share 0x2000, Share 0x2000, Drop 0x2000, Drop 0x2000, Drop 0x2000] empty_table = Some ([0x2000], t)"
  using page_references_exact [of "\<lambda>_. 1" "[Share 0x2000, Share 0x2000, Drop 0x2000, Drop 0x2000, Drop 0x2000]" "(\<lambda>_. 1)(0x2000 := 0)" "0x1000"]
  by auto

end
