(* ===== verification/StringMap.thy ===== *)
theory StringMap
  imports OpenAddressing Util
begin

text \<open>
  Model of kernel/src/util/stringmap.c. A key slot holds \<open>EMPTY\<close>, \<open>DELETED\<close> or a clone of the key,
  given by its characters; a value is a pointer. \<open>areKeysEqual\<close> compares characters
  (\<open>strcmp\<close>, see theory StringOps). \<open>rebuildStringMap\<close> passes a value pointer to \<open>hashString\<close>, so it
  reads memory, which is its argument \<open>m\<close>. Indices and counts are natural numbers.
\<close>

datatype map_key = EMPTY | DELETED | Key "u8 list"

record StringMap =
  sm_count :: nat
  sm_capacity :: nat
  sm_keys :: "map_key list"
  sm_values :: "u64 list"

definition STRING_MAP_INITIALIZER :: StringMap where
  "STRING_MAP_INITIALIZER = \<lparr>sm_count = 0, sm_capacity = 0, sm_keys = [], sm_values = []\<rparr>"

definition MIN_MAP_CAPACITY :: nat where
  "MIN_MAP_CAPACITY = 128"

fun rebuildStringMap_loop :: "memory \<Rightarrow> map_key list \<Rightarrow> u64 list \<Rightarrow> nat \<Rightarrow> nat list \<Rightarrow> map_key list \<times> u64 list
    \<Rightarrow> (map_key list \<times> u64 list) option" where
  "rebuildStringMap_loop m keys vals new_size [] new = Some new"
| "rebuildStringMap_loop m keys vals new_size (i # is) (new_keys, new_values) =
     (if vals ! i \<noteq> 0 \<and> vals ! i \<noteq> 1 then do {
        hash \<leftarrow> hashString m (vals ! i);
        idx \<leftarrow> probe_free (\<lambda>idx. new_values ! idx \<noteq> 0) new_size (unat hash mod new_size);
        rebuildStringMap_loop m keys vals new_size is (new_keys[idx := keys ! i], new_values[idx := vals ! i]) }
      else rebuildStringMap_loop m keys vals new_size is (new_keys, new_values))"

definition rebuildStringMap :: "memory \<Rightarrow> StringMap \<Rightarrow> nat \<Rightarrow> StringMap option" where
  "rebuildStringMap m table new_size = do {
     (new_keys, new_values) \<leftarrow> rebuildStringMap_loop m (sm_keys table) (sm_values table) new_size
        [0..<sm_capacity table] (replicate new_size EMPTY, replicate new_size 0);
     Some (table\<lparr>sm_keys := new_keys, sm_values := new_values, sm_capacity := new_size\<rparr>) }"

definition testForResizeMap :: "memory \<Rightarrow> StringMap \<Rightarrow> StringMap option" where
  "testForResizeMap m tab =
     (if sm_capacity tab < MIN_MAP_CAPACITY then rebuildStringMap m tab MIN_MAP_CAPACITY
      else if sm_capacity tab > MIN_MAP_CAPACITY \<and> sm_count tab * 4 < sm_capacity tab
      then rebuildStringMap m tab (sm_capacity tab div 2)
      else if sm_count tab * 3 > sm_capacity tab * 2
      then rebuildStringMap m tab (sm_capacity tab + sm_capacity tab div 2)
      else Some tab)"

definition areKeysEqual :: "map_key \<Rightarrow> u8 list \<Rightarrow> bool" where
  "areKeysEqual in_table key = (case in_table of EMPTY \<Rightarrow> False | DELETED \<Rightarrow> False | Key k \<Rightarrow> k = key)"

definition key_start :: "StringMap \<Rightarrow> u8 list \<Rightarrow> nat" where
  "key_start tab key = unat (hash_chars key) mod sm_capacity tab"

definition sm_search :: "StringMap \<Rightarrow> u8 list \<Rightarrow> nat option" where
  "sm_search tab key =
     probe_find (\<lambda>idx. sm_keys tab ! idx \<noteq> EMPTY \<and> \<not> areKeysEqual (sm_keys tab ! idx) key)
       (sm_capacity tab) (key_start tab key) (key_start tab key)"

definition putToStringMap :: "memory \<Rightarrow> StringMap \<Rightarrow> u8 list \<Rightarrow> u64 \<Rightarrow> StringMap option" where
  "putToStringMap m tab key v = do {
     tab \<leftarrow> testForResizeMap m tab;
     idx \<leftarrow> sm_search tab key;
     if areKeysEqual (sm_keys tab ! idx) key
     then Some (tab\<lparr>sm_values := (sm_values tab)[idx := v]\<rparr>)
     else do {
       idx \<leftarrow> probe_free (\<lambda>idx. sm_keys tab ! idx \<noteq> EMPTY \<and> sm_keys tab ! idx \<noteq> DELETED
                  \<and> \<not> areKeysEqual (sm_keys tab ! idx) key) (sm_capacity tab) (key_start tab key);
       Some (tab\<lparr>sm_keys := (sm_keys tab)[idx := Key key], sm_values := (sm_values tab)[idx := v],
                 sm_count := sm_count tab + 1\<rparr>) } }"

definition getFromStringMap :: "StringMap \<Rightarrow> u8 list \<Rightarrow> u64 option" where
  "getFromStringMap tab key =
     (if sm_count tab \<noteq> 0 then do {
        idx \<leftarrow> sm_search tab key;
        Some (if areKeysEqual (sm_keys tab ! idx) key then sm_values tab ! idx else 0) }
      else Some 0)"

definition getKeyFromStringMap :: "StringMap \<Rightarrow> u8 list \<Rightarrow> u8 list option option" where
  "getKeyFromStringMap tab key =
     (if sm_count tab \<noteq> 0 then do {
        idx \<leftarrow> sm_search tab key;
        Some (case sm_keys tab ! idx of Key k \<Rightarrow> if k = key then Some k else None | _ \<Rightarrow> None) }
      else Some None)"

definition deleteFromStringMap :: "memory \<Rightarrow> StringMap \<Rightarrow> u8 list \<Rightarrow> StringMap option" where
  "deleteFromStringMap m tab key =
     (if sm_count tab \<noteq> 0 then do {
        idx \<leftarrow> sm_search tab key;
        if areKeysEqual (sm_keys tab ! idx) key
        then testForResizeMap m (tab\<lparr>sm_keys := (sm_keys tab)[idx := DELETED], sm_count := sm_count tab - 1\<rparr>)
        else Some tab }
      else Some tab)"

subsection \<open>Refinement of a finite map, between resizes\<close>

definition key_hash :: "map_key \<Rightarrow> nat" where
  "key_hash k = (case k of Key s \<Rightarrow> unat (hash_chars s) | _ \<Rightarrow> 0)"

definition live_keys :: "map_key list \<Rightarrow> nat set" where
  "live_keys ks = {i. i < length ks \<and> ks ! i \<noteq> EMPTY \<and> ks ! i \<noteq> DELETED}"

definition sm_rel :: "StringMap \<Rightarrow> (u8 list \<Rightarrow> u64 option) \<Rightarrow> bool" where
  "sm_rel t f \<longleftrightarrow> sm_capacity t = MIN_MAP_CAPACITY \<and> length (sm_keys t) = MIN_MAP_CAPACITY \<and> length (sm_values t) = MIN_MAP_CAPACITY
     \<and> probing key_hash MIN_MAP_CAPACITY (\<lambda>i. sm_keys t ! i) (\<lambda>i. sm_keys t ! i \<noteq> EMPTY \<and> sm_keys t ! i \<noteq> DELETED) (\<lambda>i. sm_keys t ! i \<noteq> EMPTY)
     \<and> sm_count t = card (live_keys (sm_keys t))
     \<and> (\<forall>i<MIN_MAP_CAPACITY. \<forall>k. sm_keys t ! i = Key k \<longrightarrow> f k = Some (sm_values t ! i))
     \<and> (\<forall>k v. f k = Some v \<longrightarrow> (\<exists>i<MIN_MAP_CAPACITY. sm_keys t ! i = Key k))"

lemma sm_relD:
  assumes "sm_rel t f"
  shows "sm_capacity t = MIN_MAP_CAPACITY" "length (sm_keys t) = MIN_MAP_CAPACITY" "length (sm_values t) = MIN_MAP_CAPACITY"
    "sm_count t = card (live_keys (sm_keys t))"
    "\<And>i k. i < MIN_MAP_CAPACITY \<Longrightarrow> sm_keys t ! i = Key k \<Longrightarrow> f k = Some (sm_values t ! i)"
    "\<And>k v. f k = Some v \<Longrightarrow> \<exists>i<MIN_MAP_CAPACITY. sm_keys t ! i = Key k"
    "probing key_hash MIN_MAP_CAPACITY (\<lambda>i. sm_keys t ! i) (\<lambda>i. sm_keys t ! i \<noteq> EMPTY \<and> sm_keys t ! i \<noteq> DELETED) (\<lambda>i. sm_keys t ! i \<noteq> EMPTY)"
  using assms unfolding sm_rel_def by (elim conjE, simp)+

lemma areKeysEqual_iff [simp]: "areKeysEqual x k \<longleftrightarrow> x = Key k"
  by (auto simp: areKeysEqual_def split: map_key.splits)

lemma live_keys_finite [simp]: "finite (live_keys ks)"
  by (simp add: live_keys_def)

lemma live_keys_update: "i < length ks \<Longrightarrow>
    live_keys (ks[i := k]) = (if k \<noteq> EMPTY \<and> k \<noteq> DELETED then insert i (live_keys ks) else live_keys ks - {i})"
  by (auto simp: live_keys_def nth_list_update)

lemma sm_search_spec:
  assumes "sm_rel t f"
  shows "\<exists>r<MIN_MAP_CAPACITY. sm_search t k = Some r \<and> (f k \<noteq> None \<longleftrightarrow> sm_keys t ! r = Key k)"
proof -
  note t = sm_relD [OF assms]
  let ?c = "\<lambda>idx. sm_keys t ! idx \<noteq> EMPTY \<and> \<not> areKeysEqual (sm_keys t ! idx) k"
  show ?thesis
  proof (cases "f k")
    case None
    have st: "key_start t k < MIN_MAP_CAPACITY" by (simp add: key_start_def t(1)) (simp add: MIN_MAP_CAPACITY_def)
    obtain r where r: "probe_find ?c MIN_MAP_CAPACITY (key_start t k) (key_start t k) = Some r" "r < MIN_MAP_CAPACITY"
      by (rule probe_find_returns [OF st, of ?c])
    have "sm_keys t ! r \<noteq> Key k" using t(5) [OF r(2)] None by fastforce
    then show ?thesis using None r by (intro exI [of _ r]) (simp add: sm_search_def t(1))
  next
    case (Some v)
    then obtain i where i: "i < MIN_MAP_CAPACITY" "sm_keys t ! i = Key k" using t(6) by blast
    have "probe_find ?c MIN_MAP_CAPACITY (key_hash (sm_keys t ! i) mod MIN_MAP_CAPACITY) (key_hash (sm_keys t ! i) mod MIN_MAP_CAPACITY) = Some i"
      by (rule find_live [OF t(7) i(1)]) (auto simp: i(2))
    then show ?thesis
      using Some i by (intro exI [of _ i]) (simp add: sm_search_def t(1) key_hash_def key_start_def)
  qed
qed

lemma getFromStringMap_spec:
  assumes "sm_rel t f"
  shows "getFromStringMap t k = Some (case f k of None \<Rightarrow> 0 | Some v \<Rightarrow> v)"
proof -
  note t = sm_relD [OF assms]
  obtain r where r: "r < MIN_MAP_CAPACITY" "sm_search t k = Some r" "f k \<noteq> None \<longleftrightarrow> sm_keys t ! r = Key k"
    using sm_search_spec [OF assms] by blast
  show ?thesis
  proof (cases "f k")
    case None
    then show ?thesis using r by (simp add: getFromStringMap_def)
  next
    case (Some v)
    then have k: "sm_keys t ! r = Key k" using r(3) by simp
    then have "r \<in> live_keys (sm_keys t)" using r(1) t(2) by (simp add: live_keys_def)
    then have "sm_count t \<noteq> 0" using t(4) by auto
    then show ?thesis using Some k r(2) t(5) [OF r(1) k] by (simp add: getFromStringMap_def)
  qed
qed

lemma no_resize: "sm_rel t f \<Longrightarrow> sm_count t \<le> 85 \<Longrightarrow> testForResizeMap m t = Some t"
  by (simp add: testForResizeMap_def sm_rel_def) (simp add: MIN_MAP_CAPACITY_def)

lemma sm_relI:
  assumes "sm_capacity t = MIN_MAP_CAPACITY" "length (sm_keys t) = MIN_MAP_CAPACITY" "length (sm_values t) = MIN_MAP_CAPACITY"
    "sm_count t = card (live_keys (sm_keys t))"
    "\<And>i k. i < MIN_MAP_CAPACITY \<Longrightarrow> sm_keys t ! i = Key k \<Longrightarrow> f k = Some (sm_values t ! i)"
    "\<And>k v. f k = Some v \<Longrightarrow> \<exists>i<MIN_MAP_CAPACITY. sm_keys t ! i = Key k"
    "probing key_hash MIN_MAP_CAPACITY (\<lambda>i. sm_keys t ! i) (\<lambda>i. sm_keys t ! i \<noteq> EMPTY \<and> sm_keys t ! i \<noteq> DELETED) (\<lambda>i. sm_keys t ! i \<noteq> EMPTY)"
  shows "sm_rel t f"
  unfolding sm_rel_def using assms by (intro conjI allI impI) blast+

lemma sm_rel_unique:
  assumes "sm_rel t f" "r < MIN_MAP_CAPACITY" "sm_keys t ! r = Key k" "i < MIN_MAP_CAPACITY" "sm_keys t ! i = Key k"
  shows "i = r"
  using probing_unique [OF sm_relD(7) [OF assms(1)] assms(4) _ assms(2)] assms(3,5) by simp

lemma sm_rel_update:
  assumes "sm_rel t f" "r < MIN_MAP_CAPACITY" "sm_keys t ! r = Key k"
  shows "sm_rel (t\<lparr>sm_values := (sm_values t)[r := v]\<rparr>) (f(k \<mapsto> v))"
proof (rule sm_relI)
  note t = sm_relD [OF assms(1)]
  show "(f(k \<mapsto> v)) k' = Some (sm_values (t\<lparr>sm_values := (sm_values t)[r := v]\<rparr>) ! i)"
    if i: "i < MIN_MAP_CAPACITY" "sm_keys (t\<lparr>sm_values := (sm_values t)[r := v]\<rparr>) ! i = Key k'" for i k'
  proof (cases "i = r")
    case True
    then show ?thesis using i assms(2,3) t(3) by simp
  next
    case False
    then have "k' \<noteq> k" using sm_rel_unique [OF assms(1-3) i(1)] i(2) by auto
    then show ?thesis using False i t(5) [of i k'] by simp
  qed
  show "\<exists>i<MIN_MAP_CAPACITY. sm_keys (t\<lparr>sm_values := (sm_values t)[r := v]\<rparr>) ! i = Key k'" if "(f(k \<mapsto> v)) k' = Some w" for k' w
  proof (cases "k' = k")
    case True
    then show ?thesis using assms(2,3) by auto
  next
    case False
    then show ?thesis using that t(6) [of k' w] by simp
  qed
qed (use sm_relD(1-4,7) [OF assms(1)] in simp_all)

lemma sm_rel_insert:
  assumes "sm_rel t f" "f k = None" "sm_count t \<le> 85"
  obtains idx where "probe_free (\<lambda>idx. sm_keys t ! idx \<noteq> EMPTY \<and> sm_keys t ! idx \<noteq> DELETED \<and> \<not> areKeysEqual (sm_keys t ! idx) k)
      MIN_MAP_CAPACITY (key_hash (Key k) mod MIN_MAP_CAPACITY) = Some idx" "idx < MIN_MAP_CAPACITY"
    "sm_keys t ! idx = EMPTY \<or> sm_keys t ! idx = DELETED"
    "probing key_hash MIN_MAP_CAPACITY (\<lambda>i. (sm_keys t)[idx := Key k] ! i)
       (\<lambda>i. (sm_keys t)[idx := Key k] ! i \<noteq> EMPTY \<and> (sm_keys t)[idx := Key k] ! i \<noteq> DELETED) (\<lambda>i. (sm_keys t)[idx := Key k] ! i \<noteq> EMPTY)"
proof -
  note t = sm_relD [OF assms(1)]
  let ?live = "\<lambda>i. sm_keys t ! i \<noteq> EMPTY \<and> sm_keys t ! i \<noteq> DELETED"
  have absent: "\<forall>i<MIN_MAP_CAPACITY. ?live i \<longrightarrow> sm_keys t ! i \<noteq> Key k"
  proof (intro allI impI notI)
    fix i assume "i < MIN_MAP_CAPACITY" "sm_keys t ! i = Key k"
    then show False using t(5) [of i k] assms(2) by simp
  qed
  have free: "\<exists>i<MIN_MAP_CAPACITY. \<not> ?live i"
  proof (rule ccontr)
    assume "\<not> ?thesis"
    then have "live_keys (sm_keys t) = {..<MIN_MAP_CAPACITY}" using t(2) by (auto simp: live_keys_def)
    then have "sm_count t = MIN_MAP_CAPACITY" using t(4) by simp
    then show False using assms(3) by (simp add: MIN_MAP_CAPACITY_def)
  qed
  have cont: "sm_keys t ! idx \<noteq> EMPTY \<and> sm_keys t ! idx \<noteq> DELETED \<and> \<not> areKeysEqual (sm_keys t ! idx) k
      \<longleftrightarrow> sm_keys t ! idx \<noteq> Key k \<and> ?live idx" for idx by auto
  obtain idx where i: "probe_free (\<lambda>idx. sm_keys t ! idx \<noteq> EMPTY \<and> sm_keys t ! idx \<noteq> DELETED \<and> \<not> areKeysEqual (sm_keys t ! idx) k)
      MIN_MAP_CAPACITY (key_hash (Key k) mod MIN_MAP_CAPACITY) = Some idx" "idx < MIN_MAP_CAPACITY" "\<not> ?live idx"
    "probing key_hash MIN_MAP_CAPACITY ((\<lambda>i. sm_keys t ! i)(idx := Key k)) (?live(idx := True)) ((\<lambda>i. sm_keys t ! i \<noteq> EMPTY)(idx := True))"
    by (rule probing_insert [OF t(7) free absent cont])
  have "(\<lambda>i. sm_keys t ! i)(idx := Key k) = (\<lambda>i. (sm_keys t)[idx := Key k] ! i)"
    "?live(idx := True) = (\<lambda>i. (sm_keys t)[idx := Key k] ! i \<noteq> EMPTY \<and> (sm_keys t)[idx := Key k] ! i \<noteq> DELETED)"
    "(\<lambda>i. sm_keys t ! i \<noteq> EMPTY)(idx := True) = (\<lambda>i. (sm_keys t)[idx := Key k] ! i \<noteq> EMPTY)"
    using i(2) t(2) by (simp_all add: fun_eq_iff nth_list_update)
  then show thesis using that [of idx] i by simp
qed

lemma putToStringMap_spec:
  assumes "sm_rel t f" "sm_count t \<le> 85"
  shows "\<exists>t'. putToStringMap m t k v = Some t' \<and> sm_rel t' (f(k \<mapsto> v))"
proof -
  note t = sm_relD [OF assms(1)]
  obtain r where r: "r < MIN_MAP_CAPACITY" "sm_search t k = Some r" "f k \<noteq> None \<longleftrightarrow> sm_keys t ! r = Key k"
    using sm_search_spec [OF assms(1)] by blast
  show ?thesis
  proof (cases "f k")
    case (Some w)
    then show ?thesis
      using r no_resize [OF assms] sm_rel_update [OF assms(1) r(1), of k v] by (simp add: putToStringMap_def)
  next
    case None
    obtain idx where i: "probe_free (\<lambda>idx. sm_keys t ! idx \<noteq> EMPTY \<and> sm_keys t ! idx \<noteq> DELETED \<and> \<not> areKeysEqual (sm_keys t ! idx) k)
        MIN_MAP_CAPACITY (key_hash (Key k) mod MIN_MAP_CAPACITY) = Some idx" "idx < MIN_MAP_CAPACITY"
      "sm_keys t ! idx = EMPTY \<or> sm_keys t ! idx = DELETED"
      "probing key_hash MIN_MAP_CAPACITY (\<lambda>i. (sm_keys t)[idx := Key k] ! i)
       (\<lambda>i. (sm_keys t)[idx := Key k] ! i \<noteq> EMPTY \<and> (sm_keys t)[idx := Key k] ! i \<noteq> DELETED) (\<lambda>i. (sm_keys t)[idx := Key k] ! i \<noteq> EMPTY)"
      by (rule sm_rel_insert [OF assms(1) None assms(2)])
    let ?t = "t\<lparr>sm_keys := (sm_keys t)[idx := Key k], sm_values := (sm_values t)[idx := v], sm_count := sm_count t + 1\<rparr>"
    have "putToStringMap m t k v = Some ?t"
      using None r i(1) no_resize [OF assms] t(1) by (simp add: putToStringMap_def key_start_def key_hash_def)
    moreover have "sm_rel ?t (f(k \<mapsto> v))"
    proof (rule sm_relI)
      show "(f(k \<mapsto> v)) k' = Some (sm_values ?t ! j)" if "j < MIN_MAP_CAPACITY" "sm_keys ?t ! j = Key k'" for j k'
        using that t(2,3) t(5) [of j k'] None i(2) by (cases "j = idx") auto
      show "\<exists>i<MIN_MAP_CAPACITY. sm_keys ?t ! i = Key k'" if f': "(f(k \<mapsto> v)) k' = Some w'" for k' w'
      proof (cases "k' = k")
        case True
        then show ?thesis using i(2) t(2) by (intro exI [of _ idx]) simp
      next
        case False
        then obtain j where "j < MIN_MAP_CAPACITY" "sm_keys t ! j = Key k'" using f' t(6) [of k' w'] by auto
        moreover from this have "j \<noteq> idx" using i(3) by auto
        ultimately show ?thesis by (intro exI [of _ j]) simp
      qed
      have "idx \<notin> live_keys (sm_keys t)" using i(3) by (auto simp: live_keys_def)
      then show "sm_count ?t = card (live_keys (sm_keys ?t))" using i(2) t(2,4) by (simp add: live_keys_update)
    qed (use t(1-3) i(4) in simp_all)
    ultimately show ?thesis by blast
  qed
qed

lemma deleteFromStringMap_spec:
  assumes "sm_rel t f" "sm_count t \<le> 86"
  shows "\<exists>t'. deleteFromStringMap m t k = Some t' \<and> sm_rel t' (f(k := None))"
proof -
  note t = sm_relD [OF assms(1)]
  obtain r where r: "r < MIN_MAP_CAPACITY" "sm_search t k = Some r" "f k \<noteq> None \<longleftrightarrow> sm_keys t ! r = Key k"
    using sm_search_spec [OF assms(1)] by blast
  show ?thesis
  proof (cases "f k")
    case None
    then have "f(k := None) = f" by auto
    then show ?thesis using None r assms(1) by (simp add: deleteFromStringMap_def)
  next
    case (Some v)
    then have k: "sm_keys t ! r = Key k" using r(3) by simp
    have live: "r \<in> live_keys (sm_keys t)" using k r(1) t(2) by (simp add: live_keys_def)
    then have c: "sm_count t \<noteq> 0" using t(4) by auto
    let ?t = "t\<lparr>sm_keys := (sm_keys t)[r := DELETED], sm_count := sm_count t - 1\<rparr>"
    have rel: "sm_rel ?t (f(k := None))"
    proof (rule sm_relI)
      show "(f(k := None)) k' = Some (sm_values ?t ! j)" if j: "j < MIN_MAP_CAPACITY" "sm_keys ?t ! j = Key k'" for j k'
      proof -
        have "j \<noteq> r" using j t(2) r(1) by auto
        moreover from this have "k' \<noteq> k" using sm_rel_unique [OF assms(1) r(1) k j(1)] j(2) by auto
        ultimately show ?thesis using j t(5) [of j k'] by simp
      qed
      show "\<exists>i<MIN_MAP_CAPACITY. sm_keys ?t ! i = Key k'" if f': "(f(k := None)) k' = Some w'" for k' w'
      proof -
        have "k' \<noteq> k" using f' by auto
        then obtain j where "j < MIN_MAP_CAPACITY" "sm_keys t ! j = Key k'" using f' t(6) [of k' w'] by auto
        moreover from this have "j \<noteq> r" using k \<open>k' \<noteq> k\<close> by auto
        ultimately show ?thesis by (intro exI [of _ j]) simp
      qed
      show "sm_count ?t = card (live_keys (sm_keys ?t))" using live r(1) t(2,4) by (simp add: live_keys_update)
      have K: "(sm_keys t)[r := DELETED] ! i = (if i = r then DELETED else sm_keys t ! i)" for i
        using r(1) t(2) by (simp add: nth_list_update)
      show "probing key_hash MIN_MAP_CAPACITY (\<lambda>i. sm_keys ?t ! i) (\<lambda>i. sm_keys ?t ! i \<noteq> EMPTY \<and> sm_keys ?t ! i \<noteq> DELETED) (\<lambda>i. sm_keys ?t ! i \<noteq> EMPTY)"
      proof -
        let ?K = "((!) (sm_keys t))(r := DELETED)"
        have a: "(!) ((sm_keys t)[r := DELETED]) = ?K" by (simp add: K fun_eq_iff)
        have b: "(\<lambda>i. ?K i \<noteq> EMPTY) = (\<lambda>i. sm_keys t ! i \<noteq> EMPTY)" using k by (auto simp: fun_eq_iff)
        have c: "probing key_hash MIN_MAP_CAPACITY ?K (\<lambda>i. ?K i \<noteq> EMPTY \<and> ?K i \<noteq> DELETED) (\<lambda>i. sm_keys t ! i \<noteq> EMPTY)"
          by (rule probing_retire [OF t(7)]) (simp_all add: k)
        have e: "sm_keys ?t = (sm_keys t)[r := DELETED]" by simp
        show ?thesis unfolding e a b by (rule c)
      qed
    qed (use t(1-3) in simp_all)
    then have "testForResizeMap m ?t = Some ?t" using assms(2) by (intro no_resize) auto
    then show ?thesis using c r k rel by (simp add: deleteFromStringMap_def)
  qed
qed

lemma rebuild_loop_zero:
  "\<forall>i\<in>set is. vals ! i = 0 \<Longrightarrow> rebuildStringMap_loop m keys vals n is new = Some new"
  by (induction "is" arbitrary: new) auto

lemma initial_rel: "\<exists>t. testForResizeMap m STRING_MAP_INITIALIZER = Some t \<and> sm_rel t (\<lambda>_. None)"
proof -
  let ?t = "\<lparr>sm_count = 0, sm_capacity = MIN_MAP_CAPACITY, sm_keys = replicate MIN_MAP_CAPACITY EMPTY, sm_values = replicate MIN_MAP_CAPACITY 0\<rparr>"
  have "0 < MIN_MAP_CAPACITY" by (simp add: MIN_MAP_CAPACITY_def)
  then have "testForResizeMap m STRING_MAP_INITIALIZER = Some ?t"
    by (simp add: testForResizeMap_def STRING_MAP_INITIALIZER_def rebuildStringMap_def)
  moreover have "sm_rel ?t (\<lambda>_. None)"
    by (rule sm_relI) (auto simp: live_keys_def probing_def)
  ultimately show ?thesis by blast
qed

text \<open>
  Property C33 (string_map_refines). A string map that has its minimum capacity and at most 85
  entries, deleted ones not counted, is a finite map: every operation returns, lookup returns
  the value stored last, insertion and deletion change the entry of their key only, whatever
  collisions and deleted entries the searches meet.
\<close>

theorem string_map_refines:
  assumes "sm_rel t f" "sm_count t \<le> 85"
  shows "getFromStringMap t k = Some (case f k of None \<Rightarrow> 0 | Some w \<Rightarrow> w)
    \<and> (\<exists>t'. putToStringMap m t k v = Some t' \<and> sm_rel t' (f(k \<mapsto> v)))
    \<and> (\<exists>t'. deleteFromStringMap m t k = Some t' \<and> sm_rel t' (f(k := None)))"
  using getFromStringMap_spec [OF assms(1)] putToStringMap_spec [OF assms] deleteFromStringMap_spec [OF assms(1)] assms(2)
  by simp

text \<open>Witness: the first entry of a map.\<close>

theorem string_map_refines_witness:
  "\<exists>t t'. sm_rel t (\<lambda>_. None) \<and> putToStringMap (\<lambda>_. 0) t [97] 5 = Some t' \<and> sm_rel t' [[97] \<mapsto> 5]"
proof -
  obtain t where t: "sm_rel t (\<lambda>_. None)" using initial_rel by blast
  then have "live_keys (sm_keys t) = {}"
    using sm_relD(2,5) [OF t] by (auto simp: live_keys_def) (metis map_key.exhaust option.distinct(1))
  then have "sm_count t \<le> 85" using sm_relD(4) [OF t] by simp
  from string_map_refines [OF t this, of "[97]" "\<lambda>_. 0" 5] t show ?thesis by blast
qed

text \<open>
  Property C34 (rebuild_hashes_value). Resizing places an entry by the hash of the string its value
  points to, not by the hash of its key. When the two lead to different slots, a map with a
  single entry no longer finds it after \<open>rebuildStringMap\<close>, although it did before.
\<close>

theorem rebuild_hashes_value:
  assumes "t = \<lparr>sm_count = 1, sm_capacity = 128, sm_keys = (replicate 128 EMPTY)[unat (hash_chars k) mod 128 := Key k],
      sm_values = (replicate 128 0)[unat (hash_chars k) mod 128 := v]\<rparr>"
    and "v \<noteq> 0" "v \<noteq> 1" "hashString m v = Some h" "0 < n" "unat h mod n \<noteq> unat (hash_chars k) mod n"
  shows "getFromStringMap t k = Some v \<and> (\<exists>t'. rebuildStringMap m t n = Some t' \<and> getFromStringMap t' k = Some 0)"
proof -
  let ?i = "unat (hash_chars k) mod 128" and ?j = "unat h mod n"
  have i: "?i < 128" by simp
  have "sm_search t k = Some ?i"
    unfolding sm_search_def by (subst probe_find.simps) (simp add: assms(1) key_start_def)
  then have get: "getFromStringMap t k = Some v" by (simp add: getFromStringMap_def assms(1))
  have split: "[0..<128] = [0..<?i] @ ?i # [Suc ?i..<128]" using i by (metis upt_add_eq_append upt_conv_Cons le0 less_imp_le_nat le_add_diff_inverse)
  have pf: "probe_free (\<lambda>idx. replicate n (0 :: u64) ! idx \<noteq> 0) n ?j = Some ?j"
    using assms(5) by (subst probe_free.simps) simp
  have loop: "rebuildStringMap_loop m (sm_keys t) (sm_values t) n (xs @ ?i # ys) (replicate n EMPTY, replicate n 0)
      = Some ((replicate n EMPTY)[?j := Key k], (replicate n 0)[?j := v])"
    if "\<forall>x\<in>set (xs @ ys). sm_values t ! x = 0" for xs ys
    using that
  proof (induction xs)
    case Nil
    then show ?case using assms(1-4) pf by (simp add: rebuild_loop_zero)
  qed simp
  have "\<forall>x\<in>set ([0..<?i] @ [Suc ?i..<128]). sm_values t ! x = 0" by (auto simp: assms(1))
  from loop [OF this] have
    r: "rebuildStringMap m t n = Some (t\<lparr>sm_keys := (replicate n EMPTY)[?j := Key k], sm_values := (replicate n 0)[?j := v], sm_capacity := n\<rparr>)"
    unfolding rebuildStringMap_def split [symmetric] by (simp add: assms(1))
  have "sm_search (t\<lparr>sm_keys := (replicate n EMPTY)[?j := Key k], sm_values := (replicate n 0)[?j := v], sm_capacity := n\<rparr>) k
      = Some (unat (hash_chars k) mod n)"
    unfolding sm_search_def using assms(5,6) by (subst probe_find.simps) (simp add: key_start_def nth_list_update)
  then show ?thesis using get r assms(5,6) by (simp add: getFromStringMap_def nth_list_update assms(1))
qed

text \<open>Witness: the key \<open>a\<close> with a value pointing to an empty string, and a capacity of 192.\<close>

theorem rebuild_hashes_value_witness:
  "\<exists>t t'. getFromStringMap t [97] = Some 0x5000 \<and> rebuildStringMap (\<lambda>_. 0) t 192 = Some t' \<and> getFromStringMap t' [97] = Some 0"
proof -
  have "hashString (\<lambda>_. 0) 0x5000 = Some (hashInt64 7919)"
    by (simp add: hashString_def hashString_loop.simps [of "\<lambda>_. 0"])
  moreover have "unat (hashInt64 7919) mod 192 \<noteq> unat (hash_chars [97]) mod 192"
    by (simp add: hash_chars_def hashInt64_def)
  ultimately show ?thesis using rebuild_hashes_value [OF refl, of "0x5000" "\<lambda>_. 0" "hashInt64 7919" 192 "[97]"] by auto
qed
end
