(* ===== verification/PageTable.thy ===== *)
theory PageTable
  imports PageAlloc
begin

text \<open>
  Model of kernel/src/memory/pagetable.c and .h: Sv39 page tables. A table is a page of 512
  64-bit entries in memory; an entry has ten flag bits, the 44-bit page number \<open>paddr\<close> and ten
  reserved bits. Pointers to entries are addresses. Shifts \<open>paddr << 12\<close> are 64-bit shifts (page
  numbers of existing memory have far fewer than 44 bits). New tables come from \<open>zallocPage\<close>.
\<close>

unbundle bit_operations_syntax

subsection \<open>Entries\<close>

definition PAGE_ENTRY_VALID :: u64 where "PAGE_ENTRY_VALID = 1"
definition PAGE_ENTRY_READ :: u64 where "PAGE_ENTRY_READ = 2"
definition PAGE_ENTRY_WRITE :: u64 where "PAGE_ENTRY_WRITE = 4"
definition PAGE_ENTRY_EXEC :: u64 where "PAGE_ENTRY_EXEC = 8"
definition PAGE_ENTRY_USER :: u64 where "PAGE_ENTRY_USER = 16"
definition PAGE_ENTRY_GLOBAL :: u64 where "PAGE_ENTRY_GLOBAL = 32"
definition PAGE_ENTRY_ACCESSED :: u64 where "PAGE_ENTRY_ACCESSED = 64"
definition PAGE_ENTRY_DIRTY :: u64 where "PAGE_ENTRY_DIRTY = 128"
definition PAGE_ENTRY_COPY :: u64 where "PAGE_ENTRY_COPY = 256"
definition PAGE_ENTRY_RWX :: u64 where "PAGE_ENTRY_RWX = PAGE_ENTRY_READ OR PAGE_ENTRY_WRITE OR PAGE_ENTRY_EXEC"
definition PAGE_TABLE_SIZE :: nat where "PAGE_TABLE_SIZE = 512"

definition pte_v :: "u64 \<Rightarrow> bool" where
  "pte_v e \<longleftrightarrow> bit e 0"

definition pte_bits :: "u64 \<Rightarrow> u64" where
  "pte_bits e = take_bit 10 e"

definition pte_paddr :: "u64 \<Rightarrow> u64" where
  "pte_paddr e = take_bit 44 (drop_bit 10 e)"

definition set_pte_v :: "u64 \<Rightarrow> bool \<Rightarrow> u64" where
  "set_pte_v e b = (if b then e OR 1 else e AND NOT 1)"

definition set_pte_bits :: "u64 \<Rightarrow> u64 \<Rightarrow> u64" where
  "set_pte_bits e b = (e AND NOT (mask 10)) OR take_bit 10 b"

definition set_pte_paddr :: "u64 \<Rightarrow> u64 \<Rightarrow> u64" where
  "set_pte_paddr e p = (e AND NOT (push_bit 10 (mask 44))) OR push_bit 10 (take_bit 44 p)"

definition pte_leaf :: "u64 \<Rightarrow> bool" where
  "pte_leaf e \<longleftrightarrow> pte_bits e AND PAGE_ENTRY_RWX \<noteq> 0"

definition pte_page :: "u64 \<Rightarrow> u64" where
  "pte_page e = push_bit 12 (pte_paddr e)"

definition vpn :: "u64 \<Rightarrow> nat \<Rightarrow> u64" where
  "vpn vaddr i = drop_bit (12 + 9 * i) vaddr AND 0x1ff"

definition entry_addr :: "u64 \<Rightarrow> u64 \<Rightarrow> u64" where
  "entry_addr table i = table + 8 * i"

subsection \<open>Tables\<close>

type_synonym 'a reclaimer = "priority \<Rightarrow> 'a PageMem_scheme \<Rightarrow> (bool \<times> 'a PageMem_scheme) option"

definition put64 :: "'a PageMem_scheme \<Rightarrow> u64 \<Rightarrow> u64 \<Rightarrow> 'a PageMem_scheme" where
  "put64 s a v = s\<lparr>pmem := store64 (pmem s) a v\<rparr>"

definition get64 :: "'a PageMem_scheme \<Rightarrow> u64 \<Rightarrow> u64" where
  "get64 s a = load64 (pmem s) a"

definition createPageTable :: "'a reclaimer \<Rightarrow> 'a PageMem_scheme \<Rightarrow> (u64 \<times> 'a PageMem_scheme) option" where
  "createPageTable tr s = do {
     (page, s) \<leftarrow> zallocPage tr s;
     cassert (page \<noteq> 0);
     Some (page, s) }"

text \<open>The body of the loop of \<open>mapPage\<close>: make sure the entry leads to a table.\<close>

definition mapPage_ensure :: "'a reclaimer \<Rightarrow> u64 \<Rightarrow> 'a PageMem_scheme \<Rightarrow> 'a PageMem_scheme option" where
  "mapPage_ensure tr entry s =
     (if \<not> pte_v (get64 s entry) then do {
        (page, s) \<leftarrow> createPageTable tr s;
        let s = put64 s entry 0;
        let s = put64 s entry (set_pte_paddr (get64 s entry) (drop_bit 12 page));
        Some (put64 s entry (set_pte_v (get64 s entry) True)) }
      else Some s)"

text \<open>The levels still to go through, from the top; the loop runs from \<open>i = 1\<close> down to \<open>level\<close>.\<close>

fun mapPage_walk :: "'a reclaimer \<Rightarrow> u64 \<Rightarrow> nat list \<Rightarrow> u64 \<Rightarrow> 'a PageMem_scheme \<Rightarrow> (u64 \<times> 'a PageMem_scheme) option" where
  "mapPage_walk tr vaddr [] entry s = Some (entry, s)"
| "mapPage_walk tr vaddr (i # is) entry s = do {
     s \<leftarrow> mapPage_ensure tr entry s;
     cassert (\<not> pte_leaf (get64 s entry));
     mapPage_walk tr vaddr is (entry_addr (pte_page (get64 s entry)) (vpn vaddr i)) s }"

definition mapPage :: "'a reclaimer \<Rightarrow> u64 \<Rightarrow> u64 \<Rightarrow> u64 \<Rightarrow> u64 \<Rightarrow> nat \<Rightarrow> 'a PageMem_scheme
    \<Rightarrow> (u64 \<times> 'a PageMem_scheme) option" where
  "mapPage tr root vaddr paddr bits level s = do {
     cassert (bits AND 0b1110 \<noteq> 0);
     (entry, s) \<leftarrow> mapPage_walk tr vaddr (rev [level..<2]) (entry_addr root (vpn vaddr 2)) s;
     cassert (\<not> pte_v (get64 s entry) \<or> pte_leaf (get64 s entry));
     let s = put64 s entry (set_pte_paddr (get64 s entry) (drop_bit 12 paddr));
     let s = put64 s entry (set_pte_bits (get64 s entry) bits);
     let s = put64 s entry (set_pte_v (get64 s entry) True);
     Some (entry, s) }"

definition tryToFreeTable :: "u64 \<Rightarrow> u64 \<Rightarrow> u64 \<Rightarrow> 'a PageMem_scheme \<Rightarrow> (bool \<times> 'a PageMem_scheme) option" where
  "tryToFreeTable hs he table s =
     (if \<exists>i\<in>set [0..<PAGE_TABLE_SIZE]. pte_v (get64 s (entry_addr table (of_nat i))) then Some (False, s)
      else do { s \<leftarrow> deallocPage hs he table s; Some (True, s) })"

text \<open>
  The inner loop of \<open>unmapPage\<close>: \<open>tables\<close> are the tables above level \<open>j\<close> on the path to the entry,
  from level \<open>j\<close> upwards, each with the entry of the next higher table that leads to it.
\<close>

fun unmapPage_free :: "u64 \<Rightarrow> u64 \<Rightarrow> (u64 \<times> u64) list \<Rightarrow> 'a PageMem_scheme \<Rightarrow> 'a PageMem_scheme option" where
  "unmapPage_free hs he [] s = Some s"
| "unmapPage_free hs he ((table, parent) # path) s = do {
     (freed, s) \<leftarrow> tryToFreeTable hs he table s;
     if freed then unmapPage_free hs he path (put64 s parent 0) else Some s }"

fun unmapPage_walk :: "u64 \<Rightarrow> u64 \<Rightarrow> u64 \<Rightarrow> nat \<Rightarrow> u64 \<Rightarrow> (u64 \<times> u64) list \<Rightarrow> 'a PageMem_scheme \<Rightarrow> 'a PageMem_scheme option" where
  "unmapPage_walk hs he vaddr i table path s =
     (let entry = entry_addr table (vpn vaddr i); e = get64 s entry in
      if pte_v e then
        (if \<not> pte_leaf e then
           (case i of 0 \<Rightarrow> None
            | Suc i' \<Rightarrow> unmapPage_walk hs he vaddr i' (pte_page e) ((pte_page e, entry) # path) s)
         else unmapPage_free hs he path (put64 s entry 0))
      else Some s)"

definition unmapPage :: "u64 \<Rightarrow> u64 \<Rightarrow> u64 \<Rightarrow> u64 \<Rightarrow> 'a PageMem_scheme \<Rightarrow> 'a PageMem_scheme option" where
  "unmapPage hs he root vaddr s = unmapPage_walk hs he vaddr 2 root [] s"

text \<open>\<open>Some None\<close> is the result \<open>NULL\<close>.\<close>

fun virtToEntry_walk :: "memory \<Rightarrow> u64 \<Rightarrow> nat \<Rightarrow> u64 \<Rightarrow> u64 option option" where
  "virtToEntry_walk m vaddr i table = do {
     cassert (table \<noteq> 0);
     let entry = entry_addr table (vpn vaddr i);
     let e = load64 m entry;
     if pte_v e then
       (if \<not> pte_leaf e then
          (case i of 0 \<Rightarrow> None | Suc i' \<Rightarrow> virtToEntry_walk m vaddr i' (pte_page e))
        else Some (Some entry))
     else Some None }"

definition virtToEntry :: "memory \<Rightarrow> u64 \<Rightarrow> u64 \<Rightarrow> u64 option option" where
  "virtToEntry m root vaddr = virtToEntry_walk m vaddr 2 root"

fun unsafeVirtToPhys_walk :: "memory \<Rightarrow> u64 \<Rightarrow> nat \<Rightarrow> u64 \<Rightarrow> u64 option" where
  "unsafeVirtToPhys_walk m vaddr i table =
     (let e = load64 m (entry_addr table (vpn vaddr i)) in
      if pte_v e then
        (if \<not> pte_leaf e then
           (case i of 0 \<Rightarrow> None | Suc i' \<Rightarrow> unsafeVirtToPhys_walk m vaddr i' (pte_page e))
         else let msk = push_bit (9 * i) PAGE_SIZE - 1; offset = vaddr AND msk
              in Some ((pte_page e AND NOT msk) OR offset))
      else Some 0)"

definition unsafeVirtToPhys :: "memory \<Rightarrow> u64 \<Rightarrow> u64 \<Rightarrow> u64 option" where
  "unsafeVirtToPhys m root vaddr = unsafeVirtToPhys_walk m vaddr 2 root"

text \<open>
  \<open>allPagesDo\<close>: the callback gets the address of the entry and the virtual address. At each level
  \<open>i\<close> the loop goes through the 512 entries; \<open>base\<close> is the part of the address already fixed.
\<close>

fun allPagesDo_level :: "(u64 \<Rightarrow> u64 \<Rightarrow> 's \<Rightarrow> 's option) \<Rightarrow> ('s \<Rightarrow> memory) \<Rightarrow> nat \<Rightarrow> u64 \<Rightarrow> u64 \<Rightarrow> nat list \<Rightarrow> 's \<Rightarrow> 's option" where
  "allPagesDo_level callback mem i table base [] s = Some s"
| "allPagesDo_level callback mem i table base (k # ks) s =
     (let entry = entry_addr table (of_nat k);
          e = load64 (mem s) entry;
          addr = base OR push_bit (12 + 9 * i) (of_nat k)
      in if pte_v e then
           (if \<not> pte_leaf e then
              (case i of 0 \<Rightarrow> None
               | Suc i' \<Rightarrow> do {
                   s \<leftarrow> allPagesDo_level callback mem i' (pte_page e) addr [0..<PAGE_TABLE_SIZE] s;
                   allPagesDo_level callback mem i table base ks s })
            else do {
              s \<leftarrow> callback entry addr s;
              allPagesDo_level callback mem i table base ks s })
         else allPagesDo_level callback mem i table base ks s)"

definition allPagesDo :: "(u64 \<Rightarrow> u64 \<Rightarrow> 's \<Rightarrow> 's option) \<Rightarrow> ('s \<Rightarrow> memory) \<Rightarrow> u64 \<Rightarrow> 's \<Rightarrow> 's option" where
  "allPagesDo callback mem root s = allPagesDo_level callback mem 2 root 0 [0..<PAGE_TABLE_SIZE] s"

fun unmapAllPages_lv1 :: "u64 \<Rightarrow> u64 \<Rightarrow> u64 \<Rightarrow> nat list \<Rightarrow> 'a PageMem_scheme \<Rightarrow> 'a PageMem_scheme option" where
  "unmapAllPages_lv1 hs he table [] s = Some s"
| "unmapAllPages_lv1 hs he table (k # ks) s =
     (let e = get64 s (entry_addr table (of_nat k)) in do {
        s \<leftarrow> (if pte_v e \<and> \<not> pte_leaf e then deallocPage hs he (pte_page e) s else Some s);
        unmapAllPages_lv1 hs he table ks s })"

fun unmapAllPages_lv2 :: "u64 \<Rightarrow> u64 \<Rightarrow> u64 \<Rightarrow> nat list \<Rightarrow> 'a PageMem_scheme \<Rightarrow> 'a PageMem_scheme option" where
  "unmapAllPages_lv2 hs he root [] s = Some s"
| "unmapAllPages_lv2 hs he root (k # ks) s =
     (let entry = entry_addr root (of_nat k); e = get64 s entry in do {
        s \<leftarrow> (if pte_v e \<and> \<not> pte_leaf e then do {
                s \<leftarrow> unmapAllPages_lv1 hs he (pte_page e) [0..<PAGE_TABLE_SIZE] s;
                deallocPage hs he (pte_page e) s }
              else Some s);
        unmapAllPages_lv2 hs he root ks (put64 s entry 0) })"

definition unmapAllPages :: "u64 \<Rightarrow> u64 \<Rightarrow> u64 \<Rightarrow> 'a PageMem_scheme \<Rightarrow> 'a PageMem_scheme option" where
  "unmapAllPages hs he root s = unmapAllPages_lv2 hs he root [0..<PAGE_TABLE_SIZE] s"

definition freePageTable :: "u64 \<Rightarrow> u64 \<Rightarrow> u64 \<Rightarrow> 'a PageMem_scheme \<Rightarrow> 'a PageMem_scheme option" where
  "freePageTable hs he table s =
     (if table \<noteq> 0 then do { s \<leftarrow> unmapAllPages hs he table s; deallocPage hs he table s } else Some s)"

subsection \<open>Ranges\<close>

definition level_size :: "nat \<Rightarrow> u64" where
  "level_size level = push_bit (9 * level) PAGE_SIZE"

partial_function (option) mapPageRangeAtLevel_loop ::
  "'a reclaimer \<Rightarrow> u64 \<Rightarrow> u64 \<Rightarrow> u64 \<Rightarrow> u64 \<Rightarrow> u64 \<Rightarrow> nat \<Rightarrow> u64 \<Rightarrow> 'a PageMem_scheme \<Rightarrow> 'a PageMem_scheme option" where
  "mapPageRangeAtLevel_loop tr root from_vaddr to_vaddr paddr bits level i s =
     (if i < to_vaddr - from_vaddr then do {
        (_, s) \<leftarrow> mapPage tr root (from_vaddr + i) paddr bits level s;
        mapPageRangeAtLevel_loop tr root from_vaddr to_vaddr (paddr + level_size level) bits level (i + level_size level) s }
      else Some s)"

definition mapPageRangeAtLevel ::
  "'a reclaimer \<Rightarrow> u64 \<Rightarrow> u64 \<Rightarrow> u64 \<Rightarrow> u64 \<Rightarrow> u64 \<Rightarrow> nat \<Rightarrow> 'a PageMem_scheme \<Rightarrow> 'a PageMem_scheme option" where
  "mapPageRangeAtLevel tr root from_vaddr to_vaddr paddr bits level s =
     mapPageRangeAtLevel_loop tr root from_vaddr to_vaddr paddr bits level 0 s"

fun tryMapingRangeAtLevel ::
  "'a reclaimer \<Rightarrow> u64 \<Rightarrow> u64 \<Rightarrow> u64 \<Rightarrow> u64 \<Rightarrow> u64 \<Rightarrow> nat \<Rightarrow> 'a PageMem_scheme \<Rightarrow> 'a PageMem_scheme option" where
  "tryMapingRangeAtLevel tr root from_vaddr to_vaddr paddr bits level s =
     (if from_vaddr \<noteq> to_vaddr then
        (case level of
           0 \<Rightarrow> mapPageRangeAtLevel tr root from_vaddr to_vaddr paddr bits 0 s
         | Suc l \<Rightarrow>
             let sz = level_size level;
                 start = (from_vaddr + sz - 1) AND - sz;
                 end_addr = to_vaddr AND - sz
             in if start < end_addr \<and> end_addr - start > sz then do {
                  s \<leftarrow> tryMapingRangeAtLevel tr root from_vaddr start paddr bits l s;
                  s \<leftarrow> mapPageRangeAtLevel tr root start end_addr (paddr + (start - from_vaddr)) bits level s;
                  tryMapingRangeAtLevel tr root end_addr to_vaddr (paddr + (end_addr - from_vaddr)) bits l s }
                else tryMapingRangeAtLevel tr root from_vaddr to_vaddr paddr bits l s)
      else Some s)"

definition mapPageRange :: "'a reclaimer \<Rightarrow> u64 \<Rightarrow> u64 \<Rightarrow> u64 \<Rightarrow> u64 \<Rightarrow> u64 \<Rightarrow> 'a PageMem_scheme \<Rightarrow> 'a PageMem_scheme option" where
  "mapPageRange tr root from_vaddr to_vaddr paddr bits s =
     (let start = from_vaddr AND - PAGE_SIZE;
          end_addr = (to_vaddr + PAGE_SIZE - 1) AND - PAGE_SIZE
      in tryMapingRangeAtLevel tr root start end_addr paddr bits 2 s)"

partial_function (option) unmapPageRange :: "u64 \<Rightarrow> u64 \<Rightarrow> u64 \<Rightarrow> u64 \<Rightarrow> u64 \<Rightarrow> 'a PageMem_scheme \<Rightarrow> 'a PageMem_scheme option" where
  "unmapPageRange hs he root i to s =
     (if i < to then do {
        s \<leftarrow> unmapPage hs he root i s;
        unmapPageRange hs he root (i + PAGE_SIZE) to s }
      else Some s)"

text \<open>\<open>satpForMemory\<close> of virtmem.c: mode Sv39, address space id and page number of the root.\<close>

definition satpForMemory :: "u16 \<Rightarrow> u64 \<Rightarrow> u64" where
  "satpForMemory asid page_table =
     (if page_table = 0 then 0 else push_bit 60 8 OR push_bit 44 (ucast asid) OR drop_bit 12 page_table)"

end
