(* ===== verification/PageMap.thy ===== *)
theory PageMap
  imports PageTable
begin

text \<open>
  Correctness of \<open>mapPage\<close>. The tables of an address space form a tree: \<open>own\<close> gives every table page
  its place in it. Frame lemmas say which translations a change of one entry can affect;
  creating tables affects none, and storing a leaf affects exactly the addresses of its page.
\<close>

unbundle bit_operations_syntax


subsection \<open>Entries\<close>

lemma unat_take_bit: "unat (take_bit k x) = unat x mod 2 ^ k" for x :: u64
  unfolding unsigned_take_bit_eq by (simp add: take_bit_eq_mod)

lemma pte_new_table:
  assumes "unat q mod 4096 = 0" "unat q < 2 ^ 56"
  shows "pte_page (set_pte_v (set_pte_paddr 0 (drop_bit 12 q)) True) = q"
    "pte_v (set_pte_v (set_pte_paddr 0 (drop_bit 12 q)) True)"
    "\<not> pte_leaf (set_pte_v (set_pte_paddr 0 (drop_bit 12 q)) True)"
proof -
  have t: "take_bit 12 q = 0" using assms(1) by (intro u64_eqI) (simp add: unat_take_bit)
  have low: "\<not> bit q n" if "n < 12" for n using arg_cong [OF t, of "\<lambda>x. bit x n"] that by (simp add: bit_simps)
  have "take_bit 56 q = q" using assms(2) by (intro u64_eqI) (simp add: unat_take_bit)
  then have high: "\<not> bit q n" if "56 \<le> n" for n using that by (metis bit_take_bit_iff not_le)
  have e: "set_pte_v (set_pte_paddr 0 (drop_bit 12 q)) True = push_bit 10 (take_bit 44 (drop_bit 12 q)) OR 1"
    by (simp add: set_pte_v_def set_pte_paddr_def)
  show "pte_page (set_pte_v (set_pte_paddr 0 (drop_bit 12 q)) True) = q"
    unfolding e pte_page_def pte_paddr_def
  proof (rule bit_word_eqI)
    fix n assume "n < LENGTH(64)"
    moreover have "bit q n \<Longrightarrow> 12 \<le> n \<and> n < 56" using low high by (metis not_le)
    ultimately show "bit (push_bit 12 (take_bit 44 (drop_bit 10 (push_bit 10 (take_bit 44 (drop_bit 12 q)) OR 1)))) n = bit q n"
      by (cases "12 \<le> n \<and> n < 56") (auto simp: bit_simps)
  qed
  show "pte_v (set_pte_v (set_pte_paddr 0 (drop_bit 12 q)) True)"
    unfolding pte_v_def set_pte_v_def set_pte_paddr_def by (simp add: bit_simps)
  have "pte_bits (set_pte_v (set_pte_paddr 0 (drop_bit 12 q)) True) = 1"
    unfolding pte_bits_def set_pte_v_def set_pte_paddr_def by (rule bit_word_eqI) (auto simp: bit_simps)
  then show "\<not> pte_leaf (set_pte_v (set_pte_paddr 0 (drop_bit 12 q)) True)"
    by (simp add: pte_leaf_def PAGE_ENTRY_RWX_def PAGE_ENTRY_READ_def PAGE_ENTRY_WRITE_def PAGE_ENTRY_EXEC_def)
qed

definition new_pte :: "u64 \<Rightarrow> u64 \<Rightarrow> u64 \<Rightarrow> u64" where
  "new_pte e paddr bits = set_pte_v (set_pte_bits (set_pte_paddr e (drop_bit 12 paddr)) bits) True"

lemma bit_14: "bit (14 :: u64) n \<longleftrightarrow> n = 1 \<or> n = 2 \<or> n = 3"
proof -
  have e: "(14 :: u64) = push_bit 1 (mask 3)" by (simp add: mask_eq_exp_minus_1 push_bit_eq_mult)
  show ?thesis unfolding e by (simp only: bit_push_bit_iff bit_mask_iff possible_bit_word) auto
qed

lemma new_pte:
  assumes "bits AND 0b1110 \<noteq> 0"
  shows "pte_v (new_pte e paddr bits)" "pte_leaf (new_pte e paddr bits)"
    "pte_paddr (new_pte e paddr bits) = take_bit 44 (drop_bit 12 paddr)"
    "pte_bits (new_pte e paddr bits) = take_bit 10 bits OR 1"
proof -
  show "pte_v (new_pte e paddr bits)" by (simp add: new_pte_def pte_v_def set_pte_v_def bit_simps)
  show "pte_paddr (new_pte e paddr bits) = take_bit 44 (drop_bit 12 paddr)"
    unfolding pte_paddr_def new_pte_def set_pte_v_def set_pte_bits_def set_pte_paddr_def
    by (rule bit_word_eqI) (auto simp: bit_simps)
  show b: "pte_bits (new_pte e paddr bits) = take_bit 10 bits OR 1"
    unfolding pte_bits_def new_pte_def set_pte_v_def set_pte_bits_def set_pte_paddr_def
    by (rule bit_word_eqI) (auto simp: bit_simps)
  obtain n where "bit (bits AND 14) n" using assms by (auto simp: bit_eq_iff)
  then have n: "bit bits n" "n = 1 \<or> n = 2 \<or> n = 3" by (simp_all only: bit_and_iff bit_14)
  have "PAGE_ENTRY_RWX = 14" by (simp add: PAGE_ENTRY_RWX_def PAGE_ENTRY_READ_def PAGE_ENTRY_WRITE_def PAGE_ENTRY_EXEC_def)
  then have "bit (pte_bits (new_pte e paddr bits) AND PAGE_ENTRY_RWX) n"
    using n by (auto simp: \<open>PAGE_ENTRY_RWX = 14\<close> b bit_14 bit_and_iff bit_or_iff bit_take_bit_iff)
  then show "pte_leaf (new_pte e paddr bits)" by (auto simp: pte_leaf_def)
qed

subsection \<open>Well-formed trees of tables\<close>

text \<open>
  \<open>own\<close> assigns to every table page its level and the virtual page numbers that lead to it, as
  one number. Because it is a function, no page is a table in two places.
\<close>

type_synonym owner = "u64 \<Rightarrow> (nat \<times> nat) option"

definition table_page :: "u64 \<Rightarrow> bool" where
  "table_page p \<longleftrightarrow> unat p mod 4096 = 0 \<and> p \<noteq> 0"

definition pt_wf :: "memory \<Rightarrow> owner \<Rightarrow> bool" where
  "pt_wf m own \<longleftrightarrow> (\<forall>p l pre. own p = Some (l, pre) \<longrightarrow> table_page p \<and>
     (\<forall>i. unat i < 512 \<longrightarrow> pte_v (load64 m (entry_addr p i)) \<longrightarrow> \<not> pte_leaf (load64 m (entry_addr p i)) \<longrightarrow>
        0 < l \<and> own (pte_page (load64 m (entry_addr p i))) = Some (l - 1, pre * 512 + unat i)))"

definition va_prefix :: "u64 \<Rightarrow> nat \<Rightarrow> nat" where
  "va_prefix va l = (if l = 0 then unat (vpn va 2) * 512 + unat (vpn va 1) else if l = 1 then unat (vpn va 2) else 0)"

lemma va_prefix_2 [simp]: "va_prefix va 2 = 0"
  by (simp add: va_prefix_def)

lemma va_prefix_less: "l < 2 \<Longrightarrow> va_prefix va l = va_prefix va (Suc l) * 512 + unat (vpn va (Suc l))"
  by (auto simp: va_prefix_def less_Suc_eq numeral_2_eq_2)

lemma vpn_less [simp]: "unat (vpn va i) < 512"
proof -
  have "vpn va i = take_bit 9 (drop_bit (12 + 9 * i) va)"
    by (simp add: vpn_def take_bit_eq_mask mask_eq_exp_minus_1)
  then show ?thesis
    using unsigned_take_bit_eq [of 9 "drop_bit (12 + 9 * i) va", where 'a = nat] take_bit_nat_less_exp [of 9 "unat (drop_bit (12 + 9 * i) va)"]
    by simp
qed

lemma page_room: "unat p mod 4096 = 0 \<Longrightarrow> k < 4096 \<Longrightarrow> unat (p :: u64) + k < 2 ^ 64"
proof -
  assume p: "unat p mod 4096 = 0" and k: "k < 4096"
  obtain a where a: "unat p = 4096 * a" using p by (auto elim!: dvdE)
  have "4096 * a < 18446744073709551616" using unat_less_num [of p] unfolding a .
  then have "a < 4503599627370496" by simp
  then have "4096 * a + k < 18446744073709551616" using k by linarith
  then show ?thesis by (simp add: a)
qed

lemma unat_entry_addr:
  assumes "unat p mod 4096 = 0" "unat i < 512"
  shows "unat (entry_addr p i) = unat p + 8 * unat i"
proof -
  have "unat (8 * i) = 8 * unat i" using assms(2) by (simp add: unat_word_ariths)
  moreover have "unat p + 8 * unat i < 2 ^ 64" using page_room [OF assms(1), of "8 * unat i"] assms(2) by simp
  ultimately show ?thesis by (simp add: entry_addr_def unat_add_64)
qed

lemma entry_addr_aligned: "unat p mod 4096 = 0 \<Longrightarrow> unat i < 512 \<Longrightarrow> aligned8 (entry_addr p i)"
proof -
  assume p: "unat p mod 4096 = 0" and i: "unat i < 512"
  obtain a where a: "unat p = 4096 * a" using p by (auto elim!: dvdE)
  have "unat (entry_addr p i) = 8 * (512 * a + unat i)" using unat_entry_addr [OF p i] a by simp
  then show ?thesis by (simp add: aligned8_def)
qed

lemma entry_addr_inj:
  assumes "unat p mod 4096 = 0" "unat q mod 4096 = 0" "unat i < 512" "unat j < 512" "entry_addr p i = entry_addr q j"
  shows "p = q \<and> i = j"
proof -
  have "unat p + 8 * unat i = unat q + 8 * unat j"
    using assms unat_entry_addr by metis
  moreover obtain a b where ab: "unat p = 4096 * a" "unat q = 4096 * b" using assms(1,2) by (auto elim!: dvdE)
  ultimately have "4096 * a + 8 * unat i = 4096 * b + 8 * unat j" by simp
  moreover from this have "a = b" using assms(3,4) by linarith
  ultimately have "a = b" "unat i = unat j" by simp_all
  then have "unat p = unat q" "unat i = unat j" using ab by simp_all
  then show ?thesis by (simp add: word_unat_eq_iff)
qed

text \<open>Memories that agree on the entries of all tables but one.\<close>

definition tables_same :: "owner \<Rightarrow> u64 set \<Rightarrow> memory \<Rightarrow> memory \<Rightarrow> bool" where
  "tables_same own X m m' \<longleftrightarrow> (\<forall>p\<in>dom own. \<forall>i. unat i < 512 \<longrightarrow> entry_addr p i \<notin> X \<longrightarrow>
     load64 m' (entry_addr p i) = load64 m (entry_addr p i))"

lemma tables_sameD:
  "tables_same own X m m' \<Longrightarrow> own p = Some v \<Longrightarrow> unat i < 512 \<Longrightarrow> entry_addr p i \<notin> X \<Longrightarrow>
    load64 m' (entry_addr p i) = load64 m (entry_addr p i)"
  by (auto simp: tables_same_def)

lemma pt_wfD:
  assumes "pt_wf m own" "own p = Some (l, pre)"
  shows "table_page p" "unat p mod 4096 = 0" "p \<noteq> 0"
    "\<And>i. unat i < 512 \<Longrightarrow> pte_v (load64 m (entry_addr p i)) \<Longrightarrow> \<not> pte_leaf (load64 m (entry_addr p i)) \<Longrightarrow>
       0 < l \<and> own (pte_page (load64 m (entry_addr p i))) = Some (l - 1, pre * 512 + unat i)"
  using assms unfolding pt_wf_def table_page_def by blast+

lemma walk_frame:
  assumes "pt_wf m own" "tables_same own {e} m m'" "l \<le> 2" "own p = Some (l, va_prefix va l)"
    and "\<And>q l'. l' \<le> l \<Longrightarrow> own q = Some (l', va_prefix va l') \<Longrightarrow> e \<noteq> entry_addr q (vpn va l')"
  shows "virtToEntry_walk m' va l p = virtToEntry_walk m va l p"
  using assms(3-)
proof (induction l arbitrary: p)
  case 0
  have "entry_addr p (vpn va 0) \<noteq> e" using 0(3) [of 0 p] 0(2) by auto
  then have "load64 m' (entry_addr p (vpn va 0)) = load64 m (entry_addr p (vpn va 0))"
    using tables_sameD [OF assms(2) 0(2)] by simp
  then show ?case by (simp add: Let_def)
next
  case (Suc l)
  note wf = pt_wfD [OF assms(1) Suc.prems(2)]
  let ?c = "entry_addr p (vpn va (Suc l))"
  have "?c \<noteq> e" using Suc.prems(3) [of "Suc l" p] Suc.prems(2) by auto
  then have ld: "load64 m' ?c = load64 m ?c" using tables_sameD [OF assms(2) Suc.prems(2)] by simp
  show ?case
  proof (cases "pte_v (load64 m ?c) \<and> \<not> pte_leaf (load64 m ?c)")
    case True
    then have "own (pte_page (load64 m ?c)) = Some (l, va_prefix va l)"
      using wf(4) [of "vpn va (Suc l)"] Suc.prems(1) by (simp add: va_prefix_less)
    then have "virtToEntry_walk m' va l (pte_page (load64 m ?c)) = virtToEntry_walk m va l (pte_page (load64 m ?c))"
      using Suc.prems(1,3) by (intro Suc.IH) auto
    then show ?thesis using True ld by (simp add: Let_def)
  next
    case False
    then show ?thesis using ld by (auto simp: Let_def)
  qed
qed
declare virtToEntry_walk.simps [simp del]


lemma walk_invalid: "p \<noteq> 0 \<Longrightarrow> \<not> pte_v (load64 m (entry_addr p (vpn va l))) \<Longrightarrow> virtToEntry_walk m va l p = Some None"
  by (simp add: virtToEntry_walk.simps Let_def)

lemma walk_leaf: "p \<noteq> 0 \<Longrightarrow> pte_v (load64 m (entry_addr p (vpn va l))) \<Longrightarrow> pte_leaf (load64 m (entry_addr p (vpn va l))) \<Longrightarrow>
    virtToEntry_walk m va l p = Some (Some (entry_addr p (vpn va l)))"
  by (simp add: virtToEntry_walk.simps Let_def)

lemma walk_branch: "p \<noteq> 0 \<Longrightarrow> pte_v (load64 m (entry_addr p (vpn va (Suc l)))) \<Longrightarrow> \<not> pte_leaf (load64 m (entry_addr p (vpn va (Suc l)))) \<Longrightarrow>
    virtToEntry_walk m va (Suc l) p = virtToEntry_walk m va l (pte_page (load64 m (entry_addr p (vpn va (Suc l)))))"
  by (simp add: virtToEntry_walk.simps [of _ _ "Suc l"] Let_def)

text \<open>Linking a new, empty table into an invalid entry changes no translation.\<close>

lemma walk_new_table:
  assumes wf: "pt_wf m own" and q: "own q = Some (Suc l0, pre0)" "unat i < 512" "e = entry_addr q i"
    and e: "\<not> pte_v (load64 m e)" "pte_v (load64 m' e)" "\<not> pte_leaf (load64 m' e)" "pte_page (load64 m' e) \<noteq> 0"
    and z: "\<And>j. unat j < 512 \<Longrightarrow> load64 m' (entry_addr (pte_page (load64 m' e)) j) = 0"
    and same: "tables_same own {e} m m'" and p: "own p = Some (l, va_prefix va l)" "l \<le> 2"
  shows "virtToEntry_walk m' va l p = virtToEntry_walk m va l p"
  using p
proof (induction l arbitrary: p)
  case (Suc l)
  note wp = pt_wfD [OF wf Suc.prems(1)] and wq = pt_wfD [OF wf q(1)]
  let ?c = "entry_addr p (vpn va (Suc l))"
  show ?case
  proof (cases "?c = e")
    case True
    have "virtToEntry_walk m va (Suc l) p = Some None" using True e(1) wp(3) by (simp add: walk_invalid)
    moreover have "virtToEntry_walk m' va (Suc l) p = virtToEntry_walk m' va l (pte_page (load64 m' e))"
      using True e wp(3) walk_branch [of p m' va l] by simp
    moreover have "virtToEntry_walk m' va l (pte_page (load64 m' e)) = Some None"
      using z [of "vpn va l"] e(4) by (intro walk_invalid) (simp_all add: pte_v_def)
    ultimately show ?thesis by simp
  next
    case False
    then have ld: "load64 m' ?c = load64 m ?c" using tables_sameD [OF same Suc.prems(1)] by simp
    show ?thesis
    proof (cases "pte_v (load64 m ?c) \<and> \<not> pte_leaf (load64 m ?c)")
      case True
      then have "own (pte_page (load64 m ?c)) = Some (l, va_prefix va l)"
        using wp(4) [of "vpn va (Suc l)"] Suc.prems(2) by (simp add: va_prefix_less)
      then have "virtToEntry_walk m' va l (pte_page (load64 m ?c)) = virtToEntry_walk m va l (pte_page (load64 m ?c))"
        using Suc.prems(2) by (intro Suc.IH) auto
      then show ?thesis using True ld wp(3) walk_branch [of p _ va l] by simp
    next
      case False
      then show ?thesis using ld wp(3) by (cases "pte_v (load64 m ?c)") (simp_all add: walk_invalid walk_leaf)
    qed
  qed
next
  case 0
  have "entry_addr p (vpn va 0) \<noteq> e"
    using entry_addr_inj [of p q "vpn va 0" i] pt_wfD(2) [OF wf 0(1)] pt_wfD(2) [OF wf q(1)] q 0(1) by auto
  then have "load64 m' (entry_addr p (vpn va 0)) = load64 m (entry_addr p (vpn va 0))"
    using tables_sameD [OF same 0(1)] by simp
  then show ?case by (simp add: virtToEntry_walk.simps Let_def)
qed

lemma pt_wf_new_table:
  assumes wf: "pt_wf m own" and q: "own q = Some (Suc l0, pre0)" "unat i < 512" "e = entry_addr q i"
    and n: "table_page n" "n \<notin> dom own" "pte_page (load64 m' e) = n"
    and z: "\<And>j. unat j < 512 \<Longrightarrow> load64 m' (entry_addr n j) = 0" and same: "tables_same own {e} m m'"
  shows "pt_wf m' (own(n \<mapsto> (l0, pre0 * 512 + unat i)))"
  unfolding pt_wf_def
proof (intro allI impI conjI)
  fix p l pre assume o: "(own(n \<mapsto> (l0, pre0 * 512 + unat i))) p = Some (l, pre)"
  show "table_page p" using o n(1) pt_wfD(1) [OF wf, of p l pre] by (cases "p = n") auto
  fix j :: u64 assume j: "unat j < 512" "pte_v (load64 m' (entry_addr p j))" "\<not> pte_leaf (load64 m' (entry_addr p j))"
  have "p \<noteq> n" using z [OF j(1)] j(2) by (auto simp: pte_v_def)
  then have p: "own p = Some (l, pre)" using o by simp
  have "0 < l \<and> (own(n \<mapsto> (l0, pre0 * 512 + unat i))) (pte_page (load64 m' (entry_addr p j))) = Some (l - 1, pre * 512 + unat j)"
  proof (cases "entry_addr p j = e")
    case True
    then have "p = q" "j = i"
      using entry_addr_inj [of p q j i] pt_wfD(2) [OF wf p] pt_wfD(2) [OF wf q(1)] q(2,3) j(1) by auto
    then show ?thesis using p q(1) n(3) True by auto
  next
    case False
    then have ld: "load64 m' (entry_addr p j) = load64 m (entry_addr p j)" using tables_sameD [OF same p j(1)] by simp
    then have "0 < l \<and> own (pte_page (load64 m (entry_addr p j))) = Some (l - 1, pre * 512 + unat j)"
      using pt_wfD(4) [OF wf p j(1)] j(2,3) by simp
    then show ?thesis using ld n(2) by auto
  qed
  then show "0 < l" "(own(n \<mapsto> (l0, pre0 * 512 + unat i))) (pte_page (load64 m' (entry_addr p j))) = Some (l - 1, pre * 512 + unat j)"
    by auto
qed

definition pt_state :: "'a PageMem_scheme \<Rightarrow> owner \<Rightarrow> chunk list \<Rightarrow> bool" where
  "pt_state s own xs \<longleftrightarrow> page_free s xs \<and> pt_wf (pmem s) own \<and> (\<forall>p\<in>dom own. bytes p PAGE_SIZE \<inter> covered xs = {})
     \<and> covered xs \<subseteq> {..<2 ^ 56}"

lemma entry_in_page: "unat p mod 4096 = 0 \<Longrightarrow> unat i < 512 \<Longrightarrow> k < 8 \<Longrightarrow> unat (entry_addr p i + of_nat k) \<in> bytes p PAGE_SIZE"
proof -
  assume a: "unat p mod 4096 = 0" "unat i < 512" "k < 8"
  have "unat (entry_addr p i + of_nat k) = unat p + 8 * unat i + k"
    using aligned8_unat_offset [OF entry_addr_aligned [OF a(1,2)] a(3)] unat_entry_addr [OF a(1,2)] by simp
  then show ?thesis using a by (simp add: bytes_def PAGE_SIZE_def)
qed

lemma load_entry_cong:
  assumes "unat p mod 4096 = 0" "unat i < 512" "\<And>b. unat b \<in> bytes p PAGE_SIZE \<Longrightarrow> m' b = m b"
  shows "load64 m' (entry_addr p i) = load64 m (entry_addr p i)"
  by (rule load64_cong) (rule assms(3), rule entry_in_page [OF assms(1,2)])

lemma load_entry_zero:
  assumes "unat p mod 4096 = 0" "unat i < 512" "\<And>b. unat b \<in> bytes p PAGE_SIZE \<Longrightarrow> m b = 0"
  shows "load64 m (entry_addr p i) = 0"
proof -
  have "load64 m (entry_addr p i) = load64 (\<lambda>_. 0) (entry_addr p i)"
    by (rule load64_cong) (rule assms(3), rule entry_in_page [OF assms(1,2)])
  then show ?thesis by (simp add: load64_def)
qed

lemma page_of_chunk:
  assumes "chunk_ok 4096 (n, PAGE_SIZE)" "bytes n PAGE_SIZE \<subseteq> {..<2 ^ 56}"
  shows "unat n mod 4096 = 0" "unat n < 2 ^ 56" "unat n \<in> bytes n PAGE_SIZE"
proof -
  show "unat n mod 4096 = 0" using assms(1) by (simp add: chunk_ok_def)
  show "unat n \<in> bytes n PAGE_SIZE" by (simp add: bytes_def PAGE_SIZE_def)
  then show "unat n < 2 ^ 56" using assms(2) by blast
qed

lemma createPageTable_spec:
  assumes st: "pt_state s own xs" and room: "xs \<noteq> []"
  obtains n s1 ys where "createPageTable tr s = Some (n, s1)" "page_free s1 ys" "table_page n" "unat n < 2 ^ 56" "n \<notin> dom own"
    "\<forall>b. unat b \<in> bytes n PAGE_SIZE \<longrightarrow> pmem s1 b = 0"
    "\<forall>b. unat b \<notin> covered xs \<longrightarrow> pmem s1 b = pmem s b"
    "covered xs = bytes n PAGE_SIZE \<union> covered ys" "bytes n PAGE_SIZE \<inter> covered ys = {}"
proof -
  obtain n t zs where xs: "xs = (n, t) # zs" using room by (cases xs) auto
  have pf: "page_free s ((n, t) # zs)" "covered xs \<subseteq> {..<2 ^ 56}" "\<forall>p\<in>dom own. bytes p PAGE_SIZE \<inter> covered xs = {}"
    using st xs by (auto simp: pt_state_def)
  from zallocPage_head [OF pf(1), of tr] obtain al' m' ys where
    z: "zallocPage tr s = Some (n, s\<lparr>page_allocator := al', pmem := m'\<rparr>)" "page_free (s\<lparr>page_allocator := al', pmem := m'\<rparr>) ys"
      "covered xs = bytes n PAGE_SIZE \<union> covered ys" "bytes n PAGE_SIZE \<inter> covered ys = {}"
      "\<forall>b. unat b \<in> bytes n PAGE_SIZE \<longrightarrow> m' b = 0" "\<forall>b. unat b \<notin> covered xs \<longrightarrow> m' b = pmem s b"
      "chunk_ok 4096 (n, PAGE_SIZE)" "n \<noteq> 0"
    unfolding xs by blast
  have n: "unat n mod 4096 = 0" "unat n < 2 ^ 56" "unat n \<in> bytes n PAGE_SIZE"
    using page_of_chunk [OF z(7)] z(3) pf(2) by auto
  have "n \<notin> dom own" using pf(3) n(3) z(3) by blast
  moreover have "createPageTable tr s = Some (n, s\<lparr>page_allocator := al', pmem := m'\<rparr>)"
    using z(1,8) by (simp add: createPageTable_def)
  ultimately show thesis
    using that [of n "s\<lparr>page_allocator := al', pmem := m'\<rparr>" ys] z n by (simp add: table_page_def)
qed

text \<open>What \<open>mapPage_ensure\<close> does with the entry \<open>i\<close> of a table \<open>q\<close>.\<close>

definition ensured :: "'a PageMem_scheme \<Rightarrow> owner \<Rightarrow> chunk list \<Rightarrow> u64 \<Rightarrow> 'a PageMem_scheme \<Rightarrow> owner \<Rightarrow> chunk list \<Rightarrow> bool" where
  "ensured s own xs e s' own' xs' \<longleftrightarrow> pt_state s' own' xs' \<and> own \<subseteq>\<^sub>m own' \<and> pte_v (get64 s' e)
     \<and> (if pte_v (get64 s e) then s' = s \<and> own' = own \<and> xs' = xs
        else \<not> pte_leaf (get64 s' e) \<and> (\<forall>j. unat j < 512 \<longrightarrow> load64 (pmem s') (entry_addr (pte_page (get64 s' e)) j) = 0)
          \<and> card (covered xs) \<le> card (covered xs') + 4096)
     \<and> tables_same own {e} (pmem s) (pmem s')
     \<and> (\<forall>va l p. own p = Some (l, va_prefix va l) \<longrightarrow> l \<le> 2 \<longrightarrow>
          virtToEntry_walk (pmem s') va l p = virtToEntry_walk (pmem s) va l p)"

lemma page_free_mem: "page_free (put64 s a v) xs \<longleftrightarrow> page_free (s\<lparr>pmem := store64 (pmem s) a v\<rparr>) xs"
  by (simp add: put64_def)

lemma page_free_entry:
  assumes "page_free s xs" "unat q mod 4096 = 0" "unat i < 512" "bytes q PAGE_SIZE \<inter> covered xs = {}"
  shows "page_free (put64 s (entry_addr q i) v) xs"
proof (rule page_free_writes [OF assms(1), of "bytes q PAGE_SIZE"])
  show "page_writes s (bytes q PAGE_SIZE) (put64 s (entry_addr q i) v)"
    unfolding page_writes_def put64_def
  proof (intro conjI allI impI)
    fix b :: u64 assume b: "unat b \<notin> bytes q PAGE_SIZE"
    have "store64 (pmem s) (entry_addr q i) v b = pmem s b"
      by (rule store64_outside) (use entry_in_page [OF assms(2,3)] b in auto)
    then show "pmem (s\<lparr>pmem := store64 (pmem s) (entry_addr q i) v\<rparr>) b = pmem s b" by simp
  qed simp
qed (use assms(4) in blast)

lemma put64_put64: "put64 (put64 s a v) a w = put64 s a w"
  by (simp add: put64_def store64_def fun_eq_iff)

lemma get64_put64_same: "get64 (put64 s a v) a = v"
  by (simp add: get64_def put64_def load64_store64_same)

lemma get64_put64: "aligned8 a \<Longrightarrow> aligned8 b \<Longrightarrow> get64 (put64 s a v) b = (if a = b then v else get64 s b)"
  by (simp add: get64_def put64_def load64_store64)

lemma mapPage_ensure_spec:
  assumes st: "pt_state s own xs" and q: "own q = Some (Suc l0, pre0)" "unat i < 512" "e = entry_addr q i" and room: "xs \<noteq> []"
  shows "\<exists>s' own' xs'. mapPage_ensure tr e s = Some s' \<and> ensured s own xs e s' own' xs'"
proof (cases "pte_v (get64 s e)")
  case True
  then show ?thesis using st by (intro exI [of _ s] exI [of _ own] exI [of _ xs])
      (simp add: mapPage_ensure_def ensured_def tables_same_def)
next
  case False
  have wf: "pt_wf (pmem s) own" "\<forall>p\<in>dom own. bytes p PAGE_SIZE \<inter> covered xs = {}" "covered xs \<subseteq> {..<2 ^ 56}"
    using st by (auto simp: pt_state_def)
  note wq = pt_wfD [OF wf(1) q(1)]
  have al: "aligned8 e" using entry_addr_aligned [OF wq(2) q(2)] q(3) by simp
  obtain n s1 ys where c: "createPageTable tr s = Some (n, s1)" "page_free s1 ys" "table_page n" "unat n < 2 ^ 56" "n \<notin> dom own"
    "\<forall>b. unat b \<in> bytes n PAGE_SIZE \<longrightarrow> pmem s1 b = 0" "\<forall>b. unat b \<notin> covered xs \<longrightarrow> pmem s1 b = pmem s b"
    "covered xs = bytes n PAGE_SIZE \<union> covered ys" "bytes n PAGE_SIZE \<inter> covered ys = {}"
    by (rule createPageTable_spec [OF st room, of tr])
  let ?v = "set_pte_v (set_pte_paddr 0 (drop_bit 12 n)) True"
  let ?s' = "put64 s1 e ?v"
  have run: "mapPage_ensure tr e s = Some ?s'"
    using False c(1) by (simp add: mapPage_ensure_def put64_put64 get64_put64_same Let_def)
  have nt: "pte_page ?v = n" "pte_v ?v" "\<not> pte_leaf ?v" "unat n mod 4096 = 0" "n \<noteq> 0"
    using pte_new_table [of n] c(3,4) by (auto simp: table_page_def)
  have ge: "get64 ?s' e = ?v" using al by (simp add: get64_put64)
  have keep: "load64 (pmem ?s') (entry_addr p j) = load64 (pmem s) (entry_addr p j)"
    if p: "p \<in> dom own" "unat j < 512" "entry_addr p j \<noteq> e" for p j
  proof -
    obtain l pre where "own p = Some (l, pre)" using p(1) by auto
    note wp = pt_wfD [OF wf(1) this]
    have "load64 (pmem ?s') (entry_addr p j) = load64 (pmem s1) (entry_addr p j)"
      using al entry_addr_aligned [OF wp(2) p(2)] p(3) by (simp add: put64_def load64_store64)
    also have "\<dots> = load64 (pmem s) (entry_addr p j)"
      by (rule load_entry_cong [OF wp(2) p(2)]) (use c(7) wf(2) p(1) in blast)
    finally show ?thesis .
  qed
  then have same: "tables_same own {e} (pmem s) (pmem ?s')" by (auto simp: tables_same_def)
  have z: "load64 (pmem ?s') (entry_addr n j) = 0" if j: "unat j < 512" for j
  proof -
    have "q \<noteq> n" using c(5) q(1) by auto
    then have "entry_addr n j \<noteq> e" using entry_addr_inj [OF nt(4) wq(2) j q(2)] q(3) by auto
    then have "load64 (pmem ?s') (entry_addr n j) = load64 (pmem s1) (entry_addr n j)"
      using al entry_addr_aligned [OF nt(4) j] by (simp add: put64_def load64_store64)
    also have "\<dots> = 0" by (rule load_entry_zero [OF nt(4) j]) (use c(6) in blast)
    finally show ?thesis .
  qed
  let ?own = "own(n \<mapsto> (l0, pre0 * 512 + unat i))"
  have "page_free ?s' ys"
    unfolding q(3) by (rule page_free_entry [OF c(2) wq(2) q(2)]) (use wf(2) q(1) c(8) in blast)
  moreover have "pt_wf (pmem ?s') ?own"
    using ge nt(1) z by (intro pt_wf_new_table [OF wf(1) q c(3,5) _ _ same]) (simp_all add: get64_def)
  moreover have "\<forall>p\<in>dom ?own. bytes p PAGE_SIZE \<inter> covered ys = {}" using wf(2) c(8,9) by auto
  moreover have "own \<subseteq>\<^sub>m ?own" using c(5) by (auto simp: map_le_def)
  moreover have fin: "finite (covered xs)" using wf(3) finite_subset by blast
  moreover have "card (covered xs) \<le> card (covered ys) + 4096"
  proof -
    have "card (covered xs) \<le> card (bytes n PAGE_SIZE) + card (covered ys)" unfolding c(8) by (rule card_Un_le)
    then show ?thesis by (simp add: bytes_def PAGE_SIZE_def)
  qed
  moreover have "virtToEntry_walk (pmem ?s') va l p = virtToEntry_walk (pmem s) va l p"
    if "own p = Some (l, va_prefix va l)" "l \<le> 2" for va l p
    using walk_new_table [OF wf(1) q _ _ _ _ _ same that] False ge nt z by (simp add: get64_def)
  ultimately have "ensured s own xs e ?s' ?own ys"
    using ge nt z same False wf(3) c(8) unfolding ensured_def pt_state_def by auto
  then show ?thesis using run by blast
qed

subsection \<open>Mapping a page\<close>

fun can_map :: "memory \<Rightarrow> u64 \<Rightarrow> nat \<Rightarrow> nat \<Rightarrow> u64 \<Rightarrow> bool" where
  "can_map m va level l p =
     (let e = load64 m (entry_addr p (vpn va l)) in
      if l = level then \<not> pte_v e \<or> pte_leaf e
      else (case l of 0 \<Rightarrow> False
            | Suc l' \<Rightarrow> \<not> pte_v e \<or> \<not> pte_leaf e \<and> can_map m va level l' (pte_page e)))"

declare can_map.simps [simp del]

lemma can_map_level: "can_map m va level level p \<longleftrightarrow>
    \<not> pte_v (load64 m (entry_addr p (vpn va level))) \<or> pte_leaf (load64 m (entry_addr p (vpn va level)))"
  by (simp add: can_map.simps Let_def)

lemma can_map_Suc: "level \<le> l \<Longrightarrow> can_map m va level (Suc l) p \<longleftrightarrow>
    \<not> pte_v (load64 m (entry_addr p (vpn va (Suc l)))) \<or> \<not> pte_leaf (load64 m (entry_addr p (vpn va (Suc l))))
      \<and> can_map m va level l (pte_page (load64 m (entry_addr p (vpn va (Suc l)))))"
  by (simp add: can_map.simps [of _ _ _ "Suc l"] Let_def)

lemma can_map_empty:
  "level \<le> l \<Longrightarrow> (\<And>j. unat j < 512 \<Longrightarrow> load64 m (entry_addr p j) = 0) \<Longrightarrow> can_map m va level l p"
  using can_map_Suc [of level "l - 1" m va p] can_map_level [of m va level p]
  by (cases "l = level") (auto simp: pte_v_def)

text \<open>Two addresses that use the same entries from level \<open>hi\<close> down to, not including, level \<open>lo\<close>.\<close>

definition same_path :: "nat \<Rightarrow> nat \<Rightarrow> u64 \<Rightarrow> u64 \<Rightarrow> bool" where
  "same_path lo hi va va' \<longleftrightarrow> (\<forall>j. lo < j \<and> j \<le> hi \<longrightarrow> vpn va j = vpn va' j)"

definition walked :: "'a PageMem_scheme \<Rightarrow> owner \<Rightarrow> u64 \<Rightarrow> nat \<Rightarrow> nat \<Rightarrow> u64 \<Rightarrow> u64 \<Rightarrow> 'a PageMem_scheme \<Rightarrow> owner \<Rightarrow> chunk list \<Rightarrow> u64 \<Rightarrow> bool" where
  "walked s own va level l p e s' own' xs' q \<longleftrightarrow> pt_state s' own' xs' \<and> own \<subseteq>\<^sub>m own'
     \<and> own' q = Some (level, va_prefix va level) \<and> e = entry_addr q (vpn va level)
     \<and> (\<not> pte_v (get64 s' e) \<or> pte_leaf (get64 s' e))
     \<and> (\<forall>va' l' p'. own p' = Some (l', va_prefix va' l') \<longrightarrow> l' \<le> 2 \<longrightarrow>
          virtToEntry_walk (pmem s') va' l' p' = virtToEntry_walk (pmem s) va' l' p')
     \<and> (\<forall>m va'. tables_same own' {e} (pmem s') m \<longrightarrow> same_path level l va va' \<longrightarrow>
          virtToEntry_walk m va' l p = virtToEntry_walk m va' level q)
     \<and> (\<forall>p'\<in>dom own. \<forall>i. unat i < 512 \<longrightarrow> pte_v (load64 (pmem s) (entry_addr p' i)) \<longrightarrow>
          load64 (pmem s') (entry_addr p' i) = load64 (pmem s) (entry_addr p' i))"

lemma map_leD: "f \<subseteq>\<^sub>m g \<Longrightarrow> f x = Some y \<Longrightarrow> g x = Some y"
  by (metis domI map_le_def)

lemma covered_Nil: "0 < card (covered xs) \<Longrightarrow> xs \<noteq> []"
  by auto

lemma mapPage_walk_spec:
  assumes "pt_state s own xs" "own p = Some (l, va_prefix va l)" "level \<le> l" "l \<le> 2" "can_map (pmem s) va level l p"
    "(l - level) * 4096 \<le> card (covered xs)"
  shows "\<exists>e s' own' xs' q. mapPage_walk tr va (rev [level..<l]) (entry_addr p (vpn va l)) s = Some (e, s')
    \<and> walked s own va level l p e s' own' xs' q"
  using assms
proof (induction l arbitrary: s own xs p)
  case 0
  then have "can_map (pmem s) va 0 0 p" by simp
  then show ?case using 0 by (intro exI [of _ "entry_addr p (vpn va 0)"] exI [of _ s] exI [of _ own] exI [of _ xs] exI [of _ p])
      (auto simp: walked_def can_map_level get64_def)
next
  case (Suc l)
  show ?case
  proof (cases "level = Suc l")
    case True
    then show ?thesis using Suc.prems
      by (intro exI [of _ "entry_addr p (vpn va (Suc l))"] exI [of _ s] exI [of _ own] exI [of _ xs] exI [of _ p])
        (auto simp: walked_def can_map_level get64_def)
  next
    case False
    then have ll: "level \<le> l" using Suc.prems(3) by simp
    let ?e = "entry_addr p (vpn va (Suc l))"
    have room: "xs \<noteq> []" using Suc.prems(6) ll by (intro covered_Nil) (simp add: Suc_diff_le)
    from mapPage_ensure_spec [OF Suc.prems(1,2) vpn_less refl room, of tr] obtain s1 own1 xs1 where
      r: "mapPage_ensure tr ?e s = Some s1" and en: "ensured s own xs ?e s1 own1 xs1" by blast
    have e1: "pt_state s1 own1 xs1" "own \<subseteq>\<^sub>m own1" "pte_v (get64 s1 ?e)" "tables_same own {?e} (pmem s) (pmem s1)"
      using en by (auto simp: ensured_def)
    have own1p: "own1 p = Some (Suc l, va_prefix va (Suc l))" using map_leD [OF e1(2) Suc.prems(2)] .
    have nl: "\<not> pte_leaf (get64 s1 ?e)"
      using en Suc.prems(5) ll by (cases "pte_v (get64 s ?e)") (auto simp: ensured_def can_map_Suc get64_def)
    let ?p1 = "pte_page (get64 s1 ?e)"
    have wf1: "pt_wf (pmem s1) own1" using e1(1) by (simp add: pt_state_def)
    have p1: "own1 ?p1 = Some (l, va_prefix va l)"
      using pt_wfD(4) [OF wf1 own1p vpn_less] e1(3) nl Suc.prems(4) by (simp add: get64_def va_prefix_less)
    have cm: "can_map (pmem s1) va level l ?p1"
    proof (cases "pte_v (get64 s ?e)")
      case True
      then have "s1 = s" using en by (simp add: ensured_def)
      then show ?thesis using Suc.prems(5) ll True nl by (simp add: can_map_Suc get64_def)
    next
      case False
      then show ?thesis using en ll by (intro can_map_empty) (auto simp: ensured_def)
    qed
    have "(l - level) * 4096 \<le> card (covered xs1)"
      using en Suc.prems(6) ll by (cases "pte_v (get64 s ?e)") (auto simp: ensured_def Suc_diff_le)
    from Suc.IH [OF e1(1) p1 ll _ cm this] Suc.prems(4) obtain e s' own' xs' q where
      ih: "mapPage_walk tr va (rev [level..<l]) (entry_addr ?p1 (vpn va l)) s1 = Some (e, s')" "walked s1 own1 va level l ?p1 e s' own' xs' q"
      by auto
    have w: "pt_state s' own' xs'" "own1 \<subseteq>\<^sub>m own'" "own' q = Some (level, va_prefix va level)" "e = entry_addr q (vpn va level)"
      "\<not> pte_v (get64 s' e) \<or> pte_leaf (get64 s' e)"
      "\<And>va' l' p'. own1 p' = Some (l', va_prefix va' l') \<Longrightarrow> l' \<le> 2 \<Longrightarrow> virtToEntry_walk (pmem s') va' l' p' = virtToEntry_walk (pmem s1) va' l' p'"
      "\<And>m va'. tables_same own' {e} (pmem s') m \<Longrightarrow> same_path level l va va' \<Longrightarrow> virtToEntry_walk m va' l ?p1 = virtToEntry_walk m va' level q"
      "\<And>p' i. p' \<in> dom own1 \<Longrightarrow> unat i < 512 \<Longrightarrow> pte_v (load64 (pmem s1) (entry_addr p' i)) \<Longrightarrow>
          load64 (pmem s') (entry_addr p' i) = load64 (pmem s1) (entry_addr p' i)"
      using ih(2) unfolding walked_def by auto
    have run: "mapPage_walk tr va (rev [level..<Suc l]) ?e s = Some (e, s')"
      using r nl ih(1) ll by simp
    have es': "load64 (pmem s') ?e = get64 s1 ?e"
      using w(8) [of p "vpn va (Suc l)"] own1p e1(3) by (auto simp: get64_def)
    have own'p: "own' p = Some (Suc l, va_prefix va (Suc l))" using map_leD [OF w(2) own1p] .
    have wf': "pt_wf (pmem s') own'" using w(1) by (simp add: pt_state_def)
    have ne: "?e \<noteq> e"
      using entry_addr_inj [of p q "vpn va (Suc l)" "vpn va level"] pt_wfD(2) [OF wf' own'p] pt_wfD(2) [OF wf' w(3)] w(3,4) own'p ll by auto
    have path: "virtToEntry_walk m va' (Suc l) p = virtToEntry_walk m va' level q"
      if m: "tables_same own' {e} (pmem s') m" and sp: "same_path level (Suc l) va va'" for m va'
    proof -
      have "load64 m ?e = get64 s1 ?e" using tables_sameD [OF m own'p vpn_less] ne es' by simp
      moreover have "vpn va (Suc l) = vpn va' (Suc l)" "same_path level l va va'" using sp ll by (auto simp: same_path_def)
      ultimately show ?thesis
        using w(7) [OF m, of va'] walk_branch [of p m va' l] e1(3) nl pt_wfD(3) [OF wf1 own1p] by simp
    qed
    have keep: "load64 (pmem s') (entry_addr p' i) = load64 (pmem s) (entry_addr p' i)"
      if k: "p' \<in> dom own" "unat i < 512" "pte_v (load64 (pmem s) (entry_addr p' i))" for p' i
    proof -
      have "load64 (pmem s1) (entry_addr p' i) = load64 (pmem s) (entry_addr p' i)"
      proof (cases "entry_addr p' i = ?e")
        case True
        then show ?thesis using k(3) en by (simp add: ensured_def get64_def)
      next
        case False
        then show ?thesis using tables_sameD [OF e1(4) _ k(2)] k(1) by auto
      qed
      moreover have "p' \<in> dom own1" using k(1) map_leD [OF e1(2)] by blast
      ultimately show ?thesis using w(8) k by simp
    qed
    have "own \<subseteq>\<^sub>m own'" using e1(2) w(2) map_le_trans by blast
    moreover have "virtToEntry_walk (pmem s') va' l' p' = virtToEntry_walk (pmem s) va' l' p'"
      if "own p' = Some (l', va_prefix va' l')" "l' \<le> 2" for va' l' p'
      using w(6) [OF map_leD [OF e1(2) that(1)] that(2)] en that by (simp add: ensured_def)
    ultimately have "walked s own va level (Suc l) p e s' own' xs' q"
      unfolding walked_def using w(1,3-5) path keep by blast
    then show ?thesis using run by blast
  qed
qed

lemma va_prefix_path:
  assumes "level \<le> 2" "va_prefix va level = va_prefix va' level" "vpn va level = vpn va' level"
  shows "\<forall>j. level \<le> j \<and> j \<le> 2 \<longrightarrow> vpn va j = vpn va' j"
proof -
  have split: "a = c \<and> b = d" if "a * 512 + b = c * 512 + d" "b < 512" "d < 512" for a b c d :: nat
    using that by (metis div_less div_mult_self3 mod_less mod_mult_self3 add.right_neutral zero_neq_numeral)
  consider "level = 0" | "level = 1" | "level = 2" using assms(1) by linarith
  then show ?thesis
  proof cases
    case 1
    then have "unat (vpn va 2) = unat (vpn va' 2) \<and> unat (vpn va 1) = unat (vpn va' 1)"
      using assms(2) split [of "unat (vpn va 2)" "unat (vpn va 1)" "unat (vpn va' 2)" "unat (vpn va' 1)"] by (simp add: va_prefix_def)
    then show ?thesis using 1 assms(3) by (auto simp: le_Suc_eq numeral_2_eq_2 word_unat_eq_iff)
  next
    case 2
    then show ?thesis using assms(2,3) by (auto simp: va_prefix_def le_Suc_eq numeral_2_eq_2 word_unat_eq_iff)
  next
    case 3
    then show ?thesis using assms(3) by auto
  qed
qed

lemma walk_result:
  assumes "pt_wf m own" "own p = Some (l, va_prefix va l)" "l \<le> 2" "virtToEntry_walk m va l p = Some (Some e)"
  shows "\<exists>p' i. p' \<in> dom own \<and> unat i < 512 \<and> e = entry_addr p' i \<and> pte_v (load64 m e)"
  using assms(2-)
proof (induction l arbitrary: p)
  case 0
  then show ?case using vpn_less [of va 0] by (fastforce simp: virtToEntry_walk.simps Let_def split: if_splits bind_splits)
next
  case (Suc l)
  note wp = pt_wfD [OF assms(1) Suc.prems(1)]
  let ?c = "load64 m (entry_addr p (vpn va (Suc l)))"
  consider "\<not> pte_v ?c" | "pte_v ?c" "pte_leaf ?c" | "pte_v ?c" "\<not> pte_leaf ?c" by blast
  then show ?case
  proof cases
    case 1
    then show ?thesis using Suc.prems(3) wp(3) by (simp add: walk_invalid)
  next
    case 2
    then show ?thesis
      using Suc.prems(1,3) wp(3) by (intro exI [of _ p] exI [of _ "vpn va (Suc l)"]) (auto simp: walk_leaf)
  next
    case 3
    then have "own (pte_page ?c) = Some (l, va_prefix va l)"
      using wp(4) [of "vpn va (Suc l)"] Suc.prems(2) by (simp add: va_prefix_less)
    then show ?thesis using Suc.IH [of "pte_page ?c"] Suc.prems(2,3) 3 wp(3) walk_branch [of p m va l] by simp
  qed
qed

lemma pt_wf_leaf:
  assumes wf: "pt_wf m own" and q: "own q = Some (l, pre)" "unat i < 512" and v: "pte_leaf v"
  shows "pt_wf (store64 m (entry_addr q i) v) own" "tables_same own {entry_addr q i} m (store64 m (entry_addr q i) v)"
proof -
  let ?e = "entry_addr q i" and ?m = "store64 m (entry_addr q i) v"
  have al: "aligned8 ?e" using entry_addr_aligned [OF pt_wfD(2) [OF wf q(1)] q(2)] .
  have ld: "load64 ?m (entry_addr p j) = (if entry_addr p j = ?e then v else load64 m (entry_addr p j))"
    if "own p = Some (l', pre')" "unat j < 512" for p l' pre' j
    using al entry_addr_aligned [OF pt_wfD(2) [OF wf that(1)] that(2)] by (auto simp: load64_store64)
  then show "tables_same own {?e} m ?m" by (auto simp: tables_same_def)
  show "pt_wf ?m own"
    unfolding pt_wf_def
  proof (intro allI impI)
    fix p l' pre' assume p: "own p = Some (l', pre')"
    show "table_page p \<and> (\<forall>i. unat i < 512 \<longrightarrow> pte_v (load64 ?m (entry_addr p i)) \<longrightarrow> \<not> pte_leaf (load64 ?m (entry_addr p i)) \<longrightarrow>
        0 < l' \<and> own (pte_page (load64 ?m (entry_addr p i))) = Some (l' - 1, pre' * 512 + unat i))"
      using pt_wfD(1,4) [OF wf p] ld [OF p] v by auto
  qed
qed

subsection \<open>Properties\<close>

text \<open>
  Property C3 (mapPage_correct). Let the tables reachable from \<open>root\<close> be well formed and apart from
  the free pages, at least two pages be free, and let no larger page or deeper table be in the
  way of the new mapping. Then \<open>mapPage\<close> returns, creating tables as needed, and leaves a well
  formed tree. Afterwards exactly the addresses of the new page lead to the returned entry,
  which has the page number and flags asked for; every other address leads to the entry it
  led to before, and the contents of those entries are unchanged.
\<close>

theorem mapPage_correct:
  assumes st: "pt_state s own xs" "own root = Some (2, 0)" and lv: "level \<le> 2" and bits: "bits AND 0b1110 \<noteq> 0"
    and room: "8192 \<le> card (covered xs)" and cm: "can_map (pmem s) va level 2 root"
  shows "\<exists>e s' own' xs'. mapPage tr root va paddr bits level s = Some (e, s') \<and> pt_state s' own' xs' \<and> own' root = Some (2, 0)
    \<and> (\<forall>va'. virtToEntry (pmem s') root va' =
         (if \<forall>j. level \<le> j \<and> j \<le> 2 \<longrightarrow> vpn va j = vpn va' j then Some (Some e) else virtToEntry (pmem s) root va'))
    \<and> pte_paddr (load64 (pmem s') e) = take_bit 44 (drop_bit 12 paddr) \<and> pte_bits (load64 (pmem s') e) = take_bit 10 bits OR 1
    \<and> (\<forall>va' e'. virtToEntry (pmem s) root va' = Some (Some e') \<longrightarrow> e' \<noteq> e \<longrightarrow> load64 (pmem s') e' = load64 (pmem s) e')"
proof -
  have r2: "own root = Some (2, va_prefix x 2)" for x using st(2) by simp
  have "(2 - level) * 4096 \<le> card (covered xs)" using room by (rule order_trans [rotated]) simp
  from mapPage_walk_spec [OF st(1) r2 lv order_refl cm this, of tr] obtain e s1 own1 xs1 q where
    run: "mapPage_walk tr va (rev [level..<2]) (entry_addr root (vpn va 2)) s = Some (e, s1)" and w: "walked s own va level 2 root e s1 own1 xs1 q"
    by blast
  have w1: "pt_state s1 own1 xs1" "own \<subseteq>\<^sub>m own1" "own1 q = Some (level, va_prefix va level)" "e = entry_addr q (vpn va level)"
    "\<not> pte_v (get64 s1 e) \<or> pte_leaf (get64 s1 e)"
    "\<And>va'. virtToEntry_walk (pmem s1) va' 2 root = virtToEntry_walk (pmem s) va' 2 root"
    "\<And>m va'. tables_same own1 {e} (pmem s1) m \<Longrightarrow> same_path level 2 va va' \<Longrightarrow> virtToEntry_walk m va' 2 root = virtToEntry_walk m va' level q"
    "\<And>p' i. p' \<in> dom own \<Longrightarrow> unat i < 512 \<Longrightarrow> pte_v (load64 (pmem s) (entry_addr p' i)) \<Longrightarrow>
          load64 (pmem s1) (entry_addr p' i) = load64 (pmem s) (entry_addr p' i)"
    using w r2 unfolding walked_def by (blast, blast, blast, blast, blast, blast, blast, blast)
  have wf1: "pt_wf (pmem s1) own1" and pf1: "page_free s1 xs1" and ap: "\<forall>p\<in>dom own1. bytes p PAGE_SIZE \<inter> covered xs1 = {}" "covered xs1 \<subseteq> {..<2 ^ 56}"
    using w1(1) by (auto simp: pt_state_def)
  let ?v = "new_pte (get64 s1 e) paddr bits"
  let ?s' = "put64 s1 e ?v"
  note nv = new_pte [OF bits, of "get64 s1 e" paddr] and wq = pt_wfD [OF wf1 w1(3)]
  have res: "mapPage tr root va paddr bits level s = Some (e, ?s')"
    using run bits w1(5) by (simp add: mapPage_def put64_put64 get64_put64_same new_pte_def Let_def)
  note lf = pt_wf_leaf [OF wf1 w1(3) vpn_less [of va level] nv(2), folded w1(4)]
  have pm: "pmem ?s' = store64 (pmem s1) e ?v" by (simp add: put64_def)
  have le: "load64 (pmem ?s') e = ?v" by (simp add: pm load64_store64_same)
  have "page_free ?s' xs1"
    unfolding w1(4) by (rule page_free_entry [OF pf1 wq(2) vpn_less]) (use ap(1) w1(3) in blast)
  then have st': "pt_state ?s' own1 xs1" using lf(1) ap by (simp add: pt_state_def pm)
  have root1: "own1 root = Some (2, va_prefix x 2)" for x using map_leD [OF w1(2) r2] .
  have tr': "virtToEntry (pmem ?s') root va' =
      (if \<forall>j. level \<le> j \<and> j \<le> 2 \<longrightarrow> vpn va j = vpn va' j then Some (Some e) else virtToEntry (pmem s) root va')" for va'
  proof (cases "\<forall>j. level \<le> j \<and> j \<le> 2 \<longrightarrow> vpn va j = vpn va' j")
    case True
    then have "same_path level 2 va va'" "vpn va level = vpn va' level" using lv by (auto simp: same_path_def)
    then have "virtToEntry (pmem ?s') root va' = virtToEntry_walk (pmem ?s') va' level q"
      using w1(7) [of "pmem ?s'" va'] lf(2) by (simp add: virtToEntry_def pm)
    also have "\<dots> = Some (Some e)"
      using walk_leaf [of q "pmem ?s'" va' level] wq(3) le nv(1,2) \<open>vpn va level = vpn va' level\<close> w1(4) by simp
    finally show ?thesis using True by simp
  next
    case False
    have "e \<noteq> entry_addr q' (vpn va' l')" if "own1 q' = Some (l', va_prefix va' l')" for q' l'
    proof
      assume "e = entry_addr q' (vpn va' l')"
      then have "q = q'" "vpn va level = vpn va' l'"
        using entry_addr_inj [OF wq(2) pt_wfD(2) [OF wf1 that] vpn_less vpn_less] w1(4) by auto
      then have "level = l'" "va_prefix va level = va_prefix va' level" "vpn va level = vpn va' level" using that w1(3) by auto
      then show False using va_prefix_path [OF lv] False by blast
    qed
    then have "virtToEntry_walk (pmem ?s') va' 2 root = virtToEntry_walk (pmem s1) va' 2 root"
      using lf(2) by (intro walk_frame [OF wf1 _ order_refl root1]) (auto simp: pm)
    then show ?thesis unfolding if_not_P [OF False] virtToEntry_def using w1(6) by simp
  qed
  have keep: "load64 (pmem ?s') e' = load64 (pmem s) e'" if v: "virtToEntry (pmem s) root va' = Some (Some e')" "e' \<noteq> e" for va' e'
  proof -
    have "pt_wf (pmem s) own" using st(1) by (simp add: pt_state_def)
    from walk_result [OF this r2 order_refl v(1) [unfolded virtToEntry_def]] obtain p' i where
      p: "p' \<in> dom own" "unat i < 512" "e' = entry_addr p' i" "pte_v (load64 (pmem s) e')" by blast
    have "load64 (pmem s1) e' = load64 (pmem s) e'" using w1(8) [OF p(1,2)] p(3,4) by simp
    moreover have "load64 (pmem ?s') e' = load64 (pmem s1) e'"
    proof -
      obtain y where "own1 p' = Some y" using p(1) map_leD [OF w1(2)] by blast
      then show ?thesis using tables_sameD [OF lf(2) _ p(2)] p(3) v(2) by (simp add: pm)
    qed
    ultimately show ?thesis by simp
  qed
  show ?thesis
    using res st' root1 tr' keep nv(3,4) le by (intro exI [of _ e] exI [of _ ?s'] exI [of _ own1] exI [of _ xs1]) auto
qed

lemma example_heap_zero: "0x80001010 \<le> unat b \<Longrightarrow> pmem example_heap b = 0"
  by (auto simp: example_heap_def store64_def)

lemma example_tables: "pt_state example_heap [0x80010000 \<mapsto> (2, 0)] [(0x80001000, 0x3000)]"
proof -
  have "load64 (pmem example_heap) (entry_addr 0x80010000 i) = 0" if "unat i < 512" for i
    by (rule load_entry_zero [OF _ that]) (auto intro!: example_heap_zero simp: bytes_def PAGE_SIZE_def)
  then have "pt_wf (pmem example_heap) [0x80010000 \<mapsto> (2, 0)]"
    by (auto simp: pt_wf_def table_page_def pte_v_def split: if_splits)
  then show ?thesis
    using example_heap_free by (auto simp: pt_state_def bytes_def PAGE_SIZE_def)
qed

text \<open>Witness: the first mapping of an empty address space.\<close>

theorem mapPage_correct_witness:
  "\<exists>e s'. mapPage (\<lambda>_ s. Some (False, s)) 0x80010000 0x40002000 0x80003000 6 0 example_heap = Some (e, s')
     \<and> virtToEntry (pmem s') 0x80010000 0x40002FFF = Some (Some e) \<and> pte_paddr (load64 (pmem s') e) = 0x80003"
proof -
  have z: "load64 (pmem example_heap) (entry_addr 0x80010000 (vpn 0x40002000 2)) = 0"
    by (rule load_entry_zero [OF _ vpn_less]) (auto intro!: example_heap_zero simp: bytes_def PAGE_SIZE_def)
  then have "can_map (pmem example_heap) 0x40002000 0 2 0x80010000"
    using can_map_Suc [of 0 1 "pmem example_heap" "0x40002000" "0x80010000"] by (simp add: pte_v_def numeral_2_eq_2)
  moreover have "vpn 0x40002000 j = vpn 0x40002FFF j" if "j \<le> 2" for j
  proof -
    have "j = 0 \<or> j = 1 \<or> j = 2" using that by auto
    then show ?thesis by (auto simp: vpn_def)
  qed
  ultimately show ?thesis
    using mapPage_correct [OF example_tables, of "0x80010000" 0 6 "0x40002000" "\<lambda>_ s. Some (False, s)" "0x80003000"]
    by (fastforce simp: bytes_def)
qed

end
