(* ===== verification/MemSpace.thy ===== *)
theory MemSpace
  imports PageMap PageRef
begin

text \<open>
  Model of kernel/src/memory/memspace.c: address spaces with copy-on-write pages. The state adds
  the table of page references to the page memory. \<open>global_page_lock\<close> is omitted (one hart);
  the reference table's own allocations are those of PageRef.
\<close>

unbundle bit_operations_syntax

record MSpace = PageMem +
  ref_count :: PageRefTable

definition entry_set_bits :: "u64 \<Rightarrow> u64 \<Rightarrow> 'a PageMem_scheme \<Rightarrow> 'a PageMem_scheme" where
  "entry_set_bits entry bits s = put64 s entry (set_pte_bits (get64 s entry) (pte_bits (get64 s entry) OR bits))"

definition entry_clear_bits :: "u64 \<Rightarrow> u64 \<Rightarrow> 'a PageMem_scheme \<Rightarrow> 'a PageMem_scheme" where
  "entry_clear_bits entry bits s = put64 s entry (set_pte_bits (get64 s entry) (pte_bits (get64 s entry) AND NOT bits))"

definition entry_has :: "'a PageMem_scheme \<Rightarrow> u64 \<Rightarrow> u64 \<Rightarrow> bool" where
  "entry_has s entry bits \<longleftrightarrow> pte_bits (get64 s entry) AND bits \<noteq> 0"

definition createMemorySpace :: "'a reclaimer \<Rightarrow> 'a PageMem_scheme \<Rightarrow> (u64 \<times> 'a PageMem_scheme) option" where
  "createMemorySpace tr s = createPageTable tr s"

definition handlePageFault :: "'a MSpace_ext reclaimer \<Rightarrow> u64 \<Rightarrow> u64 \<Rightarrow> 'a MSpace_scheme \<Rightarrow> (bool \<times> 'a MSpace_scheme) option" where
  "handlePageFault tr mem address s = do {
     entry \<leftarrow> virtToEntry (pmem s) mem address;
     case entry of
       None \<Rightarrow> Some (False, s)
     | Some entry \<Rightarrow>
         if pte_v (get64 s entry) \<and> entry_has s entry PAGE_ENTRY_COPY then
           (let phy = pte_page (get64 s entry) in
            if phy = zero_page s then do {
              (page, s) \<leftarrow> zallocPage tr s;
              if page = 0 then Some (False, s)
              else (let s = entry_set_bits entry PAGE_ENTRY_WRITE s;
                        s = entry_clear_bits entry PAGE_ENTRY_COPY s;
                        s = put64 s entry (set_pte_paddr (get64 s entry) (drop_bit 12 page))
                    in Some (True, s)) }
            else do {
              other \<leftarrow> hasOtherReferences (zero_page s) (ref_count s) phy;
              (ok, s) \<leftarrow>
                (if other then do {
                   (page, s) \<leftarrow> allocPage tr s;
                   if page = 0 then Some (False, s)
                   else (let s = s\<lparr>pmem := fst (memcpy (pmem s) page phy PAGE_SIZE)\<rparr>
                         in Some (True, put64 s entry (set_pte_paddr (get64 s entry) (drop_bit 12 page)))) }
                 else Some (True, s));
              if ok
              then Some (True, entry_clear_bits entry PAGE_ENTRY_COPY (entry_set_bits entry PAGE_ENTRY_WRITE s))
              else Some (False, s) })
         else Some (False, s) }"

definition virtToPhys :: "'a MSpace_ext reclaimer \<Rightarrow> u64 \<Rightarrow> u64 \<Rightarrow> bool \<Rightarrow> bool \<Rightarrow> 'a MSpace_scheme \<Rightarrow> (u64 \<times> 'a MSpace_scheme) option" where
  "virtToPhys tr mem vaddr write allow_all s =
     (if mem = 0 then Some (vaddr, s)
      else do {
        entry \<leftarrow> virtToEntry (pmem s) mem vaddr;
        case entry of
          None \<Rightarrow> Some (0, s)
        | Some entry \<Rightarrow>
            if write then
              (if entry_has s entry PAGE_ENTRY_WRITE then do { p \<leftarrow> unsafeVirtToPhys (pmem s) mem vaddr; Some (p, s) }
               else if entry_has s entry PAGE_ENTRY_COPY then do {
                 (ok, s) \<leftarrow> handlePageFault tr mem vaddr s;
                 Some (if ok then push_bit 12 (pte_paddr (get64 s entry)) else 0, s) }
               else if allow_all then do { p \<leftarrow> unsafeVirtToPhys (pmem s) mem vaddr; Some (p, s) }
               else Some (0, s))
            else
              (if entry_has s entry PAGE_ENTRY_READ \<or> allow_all then do { p \<leftarrow> unsafeVirtToPhys (pmem s) mem vaddr; Some (p, s) }
               else Some (0, s)) })"

definition freePageEntryData :: "u64 \<Rightarrow> u64 \<Rightarrow> u64 \<Rightarrow> 'a MSpace_scheme \<Rightarrow> 'a MSpace_scheme option" where
  "freePageEntryData hs he entry s =
     (if \<not> entry_has s entry PAGE_ENTRY_GLOBAL then
        (let phy = pte_page (get64 s entry) in
         if phy \<noteq> zero_page s then do {
           other \<leftarrow> hasOtherReferences (zero_page s) (ref_count s) phy;
           if \<not> other then deallocPage hs he phy s
           else do { t \<leftarrow> removeReferenceFor (ref_count s) phy; Some (s\<lparr>ref_count := t\<rparr>) } }
         else Some s)
      else Some s)"

definition unmapAndFreePage :: "u64 \<Rightarrow> u64 \<Rightarrow> u64 \<Rightarrow> u64 \<Rightarrow> 'a MSpace_scheme \<Rightarrow> 'a MSpace_scheme option" where
  "unmapAndFreePage hs he mem vaddr s = do {
     entry \<leftarrow> virtToEntry (pmem s) mem vaddr;
     case entry of
       None \<Rightarrow> Some s
     | Some entry \<Rightarrow> do {
         s \<leftarrow> freePageEntryData hs he entry s;
         Some (put64 s entry (set_pte_v (get64 s entry) False)) } }"

text \<open>
  \<open>levels\<close> is the argument \<open>level + 1\<close>; the list holds the indices of the entries still to visit.
\<close>

fun freePagesInTable :: "u64 \<Rightarrow> u64 \<Rightarrow> u64 \<Rightarrow> nat \<Rightarrow> nat list \<Rightarrow> 'a MSpace_scheme \<Rightarrow> 'a MSpace_scheme option" where
  "freePagesInTable hs he table 0 is s = Some s"
| "freePagesInTable hs he table (Suc level) [] s = Some s"
| "freePagesInTable hs he table (Suc level) (i # is) s =
     (let entry = entry_addr table (of_nat i) in do {
        s \<leftarrow> (if pte_v (get64 s entry) then
               (if \<not> entry_has s entry PAGE_ENTRY_RWX then
                  (let sub = pte_page (get64 s entry) in do {
                     s \<leftarrow> freePagesInTable hs he sub level [0..<PAGE_TABLE_SIZE] s;
                     deallocPage hs he sub s })
                else freePageEntryData hs he entry s)
             else Some s);
        freePagesInTable hs he table (Suc level) is (put64 s entry 0) })"

definition freeMemorySpace :: "u64 \<Rightarrow> u64 \<Rightarrow> u64 \<Rightarrow> 'a MSpace_scheme \<Rightarrow> 'a MSpace_scheme option" where
  "freeMemorySpace hs he mem s = freePagesInTable hs he mem 3 [0..<PAGE_TABLE_SIZE] s"

definition deallocMemorySpace :: "u64 \<Rightarrow> u64 \<Rightarrow> u64 \<Rightarrow> 'a MSpace_scheme \<Rightarrow> 'a MSpace_scheme option" where
  "deallocMemorySpace hs he mem s = do {
     s \<leftarrow> freeMemorySpace hs he mem s;
     deallocPage hs he mem s }"

definition copyMemoryPageEntry :: "u64 \<Rightarrow> u64 \<Rightarrow> 'a MSpace_scheme \<Rightarrow> (bool \<times> 'a MSpace_scheme) option" where
  "copyMemoryPageEntry dst src s =
     (if \<not> entry_has s src PAGE_ENTRY_GLOBAL then
        (let phy = pte_page (get64 s src) in
         if phy \<noteq> zero_page s then do {
           t \<leftarrow> addReferenceFor (ref_count s) phy;
           let s = s\<lparr>ref_count := t\<rparr>;
           if entry_has s src PAGE_ENTRY_WRITE then
             (let s = entry_set_bits src PAGE_ENTRY_COPY s;
                  s = entry_clear_bits src PAGE_ENTRY_WRITE s;
                  s = entry_set_bits dst PAGE_ENTRY_COPY s;
                  s = entry_clear_bits dst PAGE_ENTRY_WRITE s
              in Some (True, s))
           else Some (True, s) }
         else Some (True, s))
      else Some (True, s))"

partial_function (option) copyAllPagesAndAllocUsers ::
  "'a MSpace_ext reclaimer \<Rightarrow> u64 \<Rightarrow> u64 \<Rightarrow> nat \<Rightarrow> 'a MSpace_scheme \<Rightarrow> (bool \<times> 'a MSpace_scheme) option" where
  "copyAllPagesAndAllocUsers tr dest src i s =
     (if i < PAGE_TABLE_SIZE then
        (let entry = entry_addr src (of_nat i);
             dentry = entry_addr dest (of_nat i);
             s = put64 s dentry (get64 s entry)
         in if pte_v (get64 s entry) then
              (if \<not> entry_has s entry PAGE_ENTRY_RWX then
                 (let src_table = pte_page (get64 s entry) in do {
                    (dst_table, s) \<leftarrow> createPageTable tr s;
                    if dst_table = 0 then Some (False, s)
                    else do {
                      (ok, s) \<leftarrow> copyAllPagesAndAllocUsers tr dst_table src_table 0 s;
                      if \<not> ok then Some (False, s)
                      else copyAllPagesAndAllocUsers tr dest src (i + 1)
                             (put64 s dentry (set_pte_paddr (get64 s dentry) (drop_bit 12 dst_table))) } })
               else do {
                 (ok, s) \<leftarrow> copyMemoryPageEntry dentry entry s;
                 if \<not> ok then Some (False, s) else copyAllPagesAndAllocUsers tr dest src (i + 1) s })
            else copyAllPagesAndAllocUsers tr dest src (i + 1) s)
      else Some (True, s))"

definition cloneMemorySpace :: "'a MSpace_ext reclaimer \<Rightarrow> u64 \<Rightarrow> u64 \<Rightarrow> u64 \<Rightarrow> 'a MSpace_scheme \<Rightarrow> (u64 \<times> 'a MSpace_scheme) option" where
  "cloneMemorySpace tr hs he mem s = do {
     (space, s) \<leftarrow> createMemorySpace tr s;
     if space \<noteq> 0 then do {
       (ok, s) \<leftarrow> copyAllPagesAndAllocUsers tr space mem 0 s;
       if \<not> ok then do { s \<leftarrow> deallocMemorySpace hs he space s; Some (0, s) }
       else Some (space, s) }
     else Some (space, s) }"

subsection \<open>Entries\<close>

lemma pte_fields [simp]:
  "pte_bits (set_pte_bits e b) = take_bit 10 b" "pte_paddr (set_pte_bits e b) = pte_paddr e" "pte_page (set_pte_bits e b) = pte_page e"
  "pte_bits (set_pte_paddr e p) = pte_bits e" "pte_paddr (set_pte_paddr e p) = take_bit 44 p"
proof -
  show "pte_bits (set_pte_bits e b) = take_bit 10 b" "pte_bits (set_pte_paddr e p) = pte_bits e"
    unfolding pte_bits_def set_pte_bits_def set_pte_paddr_def by (auto intro!: bit_word_eqI simp: bit_simps)
  show a: "pte_paddr (set_pte_bits e b) = pte_paddr e" "pte_paddr (set_pte_paddr e p) = take_bit 44 p"
    unfolding pte_paddr_def set_pte_bits_def set_pte_paddr_def by (auto intro!: bit_word_eqI simp: bit_simps)
  show "pte_page (set_pte_bits e b) = pte_page e" using a(1) by (simp add: pte_page_def)
qed

lemma pte_v_bits: "pte_v e \<longleftrightarrow> bit (pte_bits e) 0"
  by (simp add: pte_v_def pte_bits_def bit_simps)

lemma pte_page_paddr:
  fixes q :: u64
  assumes "unat q mod 4096 = 0" "unat q < 2 ^ 56"
  shows "push_bit 12 (take_bit 44 (drop_bit 12 q)) = q"
proof -
  have "pte_paddr (set_pte_v (set_pte_paddr 0 (drop_bit 12 q)) True) = take_bit 44 (drop_bit 12 q)"
    unfolding pte_paddr_def set_pte_v_def set_pte_paddr_def by (rule bit_word_eqI) (auto simp: bit_simps)
  then show ?thesis using pte_new_table(1) [OF assms] by (simp add: pte_page_def)
qed

lemma bit_page_flags: "bit PAGE_ENTRY_WRITE n \<longleftrightarrow> n = 2" "bit PAGE_ENTRY_COPY n \<longleftrightarrow> n = 8"
proof -
  have e: "PAGE_ENTRY_WRITE = push_bit 2 1" "PAGE_ENTRY_COPY = push_bit 8 1"
    by (simp_all add: push_bit_eq_mult PAGE_ENTRY_WRITE_def PAGE_ENTRY_COPY_def)
  show "bit PAGE_ENTRY_WRITE n \<longleftrightarrow> n = 2"
    unfolding e by (simp only: bit_push_bit_iff bit_1_iff possible_bit_word) auto
  show "bit PAGE_ENTRY_COPY n \<longleftrightarrow> n = 8"
    unfolding e by (simp only: bit_push_bit_iff bit_1_iff possible_bit_word) auto
qed

text \<open>The flags a write fault leaves behind: writable, no longer copy-on-write.\<close>

definition cow_bits :: "u64 \<Rightarrow> u64" where
  "cow_bits b = (b OR PAGE_ENTRY_WRITE) AND NOT PAGE_ENTRY_COPY"

lemma cow_bits_run: "take_bit 10 (take_bit 10 (pte_bits e OR PAGE_ENTRY_WRITE) AND NOT PAGE_ENTRY_COPY) = cow_bits (pte_bits e)"
  unfolding cow_bits_def pte_bits_def by (rule bit_word_eqI) (auto simp: bit_simps bit_page_flags)

lemma cow_bits_entry:
  assumes "pte_v e" "pte_bits e' = cow_bits (pte_bits e)"
  shows "pte_v e'" "pte_leaf e'" "pte_bits e' AND PAGE_ENTRY_WRITE \<noteq> 0" "pte_bits e' AND PAGE_ENTRY_COPY = 0"
proof -
  show "pte_v e'" using assms by (simp add: pte_v_bits cow_bits_def bit_simps bit_page_flags)
  have b: "bit (pte_bits e') 2" unfolding assms(2) by (simp add: cow_bits_def bit_simps bit_page_flags)
  have "bit (pte_bits e' AND PAGE_ENTRY_RWX) 2" "bit (pte_bits e' AND PAGE_ENTRY_WRITE) 2"
    using b by (simp_all add: PAGE_ENTRY_RWX_def bit_simps bit_page_flags)
  then show "pte_leaf e'" "pte_bits e' AND PAGE_ENTRY_WRITE \<noteq> 0" by (auto simp: pte_leaf_def)
  show "pte_bits e' AND PAGE_ENTRY_COPY = 0"
    unfolding assms(2) cow_bits_def by (rule bit_word_eqI) (auto simp: bit_simps)
qed

subsection \<open>Walks\<close>

lemma walk_result_leaf: "virtToEntry_walk m va l p = Some (Some e) \<Longrightarrow> pte_v (load64 m e) \<and> pte_leaf (load64 m e)"
proof (induction l arbitrary: p)
  case 0
  then show ?case by (auto simp: virtToEntry_walk.simps [of _ _ 0] Let_def split: if_splits bind_splits)
next
  case (Suc l)
  then show ?case by (auto simp: virtToEntry_walk.simps [of _ _ "Suc l"] Let_def split: if_splits bind_splits)
qed

text \<open>Replacing a leaf by another changes no walk.\<close>

lemma walk_same_leaf:
  assumes wf: "pt_wf m own" and same: "tables_same own {e} m m'"
    and e: "pte_v (load64 m e)" "pte_leaf (load64 m e)" "pte_v (load64 m' e)" "pte_leaf (load64 m' e)"
    and p: "own p = Some (l, va_prefix va l)" "l \<le> 2"
  shows "virtToEntry_walk m' va l p = virtToEntry_walk m va l p"
  using p
proof (induction l arbitrary: p)
  case 0
  then show ?case using tables_sameD [OF same 0(1), of "vpn va 0"] e
    by (cases "entry_addr p (vpn va 0) = e") (auto simp: virtToEntry_walk.simps [of _ _ 0] Let_def)
next
  case (Suc l)
  note wp = pt_wfD [OF wf Suc.prems(1)]
  let ?c = "entry_addr p (vpn va (Suc l))"
  show ?case
  proof (cases "?c = e")
    case True
    then show ?thesis using e wp(3) walk_leaf [of p m' va "Suc l"] walk_leaf [of p m va "Suc l"] by simp
  next
    case False
    then have ld: "load64 m' ?c = load64 m ?c" using tables_sameD [OF same Suc.prems(1)] by simp
    show ?thesis
    proof (cases "pte_v (load64 m ?c) \<and> \<not> pte_leaf (load64 m ?c)")
      case True
      then have "own (pte_page (load64 m ?c)) = Some (l, va_prefix va l)"
        using wp(4) [of "vpn va (Suc l)"] Suc.prems(2) by (simp add: va_prefix_less)
      then show ?thesis using Suc.IH [of "pte_page (load64 m ?c)"] Suc.prems(2) True ld wp(3) walk_branch [of p _ va l] by simp
    next
      case False
      then show ?thesis using ld wp(3) by (cases "pte_v (load64 m ?c)") (simp_all add: walk_invalid walk_leaf)
    qed
  qed
qed

subsection \<open>Write faults\<close>

lemma page_wordD: "unat (pte_page e) mod 4096 = 0" "unat (pte_page e) < 2 ^ 56"
proof -
  have "pte_page e = take_bit 56 (pte_page e)" unfolding pte_page_def pte_paddr_def by (rule bit_word_eqI) (auto simp: bit_simps)
  then have "unat (pte_page e) = unat (pte_page e) mod 2 ^ 56" using unat_take_bit [of 56 "pte_page e"] by simp
  then show "unat (pte_page e) < 2 ^ 56" using mod_less_divisor [of "2 ^ 56" "unat (pte_page e)"] by simp
  have "take_bit 12 (pte_page e) = 0" unfolding pte_page_def by (rule bit_word_eqI) (auto simp: bit_simps)
  then show "unat (pte_page e) mod 4096 = 0" using unat_take_bit [of 12 "pte_page e"] by simp
qed

text \<open>The state after the entry has been rewritten to point to page \<open>q\<close>.\<close>

lemma entry_rewritten:
  assumes st: "pt_state s own xs" and e: "own p = Some (l, pre)" "unat i < 512" "e = entry_addr p i"
    and v: "pte_v (get64 s e)" "pte_leaf (get64 s e)" "pte_v v" "pte_leaf v"
  shows "pt_state (put64 s e v) own xs" "get64 (put64 s e v) e = v"
    "own root = Some (2, 0) \<Longrightarrow> virtToEntry (pmem (put64 s e v)) root va = virtToEntry (pmem s) root va"
    "unat b \<notin> bytes p PAGE_SIZE \<Longrightarrow> pmem (put64 s e v) b = pmem s b"
proof -
  have wf: "pt_wf (pmem s) own" "page_free s xs" "\<forall>p\<in>dom own. bytes p PAGE_SIZE \<inter> covered xs = {}" "covered xs \<subseteq> {..<2 ^ 56}"
    using st by (auto simp: pt_state_def)
  have pm: "pmem (put64 s e v) = store64 (pmem s) e v" by (simp add: put64_def)
  note wp = pt_wfD [OF wf(1) e(1)]
  note lf = pt_wf_leaf [OF wf(1) e(1,2) v(4), folded e(3)]
  have "page_free (put64 s e v) xs" unfolding e(3) by (rule page_free_entry [OF wf(2) wp(2) e(2)]) (use wf(3) e(1) in blast)
  then show "pt_state (put64 s e v) own xs" using lf(1) wf pm by (simp add: pt_state_def)
  show ge: "get64 (put64 s e v) e = v" by (rule get64_put64_same)
  show "own root = Some (2, 0) \<Longrightarrow> virtToEntry (pmem (put64 s e v)) root va = virtToEntry (pmem s) root va"
    unfolding virtToEntry_def using walk_same_leaf [OF wf(1) lf(2), of root 2 va] v ge pm by (simp add: get64_def)
  show "unat b \<notin> bytes p PAGE_SIZE \<Longrightarrow> pmem (put64 s e v) b = pmem s b"
    unfolding pm by (rule store64_outside) (use entry_in_page [OF wp(2) e(2)] e(3) in auto)
qed

lemma pt_state_fresh:
  assumes st: "pt_state s own xs" and pf: "page_free s1 ys" and cov: "covered xs = bytes n PAGE_SIZE \<union> covered ys"
    and out: "\<forall>b. unat b \<notin> covered xs \<longrightarrow> pmem s1 b = pmem s b"
  shows "pt_state s1 own ys" "own p = Some v \<Longrightarrow> unat i < 512 \<Longrightarrow> get64 s1 (entry_addr p i) = get64 s (entry_addr p i)"
    "own root = Some (2, 0) \<Longrightarrow> virtToEntry (pmem s1) root va = virtToEntry (pmem s) root va"
proof -
  have wf: "pt_wf (pmem s) own" "\<forall>p\<in>dom own. bytes p PAGE_SIZE \<inter> covered xs = {}" "covered xs \<subseteq> {..<2 ^ 56}"
    using st by (auto simp: pt_state_def)
  have ld: "load64 (pmem s1) (entry_addr p i) = load64 (pmem s) (entry_addr p i)" if "own p = Some (l, pre)" "unat i < 512" for p l pre i
    by (rule load_entry_cong [OF pt_wfD(2) [OF wf(1) that(1)] that(2)]) (use that(1) wf(2) out in blast)
  then show "own p = Some v \<Longrightarrow> unat i < 512 \<Longrightarrow> get64 s1 (entry_addr p i) = get64 s (entry_addr p i)"
    unfolding get64_def by (cases v) auto
  have "pt_wf (pmem s1) own" using wf(1) ld unfolding pt_wf_def by simp
  then show "pt_state s1 own ys" using wf pf cov by (auto simp: pt_state_def)
  have same: "tables_same own {0} (pmem s) (pmem s1)" using ld by (auto simp: tables_same_def)
  have "0 \<noteq> entry_addr q (vpn va l')" if "own q = Some (l', va_prefix va l')" for q l'
  proof -
    have "unat q \<noteq> 0" using pt_wfD(3) [OF wf(1) that] by (simp add: unat_eq_0)
    then show ?thesis using unat_entry_addr [OF pt_wfD(2) [OF wf(1) that] vpn_less, of va l'] by auto
  qed
  then show "own root = Some (2, 0) \<Longrightarrow> virtToEntry (pmem s1) root va = virtToEntry (pmem s) root va"
    unfolding virtToEntry_def by (intro walk_frame [OF wf(1) same]) auto
qed

text \<open>The pages whose contents a page \<open>q\<close> in state \<open>s'\<close> repeats.\<close>

definition same_page :: "memory \<Rightarrow> u64 \<Rightarrow> memory \<Rightarrow> u64 \<Rightarrow> bool" where
  "same_page m p m' q \<longleftrightarrow> (\<forall>k. unat k < 4096 \<longrightarrow> m' (q + k) = m (p + k))"

lemma page_offset: fixes p k :: u64 shows "unat p mod 4096 = 0 \<Longrightarrow> unat k < 4096 \<Longrightarrow> unat (p + k) = unat p + unat k"
proof -
  assume a: "unat p mod 4096 = 0" "unat k < 4096"
  obtain j where j: "unat p = 4096 * j" using a(1) by (auto simp: mod_eq_0_iff_dvd)
  have "unat p < 18446744073709551616" using unsigned_less [of p] by simp
  then have "j < 4503599627370496" unfolding j by linarith
  then have "unat p + unat k < 18446744073709551616" using a(2) unfolding j by linarith
  then have "unat p + unat k < 2 ^ 64" by simp
  then show ?thesis by (rule unat_add_64)
qed

lemma page_offset_bytes: "unat p mod 4096 = 0 \<Longrightarrow> unat k < 4096 \<Longrightarrow> unat (p + k) \<in> bytes p PAGE_SIZE"
  using page_offset [of p k] by (simp add: bytes_def PAGE_SIZE_def)

text \<open>A private copy: a page taken from the free pages, with the contents of the page at \<open>phy\<close>.\<close>

definition private_copy :: "'a MSpace_scheme \<Rightarrow> chunk list \<Rightarrow> u64 \<Rightarrow> 'a MSpace_scheme \<Rightarrow> chunk list \<Rightarrow> u64 \<Rightarrow> bool" where
  "private_copy s xs phy s1 ys n \<longleftrightarrow> page_free s1 ys \<and> covered xs = bytes n PAGE_SIZE \<union> covered ys \<and> bytes n PAGE_SIZE \<inter> covered ys = {}
     \<and> (\<forall>b. unat b \<notin> covered xs \<longrightarrow> pmem s1 b = pmem s b) \<and> same_page (pmem s) phy (pmem s1) n
     \<and> unat n mod 4096 = 0 \<and> unat n < 2 ^ 56 \<and> n \<noteq> 0 \<and> ref_count s1 = ref_count s \<and> zero_page s1 = zero_page s"

lemma copy_zero_page:
  assumes "page_free s xs" "covered xs \<subseteq> {..<2 ^ 56}" "xs \<noteq> []"
    and z: "unat phy mod 4096 = 0" "\<And>b. unat b \<in> bytes phy PAGE_SIZE \<Longrightarrow> pmem s b = 0"
  shows "\<exists>n s1 ys. zallocPage tr s = Some (n, s1) \<and> private_copy s xs phy s1 ys n"
proof -
  obtain n t zs where xs: "xs = (n, t) # zs" using assms(3) by (cases xs) auto
  from zallocPage_head [OF assms(1) [unfolded xs], of tr, folded xs] obtain al' m' ys where
    a: "zallocPage tr s = Some (n, s\<lparr>page_allocator := al', pmem := m'\<rparr>)" "page_free (s\<lparr>page_allocator := al', pmem := m'\<rparr>) ys"
      "covered xs = bytes n PAGE_SIZE \<union> covered ys" "bytes n PAGE_SIZE \<inter> covered ys = {}"
      "\<forall>b. unat b \<in> bytes n PAGE_SIZE \<longrightarrow> m' b = 0" "\<forall>b. unat b \<notin> covered xs \<longrightarrow> m' b = pmem s b"
      "chunk_ok 4096 (n, PAGE_SIZE)" "n \<noteq> 0"
    by blast
  have n: "unat n mod 4096 = 0" "unat n < 2 ^ 56" using page_of_chunk [OF a(7)] a(3) assms(2) by auto
  have "same_page (pmem s) phy m' n"
    using a(5) z page_offset_bytes [OF n(1)] page_offset_bytes [OF z(1)] by (auto simp: same_page_def)
  then show ?thesis using a n by (auto simp: private_copy_def)
qed

lemma copy_shared_page:
  assumes "page_free s xs" "covered xs \<subseteq> {..<2 ^ 56}" "xs \<noteq> []"
    and p: "unat phy mod 4096 = 0" "unat phy < 2 ^ 56" "bytes phy PAGE_SIZE \<inter> covered xs = {}"
  shows "\<exists>n s1 ys. allocPage tr s = Some (n, s1) \<and> n \<noteq> 0 \<and> private_copy s xs phy (s1\<lparr>pmem := fst (memcpy (pmem s1) n phy PAGE_SIZE)\<rparr>) ys n"
proof -
  obtain n t zs where xs: "xs = (n, t) # zs" using assms(3) by (cases xs) auto
  from allocPage_head [OF assms(1) [unfolded xs], of tr, folded xs] obtain al' m' ys where
    a: "allocPages tr 1 s = Some (\<lparr>pa_ptr = n, pa_size = 1\<rparr>, s\<lparr>page_allocator := al', pmem := m'\<rparr>)" "page_free (s\<lparr>page_allocator := al', pmem := m'\<rparr>) ys"
      "covered xs = bytes n PAGE_SIZE \<union> covered ys" "bytes n PAGE_SIZE \<inter> covered ys = {}"
      "\<forall>b. unat b \<notin> covered xs \<longrightarrow> m' b = pmem s b" "chunk_ok 4096 (n, PAGE_SIZE)" "n \<noteq> 0"
    by blast
  have n: "unat n mod 4096 = 0" "unat n < 2 ^ 56" using page_of_chunk [OF a(6)] a(3) assms(2) by auto
  let ?m = "fst (memcpy m' n phy PAGE_SIZE)"
  have cp: "?m b = (if unat b \<in> bytes n PAGE_SIZE then m' (phy + (b - n)) else m' b)" for b
    using memmove_spec [of n PAGE_SIZE phy m'] n p in_region_page [OF a(6)] by (simp add: memcpy_def copied_def PAGE_SIZE_def)
  have out: "\<forall>b. unat b \<notin> covered xs \<longrightarrow> ?m b = pmem s b" using cp a(3,5) by simp
  have "page_free (s\<lparr>page_allocator := al', pmem := ?m\<rparr>) ys"
    using cp a(4) by (intro page_free_writes [OF a(2), of "bytes n PAGE_SIZE"]) (auto simp: page_writes_def)
  moreover have "same_page (pmem s) phy ?m n"
    unfolding same_page_def
  proof (intro allI impI)
    fix k :: u64 assume k: "unat k < 4096"
    have "unat (phy + k) \<notin> covered xs" using page_offset_bytes [OF p(1) k] p(3) by blast
    then show "?m (n + k) = pmem s (phy + k)" using cp page_offset_bytes [OF n(1) k] a(5) by simp
  qed
  ultimately show ?thesis using a n out by (auto simp: private_copy_def allocPage_def)
qed

lemma copied_entry:
  assumes st: "pt_state s own xs" and e: "own p = Some (l, pre)" "unat i < 512" "e = entry_addr p i" "own root = Some (2, 0)"
    and v: "pte_v (get64 s e)" "pte_leaf (get64 s e)" and pc: "private_copy s xs phy s1 ys n"
    and v': "pte_bits v = cow_bits (pte_bits (get64 s e))" "pte_page v = n"
  shows "pt_state (put64 s1 e v) own ys \<and> get64 (put64 s1 e v) e = v \<and> same_page (pmem s) phy (pmem (put64 s1 e v)) n
    \<and> (\<forall>va. virtToEntry (pmem (put64 s1 e v)) root va = virtToEntry (pmem s) root va)
    \<and> (\<forall>b. unat b \<notin> covered xs \<union> bytes p PAGE_SIZE \<longrightarrow> pmem (put64 s1 e v) b = pmem s b)"
proof -
  have pc': "page_free s1 ys" "covered xs = bytes n PAGE_SIZE \<union> covered ys" "\<forall>b. unat b \<notin> covered xs \<longrightarrow> pmem s1 b = pmem s b"
    "same_page (pmem s) phy (pmem s1) n" "unat n mod 4096 = 0"
    using pc by (auto simp: private_copy_def)
  note fr = pt_state_fresh [OF st pc'(1-3)]
  have v1: "pte_v (get64 s1 e)" "pte_leaf (get64 s1 e)" using fr(2) [OF e(1,2)] v e(3) by simp_all
  note en = entry_rewritten [OF fr(1) e(1-3) v1 cow_bits_entry(1,2) [OF v(1) v'(1)]]
  have "bytes p PAGE_SIZE \<inter> covered xs = {}" using st e(1) by (auto simp: pt_state_def)
  then have "unat (n + k) \<notin> bytes p PAGE_SIZE" if "unat k < 4096" for k
    using page_offset_bytes [OF pc'(5) that] pc'(2) by blast
  then have "same_page (pmem s) phy (pmem (put64 s1 e v)) n" using pc'(4) en(4) by (simp add: same_page_def)
  then show ?thesis using en fr(3) [OF e(4)] pc'(3) e(4) by simp
qed

lemma same_page_refl:
  "unat p mod 4096 = 0 \<Longrightarrow> (\<And>b. unat b \<in> bytes p PAGE_SIZE \<Longrightarrow> m' b = m b) \<Longrightarrow> same_page m p m' p"
  using page_offset_bytes by (simp add: same_page_def)

text \<open>The situation of a write fault: page \<open>phy\<close> is mapped copy-on-write by the entry \<open>e\<close> of address \<open>va\<close>.\<close>

definition cow_fault :: "'a MSpace_scheme \<Rightarrow> owner \<Rightarrow> chunk list \<Rightarrow> u64 \<Rightarrow> (u64 \<Rightarrow> nat) \<Rightarrow> u64 \<Rightarrow> u64 \<Rightarrow> u64 \<Rightarrow> bool" where
  "cow_fault s own xs root f va e phy \<longleftrightarrow> pt_state s own xs \<and> own root = Some (2, 0) \<and> pr_rel (ref_count s) f
     \<and> virtToEntry (pmem s) root va = Some (Some e) \<and> entry_has s e PAGE_ENTRY_COPY
     \<and> phy = pte_page (get64 s e) \<and> bytes phy PAGE_SIZE \<inter> covered xs = {} \<and> (\<forall>p\<in>dom own. bytes phy PAGE_SIZE \<inter> bytes p PAGE_SIZE = {})
     \<and> (\<forall>b. unat b \<in> bytes (zero_page s) PAGE_SIZE \<longrightarrow> pmem s b = 0)
     \<and> (xs = [] \<longrightarrow> phy \<noteq> zero_page s \<and> f phy < 2)"

lemma cow_faultD:
  assumes "cow_fault s own xs root f va e phy"
  shows "pt_state s own xs" "own root = Some (2, 0)" "pr_rel (ref_count s) f" "pt_wf (pmem s) own" "page_free s xs" "covered xs \<subseteq> {..<2 ^ 56}"
    "virtToEntry (pmem s) root va = Some (Some e)" "entry_has s e PAGE_ENTRY_COPY" "pte_v (get64 s e)" "pte_leaf (get64 s e)"
    "unat phy mod 4096 = 0" "unat phy < 2 ^ 56" "phy = pte_page (get64 s e)" "bytes phy PAGE_SIZE \<inter> covered xs = {}"
    "xs = [] \<longrightarrow> phy \<noteq> zero_page s \<and> f phy < 2" "unat b \<in> bytes (zero_page s) PAGE_SIZE \<Longrightarrow> pmem s b = 0"
  using assms walk_result_leaf [of "pmem s" va 2 root e] page_wordD [of "get64 s e"]
  by (auto simp: cow_fault_def pt_state_def get64_def virtToEntry_def)

lemma cow_fault_entry:
  assumes "cow_fault s own xs root f va e phy"
  obtains p l pre i where "own p = Some (l, pre)" "unat i < 512" "e = entry_addr p i"
  using walk_result [of "pmem s" own root 2 va e] cow_faultD [OF assms] by (auto simp: virtToEntry_def)

lemma handlePageFault_run:
  assumes cf: "cow_fault s own xs root f va e phy"
  shows "\<exists>s1 v ys n. handlePageFault tr root va s = Some (True, put64 s1 e v)
    \<and> pte_bits v = cow_bits (pte_bits (get64 s e)) \<and> pte_page v = n
    \<and> (if phy = zero_page s \<or> 2 \<le> f phy then private_copy s xs phy s1 ys n else s1 = s \<and> ys = xs \<and> n = phy)"
proof -
  note d = cow_faultD [OF cf] and cb = cow_bits_run [of "get64 s e"]
  note ent = entry_set_bits_def entry_clear_bits_def get64_put64_same put64_put64
  obtain p l pre i where p: "own p = Some (l, pre)" "unat i < 512" "e = entry_addr p i" by (rule cow_fault_entry [OF cf])
  have ge1: "get64 s1 e = get64 s e" if "private_copy s xs phy s1 ys n" for s1 ys n
    using pt_state_fresh(2) [OF d(1), of s1 ys n p _ i] that p by (auto simp: private_copy_def)
  let ?b = "pte_bits (get64 s e) OR PAGE_ENTRY_WRITE"
  have ho: "hasOtherReferences (zero_page s) (ref_count s) phy = Some (2 \<le> f phy)" if "phy \<noteq> zero_page s"
    using hasOtherReferences_spec [OF d(3)] that by simp
  consider "phy = zero_page s" | "phy \<noteq> zero_page s" "2 \<le> f phy" | "phy \<noteq> zero_page s" "\<not> 2 \<le> f phy" by blast
  then show ?thesis
  proof cases
    case 1
    then obtain n s1 ys where a: "zallocPage tr s = Some (n, s1)" "private_copy s xs phy s1 ys n"
      using copy_zero_page [OF d(5,6) _ d(11), of tr] d(15,16) by auto
    then have n: "n \<noteq> 0" "push_bit 12 (take_bit 44 (drop_bit 12 n)) = n" by (auto simp: private_copy_def pte_page_paddr)
    have "handlePageFault tr root va s = Some (True, put64 s1 e (set_pte_paddr
        (set_pte_bits (set_pte_bits (get64 s e) ?b) (take_bit 10 ?b AND NOT PAGE_ENTRY_COPY)) (drop_bit 12 n)))"
      using d(7-10,13) 1 n(1) by (simp add: handlePageFault_def a(1) ent ge1 [OF a(2)] Let_def)
    then show ?thesis using 1 cb a(2) n(2) by (intro exI conjI) (auto simp: pte_page_def)
  next
    case 2
    then obtain n s0 ys where a: "allocPage tr s = Some (n, s0)" "n \<noteq> 0"
      "private_copy s xs phy (s0\<lparr>pmem := fst (memcpy (pmem s0) n phy PAGE_SIZE)\<rparr>) ys n"
      using copy_shared_page [OF d(5,6) _ d(11,12,14), of tr] d(15) by auto
    then have n: "push_bit 12 (take_bit 44 (drop_bit 12 n)) = n" by (auto simp: private_copy_def pte_page_paddr)
    have "handlePageFault tr root va s = Some (True, put64 (s0\<lparr>pmem := fst (memcpy (pmem s0) n phy PAGE_SIZE)\<rparr>) e
        (set_pte_bits (set_pte_bits (set_pte_paddr (get64 s e) (drop_bit 12 n)) ?b) (take_bit 10 ?b AND NOT PAGE_ENTRY_COPY)))"
      using d(7-10) 2 a(2) ho by (simp add: handlePageFault_def a(1) ent ge1 [OF a(3)] d(13) [symmetric] Let_def)
    then show ?thesis using 2 cb a(3) n by (intro exI conjI) (auto simp: pte_page_def)
  next
    case 3
    let ?v = "set_pte_bits (set_pte_bits (get64 s e) ?b) (take_bit 10 ?b AND NOT PAGE_ENTRY_COPY)"
    have "handlePageFault tr root va s = Some (True, put64 s e ?v)"
      using 3 d(7-10) ho by (simp add: handlePageFault_def ent d(13) [symmetric] Let_def)
    moreover have "pte_bits ?v = cow_bits (pte_bits (get64 s e))" "pte_page ?v = phy" using cb d(13) by simp_all
    ultimately show ?thesis using 3 by (intro exI [of _ s] exI [of _ ?v] exI [of _ xs] exI [of _ phy]) auto
  qed
qed

definition cow_result :: "'a MSpace_scheme \<Rightarrow> owner \<Rightarrow> chunk list \<Rightarrow> u64 \<Rightarrow> u64 \<Rightarrow> 'a MSpace_scheme \<Rightarrow> chunk list \<Rightarrow> bool" where
  "cow_result s own xs root e s' ys \<longleftrightarrow> pt_state s' own ys
    \<and> pte_bits (get64 s' e) = (pte_bits (get64 s e) OR PAGE_ENTRY_WRITE) AND NOT PAGE_ENTRY_COPY
    \<and> same_page (pmem s) (pte_page (get64 s e)) (pmem s') (pte_page (get64 s' e))
    \<and> (\<forall>va. virtToEntry (pmem s') root va = virtToEntry (pmem s) root va)
    \<and> (\<exists>p\<in>dom own. \<forall>b. unat b \<notin> covered xs \<union> bytes p PAGE_SIZE \<longrightarrow> pmem s' b = pmem s b) \<and> ref_count s' = ref_count s"

lemma handlePageFault_result:
  assumes cf: "cow_fault s own xs root f va e phy"
  shows "\<exists>s' ys. handlePageFault tr root va s = Some (True, s') \<and> cow_result s own xs root e s' ys
    \<and> (if phy = zero_page s \<or> 2 \<le> f phy then bytes (pte_page (get64 s' e)) PAGE_SIZE \<subseteq> covered xs - covered ys
       else pte_page (get64 s' e) = phy \<and> ys = xs)"
proof -
  note d = cow_faultD [OF cf]
  obtain p l pre i where p: "own p = Some (l, pre)" "unat i < 512" "e = entry_addr p i" by (rule cow_fault_entry [OF cf])
  from handlePageFault_run [OF cf, of tr] obtain s1 v ys n where r: "handlePageFault tr root va s = Some (True, put64 s1 e v)"
    "pte_bits v = cow_bits (pte_bits (get64 s e))" "pte_page v = n"
    "if phy = zero_page s \<or> 2 \<le> f phy then private_copy s xs phy s1 ys n else s1 = s \<and> ys = xs \<and> n = phy"
    by blast
  show ?thesis
  proof (cases "phy = zero_page s \<or> 2 \<le> f phy")
    case True
    then have pc: "private_copy s xs phy s1 ys n" using r(4) by simp
    then have "ref_count s1 = ref_count s" "bytes n PAGE_SIZE \<subseteq> covered xs - covered ys" by (auto simp: private_copy_def)
    then show ?thesis
      using r(1-3) copied_entry [OF d(1) p d(2,9,10) pc r(2,3)] True p(1) d(13)
      by (intro exI [of _ "put64 s1 e v"] exI [of _ ys]) (auto simp: cow_result_def cow_bits_def put64_def)
  next
    case False
    then have s1: "s1 = s" "n = phy" using r(4) by auto
    note en = entry_rewritten [OF d(1) p d(9,10) cow_bits_entry(1,2) [OF d(9) r(2)]]
    have "bytes phy PAGE_SIZE \<inter> bytes p PAGE_SIZE = {}" using cf p(1) by (auto simp: cow_fault_def)
    then have "unat b \<notin> bytes p PAGE_SIZE" if "unat b \<in> bytes phy PAGE_SIZE" for b :: u64 using that by blast
    then have "same_page (pmem s) phy (pmem (put64 s e v)) phy" using en(4) by (intro same_page_refl [OF d(11)]) blast
    then show ?thesis
      using r(1-3) s1 en(1) en(2) en(3) [OF d(2)] en(4) False p(1) d(13)
      by (intro exI [of _ "put64 s e v"] exI [of _ xs]) (auto simp: cow_result_def cow_bits_def put64_def)
  qed
qed


text \<open>Witness: an address space with one page mapped copy-on-write and not shared.\<close>

definition example_space :: MSpace where
  "example_space = put64 (PageMem.extend example_heap (MSpace.fields empty_table)) 0x80010000 0x20000113"

lemma example_space_fields:
  "ref_count example_space = empty_table" "zero_page example_space = 0" "get64 example_space 0x80010000 = 0x20000113"
  "pmem example_space = store64 (pmem example_heap) 0x80010000 0x20000113"
  by (simp_all add: example_space_def put64_def get64_def load64_store64_same PageMem.defs MSpace.defs example_heap_def)

lemma example_pte: "pte_v 0x20000113" "pte_leaf 0x20000113" "pte_page 0x20000113 = 0x80000000"
  "pte_bits 0x20000113 AND PAGE_ENTRY_COPY \<noteq> 0" "pte_bits 0x20000113 AND PAGE_ENTRY_WRITE = 0"
  by (simp_all add: pte_v_def pte_leaf_def pte_page_def pte_paddr_def pte_bits_def PAGE_ENTRY_RWX_def PAGE_ENTRY_READ_def
      PAGE_ENTRY_WRITE_def PAGE_ENTRY_EXEC_def PAGE_ENTRY_COPY_def)

lemma store64_below: "unat b < unat a \<Longrightarrow> aligned8 a \<Longrightarrow> store64 m a v b = m b"
  by (rule store64_outside) (use aligned8_unat_offset [of a] in fastforce)

lemma example_space_state: "pt_state example_space [0x80010000 \<mapsto> (2, 0)] [(0x80001000, 0x3000)]"
proof -
  let ?own = "[0x80010000 \<mapsto> (2, 0)] :: owner" and ?xs = "[(0x80001000, 0x3000)] :: chunk list"
  have e: "entry_addr 0x80010000 0 = 0x80010000" by (simp add: entry_addr_def)
  note st = example_tables [unfolded pt_state_def, THEN conjunct2, THEN conjunct1]
    example_tables [unfolded pt_state_def, THEN conjunct2, THEN conjunct2, THEN conjunct2]
    example_tables [unfolded pt_state_def, THEN conjunct2, THEN conjunct2, THEN conjunct1]
  have "pt_wf (pmem example_space) ?own"
    unfolding example_space_fields(4) by (rule pt_wf_leaf(1) [OF st(1), of "0x80010000" 2 0 0, unfolded e, OF _ _ example_pte(2)]) simp_all
  moreover have "page_free (PageMem.extend example_heap (MSpace.fields empty_table)) ?xs"
    using example_heap_free by (simp add: page_free_def PageMem.defs)
  then have "page_free example_space ?xs"
    unfolding example_space_def by (rule page_free_entry [of _ _ "0x80010000" 0, unfolded e]) (use st(3) in simp_all)
  ultimately show ?thesis unfolding pt_state_def by (intro conjI st(2,3))
qed

lemma example_space_walk: "virtToEntry (pmem example_space) 0x80010000 0x123 = Some (Some 0x80010000)"
proof -
  have e: "entry_addr 0x80010000 (vpn 0x123 2) = 0x80010000" by (simp add: entry_addr_def vpn_def)
  show ?thesis
    using walk_leaf [of "0x80010000" "pmem example_space" "0x123" 2, unfolded e] example_space_fields(3) example_pte
    by (simp add: virtToEntry_def get64_def)
qed

lemma example_space_fault: "cow_fault example_space [0x80010000 \<mapsto> (2, 0)] [(0x80001000, 0x3000)] 0x80010000 (\<lambda>_. 0) 0x123 0x80010000 0x80000000"
proof -
  have "pmem example_space b = 0" if "unat b \<in> bytes 0 PAGE_SIZE" for b
  proof -
    have "unat b < 4096" using that by (simp add: bytes_def PAGE_SIZE_def)
    then show ?thesis unfolding example_space_fields by (simp add: example_heap_def store64_below aligned8_def)
  qed
  moreover have "bytes 0x80000000 PAGE_SIZE \<inter> covered [(0x80001000, 0x3000)] = {}" "bytes 0x80000000 PAGE_SIZE \<inter> bytes 0x80010000 PAGE_SIZE = {}"
    by (auto simp: bytes_def PAGE_SIZE_def)
  moreover have "entry_has example_space 0x80010000 PAGE_ENTRY_COPY" using example_pte(4) by (simp add: entry_has_def example_space_fields)
  ultimately show ?thesis
    using example_space_state example_space_walk empty_table_rel unfolding cow_fault_def example_space_fields example_pte by simp
qed


subsection \<open>Translation of addresses for writing\<close>

lemma unsafe_walk:
  assumes wf: "pt_wf m own" and p: "own p = Some (l, va_prefix va l)" "l \<le> 2" "virtToEntry_walk m va l p = Some (Some (entry_addr q i))"
    and q: "own q = Some (k, pre)" "unat i < 512"
  shows "unsafeVirtToPhys_walk m va l p =
    Some ((pte_page (load64 m (entry_addr q i)) AND NOT (level_size k - 1)) OR (va AND (level_size k - 1)))"
  using p
proof (induction l arbitrary: p)
  case (Suc l)
  note wp = pt_wfD [OF wf Suc.prems(1)]
  let ?c = "load64 m (entry_addr p (vpn va (Suc l)))"
  consider "\<not> pte_v ?c" | "pte_v ?c" "pte_leaf ?c" | "pte_v ?c" "\<not> pte_leaf ?c" by blast
  then show ?case
  proof cases
    case 1
    then show ?thesis using Suc.prems(3) wp(3) by (simp add: walk_invalid)
  next
    case 2
    then have "entry_addr q i = entry_addr p (vpn va (Suc l))" using Suc.prems(3) wp(3) walk_leaf [of p m va "Suc l"] by simp
    then have "q = p \<and> i = vpn va (Suc l)" using entry_addr_inj [OF pt_wfD(2) [OF wf q(1)] wp(2) q(2) vpn_less] by simp
    then show ?thesis using 2 q(1) Suc.prems(1) by (simp add: unsafeVirtToPhys_walk.simps [of _ _ "Suc l"] level_size_def Let_def)
  next
    case 3
    then have "own (pte_page ?c) = Some (l, va_prefix va l)"
      using wp(4) [of "vpn va (Suc l)"] Suc.prems(2) by (simp add: va_prefix_less)
    then show ?thesis using Suc.IH [of "pte_page ?c"] Suc.prems(2,3) 3 wp(3) walk_branch [of p m va l]
      by (simp add: unsafeVirtToPhys_walk.simps [of _ _ "Suc l"] Let_def)
  qed
next
  case 0
  note wp = pt_wfD [OF wf 0(1)]
  let ?c = "load64 m (entry_addr p (vpn va 0))"
  have c: "pte_v ?c" "pte_leaf ?c" "entry_addr q i = entry_addr p (vpn va 0)"
    using 0(3) wp(3) by (auto simp: virtToEntry_walk.simps [of _ _ 0] Let_def split: if_splits)
  then have "q = p \<and> i = vpn va 0" using entry_addr_inj [OF pt_wfD(2) [OF wf q(1)] wp(2) q(2) vpn_less] by simp
  then show ?case using c q(1) 0(1) by (simp add: unsafeVirtToPhys_walk.simps [of _ _ 0] level_size_def Let_def)
qed

text \<open>
  Property C6 (virtToPhys_cow_offset). When \<open>virtToPhys\<close> translates an address for writing and the
  page is mapped copy-on-write, it resolves the fault but returns the start of the new page: the
  offset of the address in the page is lost. Asked again in the resulting state, it returns the
  address with its offset.
\<close>

theorem virtToPhys_cow_offset:
  assumes "pt_state s own xs" "own root = Some (2, 0)" "pr_rel (ref_count s) f"
    and "virtToEntry (pmem s) root va = Some (Some (entry_addr q i))" "own q = Some (k, pre)" "unat i < 512"
    and "entry_has s (entry_addr q i) PAGE_ENTRY_COPY" "\<not> entry_has s (entry_addr q i) PAGE_ENTRY_WRITE"
    and "phy = pte_page (get64 s (entry_addr q i))" "bytes phy PAGE_SIZE \<inter> covered xs = {}" "\<forall>p\<in>dom own. bytes phy PAGE_SIZE \<inter> bytes p PAGE_SIZE = {}"
    and "\<forall>b. unat b \<in> bytes (zero_page s) PAGE_SIZE \<longrightarrow> pmem s b = 0"
    and "xs = [] \<longrightarrow> phy \<noteq> zero_page s \<and> f phy < 2"
  shows "\<exists>s'. let page = pte_page (get64 s' (entry_addr q i)) in
      virtToPhys tr root va True allow_all s = Some (page, s')
      \<and> virtToPhys tr root va True allow_all s' = Some ((page AND NOT (level_size k - 1)) OR (va AND (level_size k - 1)), s')"
proof -
  let ?e = "entry_addr q i"
  have cf: "cow_fault s own xs root f va ?e phy" using assms by (simp add: cow_fault_def)
  from handlePageFault_result [OF cf, of tr] obtain s' ys where
    r: "handlePageFault tr root va s = Some (True, s')" "cow_result s own xs root ?e s' ys" by blast
  have root: "root \<noteq> 0" using pt_wfD(3) [of "pmem s" own root] assms(1,2) by (auto simp: pt_state_def)
  have one: "virtToPhys tr root va True allow_all s = Some (pte_page (get64 s' ?e), s')"
    using root assms(4,7,8) r(1) by (simp add: virtToPhys_def pte_page_def)
  have s': "pt_wf (pmem s') own" "virtToEntry (pmem s') root va = Some (Some ?e)" "pte_bits (get64 s' ?e) = cow_bits (pte_bits (get64 s ?e))"
    using r(2) assms(4) by (auto simp: cow_result_def pt_state_def cow_bits_def)
  have "entry_has s' ?e PAGE_ENTRY_WRITE"
    unfolding entry_has_def using cow_bits_entry(3) [OF cow_faultD(9) [OF cf] s'(3)] .
  moreover have "unsafeVirtToPhys (pmem s') root va = Some ((pte_page (get64 s' ?e) AND NOT (level_size k - 1)) OR (va AND (level_size k - 1)))"
    using unsafe_walk [OF s'(1), of root 2 va q i k pre] assms(2,5,6) s'(2) by (simp add: unsafeVirtToPhys_def virtToEntry_def get64_def)
  ultimately have "virtToPhys tr root va True allow_all s' = Some ((pte_page (get64 s' ?e) AND NOT (level_size k - 1)) OR (va AND (level_size k - 1)), s')"
    using root s'(2) by (simp add: virtToPhys_def)
  then show ?thesis using one by (intro exI [of _ s']) (simp add: Let_def)
qed

text \<open>Witness: byte 0x123 of the page at 0x80000000 is translated to 0x80000000.\<close>

theorem virtToPhys_cow_offset_witness:
  "\<exists>s' page. virtToPhys (\<lambda>_ s. Some (False, s)) 0x80010000 0x123 True False example_space = Some (page, s')
     \<and> virtToPhys (\<lambda>_ s. Some (False, s)) 0x80010000 0x123 True False s' = Some ((page AND NOT 0x3FFFFFFF) OR 0x123, s')"
proof -
  have e: "entry_addr 0x80010000 0 = 0x80010000" by (simp add: entry_addr_def)
  have w: "\<not> entry_has example_space 0x80010000 PAGE_ENTRY_WRITE" using example_pte(5) by (simp add: entry_has_def example_space_fields)
  have l: "level_size 2 = 0x40000000" by (simp add: level_size_def PAGE_SIZE_def push_bit_eq_mult)
  note cf = example_space_fault [unfolded cow_fault_def example_space_fields(2)]
  show ?thesis
    using virtToPhys_cow_offset [of example_space "[0x80010000 \<mapsto> (2, 0)]" "[(0x80001000, 0x3000)]" "0x80010000" "\<lambda>_. 0"
      "0x123" "0x80010000" 0 2 0 "0x80000000" "\<lambda>_ s. Some (False, s)" False] cf w
    unfolding e l example_space_fields(2) by (auto simp: Let_def)
qed

subsection \<open>Sharing and dropping pages\<close>

definition shared_pte :: "u64 \<Rightarrow> u64" where
  "shared_pte e = (if pte_bits e AND PAGE_ENTRY_WRITE = 0 then e
     else set_pte_bits (set_pte_bits e (pte_bits e OR PAGE_ENTRY_COPY)) (take_bit 10 (pte_bits e OR PAGE_ENTRY_COPY) AND NOT PAGE_ENTRY_WRITE))"

lemma shared_pte:
  "pte_page (shared_pte e) = pte_page e" "pte_bits (shared_pte e) AND PAGE_ENTRY_WRITE = 0"
  "pte_bits e AND PAGE_ENTRY_WRITE \<noteq> 0 \<Longrightarrow> pte_bits (shared_pte e) AND PAGE_ENTRY_COPY \<noteq> 0"
  "pte_bits (shared_pte e) AND PAGE_ENTRY_GLOBAL = 0 \<longleftrightarrow> pte_bits e AND PAGE_ENTRY_GLOBAL = 0"
proof -
  have g: "bit PAGE_ENTRY_GLOBAL n \<longleftrightarrow> n = 5" for n
  proof -
    have e: "PAGE_ENTRY_GLOBAL = push_bit 5 1" by (simp add: push_bit_eq_mult PAGE_ENTRY_GLOBAL_def)
    show ?thesis unfolding e by (simp only: bit_push_bit_iff bit_1_iff possible_bit_word) auto
  qed
  let ?b = "take_bit 10 (take_bit 10 (pte_bits e OR PAGE_ENTRY_COPY) AND NOT PAGE_ENTRY_WRITE)"
  have b: "pte_bits (shared_pte e) = ?b" if "pte_bits e AND PAGE_ENTRY_WRITE \<noteq> 0" using that by (simp add: shared_pte_def)
  show "pte_page (shared_pte e) = pte_page e" by (simp add: shared_pte_def)
  have "?b AND PAGE_ENTRY_WRITE = 0" by (rule bit_word_eqI) (auto simp: bit_simps)
  then show "pte_bits (shared_pte e) AND PAGE_ENTRY_WRITE = 0" using b by (cases "pte_bits e AND PAGE_ENTRY_WRITE = 0") (auto simp: shared_pte_def)
  have "bit (?b AND PAGE_ENTRY_COPY) 8" by (simp add: bit_simps bit_page_flags)
  then show "pte_bits e AND PAGE_ENTRY_WRITE \<noteq> 0 \<Longrightarrow> pte_bits (shared_pte e) AND PAGE_ENTRY_COPY \<noteq> 0" unfolding b by auto
  have "?b AND PAGE_ENTRY_GLOBAL = pte_bits e AND PAGE_ENTRY_GLOBAL"
    by (rule bit_word_eqI) (auto simp: bit_simps bit_page_flags g pte_bits_def)
  then show "pte_bits (shared_pte e) AND PAGE_ENTRY_GLOBAL = 0 \<longleftrightarrow> pte_bits e AND PAGE_ENTRY_GLOBAL = 0"
    using b by (cases "pte_bits e AND PAGE_ENTRY_WRITE = 0") (auto simp: shared_pte_def)
qed

lemma copyMemoryPageEntry_run:
  assumes "aligned8 src" "aligned8 dst" "src \<noteq> dst" "get64 s dst = get64 s src" "addReferenceFor (ref_count s) (pte_page (get64 s src)) = Some t"
    and "\<not> entry_has s src PAGE_ENTRY_GLOBAL" "pte_page (get64 s src) \<noteq> zero_page s"
  shows "\<exists>s1. copyMemoryPageEntry dst src s = Some (True, s1) \<and> get64 s1 src = shared_pte (get64 s src) \<and> get64 s1 dst = shared_pte (get64 s src)
    \<and> ref_count s1 = t \<and> zero_page s1 = zero_page s"
proof (cases "entry_has s src PAGE_ENTRY_WRITE")
  case True
  let ?v = "shared_pte (get64 s src)" and ?s = "s\<lparr>ref_count := t\<rparr>"
  have g: "get64 ?s a = get64 s a" for a by (simp add: get64_def)
  have v: "?v = set_pte_bits (set_pte_bits (get64 s src) (pte_bits (get64 s src) OR PAGE_ENTRY_COPY))
      (take_bit 10 (pte_bits (get64 s src) OR PAGE_ENTRY_COPY) AND NOT PAGE_ENTRY_WRITE)"
    using True by (simp add: shared_pte_def entry_has_def)
  have "copyMemoryPageEntry dst src s = Some (True, put64 (put64 ?s src ?v) dst ?v)"
    using assms True g v by (simp add: copyMemoryPageEntry_def Let_def entry_has_def entry_set_bits_def entry_clear_bits_def get64_put64 put64_put64)
  moreover have "ref_count (put64 (put64 ?s src ?v) dst ?v) = t" "zero_page (put64 (put64 ?s src ?v) dst ?v) = zero_page s"
    by (simp_all add: put64_def)
  ultimately show ?thesis using assms(1-3) by (intro exI [of _ "put64 (put64 ?s src ?v) dst ?v"]) (simp add: get64_put64)
next
  case False
  then show ?thesis using assms by (intro exI [of _ "s\<lparr>ref_count := t\<rparr>"]) (simp add: copyMemoryPageEntry_def entry_has_def shared_pte_def get64_def)
qed

text \<open>
  Property C7 (share_and_drop). Copying a page entry for a new address space leaves both entries
  pointing to the page, neither writable, both copy-on-write if the page was writable before, and
  counts one more reference. Dropping one of the two entries afterwards releases no page and
  changes no memory; the reference counts are those from before the copy.
\<close>

theorem share_and_drop:
  assumes "aligned8 src" "aligned8 dst" "src \<noteq> dst" "get64 s dst = get64 s src" "pr_rel (ref_count s) f"
    and "\<not> entry_has s src PAGE_ENTRY_GLOBAL" "phy = pte_page (get64 s src)" "phy \<noteq> zero_page s"
  shows "\<exists>s1 s2. copyMemoryPageEntry dst src s = Some (True, s1)
    \<and> pte_page (get64 s1 src) = phy \<and> get64 s1 dst = get64 s1 src \<and> \<not> entry_has s1 src PAGE_ENTRY_WRITE
    \<and> (entry_has s src PAGE_ENTRY_WRITE \<longrightarrow> entry_has s1 src PAGE_ENTRY_COPY)
    \<and> pr_rel (ref_count s1) (f(phy := if f phy = 0 then 2 else f phy + 1))
    \<and> freePageEntryData hs he dst s1 = Some s2 \<and> pmem s2 = pmem s1 \<and> page_allocator s2 = page_allocator s1
    \<and> pr_rel (ref_count s2) f"
proof -
  have two: "f phy = 0 \<or> 2 \<le> f phy" using pr_rel_two [OF assms(5)] by blast
  from addReferenceFor_spec [OF assms(5), of phy] obtain t where
    t: "addReferenceFor (ref_count s) phy = Some t" "pr_rel t (f(phy := if f phy = 0 then 2 else f phy + 1))" by blast
  from copyMemoryPageEntry_run [OF assms(1-4) _ assms(6), of t] t(1) assms(7,8) obtain s1 where
    s1: "copyMemoryPageEntry dst src s = Some (True, s1)" "get64 s1 src = shared_pte (get64 s src)" "get64 s1 dst = shared_pte (get64 s src)"
      "ref_count s1 = t" "zero_page s1 = zero_page s" by auto
  let ?f = "f(phy := if f phy = 0 then 2 else f phy + 1)"
  from removeReferenceFor_spec [OF t(2), of phy] obtain t' where
    t': "removeReferenceFor t phy = Some t'" "pr_rel t' (?f(phy := if ?f phy \<le> 2 then 0 else ?f phy - 1))" by blast
  have f: "?f(phy := if ?f phy \<le> 2 then 0 else ?f phy - 1) = f" using two by auto
  have "hasOtherReferences (zero_page s) t phy = Some True" using hasOtherReferences_spec [OF t(2)] assms(8) two by auto
  then have "freePageEntryData hs he dst s1 = Some (s1\<lparr>ref_count := t'\<rparr>)"
    using s1 assms(6-8) t'(1) shared_pte(1,4) [of "get64 s src"] by (simp add: freePageEntryData_def entry_has_def Let_def)
  then show ?thesis
    using s1 t(2) t'(2) f shared_pte [of "get64 s src"] assms(7)
    by (intro exI [of _ s1] exI [of _ "s1\<lparr>ref_count := t'\<rparr>"]) (simp add: entry_has_def)
qed

text \<open>Witness: the second entry of the example table as a copy of the first.\<close>

theorem share_and_drop_witness:
  "\<exists>s1 s2. copyMemoryPageEntry 0x80010008 0x80010000 (put64 example_space 0x80010008 0x20000113) = Some (True, s1)
     \<and> pr_rel (ref_count s1) ((\<lambda>_. 0)(0x80000000 := 2))
     \<and> freePageEntryData 0x80000000 0x80004000 0x80010008 s1 = Some s2 \<and> pr_rel (ref_count s2) (\<lambda>_. 0)"
proof -
  let ?s = "put64 example_space 0x80010008 0x20000113"
  have a: "aligned8 0x80010000" "aligned8 0x80010008" by (simp_all add: aligned8_def)
  have g: "get64 ?s 0x80010000 = 0x20000113" "get64 ?s 0x80010008 = 0x20000113"
    using a example_space_fields(3) by (simp_all add: get64_put64)
  have r: "pr_rel (ref_count ?s) (\<lambda>_. 0)" "zero_page ?s = 0" using empty_table_rel by (simp_all add: put64_def example_space_fields)
  have "\<not> entry_has ?s 0x80010000 PAGE_ENTRY_GLOBAL" by (simp add: entry_has_def g pte_bits_def PAGE_ENTRY_GLOBAL_def)
  from share_and_drop [OF a _ _ r(1) this, of "0x80000000" "0x80000000" "0x80004000"] show ?thesis
    using g r(2) example_pte(3) by auto
qed

end
