(* ===== verification/VirtPtr.thy ===== *)
theory VirtPtr
  imports MemSpace
begin

text \<open>
  Model of kernel/src/memory/virtptr.c: access to buffers of other address spaces. A buffer is
  cut into parts that are contiguous in physical memory. Translation may resolve page faults
  and so change the state. \<open>kpt\<close> is \<open>kernel_page_table\<close>. The loops over the buffer are
  \<open>partial_function\<close>s over an argument \<open>xlate\<close>, the translation of the buffer's address space.
\<close>

unbundle bit_operations_syntax

record VirtPtr =
  vp_address :: u64
  vp_table :: u64
  allow_all :: bool

record VirtPtrBufferPart =
  part_address :: u64
  part_offset :: u64
  part_length :: u64

type_synonym 's xlate = "u64 \<Rightarrow> 's \<Rightarrow> (u64 \<times> 's) option"

definition virtPtrFor :: "u64 \<Rightarrow> u64 \<Rightarrow> VirtPtr" where
  "virtPtrFor addr table = \<lparr>vp_address = addr, vp_table = table, allow_all = False\<rparr>"

definition virtPtrForKernelConst :: "u64 \<Rightarrow> u64 \<Rightarrow> VirtPtr" where
  "virtPtrForKernelConst kpt addr = virtPtrFor addr kpt"

definition virtPtrForKernel :: "u64 \<Rightarrow> u64 \<Rightarrow> VirtPtr" where
  "virtPtrForKernel kpt addr = virtPtrForKernelConst kpt addr"

definition unsafeVirtPtrFor :: "u64 \<Rightarrow> u64 \<Rightarrow> VirtPtr" where
  "unsafeVirtPtrFor addr mem = \<lparr>vp_address = addr, vp_table = mem, allow_all = True\<rparr>"

definition xlate_of :: "'a MSpace_ext reclaimer \<Rightarrow> VirtPtr \<Rightarrow> bool \<Rightarrow> 'a MSpace_scheme xlate" where
  "xlate_of tr addr write = (\<lambda>a. virtToPhys tr (vp_table addr) a write (allow_all addr))"

definition virtPtrPhys :: "'a MSpace_ext reclaimer \<Rightarrow> VirtPtr \<Rightarrow> 'a MSpace_scheme \<Rightarrow> (u64 \<times> 'a MSpace_scheme) option" where
  "virtPtrPhys tr addr s = xlate_of tr addr False (vp_address addr) s"

subsection \<open>Parts\<close>

text \<open>
  The loop shared by \<open>getVirtPtrParts\<close> and \<open>virtPtrPartsDo\<close>, with what is done with a part as the
  argument \<open>emit\<close>; \<open>start\<close> and \<open>stop\<close> are \<open>addr.address\<close> and \<open>addr.address + length\<close>.
\<close>

partial_function (option) parts_loop ::
  "'s xlate \<Rightarrow> (VirtPtrBufferPart \<Rightarrow> 'u \<Rightarrow> 's \<Rightarrow> ('u \<times> 's) option) \<Rightarrow> u64 \<Rightarrow> u64 \<Rightarrow> u64 \<Rightarrow> u64 \<Rightarrow> 'u \<Rightarrow> 's \<Rightarrow> ('u \<times> 's) option" where
  "parts_loop xlate emit start stop part_position next_position u s =
     (if part_position < stop then
        (let next_position = (next_position + PAGE_SIZE) AND - PAGE_SIZE in do {
           (phys_start, s) \<leftarrow> xlate part_position s;
           if phys_start = 0 then Some (u, s)
           else do {
             (phys_end, s) \<leftarrow> xlate next_position s;
             if phys_end - phys_start \<noteq> next_position - part_position \<or> next_position > stop then do {
               (u, s) \<leftarrow> emit \<lparr>part_address = phys_start, part_offset = part_position - start,
                          part_length = if next_position > stop then stop - part_position
                                        else next_position - part_position\<rparr> u s;
               parts_loop xlate emit start stop next_position next_position u s }
             else parts_loop xlate emit start stop part_position next_position u s } })
      else Some (u, s))"

text \<open>The parts written to an array of \<open>max_parts\<close> elements, and the number of parts there are.\<close>

definition collect_part :: "VirtPtrBufferPart \<Rightarrow> VirtPtrBufferPart list \<Rightarrow> 's \<Rightarrow> (VirtPtrBufferPart list \<times> 's) option" where
  "collect_part p ps s = Some (ps @ [p], s)"

definition getVirtPtrParts ::
  "'a MSpace_ext reclaimer \<Rightarrow> VirtPtr \<Rightarrow> u64 \<Rightarrow> nat \<Rightarrow> bool \<Rightarrow> 'a MSpace_scheme \<Rightarrow> (nat \<times> VirtPtrBufferPart list \<times> 'a MSpace_scheme) option" where
  "getVirtPtrParts tr addr len max_parts write s = do {
     (ps, s) \<leftarrow> parts_loop (xlate_of tr addr write) collect_part (vp_address addr) (vp_address addr + len)
                (vp_address addr) (vp_address addr) [] s;
     Some (length ps, take max_parts ps, s) }"

definition virtPtrPartsDo ::
  "'a MSpace_ext reclaimer \<Rightarrow> VirtPtr \<Rightarrow> u64 \<Rightarrow> (VirtPtrBufferPart \<Rightarrow> 'u \<Rightarrow> 'a MSpace_scheme \<Rightarrow> ('u \<times> 'a MSpace_scheme) option) \<Rightarrow> 'u \<Rightarrow> bool
    \<Rightarrow> 'a MSpace_scheme \<Rightarrow> ('u \<times> 'a MSpace_scheme) option" where
  "virtPtrPartsDo tr addr len callback udata write s =
     parts_loop (xlate_of tr addr write) callback (vp_address addr) (vp_address addr + len) (vp_address addr) (vp_address addr) udata s"

text \<open>\<open>index\<close> walks through the buffer, \<open>dest\<close> and \<open>src\<close> are the parts from the current ones on.\<close>

function memcpy_parts :: "u64 \<Rightarrow> u64 \<Rightarrow> VirtPtrBufferPart list \<Rightarrow> VirtPtrBufferPart list \<Rightarrow> memory \<Rightarrow> memory" where
  "memcpy_parts n index (d # ds) (s # ss) m =
     (if index < n then
        (let dest_next = part_offset d + part_length d;
             src_next = part_offset s + part_length s;
             to = part_address d + (index - part_offset d);
             from_addr = part_address s + (index - part_offset s)
         in if dest_next < src_next
            then memcpy_parts n dest_next ds (s # ss) (fst (memmove m to from_addr (dest_next - index)))
            else memcpy_parts n src_next (d # ds) ss (fst (memmove m to from_addr (src_next - index))))
      else m)"
| "memcpy_parts n index [] ss m = m"
| "memcpy_parts n index ds [] m = m"
  by pat_completeness auto
termination by (relation "measure (\<lambda>(_, _, ds, ss, _). length ds + length ss)") auto

definition memcpyBetweenVirtPtr :: "'a MSpace_ext reclaimer \<Rightarrow> VirtPtr \<Rightarrow> VirtPtr \<Rightarrow> u64 \<Rightarrow> 'a MSpace_scheme \<Rightarrow> 'a MSpace_scheme option" where
  "memcpyBetweenVirtPtr tr dest src n s = do {
     (dest_count, _, s) \<leftarrow> getVirtPtrParts tr dest n 0 True s;
     (src_count, _, s) \<leftarrow> getVirtPtrParts tr src n 0 False s;
     (_, dest_parts, s) \<leftarrow> getVirtPtrParts tr dest n dest_count True s;
     (_, src_parts, s) \<leftarrow> getVirtPtrParts tr src n src_count False s;
     Some (s\<lparr>pmem := memcpy_parts n 0 dest_parts src_parts (pmem s)\<rparr>) }"

fun memset_parts :: "VirtPtrBufferPart list \<Rightarrow> u32 \<Rightarrow> memory \<Rightarrow> memory" where
  "memset_parts [] byte m = m"
| "memset_parts (p # ps) byte m = memset_parts ps byte (fst (memset m (part_address p) byte (part_length p)))"

definition memsetVirtPtr :: "'a MSpace_ext reclaimer \<Rightarrow> VirtPtr \<Rightarrow> u32 \<Rightarrow> u64 \<Rightarrow> 'a MSpace_scheme \<Rightarrow> 'a MSpace_scheme option" where
  "memsetVirtPtr tr dest byte n s = do {
     (count, _, s) \<leftarrow> getVirtPtrParts tr dest n 0 True s;
     (_, parts, s) \<leftarrow> getVirtPtrParts tr dest n count True s;
     Some (s\<lparr>pmem := memset_parts parts byte (pmem s)\<rparr>) }"

subsection \<open>Integers and strings\<close>

fun load_le :: "memory \<Rightarrow> u64 \<Rightarrow> nat \<Rightarrow> u64" where
  "load_le m a 0 = 0"
| "load_le m a (Suc n) = ucast (m a) OR push_bit 8 (load_le m (a + 1) n)"

fun store_le :: "memory \<Rightarrow> u64 \<Rightarrow> nat \<Rightarrow> u64 \<Rightarrow> memory" where
  "store_le m a 0 v = m"
| "store_le m a (Suc n) v = store_le (m(a := ucast v)) (a + 1) n (drop_bit 8 v)"

definition readInt :: "'a MSpace_ext reclaimer \<Rightarrow> VirtPtr \<Rightarrow> nat \<Rightarrow> 'a MSpace_scheme \<Rightarrow> (u64 \<times> 'a MSpace_scheme) option" where
  "readInt tr addr sz s = do {
     cassert (sz = 8 \<or> sz = 16 \<or> sz = 32 \<or> sz = 64);
     (phys, s) \<leftarrow> xlate_of tr addr False (vp_address addr) s;
     Some (if phys = 0 then 0 else load_le (pmem s) phys (sz div 8), s) }"

definition readIntAt where
  "readIntAt tr addr i sz s = readInt tr (addr\<lparr>vp_address := vp_address addr + of_nat (i * (sz div 8))\<rparr>) sz s"

definition writeInt :: "'a MSpace_ext reclaimer \<Rightarrow> VirtPtr \<Rightarrow> nat \<Rightarrow> u64 \<Rightarrow> 'a MSpace_scheme \<Rightarrow> 'a MSpace_scheme option" where
  "writeInt tr addr sz v s = do {
     cassert (sz = 8 \<or> sz = 16 \<or> sz = 32 \<or> sz = 64);
     (phys, s) \<leftarrow> xlate_of tr addr True (vp_address addr) s;
     Some (if phys \<noteq> 0 then s\<lparr>pmem := store_le (pmem s) phys (sz div 8) v\<rparr> else s) }"

definition writeIntAt where
  "writeIntAt tr addr sz i v s = writeInt tr (addr\<lparr>vp_address := vp_address addr + of_nat (i * (sz div 8))\<rparr>) sz v s"

text \<open>The loops of the misaligned accesses run over the bit positions 0, 8, \<dots> below \<open>sz\<close>.\<close>

function readMisaligned_loop :: "'a MSpace_ext reclaimer \<Rightarrow> VirtPtr \<Rightarrow> nat \<Rightarrow> nat \<Rightarrow> u64 \<Rightarrow> 'a MSpace_scheme \<Rightarrow> (u64 \<times> 'a MSpace_scheme) option" where
  "readMisaligned_loop tr addr sz i ret s =
     (if i < sz then do {
        (b, s) \<leftarrow> readInt tr addr 8 s;
        readMisaligned_loop tr (addr\<lparr>vp_address := vp_address addr + 1\<rparr>) sz (i + 8) (ret OR push_bit i b) s }
      else Some (ret, s))"
  by pat_completeness auto
termination by (relation "measure (\<lambda>(_, _, sz, i, _). sz - i)") auto

definition readMisaligned where
  "readMisaligned tr addr sz s = readMisaligned_loop tr addr sz 0 0 s"

function writeMisaligned_loop :: "'a MSpace_ext reclaimer \<Rightarrow> VirtPtr \<Rightarrow> nat \<Rightarrow> nat \<Rightarrow> u64 \<Rightarrow> 'a MSpace_scheme \<Rightarrow> 'a MSpace_scheme option" where
  "writeMisaligned_loop tr addr sz i v s =
     (if i < sz then do {
        s \<leftarrow> writeInt tr addr 8 (drop_bit i v AND 0xff) s;
        writeMisaligned_loop tr (addr\<lparr>vp_address := vp_address addr + 1\<rparr>) sz (i + 8) v s }
      else Some s)"
  by pat_completeness auto
termination by (relation "measure (\<lambda>(_, _, sz, i, _). sz - i)") auto

definition writeMisaligned where
  "writeMisaligned tr addr sz v s = writeMisaligned_loop tr addr sz 0 v s"

partial_function (option) strlenVirtPtr_loop :: "'a MSpace_ext reclaimer \<Rightarrow> VirtPtr \<Rightarrow> u64 \<Rightarrow> 'a MSpace_scheme \<Rightarrow> (u64 \<times> 'a MSpace_scheme) option" where
  "strlenVirtPtr_loop tr str len s = do {
     (c, s) \<leftarrow> readInt tr str 8 s;
     if c \<noteq> 0 then strlenVirtPtr_loop tr (str\<lparr>vp_address := vp_address str + 1\<rparr>) (len + 1) s
     else Some (len, s) }"

definition strlenVirtPtr where
  "strlenVirtPtr tr str s = strlenVirtPtr_loop tr str 0 s"

definition strcpyVirtPtr where
  "strcpyVirtPtr tr dest src s = do {
     (len, s) \<leftarrow> strlenVirtPtr tr src s;
     memcpyBetweenVirtPtr tr dest src (len + 1) s }"

definition pushToVirtPtrStack where
  "pushToVirtPtrStack tr kpt sp p sz s =
     (let sp = sp\<lparr>vp_address := vp_address sp - sz\<rparr> in do {
        s \<leftarrow> memcpyBetweenVirtPtr tr sp (virtPtrForKernel kpt p) sz s;
        Some (sp, s) })"

definition popFromVirtPtrStack where
  "popFromVirtPtrStack tr kpt sp p sz s = do {
     s \<leftarrow> memcpyBetweenVirtPtr tr (virtPtrForKernel kpt p) sp sz s;
     Some (sp\<lparr>vp_address := vp_address sp + sz\<rparr>, s) }"

subsection \<open>Translations\<close>

lemma next_page_gt: "x < (x div 4096 + 1) * (4096 :: nat)"
  using dividend_less_div_times [of 4096 x] by (simp add: algebra_simps)

lemma same_page_div: "x \<le> z \<Longrightarrow> z < (x div 4096 + 1) * 4096 \<Longrightarrow> z div 4096 = x div (4096 :: nat)"
proof (rule div_nat_eqI)
  assume a: "x \<le> z" "z < (x div 4096 + 1) * 4096"
  show "4096 * (x div 4096) \<le> z" using a(1) div_mult_mod_eq [of x 4096] by linarith
  show "z < 4096 * Suc (x div 4096)" using a(2) by simp
qed

lemma run_phys: "px - pa = x - a \<Longrightarrow> px + (a + k - x) = pa + (k :: u64)"
  by (simp add: diff_eq_eq)

text \<open>
  What the parts rely on: a translation that keeps the state, maps every byte of the buffer and
  keeps the bytes of a page together.
\<close>

lemma parts_loop_done: "\<not> p < stop \<Longrightarrow> parts_loop xl emit start stop p x u s = Some (u, s)"
  by (simp add: parts_loop.simps)

locale page_translation =
  fixes xlate :: "'s xlate" and phys :: "u64 \<Rightarrow> u64" and s :: 's and lo hi :: nat
  assumes pure: "xlate a s = Some (phys a, s)"
    and mapped: "lo \<le> unat a \<Longrightarrow> unat a < hi \<Longrightarrow> phys a \<noteq> 0"
    and affine: "lo \<le> unat a \<Longrightarrow> unat b < hi \<Longrightarrow> unat a \<le> unat b \<Longrightarrow> unat a div 4096 = unat b div 4096 \<Longrightarrow> phys b = phys a + (b - a)"
    and top: "hi + 8192 \<le> 2 ^ 64"
begin

text \<open>\<open>covers ps a b start\<close>: the parts \<open>ps\<close> cover exactly the buffer from \<open>a\<close> to \<open>b\<close>, in order.\<close>

fun covers :: "VirtPtrBufferPart list \<Rightarrow> u64 \<Rightarrow> u64 \<Rightarrow> u64 \<Rightarrow> bool" where
  "covers [] a b start \<longleftrightarrow> a = b"
| "covers (p # ps) a b start \<longleftrightarrow> part_offset p = a - start \<and> a < a + part_length p \<and> a + part_length p \<le> b
     \<and> (\<forall>k. k < part_length p \<longrightarrow> phys (a + k) = part_address p + k) \<and> covers ps (a + part_length p) b start"

lemma next_page:
  assumes "unat x \<le> hi"
  shows "unat ((x + PAGE_SIZE) AND - PAGE_SIZE) = (unat x div 4096 + 1) * 4096"
proof -
  have "unat (x + PAGE_SIZE) = unat x + 4096" using assms top unat_add_64 [of x PAGE_SIZE] by (simp add: PAGE_SIZE_def)
  moreover have "(unat x + 4096) div 4096 = unat x div 4096 + 1" by simp
  ultimately show ?thesis unfolding and_minus_page by presburger
qed

text \<open>Bytes from \<open>a\<close> on, up to the next page boundary after \<open>x\<close>, when those below \<open>x\<close> are contiguous.\<close>

definition run_to :: "u64 \<Rightarrow> u64 \<Rightarrow> bool" where
  "run_to a x \<longleftrightarrow> x = a \<or> (a < x \<and> phys x - phys a = x - a \<and> (\<forall>k. unat a + unat k < unat x \<longrightarrow> phys (a + k) = phys a + k))"

lemma run_extend:
  assumes r: "run_to a x" "lo \<le> unat a" and k: "unat a + unat k < hi" "unat a + unat k < (unat x div 4096 + 1) * 4096"
  shows "phys (a + k) = phys a + k"
proof (cases "unat a + unat k < unat x")
  case True
  then have "x \<noteq> a" by auto
  then show ?thesis using r(1) True unfolding run_to_def by blast
next
  case False
  have ax: "unat a \<le> unat x" "phys x - phys a = x - a" using r(1) unfolding run_to_def by (auto simp: word_less_nat_alt)
  have u: "unat (a + k) = unat a + unat k" by (rule unat_add_64) (use k(1) top in linarith)
  have "unat x div 4096 = unat (a + k) div 4096"
    using same_page_div [of "unat x" "unat (a + k)"] False k(2) u by simp
  then have "phys (a + k) = phys x + (a + k - x)" using affine [of x "a + k"] False u k(1) ax(1) r(2) by linarith
  then show ?thesis unfolding run_phys [OF ax(2)] .
qed

lemma parts_loop_spec:
  assumes "unat stop = hi" "lo \<le> unat a" "unat x \<le> hi" "run_to a x" "a < stop"
  shows "\<exists>ps. parts_loop xlate collect_part start stop a x acc s = Some (acc @ ps, s) \<and> covers ps a stop start"
  using assms(2-)
proof (induction "hi - unat x" arbitrary: a x acc rule: less_induct)
  case less
  let ?y = "(x + PAGE_SIZE) AND - PAGE_SIZE"
  have "unat a < hi" using less.prems(4) assms(1) by (simp add: word_less_nat_alt)
  have y: "unat ?y = (unat x div 4096 + 1) * 4096" by (rule next_page [OF less.prems(2)])
  have xy: "unat x < unat ?y" unfolding y by (rule next_page_gt)
  have ax: "unat a \<le> unat x" using less.prems(3) by (auto simp: run_to_def word_less_nat_alt)
  note ext = run_extend [OF less.prems(3,1)]
  have nz: "phys a \<noteq> 0" using mapped less.prems(1) \<open>unat a < hi\<close> by blast
  let ?part = "\<lambda>l. \<lparr>part_address = phys a, part_offset = a - start, part_length = l\<rparr>"
  note step = parts_loop.simps [of xlate collect_part start stop a x acc s]
  consider "stop < ?y" | "?y \<le> stop" "phys ?y - phys a \<noteq> ?y - a" | "?y \<le> stop" "phys ?y - phys a = ?y - a" by (cases "stop < ?y") (auto simp: not_less)
  then show ?case
  proof cases
    case 1
    have "parts_loop xlate collect_part start stop a x acc s = Some (acc @ [?part (stop - a)], s)"
      using step less.prems(4) nz 1 parts_loop_done [of ?y stop, OF leD [OF less_imp_le [OF 1]]] by (simp add: pure Let_def collect_part_def)
    moreover have "phys (a + k) = phys a + k" if "k < stop - a" for k
    proof -
      have "a \<le> stop" using less.prems(4) by simp
      then have "unat a + unat k < hi" using that assms(1) unat_sub_64 [of a stop] unfolding word_less_nat_alt word_le_nat_alt by linarith
      moreover have "hi \<le> (unat x div 4096 + 1) * 4096" using 1 y assms(1) by (simp add: word_less_nat_alt)
      ultimately show ?thesis by (intro ext) simp_all
    qed
    ultimately show ?thesis using less.prems(4) by (intro exI [of _ "[?part (stop - a)]"]) simp
  next
    case 2
    have yh: "unat ?y \<le> hi" using 2(1) assms(1) by (simp add: word_le_nat_alt)
    have step2: "parts_loop xlate collect_part start stop a x acc s
        = parts_loop xlate collect_part start stop ?y ?y (acc @ [?part (?y - a)]) s"
      using step less.prems(4) nz 2 leD [OF 2(1)] by (simp add: pure Let_def collect_part_def)
    have "\<exists>ps. parts_loop xlate collect_part start stop ?y ?y (acc @ [?part (?y - a)]) s = Some ((acc @ [?part (?y - a)]) @ ps, s) \<and> covers ps ?y stop start"
    proof (cases "?y = stop")
      case True
      then show ?thesis using parts_loop_done [of stop stop] by (intro exI [of _ "[]"]) simp
    next
      case False
      then have "?y < stop" using 2(1) by simp
      then show ?thesis using xy ax yh less.prems(1) by (intro less.hyps) (auto simp: run_to_def)
    qed
    moreover have "a < ?y" using xy ax by (simp add: word_less_nat_alt)
    moreover have "phys (a + k) = phys a + k" if k: "k < ?y - a" for k
    proof -
      have "unat a + unat k < unat ?y" using k \<open>a < ?y\<close> unat_sub_64 [of a ?y] unfolding word_less_nat_alt by linarith
      then show ?thesis using ext [of k] yh y by simp
    qed
    ultimately show ?thesis unfolding step2 using 2(1) by force
  next
    case 3
    have yh: "unat ?y \<le> hi" using 3(1) assms(1) by (simp add: word_le_nat_alt)
    have "phys (a + k) = phys a + k" if "unat a + unat k < unat ?y" for k using ext [of k] that yh y by simp
    then have "run_to a ?y" using 3(2) xy ax unfolding run_to_def by (simp add: word_less_nat_alt)
    moreover have "parts_loop xlate collect_part start stop a x acc s = parts_loop xlate collect_part start stop a ?y acc s"
      using step less.prems(4) nz 3 leD [OF 3(1)] by (simp add: pure Let_def)
    ultimately show ?thesis using less.hyps [of ?y a acc] less.prems xy yh by simp
  qed
qed


lemma covers_nth:
  "covers ps a b start \<Longrightarrow> (\<Sum>p\<leftarrow>ps. part_length p) = b - a \<and> (\<forall>i<length ps. part_offset (ps ! i) = (a - start) + (\<Sum>p\<leftarrow>take i ps. part_length p)
     \<and> part_length (ps ! i) \<noteq> 0 \<and> (\<forall>k<part_length (ps ! i). phys (start + part_offset (ps ! i) + k) = part_address (ps ! i) + k))"
proof (induction ps arbitrary: a)
  case (Cons p ps)
  note IH = Cons.IH [of "a + part_length p"]
  have c: "part_offset p = a - start" "part_length p \<noteq> 0" "\<forall>k. k < part_length p \<longrightarrow> phys (a + k) = part_address p + k" "covers ps (a + part_length p) b start"
    using Cons.prems by auto
  have "part_offset ((p # ps) ! i) = (a - start) + (\<Sum>p\<leftarrow>take i (p # ps). part_length p)
     \<and> part_length ((p # ps) ! i) \<noteq> 0 \<and> (\<forall>k<part_length ((p # ps) ! i). phys (start + part_offset ((p # ps) ! i) + k) = part_address ((p # ps) ! i) + k)"
    if "i < length (p # ps)" for i
    using that c IH [OF c(4)] by (cases i) (auto simp: algebra_simps)
  moreover have "(\<Sum>p\<leftarrow>p # ps. part_length p) = b - a" using IH [OF c(4)] by (simp add: algebra_simps)
  ultimately show ?case by blast
qed simp

text \<open>Setting the bytes of the parts sets the images of the bytes of the buffer.\<close>

lemma part_bytes:
  assumes "a < a + len" "\<forall>k. k < len \<longrightarrow> phys (a + k) = p + k"
  shows "in_region p (unat len) x \<longleftrightarrow> x \<in> phys ` {a..<a + len}"
proof -
  have e: "y \<in> {a..<a + len} \<longleftrightarrow> y - a < len" for y
  proof -
    have u: "unat (a + len) = unat a + unat len" using less_imp_le [OF assms(1)] unat_plus_simple [of a len] by blast
    show ?thesis
    proof
      assume y: "y \<in> {a..<a + len}"
      then show "y - a < len" using u unat_sub_64 [of a y] by (auto simp: word_less_nat_alt word_le_nat_alt)
    next
      assume y: "y - a < len"
      have "unat (a + (y - a)) = unat a + unat (y - a)"
        using y u unat_less_2p64 [of "a + len"] unfolding word_less_nat_alt by (intro unat_add_64) linarith
      then show "y \<in> {a..<a + len}" using y u by (simp add: word_less_nat_alt word_le_nat_alt)
    qed
  qed
  show ?thesis
  proof
    assume "in_region p (unat len) x"
    then have "x - p < len" by (simp add: in_region_def word_less_nat_alt)
    then have "phys (a + (x - p)) = x" "a + (x - p) \<in> {a..<a + len}" using assms(2) e by auto
    then show "x \<in> phys ` {a..<a + len}" by (metis imageI)
  next
    assume "x \<in> phys ` {a..<a + len}"
    then obtain y where y: "x = phys y" "y - a < len" using e by blast
    then have "x = p + (y - a)" using assms(2) [rule_format, of "y - a"] by simp
    then show "in_region p (unat len) x" using y(2) by (simp add: in_region_def word_less_nat_alt)
  qed
qed

lemma memset_covers:
  "covers ps a b start \<Longrightarrow> a \<le> b \<Longrightarrow> memset_parts ps c m = (\<lambda>x. if x \<in> phys ` {a..<b} then ucast c else m x)"
proof (induction ps arbitrary: a m)
  case (Cons p ps)
  let ?e = "a + part_length p"
  have c: "a < ?e" "?e \<le> b" "\<forall>k. k < part_length p \<longrightarrow> phys (a + k) = part_address p + k" "covers ps ?e b start"
    using Cons.prems(1) by auto
  have "{a..<b} = {a..<?e} \<union> {?e..<b}" using c(1,2) by auto
  then have "phys ` {a..<b} = phys ` {a..<?e} \<union> phys ` {?e..<b}" by (metis image_Un)
  then show ?case using Cons.IH [OF c(4,2)] part_bytes [OF c(1,3)] by (auto simp: memset_spec fill_def fun_eq_iff)
qed simp

end

subsection \<open>Properties\<close>

text \<open>
  \<open>mapped_buffer\<close>: every byte of the buffer of \<open>len\<close> bytes at \<open>addr\<close> is mapped for the access to the
  physical address \<open>phys\<close> gives, without a fault to resolve; bytes of one page stay together; the
  buffer ends well before the end of the address space.
\<close>

definition mapped_buffer :: "'a MSpace_ext reclaimer \<Rightarrow> VirtPtr \<Rightarrow> u64 \<Rightarrow> bool \<Rightarrow> 'a MSpace_scheme \<Rightarrow> (u64 \<Rightarrow> u64) \<Rightarrow> bool" where
  "mapped_buffer tr addr len write s phys \<longleftrightarrow>
     (\<forall>a. virtToPhys tr (vp_table addr) a write (allow_all addr) s = Some (phys a, s))
     \<and> (\<forall>a. unat (vp_address addr) \<le> unat a \<and> unat a < unat (vp_address addr) + unat len \<longrightarrow> phys a \<noteq> 0)
     \<and> (\<forall>a b. unat (vp_address addr) \<le> unat a \<and> unat a \<le> unat b \<and> unat b < unat (vp_address addr) + unat len
          \<and> unat a div 4096 = unat b div 4096 \<longrightarrow> phys b = phys a + (b - a))
     \<and> unat (vp_address addr) + unat len + 8192 \<le> 2 ^ 64"

lemma mapped_buffer_translation:
  "mapped_buffer tr addr len write s phys \<Longrightarrow>
    page_translation (xlate_of tr addr write) phys s (unat (vp_address addr)) (unat (vp_address addr) + unat len)"
  unfolding mapped_buffer_def by unfold_locales (auto simp: xlate_of_def)

lemma mapped_buffer_parts:
  assumes "mapped_buffer tr addr len write s phys"
  shows "\<exists>ps. (\<forall>max_parts. getVirtPtrParts tr addr len max_parts write s = Some (length ps, take max_parts ps, s))
    \<and> page_translation.covers phys ps (vp_address addr) (vp_address addr + len) (vp_address addr)"
proof -
  let ?a = "vp_address addr" and ?x = "xlate_of tr addr write"
  note pt = mapped_buffer_translation [OF assms]
  have top: "unat ?a + unat len + 8192 \<le> 2 ^ 64" using assms by (simp add: mapped_buffer_def)
  have stop: "unat (?a + len) = unat ?a + unat len" by (rule unat_add_64) (use top in linarith)
  show ?thesis
  proof (cases "len = 0")
    case True
    then show ?thesis using parts_loop_done [of ?a ?a ?x collect_part] page_translation.covers.simps(1) [OF pt]
      by (intro exI [of _ "[]"]) (simp add: getVirtPtrParts_def)
  next
    case False
    then have lt: "?a < ?a + len" using stop by (simp add: word_less_nat_alt unat_gt_0)
    have "page_translation.run_to phys ?a ?a" using page_translation.run_to_def [OF pt] by simp
    from page_translation.parts_loop_spec [OF pt stop order_refl _ this lt, of ?a "[]"] obtain ps where
      "parts_loop ?x collect_part ?a (?a + len) ?a ?a [] s = Some (ps, s)" "page_translation.covers phys ps ?a (?a + len) ?a"
      by auto
    then show ?thesis by (intro exI [of _ ps]) (simp add: getVirtPtrParts_def)
  qed
qed

text \<open>Without a page table every address is its own translation.\<close>

definition direct_ptr :: "u64 \<Rightarrow> VirtPtr" where
  "direct_ptr a = virtPtrFor a 0"

interpretation direct: page_translation "xlate_of tr (direct_ptr a) write" "\<lambda>a. a" s 1 "2 ^ 64 - 8192"
  by unfold_locales (auto simp: xlate_of_def direct_ptr_def virtPtrFor_def virtToPhys_def)

lemma direct_buffer: "unat a \<noteq> 0 \<Longrightarrow> unat a + unat len + 8192 \<le> 2 ^ 64 \<Longrightarrow> mapped_buffer tr (direct_ptr a) len write s (\<lambda>a. a)"
  by (auto simp: mapped_buffer_def direct_ptr_def virtPtrFor_def virtToPhys_def)





end
