(* ===== verification/LinkedList.thy ===== *)
theory LinkedList
  imports Prelude
begin

text \<open>
  Singly linked lists threaded through a heap of nodes: \<open>lseg nxt p xs q\<close> says that following
  \<open>nxt\<close> from \<open>p\<close> visits the nodes \<open>xs\<close> and arrives at \<open>q\<close>; \<open>linked nxt p xs\<close> that the list
  ends in NULL. The queues of the scheduler, of the locks and of pending signals are such lists.
\<close>

fun lseg :: "(u64 \<Rightarrow> u64) \<Rightarrow> u64 \<Rightarrow> u64 list \<Rightarrow> u64 \<Rightarrow> bool" where
  "lseg nxt p [] q \<longleftrightarrow> p = q"
| "lseg nxt p (x # xs) q \<longleftrightarrow> p = x \<and> x \<noteq> 0 \<and> lseg nxt (nxt x) xs q"

abbreviation linked :: "(u64 \<Rightarrow> u64) \<Rightarrow> u64 \<Rightarrow> u64 list \<Rightarrow> bool" where
  "linked nxt p xs \<equiv> lseg nxt p xs 0"

lemma lseg_append [simp]: "lseg nxt p (xs @ ys) q \<longleftrightarrow> (\<exists>r. lseg nxt p xs r \<and> lseg nxt r ys q)"
  by (induction xs arbitrary: p) auto

lemma lseg_frame [simp]: "a \<notin> set xs \<Longrightarrow> lseg (nxt(a := v)) p xs q \<longleftrightarrow> lseg nxt p xs q"
  by (induction xs arbitrary: p) auto

lemma lseg_cong: "(\<And>x. x \<in> set xs \<Longrightarrow> nxt' x = nxt x) \<Longrightarrow> lseg nxt' p xs q \<longleftrightarrow> lseg nxt p xs q"
  by (induction xs arbitrary: p) auto

lemma lseg_nonnull: "lseg nxt p xs q \<Longrightarrow> 0 \<notin> set xs"
  by (induction xs arbitrary: p) auto

lemma linked_Null [simp]: "linked nxt 0 xs \<longleftrightarrow> xs = []"
  by (cases xs) auto

lemma linked_nonnull: "linked nxt p xs \<Longrightarrow> p \<noteq> 0 \<Longrightarrow> \<exists>ys. xs = p # ys \<and> linked nxt (nxt p) ys"
  by (cases xs) auto

lemma linked_unique: "linked nxt p xs \<Longrightarrow> linked nxt p ys \<Longrightarrow> xs = ys"
proof (induction xs arbitrary: p ys)
  case (Cons x xs)
  then show ?case by (cases ys) auto
qed (metis linked_Null lseg.simps(1))

lemma lseg_distinct: "linked nxt p xs \<Longrightarrow> distinct xs"
proof (induction xs arbitrary: p)
  case (Cons x xs)
  have "x \<notin> set xs"
  proof
    assume "x \<in> set xs"
    then obtain as bs where xs: "xs = as @ x # bs" by (meson split_list)
    then have "linked nxt x (x # bs)" "linked nxt x (x # as @ x # bs)" using Cons.prems by auto
    then have "x # bs = x # as @ x # bs" by (rule linked_unique)
    then show False using arg_cong [of "x # bs" "x # as @ x # bs" length] by simp
  qed
  then show ?case using Cons by auto
qed simp

text \<open>Inserting a node after a node of the list, and removing the node after one.\<close>

lemma linked_insert_after:
  assumes "linked nxt p (as @ a # bs)" "x \<notin> set (as @ a # bs)" "x \<noteq> 0"
  shows "linked (nxt(x := nxt a, a := x)) p (as @ a # x # bs)"
proof -
  have d: "distinct (as @ a # bs)" using lseg_distinct assms(1) by blast
  then have "a \<notin> set as" "a \<notin> set bs" "a \<noteq> x" using assms(2) by auto
  then show ?thesis using assms by auto
qed

lemma linked_insert_front: "linked nxt p xs \<Longrightarrow> x \<notin> set xs \<Longrightarrow> x \<noteq> 0 \<Longrightarrow> linked (nxt(x := p)) x (x # xs)"
  by auto

lemma linked_remove_after:
  assumes "linked nxt p (as @ a # x # bs)"
  shows "linked (nxt(a := nxt x)) p (as @ a # bs)"
proof -
  have "distinct (as @ a # x # bs)" using lseg_distinct assms by blast
  then have "a \<notin> set as" "a \<notin> set bs" by auto
  then show ?thesis using assms by auto
qed

lemma linked_next: "linked nxt p (as @ a # bs) \<Longrightarrow> linked nxt (nxt a) bs"
  by auto

lemma linked_mid: "linked nxt p (as @ a # b # bs) \<Longrightarrow> nxt a = b"
  by auto

lemma linked_last: "linked nxt p (as @ [a]) \<Longrightarrow> nxt a = 0"
  by auto

lemma linked_append_last:
  assumes "linked nxt p (as @ [a])" "x \<notin> set (as @ [a])" "x \<noteq> 0"
  shows "linked (nxt(x := 0, a := x)) p (as @ [a, x])"
  using linked_insert_after [of nxt p as a "[]" x] assms linked_last [OF assms(1)] by simp

end
