(* ===== verification/Schedule.thy ===== *)
theory Schedule
  imports LinkedList Util
begin

text \<open>
  Model of kernel/src/task/schedule.c: the ready queues of the harts and the list of waiting
  tasks. Tasks and harts are addresses, NULL is 0; \<open>sched_next\<close> links the queues and the waiting
  list through the heap of tasks. The spin locks are omitted (one hart at a time; they are
  reentrant). \<open>deallocTask\<close> and the wakeup functions are arguments. None stands for a panic.
\<close>

definition MAX_PRIORITY :: nat where "MAX_PRIORITY = 40"
definition LOWEST_TASK_PRIORITY :: u8 where "LOWEST_TASK_PRIORITY = 39"
definition CLOCKS_PER_SEC :: u64 where "CLOCKS_PER_SEC = 10000000"
definition PRIORITY_DECREASE :: u64 where "PRIORITY_DECREASE = CLOCKS_PER_SEC div 75"

datatype TaskState = UNKNOWN | RUNNING | ENQUABLE | READY | WAITING | STOPPED | TERMINATED

record Task =
  priority :: u8
  queue_priority :: u8
  run_for :: u64
  sched_state :: TaskState
  sched_next :: u64
  locks_next :: u64
  wakeup_function :: u64
  wakeup_udata :: u64
  task_hart :: u64
  task_process :: u64

record ScheduleQueue =
  q_head :: u64
  q_tails :: "u64 list"

record Hart =
  hart_queue :: ScheduleQueue
  idle_task :: u64
  hart_next :: u64

record Sched =
  tasks :: "u64 \<Rightarrow> Task"
  harts :: "u64 \<Rightarrow> Hart"
  waiting :: u64

definition set_next :: "u64 \<Rightarrow> u64 \<Rightarrow> (u64 \<Rightarrow> Task) \<Rightarrow> (u64 \<Rightarrow> Task)" where
  "set_next t v ts = ts(t := (ts t)\<lparr>sched_next := v\<rparr>)"

subsection \<open>Ready queues\<close>

text \<open>The loop at the end of \<open>pushTaskToQueue\<close> and the one of \<open>pullTaskFromQueue\<close>.\<close>

function push_tails :: "u64 \<Rightarrow> u64 \<Rightarrow> nat \<Rightarrow> u64 list \<Rightarrow> u64 list" where
  "push_tails old process i tails =
     (if i < MAX_PRIORITY \<and> tails ! i = old then push_tails old process (i + 1) (tails[i := process]) else tails)"
  by pat_completeness auto
termination by (relation "measure (\<lambda>(_, _, i, _). MAX_PRIORITY - i)") auto

function pull_tails :: "u64 \<Rightarrow> nat \<Rightarrow> u64 list \<Rightarrow> u64 list" where
  "pull_tails ret i tails =
     (if i < MAX_PRIORITY \<and> tails ! i = ret then pull_tails ret (i + 1) (tails[i := tails ! (i - 1)]) else tails)"
  by pat_completeness auto
termination by (relation "measure (\<lambda>(_, i, _). MAX_PRIORITY - i)") auto

declare push_tails.simps [simp del] pull_tails.simps [simp del]

definition pullTaskFromQueue :: "ScheduleQueue \<Rightarrow> (u64 \<Rightarrow> Task) \<Rightarrow> u64 \<times> ScheduleQueue" where
  "pullTaskFromQueue queue ts =
     (if q_head queue = 0 then (0, queue)
      else
        let ret = q_head queue;
            p = unat (queue_priority (ts ret));
            queue = queue\<lparr>q_head := sched_next (ts ret)\<rparr>
        in if q_tails queue ! p = ret
           then (let tails = (q_tails queue)[p := if p = 0 then 0 else q_tails queue ! (p - 1)]
                 in (ret, queue\<lparr>q_tails := pull_tails ret (p + 1) tails\<rparr>))
           else (ret, queue))"

definition pushTaskToQueue :: "ScheduleQueue \<Rightarrow> u64 \<Rightarrow> (u64 \<Rightarrow> Task) \<Rightarrow> ScheduleQueue \<times> (u64 \<Rightarrow> Task)" where
  "pushTaskToQueue queue process ts =
     (let ts = (if queue_priority (ts process) > LOWEST_TASK_PRIORITY
                then ts(process := (ts process)\<lparr>queue_priority := LOWEST_TASK_PRIORITY\<rparr>) else ts);
          p = unat (queue_priority (ts process));
          (queue, ts) =
            (if q_tails queue ! p = 0
             then (queue\<lparr>q_head := process\<rparr>, set_next process (q_head queue) ts)
             else (queue, set_next (q_tails queue ! p) process
                            (set_next process (sched_next (ts (q_tails queue ! p))) ts)));
          old = q_tails queue ! p
      in (queue\<lparr>q_tails := push_tails old process p (q_tails queue)\<rparr>, ts))"

text \<open>
  \<open>removeTaskFromQueue\<close> as written: in a turn of the loop that does not find the task, \<open>*current\<close>,
  the head of the queue, is set to NULL, which also ends the loop.
\<close>

definition removeTaskFromQueue :: "ScheduleQueue \<Rightarrow> u64 \<Rightarrow> (u64 \<Rightarrow> Task) \<Rightarrow> u64 \<times> ScheduleQueue" where
  "removeTaskFromQueue queue task ts =
     (if q_head queue \<noteq> 0 then
        (if q_head queue = task then (task, queue\<lparr>q_head := sched_next (ts (q_head queue))\<rparr>)
         else (0, queue\<lparr>q_head := 0\<rparr>))
      else (0, queue))"

subsection \<open>Waiting tasks\<close>

partial_function (option) in_waiting :: "(u64 \<Rightarrow> Task) \<Rightarrow> u64 \<Rightarrow> u64 \<Rightarrow> unit option" where
  "in_waiting ts current_task task =
     (if current_task \<noteq> 0 then do {
        cassert (current_task \<noteq> task);
        in_waiting ts (sched_next (ts current_task)) task }
      else Some ())"

definition addWaitingTask :: "u64 \<Rightarrow> 'a Sched_scheme \<Rightarrow> 'a Sched_scheme option" where
  "addWaitingTask task s = do {
     cassert (task \<noteq> waiting s);
     in_waiting (tasks s) (waiting s) task;
     Some (s\<lparr>tasks := set_next task (waiting s) (tasks s), waiting := task\<rparr>) }"

text \<open>
  The search loop of \<open>awakenTask\<close>: \<open>prev\<close> is the task whose \<open>sched_next\<close> is \<open>*current\<close>, 0 for the
  variable \<open>waiting\<close>. The result is \<open>prev\<close>.
\<close>

partial_function (option) awaken_find :: "(u64 \<Rightarrow> Task) \<Rightarrow> u64 \<Rightarrow> u64 \<Rightarrow> u64 \<Rightarrow> (u64 \<times> u64) option" where
  "awaken_find ts prev current_task task =
     (if current_task \<noteq> 0 \<and> current_task \<noteq> task
      then awaken_find ts current_task (sched_next (ts current_task)) task
      else Some (prev, current_task))"

definition unlink_waiting :: "u64 \<Rightarrow> u64 \<Rightarrow> 'a Sched_scheme \<Rightarrow> 'a Sched_scheme" where
  "unlink_waiting prev task s =
     (if prev = 0 then s\<lparr>waiting := sched_next (tasks s task)\<rparr>
      else s\<lparr>tasks := set_next prev (sched_next (tasks s task)) (tasks s)\<rparr>)"

definition set_state :: "u64 \<Rightarrow> TaskState \<Rightarrow> 'a Sched_scheme \<Rightarrow> 'a Sched_scheme" where
  "set_state task st s = s\<lparr>tasks := (tasks s)(task := (tasks s task)\<lparr>sched_state := st\<rparr>)\<rparr>"

definition awakenTask :: "u64 \<Rightarrow> 'a Sched_scheme \<Rightarrow> 'a Sched_scheme option" where
  "awakenTask task s = do {
     (prev, current_task) \<leftarrow> awaken_find (tasks s) 0 (waiting s) task;
     cassert (current_task = task);
     let s = unlink_waiting prev task s;
     if sched_state (tasks s task) \<noteq> TERMINATED \<and> sched_state (tasks s task) \<noteq> STOPPED then do {
       cassert (sched_state (tasks s task) = WAITING);
       Some (set_state task ENQUABLE s) }
     else Some s }"

definition moveTaskToState :: "u64 \<Rightarrow> TaskState \<Rightarrow> 'a Sched_scheme \<Rightarrow> 'a Sched_scheme option" where
  "moveTaskToState task st s = do {
     cassert (task \<noteq> 0);
     s \<leftarrow> (if sched_state (tasks s task) = WAITING then do {
             cassert (st = TERMINATED \<or> st = STOPPED);
             awakenTask task s }
           else Some s);
     cassert (sched_state (tasks s task) \<noteq> WAITING);
     if sched_state (tasks s task) \<noteq> TERMINATED \<and> (sched_state (tasks s task) \<noteq> STOPPED \<or> st = TERMINATED)
     then Some (set_state task st s) else Some s }"

text \<open>The computation of the priority in \<open>enqueueTask\<close>.\<close>

definition lower_priority :: "Task \<Rightarrow> Task" where
  "lower_priority t =
     (if run_for t > PRIORITY_DECREASE
      then t\<lparr>queue_priority := priority t + ucast (umin (run_for t div PRIORITY_DECREASE) 5),
             run_for := run_for t - PRIORITY_DECREASE div 4\<rparr>
      else t\<lparr>queue_priority := priority t\<rparr>)"

definition push_on_hart :: "u64 \<Rightarrow> u64 \<Rightarrow> 'a Sched_scheme \<Rightarrow> 'a Sched_scheme" where
  "push_on_hart hart task s =
     (let (queue, ts) = pushTaskToQueue (hart_queue (harts s hart)) task (tasks s)
      in s\<lparr>tasks := ts, harts := (harts s)(hart := (harts s hart)\<lparr>hart_queue := queue\<rparr>)\<rparr>)"

definition enqueueTask ::
  "(u64 \<Rightarrow> 'a Sched_scheme \<Rightarrow> 'a Sched_scheme option) \<Rightarrow> u64 \<Rightarrow> u64 \<Rightarrow> 'a Sched_scheme \<Rightarrow> 'a Sched_scheme option" where
  "enqueueTask deallocTask current_hart task s =
     (let hart = (if task_hart (tasks s task) = 0 then current_hart else task_hart (tasks s task)) in do {
        cassert (hart \<noteq> 0);
        if idle_task (harts s hart) \<noteq> task then
          (case sched_state (tasks s task) of
             WAITING \<Rightarrow> addWaitingTask task s
           | ENQUABLE \<Rightarrow> do {
               s \<leftarrow> moveTaskToState task READY s;
               let s = s\<lparr>tasks := (tasks s)(task := lower_priority (tasks s task))\<rparr>;
               Some (push_on_hart hart task s) }
           | READY \<Rightarrow> Some s
           | RUNNING \<Rightarrow> Some s
           | STOPPED \<Rightarrow> Some s
           | TERMINATED \<Rightarrow> deallocTask task s
           | UNKNOWN \<Rightarrow> None)
        else Some s })"

text \<open>
  \<open>awakenTasks\<close>: \<open>wakeup f task udata\<close> calls the wakeup function \<open>f\<close>. When a task is awakened,
  \<open>*current\<close> is set to its successor before \<open>enqueueTask\<close> changes its \<open>sched_next\<close>.
\<close>

partial_function (option) awakenTasks_loop ::
  "(u64 \<Rightarrow> 'a Sched_scheme \<Rightarrow> 'a Sched_scheme option) \<Rightarrow> (u64 \<Rightarrow> u64 \<Rightarrow> u64 \<Rightarrow> 'a Sched_scheme \<Rightarrow> (bool \<times> 'a Sched_scheme) option)
    \<Rightarrow> u64 \<Rightarrow> u64 \<Rightarrow> 'a Sched_scheme \<Rightarrow> 'a Sched_scheme option" where
  "awakenTasks_loop deallocTask wakeup current_hart prev s =
     (let task = (if prev = 0 then waiting s else sched_next (tasks s prev)) in
      if task \<noteq> 0 then do {
        (up, s) \<leftarrow> (if wakeup_function (tasks s task) \<noteq> 0
                    then wakeup (wakeup_function (tasks s task)) task (wakeup_udata (tasks s task)) s
                    else Some (False, s));
        if up then do {
          let s = unlink_waiting prev task (set_state task ENQUABLE s);
          s \<leftarrow> enqueueTask deallocTask current_hart task s;
          awakenTasks_loop deallocTask wakeup current_hart prev s }
        else awakenTasks_loop deallocTask wakeup current_hart task s }
      else Some s)"

definition awakenTasks where
  "awakenTasks deallocTask wakeup current_hart s = awakenTasks_loop deallocTask wakeup current_hart 0 s"

partial_function (option) pullTaskForHart_loop :: "u64 \<Rightarrow> u64 \<Rightarrow> 'a Sched_scheme \<Rightarrow> (u64 \<times> 'a Sched_scheme) option" where
  "pullTaskForHart_loop hart current_hart s =
     (let (task, queue) = pullTaskFromQueue (hart_queue (harts s current_hart)) (tasks s);
          s = s\<lparr>harts := (harts s)(current_hart := (harts s current_hart)\<lparr>hart_queue := queue\<rparr>)\<rparr>
      in if task \<noteq> 0 then Some (task, s)
         else if hart_next (harts s current_hart) \<noteq> hart
         then pullTaskForHart_loop hart (hart_next (harts s current_hart)) s
         else Some (idle_task (harts s hart), s))"

definition pullTaskForHart :: "u64 \<Rightarrow> 'a Sched_scheme \<Rightarrow> (u64 \<times> 'a Sched_scheme) option" where
  "pullTaskForHart hart s = do { cassert (hart \<noteq> 0); pullTaskForHart_loop hart hart s }"

text \<open>\<open>runNextTaskFrom\<close> up to \<open>enterTask\<close>, which gives control to the task that is the result.\<close>

partial_function (option) pull_live ::
  "(u64 \<Rightarrow> 'a Sched_scheme \<Rightarrow> 'a Sched_scheme option) \<Rightarrow> u64 \<Rightarrow> 'a Sched_scheme \<Rightarrow> (u64 \<times> 'a Sched_scheme) option" where
  "pull_live deallocTask hart s = do {
     (t, s) \<leftarrow> pullTaskForHart hart s;
     if sched_state (tasks s t) = TERMINATED
     then do { s \<leftarrow> deallocTask t s; pull_live deallocTask hart s }
     else Some (t, s) }"

partial_function (option) runNextTaskFrom ::
  "(u64 \<Rightarrow> 'a Sched_scheme \<Rightarrow> 'a Sched_scheme option) \<Rightarrow> (u64 \<Rightarrow> u64 \<Rightarrow> u64 \<Rightarrow> 'a Sched_scheme \<Rightarrow> (bool \<times> 'a Sched_scheme) option)
    \<Rightarrow> (u64 \<Rightarrow> 'a Sched_scheme \<Rightarrow> (bool \<times> 'a Sched_scheme) option) \<Rightarrow> u64 \<Rightarrow> 'a Sched_scheme \<Rightarrow> (u64 \<times> 'a Sched_scheme) option" where
  "runNextTaskFrom deallocTask wakeup handlePendingSignals hart s = do {
     s \<leftarrow> awakenTasks deallocTask wakeup hart s;
     (t, s) \<leftarrow> pull_live deallocTask hart s;
     cassert (t \<noteq> 0);
     (enter, s) \<leftarrow> (if task_process (tasks s t) = 0 then Some (True, s) else handlePendingSignals t s);
     if enter then Some (t, s)
     else do {
       s \<leftarrow> enqueueTask deallocTask hart t s;
       runNextTaskFrom deallocTask wakeup handlePendingSignals hart s } }"

end
