(* ===== verification/ReadyQueue.thy ===== *)
theory ReadyQueue
  imports Schedule "HOL-Library.Multiset"
begin

text \<open>
  The ready queue of a hart refines a list of tasks ordered by priority, first come first served
  among equals. The abstract queue is a locale; the model's queue interprets it.
\<close>

subsection \<open>Abstract priority queues\<close>

definition prio_insert :: "('t \<Rightarrow> nat) \<Rightarrow> 't \<Rightarrow> 't list \<Rightarrow> 't list" where
  "prio_insert f t xs = takeWhile (\<lambda>x. f x \<le> f t) xs @ t # dropWhile (\<lambda>x. f x \<le> f t) xs"

lemma prio_insert_sorted: "sorted (map f xs) \<Longrightarrow> sorted (map f (prio_insert f t xs))"
proof (induction xs)
  case (Cons x xs)
  then show ?case by (auto simp: prio_insert_def dest: set_takeWhileD set_dropWhileD)
qed (simp add: prio_insert_def)

lemma prio_insert_set [simp]: "set (prio_insert f t xs) = insert t (set xs)"
proof -
  have "set (takeWhile P xs) \<union> set (dropWhile P xs) = set xs" for P
    by (metis set_append takeWhile_dropWhile_id)
  then show ?thesis by (auto simp: prio_insert_def)
qed

lemma prio_insert_filter_same: "sorted (map f xs) \<Longrightarrow> filter (\<lambda>x. f x = f t) (prio_insert f t xs) = filter (\<lambda>x. f x = f t) xs @ [t]"
proof -
  assume s: "sorted (map f xs)"
  have dw: "\<forall>x\<in>set (dropWhile (\<lambda>x. f x \<le> f t) xs). f t < f x" using s
  proof (induction xs)
    case (Cons x xs)
    then show ?case by (auto simp: not_le)
  qed simp
  have "filter (\<lambda>x. f x = f t) xs = filter (\<lambda>x. f x = f t) (takeWhile (\<lambda>x. f x \<le> f t) xs) @ filter (\<lambda>x. f x = f t) (dropWhile (\<lambda>x. f x \<le> f t) xs)"
    by (metis filter_append takeWhile_dropWhile_id)
  moreover have "filter (\<lambda>x. f x = f t) (dropWhile (\<lambda>x. f x \<le> f t) xs) = []" using dw by (force simp: filter_empty_conv)
  ultimately show ?thesis by (simp add: prio_insert_def)
qed

subsection \<open>Last task of a priority\<close>

definition last_le :: "('t \<Rightarrow> nat) \<Rightarrow> 't::zero list \<Rightarrow> nat \<Rightarrow> 't" where
  "last_le f xs i = (let ys = filter (\<lambda>x. f x \<le> i) xs in if ys = [] then 0 else last ys)"

lemma push_tails_nth:
  assumes "length tails = MAX_PRIORITY" "j < MAX_PRIORITY"
  shows "push_tails old t i tails ! j = (if i \<le> j \<and> (\<forall>k. i \<le> k \<and> k \<le> j \<longrightarrow> tails ! k = old) then t else tails ! j)"
  using assms
proof (induction old t i tails rule: push_tails.induct)
  case (1 old t i tails)
  show ?case
  proof (cases "i < MAX_PRIORITY \<and> tails ! i = old")
    case True
    then have IH: "push_tails old t (i + 1) (tails[i := t]) ! j =
        (if i + 1 \<le> j \<and> (\<forall>k. i + 1 \<le> k \<and> k \<le> j \<longrightarrow> tails[i := t] ! k = old) then t else tails[i := t] ! j)"
      using 1 by simp
    have k: "(\<forall>k. i + 1 \<le> k \<and> k \<le> j \<longrightarrow> tails[i := t] ! k = old) \<longleftrightarrow> (\<forall>k. i + 1 \<le> k \<and> k \<le> j \<longrightarrow> tails ! k = old)"
      by (auto simp: nth_list_update)
    have split: "(\<forall>k. i \<le> k \<and> k \<le> j \<longrightarrow> tails ! k = old) \<longleftrightarrow> (\<forall>k. i + 1 \<le> k \<and> k \<le> j \<longrightarrow> tails ! k = old)"
      using True by (metis Suc_eq_plus1 Suc_leD le_antisym not_less_eq_eq)
    show ?thesis
      unfolding push_tails.simps [of old t i] if_P [OF True] IH k split
      using True 1 by (cases "j = i") (auto simp: nth_list_update)
  next
    case False
    then have "\<not> (i \<le> j \<and> (\<forall>k. i \<le> k \<and> k \<le> j \<longrightarrow> tails ! k = old))" using 1 by (metis order_refl le_less_trans)
    then show ?thesis unfolding push_tails.simps [of old t i] if_not_P [OF False] by auto
  qed
qed

lemma push_tails_length [simp]: "length (push_tails old t i tails) = length tails"
proof (induction old t i tails rule: push_tails.induct)
  case (1 old t i tails)
  then show ?case by (subst push_tails.simps) auto
qed

lemma pull_tails_push: "0 < i \<Longrightarrow> i \<le> length tails \<Longrightarrow> tails ! (i - 1) = 0 \<Longrightarrow> length tails = MAX_PRIORITY \<Longrightarrow> pull_tails r i tails = push_tails r 0 i tails"
proof (induction r i tails rule: pull_tails.induct)
  case (1 r i tails)
  show ?case
  proof (cases "i < MAX_PRIORITY \<and> tails ! i = r")
    case True
    then have "pull_tails r (i + 1) (tails[i := tails ! (i - 1)]) = push_tails r 0 (i + 1) (tails[i := tails ! (i - 1)])"
      using 1 by simp
    then show ?thesis using True 1(4) by (subst pull_tails.simps, subst push_tails.simps) simp
  next
    case False
    show ?thesis unfolding pull_tails.simps [of r i] push_tails.simps [of r 0 i] if_not_P [OF False] ..
  qed
qed

lemma last_le_in: "filter (\<lambda>x. f x \<le> i) xs \<noteq> [] \<Longrightarrow> last_le f xs i \<in> set xs \<and> f (last_le f xs i) \<le> i"
  using last_in_set [of "filter (\<lambda>x. f x \<le> i) xs"] by (auto simp: last_le_def)

lemma dropWhile_above: "sorted (map f xs) \<Longrightarrow> x \<in> set (dropWhile (\<lambda>x. f x \<le> (i :: nat)) xs) \<Longrightarrow> i < f x"
  by (induction xs) (auto simp: not_le split: if_splits)

lemma filter_takeWhile_le: "sorted (map f xs) \<Longrightarrow> filter (\<lambda>x. f x \<le> (i :: nat)) xs = takeWhile (\<lambda>x. f x \<le> i) xs"
proof (induction xs)
  case (Cons x xs)
  show ?case
  proof (cases "f x \<le> i")
    case False
    then have "\<forall>y\<in>set xs. \<not> f y \<le> i" using Cons.prems by auto
    then show ?thesis using False by simp
  qed (use Cons in simp)
qed simp

text \<open>Inserting task \<open>t\<close> makes it the last one of the priorities from its own up to the next one in use.\<close>

lemma last_le_filters:
  assumes "sorted (map f xs)" "f t \<le> j"
  shows "filter (\<lambda>x. f x \<le> j) xs = takeWhile (\<lambda>x. f x \<le> f t) xs @ filter (\<lambda>x. f x \<le> j) (dropWhile (\<lambda>x. f x \<le> f t) xs)"
    "filter (\<lambda>x. f x \<le> j) (prio_insert f t xs) = takeWhile (\<lambda>x. f x \<le> f t) xs @ t # filter (\<lambda>x. f x \<le> j) (dropWhile (\<lambda>x. f x \<le> f t) xs)"
proof -
  let ?ys = "takeWhile (\<lambda>x. f x \<le> f t) xs" and ?zs = "dropWhile (\<lambda>x. f x \<le> f t) xs"
  have "\<forall>x\<in>set ?ys. f x \<le> j" using assms(2) by (auto dest!: set_takeWhileD intro: order_trans)
  then have y: "filter (\<lambda>x. f x \<le> j) ?ys = ?ys" by (rule filter_True)
  show "filter (\<lambda>x. f x \<le> j) xs = ?ys @ filter (\<lambda>x. f x \<le> j) ?zs"
    using filter_append [of "\<lambda>x. f x \<le> j" ?ys ?zs] y by simp
  show "filter (\<lambda>x. f x \<le> j) (prio_insert f t xs) = ?ys @ t # filter (\<lambda>x. f x \<le> j) ?zs"
    using y assms(2) by (simp add: prio_insert_def)
qed

lemma last_le_insert:
  fixes t :: "'t::zero"
  assumes s: "sorted (map f xs)" and d: "distinct xs" "0 \<notin> set xs" "t \<noteq> 0"
  shows "last_le f (prio_insert f t xs) j =
    (if f t \<le> j \<and> (\<forall>k. f t \<le> k \<and> k \<le> j \<longrightarrow> last_le f xs k = last_le f xs (f t)) then t else last_le f xs j)"
    (is "_ = (if f t \<le> j \<and> ?C then _ else _)")
proof -
  let ?ys = "takeWhile (\<lambda>x. f x \<le> f t) xs" and ?zs = "dropWhile (\<lambda>x. f x \<le> f t) xs"
  have z: "x \<in> set ?zs \<Longrightarrow> f t < f x" for x using dropWhile_above [OF s] .
  note fl = last_le_filters [OF s]
  have flp: "filter (\<lambda>x. f x \<le> f t) xs = ?ys" using filter_takeWhile_le [OF s] .
  consider "\<not> f t \<le> j" | "f t \<le> j" "filter (\<lambda>x. f x \<le> j) ?zs = []" | "f t \<le> j" "filter (\<lambda>x. f x \<le> j) ?zs \<noteq> []" by blast
  then show ?thesis
  proof cases
    case 1
    have "\<not> f x \<le> j" if "x \<in> set ?zs" for x using z [OF that] 1 by linarith
    then have "\<forall>x\<in>set ?zs. \<not> f x \<le> j" by blast
    then have "filter (\<lambda>x. f x \<le> j) ?zs = []" by (rule filter_False)
    then have "filter (\<lambda>x. f x \<le> j) (prio_insert f t xs) = filter (\<lambda>x. f x \<le> j) xs"
      using 1 filter_append [of "\<lambda>x. f x \<le> j" ?ys ?zs] by (simp add: prio_insert_def)
    then show ?thesis using 1 by (simp add: last_le_def)
  next
    case 2
    have "last_le f xs k = last_le f xs (f t)" if "f t \<le> k \<and> k \<le> j" for k
    proof -
      have "\<forall>x\<in>set ?zs. \<not> f x \<le> j" using 2(2) unfolding filter_empty_conv .
      then have "\<forall>x\<in>set ?zs. \<not> f x \<le> k" using that by (blast intro: order_trans)
      then have "filter (\<lambda>x. f x \<le> k) ?zs = []" by (rule filter_False)
      then show ?thesis using fl(1) [of t k] that flp by (simp add: last_le_def)
    qed
    then have c: "f t \<le> j \<and> ?C" using 2(1) by blast
    show ?thesis unfolding if_P [OF c] using fl(2) [OF 2(1)] 2(2) by (simp add: last_le_def)
  next
    case 3
    have l: "last_le f (prio_insert f t xs) j = last (filter (\<lambda>x. f x \<le> j) ?zs)" "last_le f xs j = last (filter (\<lambda>x. f x \<le> j) ?zs)"
      using fl(1) [OF 3(1)] fl(2) [OF 3(1)] 3(2) by (simp_all add: last_le_def)
    have "last_le f xs j \<in> set ?zs" using last_in_set [OF 3(2)] unfolding l by auto
    moreover have "last_le f xs (f t) = 0 \<or> last_le f xs (f t) \<in> set ?ys"
      unfolding last_le_def Let_def flp using last_in_set [of ?ys] by (cases "?ys = []") simp_all
    moreover have "distinct (?ys @ ?zs)" "0 \<notin> set (?ys @ ?zs)" using d by simp_all
    then have "set ?ys \<inter> set ?zs = {}" "0 \<notin> set ?zs" unfolding distinct_append set_append by blast+
    ultimately have "last_le f xs j \<noteq> last_le f xs (f t)" by auto
    then have c: "\<not> (f t \<le> j \<and> ?C)" using 3(1) by blast
    show ?thesis unfolding if_not_P [OF c] l ..
  qed
qed

lemma last_le_tail:
  fixes r :: "'t::zero"
  assumes s: "sorted (map f (r # xs))" and d: "distinct (r # xs)"
  shows "last_le f xs j = (if last_le f (r # xs) j = r then 0 else last_le f (r # xs) j)"
proof (cases "filter (\<lambda>x. f x \<le> j) xs = []")
  case True
  then show ?thesis by (simp add: last_le_def)
next
  case False
  then obtain x where "x \<in> set xs" "f x \<le> j" by (auto simp: filter_empty_conv)
  then have "f r \<le> j" using s by auto
  then have "last_le f (r # xs) j = last_le f xs j" using False by (simp add: last_le_def)
  then show ?thesis using last_le_in [OF False] d by auto
qed

subsection \<open>The contract\<close>

locale priority_queue =
  fixes rel :: "'q \<Rightarrow> 't::zero list \<Rightarrow> bool"
    and prio :: "'q \<Rightarrow> 't \<Rightarrow> nat"
    and push :: "'t \<Rightarrow> 'q \<Rightarrow> 'q"
    and pull :: "'q \<Rightarrow> 't \<times> 'q"
  assumes rel_sorted: "rel q xs \<Longrightarrow> sorted (map (prio q) xs) \<and> 0 \<notin> set xs"
    and push_law: "rel q xs \<Longrightarrow> t \<noteq> 0 \<Longrightarrow> t \<notin> set xs \<Longrightarrow> rel (push t q) (prio_insert (prio q) t xs) \<and> prio (push t q) = prio q"
    and pull_law: "rel q (t # xs) \<Longrightarrow> fst (pull q) = t \<and> rel (snd (pull q)) xs"
    and pull_empty: "rel q [] \<Longrightarrow> pull q = (0, q)"
begin

fun pushes :: "'t list \<Rightarrow> 'q \<Rightarrow> 'q" where
  "pushes [] q = q"
| "pushes (t # ts) q = pushes ts (push t q)"

fun pulls :: "nat \<Rightarrow> 'q \<Rightarrow> 't list" where
  "pulls 0 q = []"
| "pulls (Suc n) q = fst (pull q) # pulls n (snd (pull q))"

lemma pulls_spec: "rel q xs \<Longrightarrow> pulls (length xs + k) q = xs @ replicate k 0"
proof (induction xs arbitrary: q)
  case Nil
  then show ?case by (induction k) (simp_all add: pull_empty)
next
  case (Cons t xs)
  then show ?case using pull_law [OF Cons.prems] by simp
qed

lemma prio_insert_mset: "mset (prio_insert f t xs) = add_mset t (mset xs)"
proof -
  have "mset (takeWhile P xs) + mset (dropWhile P xs) = mset xs" for P
    by (metis mset_append takeWhile_dropWhile_id)
  then show ?thesis by (simp add: prio_insert_def)
qed

lemma prio_insert_filter: "sorted (map f xs) \<Longrightarrow> filter (\<lambda>x. f k = f x) (prio_insert f t xs) = filter (\<lambda>x. f k = f x) (xs @ [t])"
proof (cases "f k = f t")
  case True
  assume "sorted (map f xs)"
  then show ?thesis using prio_insert_filter_same [of f xs t] True by (simp add: eq_commute)
next
  case False
  have "filter P (takeWhile Q xs) @ filter P (dropWhile Q xs) = filter P xs" for P Q
    by (metis filter_append takeWhile_dropWhile_id)
  then show ?thesis using False by (simp add: prio_insert_def)
qed

text \<open>Pushing tasks leaves the queue with the stable sort by priority of the old contents and the new tasks.\<close>

lemma pushes_spec:
  assumes "rel q xs" "0 \<notin> set ts" "distinct ts" "set xs \<inter> set ts = {}"
  shows "rel (pushes ts q) (sort_key (prio q) (xs @ ts)) \<and> prio (pushes ts q) = prio q"
  using assms
proof (induction ts arbitrary: q xs)
  case Nil
  then have "sort_key (prio q) xs = xs" using rel_sorted [OF Nil(1)] by (intro properties_for_sort_key) simp_all
  then show ?case using Nil(1) by simp
next
  case (Cons t ts)
  have s: "sorted (map (prio q) xs)" using rel_sorted [OF Cons.prems(1)] by blast
  note p = push_law [OF Cons.prems(1), of t]
  have st: "sort_key (prio q) (xs @ [t]) = prio_insert (prio q) t xs"
    by (rule properties_for_sort_key) (simp_all add: prio_insert_mset prio_insert_filter s prio_insert_sorted)
  have "rel (pushes ts (push t q)) (sort_key (prio (push t q)) (prio_insert (prio q) t xs @ ts)) \<and> prio (pushes ts (push t q)) = prio (push t q)"
    using Cons.prems p by (intro Cons.IH) auto
  moreover have "sort_key (prio q) (prio_insert (prio q) t xs @ ts) = sort_key (prio q) (xs @ t # ts)"
  proof (rule properties_for_sort_key [symmetric])
    show "filter (\<lambda>x. prio q k = prio q x) (sort_key (prio q) (prio_insert (prio q) t xs @ ts)) = filter (\<lambda>x. prio q k = prio q x) (xs @ t # ts)" for k
      using sort_key_stable [of "prio q" "prio q k" "prio_insert (prio q) t xs @ ts"] prio_insert_filter [OF s, of k t] by (simp add: eq_commute)
  qed (simp_all add: prio_insert_mset)
  ultimately show ?case using p Cons.prems by simp
qed

end

subsection \<open>The queue of a hart\<close>

definition clamped :: "(u64 \<Rightarrow> Task) \<Rightarrow> u64 \<Rightarrow> nat" where
  "clamped ts t = min 39 (unat (queue_priority (ts t)))"

abbreviation next_of :: "(u64 \<Rightarrow> Task) \<Rightarrow> u64 \<Rightarrow> u64" where
  "next_of ts \<equiv> \<lambda>t. sched_next (ts t)"

definition queue_rel :: "ScheduleQueue \<Rightarrow> (u64 \<Rightarrow> Task) \<Rightarrow> u64 list \<Rightarrow> bool" where
  "queue_rel q ts xs \<longleftrightarrow> linked (next_of ts) (q_head q) xs \<and> sorted (map (clamped ts) xs)
     \<and> (\<forall>t\<in>set xs. unat (queue_priority (ts t)) < MAX_PRIORITY) \<and> length (q_tails q) = MAX_PRIORITY
     \<and> (\<forall>i<MAX_PRIORITY. q_tails q ! i = last_le (clamped ts) xs i)"

lemma next_of_set_next: "next_of (set_next a v ts) = (next_of ts)(a := v)"
  by (auto simp: set_next_def)

lemma set_next_other [simp]: "queue_priority (set_next a v ts t) = queue_priority (ts t)" "sched_state (set_next a v ts t) = sched_state (ts t)"
  by (auto simp: set_next_def)

lemma clamped_set_next [simp]: "clamped (set_next a v ts) = clamped ts"
  by (auto simp: clamped_def fun_eq_iff)

lemma prio_insert_front: "filter (\<lambda>x. f x \<le> f t) xs = [] \<Longrightarrow> prio_insert f t xs = t # xs"
  by (cases xs) (auto simp: prio_insert_def)

lemma push_tails_last:
  assumes "sorted (map f xs)" "distinct xs" "0 \<notin> set xs" "t \<noteq> 0" "length tails = MAX_PRIORITY"
    and tl: "\<And>i. i < MAX_PRIORITY \<Longrightarrow> tails ! i = last_le f xs i" and i: "f t < MAX_PRIORITY" "i < MAX_PRIORITY"
  shows "push_tails (tails ! f t) t (f t) tails ! i = last_le f (prio_insert f t xs) i"
proof -
  have "tails ! k = tails ! f t \<longleftrightarrow> last_le f xs k = last_le f xs (f t)" if "k \<le> i" for k
  proof -
    have "k < MAX_PRIORITY" using that i(2) by linarith
    then show ?thesis using tl [of k] tl [OF i(1)] by simp
  qed
  then have "(\<forall>k. f t \<le> k \<and> k \<le> i \<longrightarrow> tails ! k = tails ! f t) \<longleftrightarrow> (\<forall>k. f t \<le> k \<and> k \<le> i \<longrightarrow> last_le f xs k = last_le f xs (f t))"
    by blast
  then show ?thesis unfolding push_tails_nth [OF assms(5) i(2)] last_le_insert [OF assms(1-4)] tl [OF i(2)] by argo
qed

text \<open>Pushing a task whose priority is in range.\<close>

lemma push_in_range:
  assumes q: "queue_rel q ts xs" and t: "t \<noteq> 0" "t \<notin> set xs" "unat (queue_priority (ts t)) < MAX_PRIORITY"
  shows "case pushTaskToQueue q t ts of (q', ts') \<Rightarrow> queue_rel q' ts' (prio_insert (clamped ts) t xs) \<and> clamped ts' = clamped ts"
proof -
  let ?f = "clamped ts" and ?p = "unat (queue_priority (ts t))"
  have q': "linked (next_of ts) (q_head q) xs" "sorted (map ?f xs)" "\<forall>t\<in>set xs. unat (queue_priority (ts t)) < MAX_PRIORITY"
    "length (q_tails q) = MAX_PRIORITY" "\<forall>i<MAX_PRIORITY. q_tails q ! i = last_le ?f xs i"
    using q by (auto simp: queue_rel_def)
  have d: "distinct xs" "0 \<notin> set xs" using lseg_distinct lseg_nonnull q'(1) by blast+
  have p: "?f t = ?p" "\<not> queue_priority (ts t) > LOWEST_TASK_PRIORITY"
    using t(3) by (simp_all add: clamped_def MAX_PRIORITY_def LOWEST_TASK_PRIORITY_def word_less_nat_alt)
  have old: "q_tails q ! ?p = last_le ?f xs (?f t)" using q'(5) t(3) p(1) by simp
  have tl: "push_tails (q_tails q ! ?p) t ?p (q_tails q) ! i = last_le ?f (prio_insert ?f t xs) i" if "i < MAX_PRIORITY" for i
    using push_tails_last [OF q'(2) d t(1) q'(4) _ _ that] q'(5) t(3) p(1) by simp
  have so: "sorted (map ?f (prio_insert ?f t xs))" using prio_insert_sorted [OF q'(2)] .
  have rel: "queue_rel (q\<lparr>q_head := h, q_tails := push_tails (q_tails q ! ?p) t ?p (q_tails q)\<rparr>) ts' (prio_insert ?f t xs)"
    if "linked (next_of ts') h (prio_insert ?f t xs)" "clamped ts' = ?f" "\<forall>x. queue_priority (ts' x) = queue_priority (ts x)" for h ts'
    using that so q'(3,4) t(3) tl by (simp add: queue_rel_def)
  show ?thesis
  proof (cases "q_tails q ! ?p = 0")
    case True
    have "filter (\<lambda>x. ?f x \<le> ?f t) xs = []"
      using last_le_in [of ?f "?f t" xs] True d(2) unfolding old by (cases "filter (\<lambda>x. ?f x \<le> ?f t) xs = []") auto
    then have i: "prio_insert ?f t xs = t # xs" by (rule prio_insert_front)
    have "linked (next_of (set_next t (q_head q) ts)) t (prio_insert ?f t xs)"
      unfolding i next_of_set_next by (rule linked_insert_front [OF q'(1) t(2,1)])
    then have "queue_rel (q\<lparr>q_head := t, q_tails := push_tails (q_tails q ! ?p) t ?p (q_tails q)\<rparr>) (set_next t (q_head q) ts) (prio_insert ?f t xs)"
      by (rule rel) simp_all
    then show ?thesis using True p(2) by (simp add: pushTaskToQueue_def Let_def)
  next
    case False
    let ?a = "q_tails q ! ?p" and ?ys = "takeWhile (\<lambda>x. ?f x \<le> ?f t) xs" and ?zs = "dropWhile (\<lambda>x. ?f x \<le> ?f t) xs"
    have a: "?ys \<noteq> []" "?a = last ?ys"
      using False filter_takeWhile_le [OF q'(2), of "?f t"] unfolding old last_le_def Let_def by (auto split: if_splits)
    then obtain as where as: "?ys = as @ [?a]" by (metis append_butlast_last_id)
    have xs: "xs = as @ ?a # ?zs" using as takeWhile_dropWhile_id [of "\<lambda>x. ?f x \<le> ?f t" xs] by simp
    have "linked (next_of ts) (q_head q) (as @ ?a # ?zs)" using q'(1) xs by simp
    from linked_insert_after [OF this _ t(1)] t(2) xs
    have "linked ((next_of ts)(t := sched_next (ts ?a), ?a := t)) (q_head q) (as @ ?a # t # ?zs)" by simp
    moreover have "prio_insert ?f t xs = as @ ?a # t # ?zs" unfolding prio_insert_def as by simp
    ultimately have "queue_rel (q\<lparr>q_head := q_head q, q_tails := push_tails ?a t ?p (q_tails q)\<rparr>)
        (set_next ?a t (set_next t (sched_next (ts ?a)) ts)) (prio_insert ?f t xs)"
      by (intro rel) (simp_all add: next_of_set_next)
    then show ?thesis using False p(2) by (simp add: pushTaskToQueue_def Let_def)
  qed
qed

lemma queue_rel_cong:
  assumes "queue_rel q ts xs" "\<And>x. x \<in> set xs \<Longrightarrow> sched_next (ts' x) = sched_next (ts x) \<and> queue_priority (ts' x) = queue_priority (ts x)"
  shows "queue_rel q ts' xs"
proof -
  have c: "clamped ts' x = clamped ts x" if "x \<in> set xs" for x using assms(2) [OF that] by (simp add: clamped_def)
  then have "filter (\<lambda>x. clamped ts' x \<le> i) xs = filter (\<lambda>x. clamped ts x \<le> i) xs" for i by (intro filter_cong) simp_all
  then have "last_le (clamped ts') xs i = last_le (clamped ts) xs i" for i by (simp add: last_le_def)
  moreover have "map (clamped ts') xs = map (clamped ts) xs" using c by simp
  moreover have "linked (next_of ts') (q_head q) xs" using assms lseg_cong [of xs "next_of ts'" "next_of ts" "q_head q" 0] by (simp add: queue_rel_def)
  moreover have "\<forall>x\<in>set xs. unat (queue_priority (ts' x)) < MAX_PRIORITY" using assms by (simp add: queue_rel_def)
  ultimately show ?thesis using assms(1) unfolding queue_rel_def by presburger
qed

lemma push_any:
  assumes q: "queue_rel q ts xs" and t: "t \<noteq> 0" "t \<notin> set xs"
  shows "case pushTaskToQueue q t ts of (q', ts') \<Rightarrow> queue_rel q' ts' (prio_insert (clamped ts) t xs) \<and> clamped ts' = clamped ts"
proof (cases "queue_priority (ts t) > LOWEST_TASK_PRIORITY")
  case True
  let ?ts = "ts(t := (ts t)\<lparr>queue_priority := LOWEST_TASK_PRIORITY\<rparr>)"
  have "queue_rel q ?ts xs" by (rule queue_rel_cong [OF q]) (use t(2) in auto)
  note p = push_in_range [OF this t]
  have e: "pushTaskToQueue q t ts = pushTaskToQueue q t ?ts" using True by (simp add: pushTaskToQueue_def)
  have "clamped ?ts = clamped ts"
    using True by (auto simp: clamped_def fun_eq_iff LOWEST_TASK_PRIORITY_def word_less_nat_alt)
  then show ?thesis unfolding e using p by (simp add: LOWEST_TASK_PRIORITY_def MAX_PRIORITY_def)
next
  case False
  then show ?thesis using push_in_range [OF q t] by (simp add: LOWEST_TASK_PRIORITY_def MAX_PRIORITY_def word_less_nat_alt)
qed

lemma last_le_head:
  fixes t :: "'t::zero"
  assumes "distinct (t # xs)" "0 \<notin> set (t # xs)"
  shows "last_le f (t # xs) i = t \<longleftrightarrow> f t \<le> i \<and> filter (\<lambda>x. f x \<le> i) xs = []"
proof (cases "filter (\<lambda>x. f x \<le> i) xs = []")
  case True
  then show ?thesis using assms(2) by (auto simp: last_le_def)
next
  case False
  then have "last_le f (t # xs) i = last_le f xs i" by (simp add: last_le_def)
  then show ?thesis using False last_le_in [OF False] assms(1) by auto
qed

lemma pull_tails_last:
  fixes tails :: "u64 list"
  assumes s: "sorted (map f (t # xs))" and d: "distinct (t # xs)" "0 \<notin> set (t # xs)" and l: "length tails = MAX_PRIORITY"
    and tl: "\<And>i. i < MAX_PRIORITY \<Longrightarrow> tails ! i = last_le f (t # xs) i" and p: "f t < MAX_PRIORITY" and i: "i < MAX_PRIORITY"
    and t: "tails ! f t = t"
  shows "pull_tails t (f t + 1) (tails[f t := 0]) ! i = last_le f xs i"
proof -
  let ?tl = "tails[f t := 0]"
  note lt = last_le_tail [OF s d(1)] and lh = last_le_head [OF d, of f]
  have pt: "pull_tails t (f t + 1) ?tl = push_tails t 0 (f t + 1) ?tl" using p l by (intro pull_tails_push) auto
  have l': "length ?tl = MAX_PRIORITY" using l by simp
  have n: "?tl ! k = (if k = f t then 0 else last_le f (t # xs) k)" if "k < MAX_PRIORITY" for k
    using tl [OF that] l that by (simp add: nth_list_update)
  have all: "(\<forall>k. f t + 1 \<le> k \<and> k \<le> i \<longrightarrow> ?tl ! k = t) \<longleftrightarrow> last_le f (t # xs) i = t" if j: "f t + 1 \<le> i"
  proof
    assume "\<forall>k. f t + 1 \<le> k \<and> k \<le> i \<longrightarrow> ?tl ! k = t"
    then show "last_le f (t # xs) i = t" using n [OF i] j by auto
  next
    assume a: "last_le f (t # xs) i = t"
    have "last_le f (t # xs) k = t" if "f t + 1 \<le> k" "k \<le> i" for k
      using a that unfolding lh filter_empty_conv by (auto intro: order_trans)
    moreover have "?tl ! k = last_le f (t # xs) k" if "f t + 1 \<le> k" "k \<le> i" for k using n [of k] i that by simp
    ultimately show "\<forall>k. f t + 1 \<le> k \<and> k \<le> i \<longrightarrow> ?tl ! k = t" by presburger
  qed
  consider "i < f t" | "i = f t" | "f t < i" by linarith
  then show ?thesis
  proof cases
    case 1
    have "\<forall>x\<in>set xs. \<not> f x \<le> i" using s 1 by auto
    then have "last_le f xs i = 0" "last_le f (t # xs) i = 0" using 1 by (simp_all add: last_le_def)
    then show ?thesis unfolding pt push_tails_nth [OF l' i] n [OF i] using 1 by simp
  next
    case 2
    then show ?thesis unfolding pt push_tails_nth [OF l' i] n [OF i] lt using t tl [OF p] by simp
  next
    case 3
    then show ?thesis unfolding pt push_tails_nth [OF l' i] n [OF i] lt using all by simp
  qed
qed

lemma pull_spec:
  assumes q: "queue_rel q ts (t # xs)"
  shows "case pullTaskFromQueue q ts of (r, q') \<Rightarrow> r = t \<and> queue_rel q' ts xs"
proof -
  let ?f = "clamped ts" and ?p = "unat (queue_priority (ts t))"
  have q': "linked (next_of ts) (q_head q) (t # xs)" "sorted (map ?f (t # xs))" "\<forall>x\<in>set (t # xs). unat (queue_priority (ts x)) < MAX_PRIORITY"
    "length (q_tails q) = MAX_PRIORITY" "\<And>i. i < MAX_PRIORITY \<Longrightarrow> q_tails q ! i = last_le ?f (t # xs) i"
    using q by (auto simp: queue_rel_def)
  have d: "distinct (t # xs)" "0 \<notin> set (t # xs)" using lseg_distinct lseg_nonnull q'(1) by blast+
  have h: "q_head q = t" "t \<noteq> 0" "linked (next_of ts) (sched_next (ts t)) xs" using q'(1) by auto
  have p: "?f t < MAX_PRIORITY" "?f t = ?p" using q'(3) by (auto simp: clamped_def MAX_PRIORITY_def)
  note lt = last_le_tail [OF q'(2) d(1)] and lh = last_le_head [OF d, of ?f]
  have rel: "queue_rel (q\<lparr>q_head := sched_next (ts t), q_tails := tls\<rparr>) ts xs"
    if "length tls = MAX_PRIORITY" "\<And>i. i < MAX_PRIORITY \<Longrightarrow> tls ! i = last_le ?f xs i" for tls
    using that h(3) q'(2,3) unfolding queue_rel_def by simp
  show ?thesis
  proof (cases "q_tails q ! ?p = t")
    case True
    have z: "(if ?p = 0 then 0 else q_tails q ! (?p - 1)) = 0"
    proof (cases "?p = 0")
      case False
      have "\<forall>x\<in>set (t # xs). \<not> ?f x \<le> ?p - 1" using q'(2) p(2) False by auto
      then have "last_le ?f (t # xs) (?p - 1) = 0" unfolding last_le_def by (simp only: filter_False Let_def simp_thms if_True)
      then show ?thesis using q'(5) [of "?p - 1"] p by simp
    qed simp
    have tl: "pull_tails t (?p + 1) ((q_tails q)[?p := 0]) ! i = last_le ?f xs i" if "i < MAX_PRIORITY" for i
      using pull_tails_last [OF q'(2) d q'(4,5) p(1) that] True p(2) by simp
    have "length (pull_tails t (?p + 1) ((q_tails q)[?p := 0])) = MAX_PRIORITY"
      using pull_tails_push [of "?p + 1" "(q_tails q)[?p := 0]" t] q'(4) p by simp
    from rel [OF this tl] show ?thesis
      using True h z by (cases "?p = 0") (simp_all add: pullTaskFromQueue_def Let_def)
  next
    case False
    have "last_le ?f (t # xs) i \<noteq> t" for i
    proof
      assume i: "last_le ?f (t # xs) i = t"
      then have "\<forall>x\<in>set xs. \<not> ?f x \<le> ?f t" unfolding lh filter_empty_conv by (meson order_trans)
      then have "last_le ?f (t # xs) (?f t) = t" unfolding lh by simp
      then show False using False q'(5) [OF p(1)] p(2) by simp
    qed
    then have "queue_rel (q\<lparr>q_head := sched_next (ts t), q_tails := q_tails q\<rparr>) ts xs" using q'(4,5) lt by (intro rel) simp_all
    then show ?thesis using False h by (simp add: pullTaskFromQueue_def Let_def)
  qed
qed

text \<open>The queue of a hart together with the heap of tasks is a priority queue.\<close>

definition queue_push :: "u64 \<Rightarrow> ScheduleQueue \<times> (u64 \<Rightarrow> Task) \<Rightarrow> ScheduleQueue \<times> (u64 \<Rightarrow> Task)" where
  "queue_push t = (\<lambda>(q, ts). pushTaskToQueue q t ts)"

definition queue_pull :: "ScheduleQueue \<times> (u64 \<Rightarrow> Task) \<Rightarrow> u64 \<times> ScheduleQueue \<times> (u64 \<Rightarrow> Task)" where
  "queue_pull = (\<lambda>(q, ts). case pullTaskFromQueue q ts of (t, q') \<Rightarrow> (t, q', ts))"

interpretation ready: priority_queue "\<lambda>(q, ts). queue_rel q ts" "\<lambda>(q, ts). clamped ts" queue_push queue_pull
proof unfold_locales
  fix qs :: "ScheduleQueue \<times> (u64 \<Rightarrow> Task)" and xs t
  obtain q ts where [simp]: "qs = (q, ts)" by (cases qs)
  show "(\<lambda>(q, ts). queue_rel q ts) qs xs \<Longrightarrow> sorted (map ((\<lambda>(q, ts). clamped ts) qs) xs) \<and> 0 \<notin> set xs"
    using lseg_nonnull by (auto simp: queue_rel_def)
  show "(\<lambda>(q, ts). queue_rel q ts) qs xs \<Longrightarrow> t \<noteq> 0 \<Longrightarrow> t \<notin> set xs \<Longrightarrow>
      (\<lambda>(q, ts). queue_rel q ts) (queue_push t qs) (prio_insert ((\<lambda>(q, ts). clamped ts) qs) t xs) \<and> (\<lambda>(q, ts). clamped ts) (queue_push t qs) = (\<lambda>(q, ts). clamped ts) qs"
    using push_any [of q ts xs t] by (auto simp: queue_push_def split: prod.splits)
  show "(\<lambda>(q, ts). queue_rel q ts) qs (t # xs) \<Longrightarrow> fst (queue_pull qs) = t \<and> (\<lambda>(q, ts). queue_rel q ts) (snd (queue_pull qs)) xs"
    using pull_spec [of q ts t xs] by (auto simp: queue_pull_def split: prod.splits)
  show "(\<lambda>(q, ts). queue_rel q ts) qs [] \<Longrightarrow> queue_pull qs = (0, qs)"
    by (auto simp: queue_rel_def queue_pull_def pullTaskFromQueue_def)
qed

subsection \<open>Properties\<close>

text \<open>
  Property C8 (ready_queue_order). Let the ready queue of a hart hold the tasks \<open>xs\<close>. After any
  tasks \<open>new\<close>, none of them in the queue yet, have been pushed one after the other, pulling
  returns the tasks \<open>xs @ new\<close> sorted by priority and in order of arrival among equals
  (priorities above the lowest one count as the lowest), and NULL when the queue has run empty.
\<close>

theorem ready_queue_order:
  assumes "queue_rel q ts xs" "0 \<notin> set new" "distinct new" "set xs \<inter> set new = {}"
  shows "ready.pulls (length xs + length new + k) (ready.pushes new (q, ts)) = sort_key (clamped ts) (xs @ new) @ replicate k 0"
  using ready.pulls_spec [of "ready.pushes new (q, ts)" "sort_key (clamped ts) (xs @ new)" k]
    ready.pushes_spec [of "(q, ts)" xs new] assms by simp

text \<open>Witness: three tasks pushed on an empty queue.\<close>

definition empty_queue :: ScheduleQueue where
  "empty_queue = \<lparr>q_head = 0, q_tails = replicate MAX_PRIORITY 0\<rparr>"

lemma empty_queue_rel: "queue_rel empty_queue ts []"
  by (simp add: queue_rel_def empty_queue_def last_le_def)

definition example_tasks :: "u64 \<Rightarrow> Task" where
  "example_tasks t = \<lparr>priority = 20, queue_priority = if t = 0x100 then 30 else 20, run_for = 0, sched_state = READY,
     sched_next = 0, locks_next = 0, wakeup_function = 0, wakeup_udata = 0, task_hart = 0, task_process = 0\<rparr>"

theorem ready_queue_order_witness:
  "ready.pulls 4 (ready.pushes [0x100, 0x200, 0x300] (empty_queue, example_tasks)) = [0x200, 0x300, 0x100, 0]"
proof -
  have n: "4 = length ([] :: u64 list) + length [0x100, 0x200, 0x300 :: u64] + 1" by simp
  show ?thesis
    unfolding n using ready_queue_order [OF empty_queue_rel, where new = "[0x100, 0x200, 0x300]" and ts = example_tasks and k = 1]
    by (simp add: clamped_def example_tasks_def del: ready.pulls.simps ready.pushes.simps)
qed

text \<open>
  Property C9 (removeTaskFromQueue_truncates). \<open>removeTaskFromQueue\<close> of a task that is in the queue
  but not at its head returns NULL and leaves the queue empty: the task and all others are lost.
\<close>

theorem removeTaskFromQueue_truncates:
  assumes "queue_rel q ts (x # xs)" "t \<in> set xs"
  shows "fst (removeTaskFromQueue q t ts) = 0 \<and> linked (next_of ts) (q_head (snd (removeTaskFromQueue q t ts))) []"
proof -
  have "linked (next_of ts) (q_head q) (x # xs)" using assms(1) by (simp add: queue_rel_def)
  then have "q_head q = x" "x \<noteq> 0" "x \<notin> set xs" using lseg_distinct [of "next_of ts" "q_head q" "x # xs"] by auto
  then show ?thesis using assms(2) by (auto simp: removeTaskFromQueue_def)
qed

theorem removeTaskFromQueue_truncates_witness:
  "fst (removeTaskFromQueue \<lparr>q_head = 0x200, q_tails = replicate 20 0 @ replicate 20 0x300\<rparr> 0x300 (example_tasks(0x200 := (example_tasks 0x200)\<lparr>sched_next := 0x300\<rparr>))) = 0"
proof -
  let ?ts = "example_tasks(0x200 := (example_tasks 0x200)\<lparr>sched_next := 0x300\<rparr>)"
  have "(replicate 20 0 @ replicate 20 0x300) ! i = last_le (clamped ?ts) [0x200, 0x300] i" if "i < 40" for i
    using that by (cases "20 \<le> i") (simp_all add: nth_append last_le_def clamped_def example_tasks_def)
  then have "queue_rel \<lparr>q_head = 0x200, q_tails = replicate 20 0 @ replicate 20 0x300\<rparr> ?ts (0x200 # [0x300])"
    by (simp add: queue_rel_def clamped_def MAX_PRIORITY_def) (simp add: example_tasks_def)
  from removeTaskFromQueue_truncates [OF this, of "0x300"] show ?thesis by simp
qed

end
