(* ===== verification/SchedInv.thy ===== *)
theory SchedInv
  imports ReadyQueue
begin

text \<open>
  The invariant of the scheduler and what its operations do to it: the ready queues of the harts
  and the waiting list share the link field \<open>sched_next\<close>, so no task may be in two of them.
\<close>

definition sched_inv :: "'a Sched_scheme \<Rightarrow> (u64 \<Rightarrow> u64 list) \<Rightarrow> u64 list \<Rightarrow> bool" where
  "sched_inv s Q ws \<longleftrightarrow> (\<forall>h. queue_rel (hart_queue (harts s h)) (tasks s) (Q h)) \<and> linked (next_of (tasks s)) (waiting s) ws
     \<and> (\<forall>h h'. h \<noteq> h' \<longrightarrow> set (Q h) \<inter> set (Q h') = {}) \<and> (\<forall>h. set (Q h) \<inter> set ws = {})
     \<and> (\<forall>t\<in>set ws. sched_state (tasks s t) = WAITING)
     \<and> (\<forall>h. \<forall>t\<in>set (Q h). sched_state (tasks s t) \<in> {READY, STOPPED, TERMINATED})"

lemma sched_invD:
  assumes "sched_inv s Q ws"
  shows "queue_rel (hart_queue (harts s h)) (tasks s) (Q h)" "linked (next_of (tasks s)) (waiting s) ws"
    "h \<noteq> h' \<Longrightarrow> set (Q h) \<inter> set (Q h') = {}" "set (Q h) \<inter> set ws = {}"
    "t \<in> set ws \<Longrightarrow> sched_state (tasks s t) = WAITING" "t \<in> set (Q h) \<Longrightarrow> sched_state (tasks s t) \<in> {READY, STOPPED, TERMINATED}"
  using assms unfolding sched_inv_def by blast+

lemma sched_inv_nonnull: "sched_inv s Q ws \<Longrightarrow> 0 \<notin> set ws \<and> 0 \<notin> set (Q h) \<and> distinct ws"
  using sched_invD(1,2) [of s Q ws] lseg_nonnull lseg_distinct unfolding queue_rel_def by metis

text \<open>Changing the link and the state of a task in no list.\<close>

lemma sched_inv_other:
  assumes "sched_inv s Q ws" "t \<notin> set ws" "\<And>h. t \<notin> set (Q h)"
  shows "sched_inv (s\<lparr>tasks := (tasks s)(t := x)\<rparr>) Q ws"
  unfolding sched_inv_def
proof (intro conjI allI impI ballI)
  fix h
  show "queue_rel (hart_queue (harts (s\<lparr>tasks := (tasks s)(t := x)\<rparr>) h)) (tasks (s\<lparr>tasks := (tasks s)(t := x)\<rparr>)) (Q h)"
    using queue_rel_cong [OF sched_invD(1) [OF assms(1), of h], of "(tasks s)(t := x)"] assms(3) [of h] by fastforce
  show "linked (next_of (tasks (s\<lparr>tasks := (tasks s)(t := x)\<rparr>))) (waiting (s\<lparr>tasks := (tasks s)(t := x)\<rparr>)) ws"
    using lseg_cong [of ws "next_of ((tasks s)(t := x))" "next_of (tasks s)" "waiting s" 0] sched_invD(2) [OF assms(1)] assms(2) by fastforce
qed (use assms sched_invD(3-6) [OF assms(1)] in auto)

lemma sched_inv_state:
  assumes "sched_inv s Q ws" "t \<notin> set ws" "\<And>h. t \<in> set (Q h) \<Longrightarrow> st \<in> {READY, STOPPED, TERMINATED}"
  shows "sched_inv (set_state t st s) Q ws"
  unfolding sched_inv_def
proof (intro conjI allI impI ballI)
  fix h
  show "queue_rel (hart_queue (harts (set_state t st s) h)) (tasks (set_state t st s)) (Q h)"
    using queue_rel_cong [OF sched_invD(1) [OF assms(1)], of h "tasks (set_state t st s)"] by (auto simp: set_state_def)
  show "linked (next_of (tasks (set_state t st s))) (waiting (set_state t st s)) ws"
    using lseg_cong [of ws "next_of (tasks (set_state t st s))" "next_of (tasks s)" "waiting s" 0] sched_invD(2) [OF assms(1)]
    by (auto simp: set_state_def)
  fix x assume "x \<in> set (Q h)"
  then show "sched_state (tasks (set_state t st s) x) \<in> {READY, STOPPED, TERMINATED}"
    using sched_invD(6) [OF assms(1)] assms(3) by (auto simp: set_state_def)
next
  fix x assume "x \<in> set ws"
  then show "sched_state (tasks (set_state t st s) x) = WAITING" using sched_invD(5) [OF assms(1)] assms(2) by (auto simp: set_state_def)
qed (use sched_invD(3,4) [OF assms(1)] in auto)

subsection \<open>Waiting tasks\<close>

lemma in_waiting_run: "linked (next_of ts) p ws \<Longrightarrow> in_waiting ts p t = (if t \<in> set ws then None else Some ())"
proof (induction ws arbitrary: p)
  case Nil
  then show ?case by (simp add: in_waiting.simps)
next
  case (Cons w ws)
  then show ?case by (subst in_waiting.simps) auto
qed

lemma addWaitingTask_spec:
  assumes "sched_inv s Q ws" "t \<noteq> 0" "sched_state (tasks s t) = WAITING"
  shows "if t \<in> set ws then addWaitingTask t s = None else \<exists>s'. addWaitingTask t s = Some s' \<and> sched_inv s' Q (t # ws)"
proof -
  have l: "linked (next_of (tasks s)) (waiting s) ws" using sched_invD(2) [OF assms(1)] .
  have q: "t \<notin> set (Q h)" for h using sched_invD(6) [OF assms(1), of t h] assms(3) by auto
  show ?thesis
  proof (cases "t \<in> set ws")
    case True
    then show ?thesis using in_waiting_run [OF l, of t] by (auto simp: addWaitingTask_def cassert_def)
  next
    case False
    then have "t \<noteq> waiting s" using l assms(2) by (cases ws) auto
    moreover have "sched_inv (s\<lparr>tasks := set_next t (waiting s) (tasks s)\<rparr>) Q ws"
      using sched_inv_other [OF assms(1) False q] by (simp add: set_next_def)
    then have "sched_inv (s\<lparr>tasks := set_next t (waiting s) (tasks s), waiting := t\<rparr>) Q (t # ws)"
      using linked_insert_front [OF l False assms(2)] q assms(3) unfolding sched_inv_def by (simp add: next_of_set_next)
    ultimately show ?thesis using in_waiting_run [OF l, of t] False by (simp add: addWaitingTask_def)
  qed
qed

lemma awaken_find_run:
  assumes "linked (next_of ts) p ws"
  shows "awaken_find ts prev p t = Some (if t \<in> set ws then (last (prev # takeWhile (\<lambda>x. x \<noteq> t) ws), t) else (last (prev # ws), 0))"
  using assms
proof (induction ws arbitrary: p prev)
  case Nil
  then show ?case by (simp add: awaken_find.simps)
next
  case (Cons w ws)
  show ?case
  proof (cases "w = t")
    case True
    then show ?thesis using Cons.prems by (simp add: awaken_find.simps)
  next
    case False
    then show ?thesis using Cons by (subst awaken_find.simps) auto
  qed
qed

lemma takeWhile_split: "t \<in> set ws \<Longrightarrow> \<exists>bs. ws = takeWhile (\<lambda>x. x \<noteq> t) ws @ t # bs \<and> remove1 t ws = takeWhile (\<lambda>x. x \<noteq> t) ws @ bs"
  by (induction ws) auto

text \<open>Unlinking a waiting task whose predecessor in the list is known.\<close>

lemma unlink_waiting_linked:
  assumes "linked (next_of (tasks s)) (waiting s) (as @ t # bs)"
  shows "linked (next_of (tasks (unlink_waiting (last (0 # as)) t s))) (waiting (unlink_waiting (last (0 # as)) t s)) (as @ bs)"
proof (cases as rule: rev_cases)
  case Nil
  then show ?thesis using assms by (auto simp: unlink_waiting_def)
next
  case (snoc cs c)
  have "c \<noteq> 0" using lseg_nonnull [OF assms] snoc by auto
  then show ?thesis using linked_remove_after [of "next_of (tasks s)" "waiting s" cs c t bs] assms snoc
    by (simp add: unlink_waiting_def next_of_set_next)
qed

lemma unlink_waiting_inv:
  assumes "sched_inv s Q (as @ t # bs)"
  shows "sched_inv (unlink_waiting (last (0 # as)) t s) Q (as @ bs)"
    "sched_state (tasks (unlink_waiting (last (0 # as)) t s) x) = sched_state (tasks s x)"
    "harts (unlink_waiting (last (0 # as)) t s) = harts s"
    "task_hart (tasks (unlink_waiting (last (0 # as)) t s) x) = task_hart (tasks s x)"
    "wakeup_function (tasks (unlink_waiting (last (0 # as)) t s) x) = wakeup_function (tasks s x)"
    "wakeup_udata (tasks (unlink_waiting (last (0 # as)) t s) x) = wakeup_udata (tasks s x)"
proof -
  let ?s = "unlink_waiting (last (0 # as)) t s"
  show st: "sched_state (tasks ?s x) = sched_state (tasks s x)" "harts ?s = harts s" "task_hart (tasks ?s x) = task_hart (tasks s x)"
    "wakeup_function (tasks ?s x) = wakeup_function (tasks s x)" "wakeup_udata (tasks ?s x) = wakeup_udata (tasks s x)" for x
    by (auto simp: unlink_waiting_def set_next_def)
  have q: "queue_rel (hart_queue (harts s h)) (tasks ?s) (Q h)" for h
  proof (rule queue_rel_cong [OF sched_invD(1) [OF assms]])
    fix x assume "x \<in> set (Q h)"
    then have "x \<noteq> last (0 # as)" using sched_invD(4) [OF assms, of h] sched_inv_nonnull [OF assms, of h] by (cases as rule: rev_cases) auto
    then show "sched_next (tasks ?s x) = sched_next (tasks s x) \<and> queue_priority (tasks ?s x) = queue_priority (tasks s x)"
      by (simp add: unlink_waiting_def set_next_def)
  qed
  show "sched_inv ?s Q (as @ bs)"
    using q unlink_waiting_linked [OF sched_invD(2) [OF assms]] sched_invD(3-6) [OF assms] st unfolding sched_inv_def by auto
qed

lemma awakenTask_spec:
  assumes "sched_inv s Q ws"
  shows "if t \<in> set ws then \<exists>s'. awakenTask t s = Some s' \<and> sched_inv s' Q (remove1 t ws) \<and> sched_state (tasks s' t) = ENQUABLE
           \<and> (\<forall>x. x \<noteq> t \<longrightarrow> sched_state (tasks s' x) = sched_state (tasks s x)) \<and> (\<forall>x. task_hart (tasks s' x) = task_hart (tasks s x)) \<and> harts s' = harts s
         else t \<noteq> 0 \<longrightarrow> awakenTask t s = None"
proof (cases "t \<in> set ws")
  case True
  let ?as = "takeWhile (\<lambda>x. x \<noteq> t) ws"
  from takeWhile_split [OF True] obtain bs where bs: "ws = ?as @ t # bs" "remove1 t ws = ?as @ bs" by blast
  let ?s = "unlink_waiting (last (0 # ?as)) t s"
  have inv: "sched_inv s Q (?as @ t # bs)" using assms bs(1) by simp
  note u = unlink_waiting_inv [OF inv]
  have "t \<notin> set (?as @ bs)" using sched_inv_nonnull [OF inv] by auto
  moreover have "t \<notin> set (Q h)" for h using sched_invD(4) [OF assms, of h] True by auto
  ultimately have "sched_inv (set_state t ENQUABLE ?s) Q (remove1 t ws)"
    unfolding bs(2) by (intro sched_inv_state [OF u(1)]) auto
  moreover have "sched_state (tasks s t) = WAITING" using sched_invD(5) [OF assms True] .
  moreover from this have "awakenTask t s = Some (set_state t ENQUABLE ?s)"
    using True awaken_find_run [OF sched_invD(2) [OF assms], of 0 t] u(2) by (simp add: awakenTask_def Let_def)
  ultimately show ?thesis using True u(2-4) by (auto simp: set_state_def)
next
  case False
  then show ?thesis using awaken_find_run [OF sched_invD(2) [OF assms], of 0 t] by (auto simp: awakenTask_def cassert_def)
qed

subsection \<open>State changes\<close>

text \<open>The state \<open>moveTaskToState\<close> leaves a task in.\<close>

definition next_state :: "TaskState \<Rightarrow> TaskState \<Rightarrow> TaskState" where
  "next_state old st = (if old = TERMINATED \<or> old = STOPPED \<and> st \<noteq> TERMINATED then old else st)"

lemma moveTaskToState_spec:
  assumes inv: "sched_inv s Q ws" and t: "t \<noteq> 0" "sched_state (tasks s t) \<noteq> WAITING"
    and q: "\<And>h. t \<in> set (Q h) \<Longrightarrow> st \<in> {READY, STOPPED, TERMINATED}"
  shows "\<exists>s'. moveTaskToState t st s = Some s' \<and> sched_inv s' Q ws
    \<and> s' = set_state t (next_state (sched_state (tasks s t)) st) s"
proof -
  have "t \<notin> set ws" using sched_invD(5) [OF inv] t(2) by blast
  moreover have "t \<in> set (Q h) \<Longrightarrow> next_state (sched_state (tasks s t)) st \<in> {READY, STOPPED, TERMINATED}" for h
    using q sched_invD(6) [OF inv, of t h] by (auto simp: next_state_def)
  ultimately have "sched_inv (set_state t (next_state (sched_state (tasks s t)) st) s) Q ws" by (intro sched_inv_state [OF inv])
  moreover have "set_state t (sched_state (tasks s t)) s = s" by (simp add: set_state_def)
  ultimately show ?thesis using t by (auto simp: moveTaskToState_def next_state_def)
qed

lemma moveTaskToState_waiting:
  assumes inv: "sched_inv s Q ws" and t: "t \<noteq> 0" "sched_state (tasks s t) = WAITING"
  shows "if t \<in> set ws \<and> st \<in> {TERMINATED, STOPPED} then \<exists>s'. moveTaskToState t st s = Some s' \<and> sched_inv s' Q (remove1 t ws) \<and> sched_state (tasks s' t) = st
    else moveTaskToState t st s = None"
proof (cases "t \<in> set ws \<and> st \<in> {TERMINATED, STOPPED}")
  case True
  with awakenTask_spec [OF inv, of t] obtain s1 where
    s1: "awakenTask t s = Some s1" "sched_inv s1 Q (remove1 t ws)" "sched_state (tasks s1 t) = ENQUABLE" by auto
  have "t \<notin> set (remove1 t ws)" using sched_inv_nonnull [OF inv] by simp
  then have "sched_inv (set_state t st s1) Q (remove1 t ws)" using True by (intro sched_inv_state [OF s1(2)]) auto
  then show ?thesis using True t s1(1,3) by (auto simp: moveTaskToState_def set_state_def)
next
  case False
  then show ?thesis using t awakenTask_spec [OF inv, of t] by (auto simp: moveTaskToState_def cassert_def)
qed

subsection \<open>Enqueuing\<close>

lemma push_on_hart_inv:
  assumes inv: "sched_inv s Q ws" and t: "t \<noteq> 0" "t \<notin> set ws" "\<And>h. t \<notin> set (Q h)" "sched_state (tasks s t) = READY"
  shows "sched_inv (push_on_hart h t s) (Q(h := prio_insert (clamped (tasks s)) t (Q h))) ws
    \<and> (\<forall>x. sched_state (tasks (push_on_hart h t s) x) = sched_state (tasks s x))"
proof -
  obtain q ts where p: "pushTaskToQueue (hart_queue (harts s h)) t (tasks s) = (q, ts)" by fastforce
  let ?s = "push_on_hart h t s" and ?Q = "Q(h := prio_insert (clamped (tasks s)) t (Q h))"
  have s: "tasks ?s = ts" "waiting ?s = waiting s" "harts ?s = (harts s)(h := (harts s h)\<lparr>hart_queue := q\<rparr>)"
    by (simp_all add: push_on_hart_def p)
  have r: "queue_rel q ts (prio_insert (clamped (tasks s)) t (Q h))"
    using push_any [OF sched_invD(1) [OF inv, of h] t(1,3)] by (simp add: p)
  have tail: "q_tails (hart_queue (harts s h)) ! i \<in> insert 0 (set (Q h))" if "i < MAX_PRIORITY" for i
    using sched_invD(1) [OF inv, of h] that last_le_in [of "clamped (tasks s)" i "Q h"]
    by (cases "filter (\<lambda>x. clamped (tasks s) x \<le> i) (Q h) = []") (auto simp: queue_rel_def last_le_def)
  have same: "sched_next (ts x) = sched_next (tasks s x) \<and> queue_priority (ts x) = queue_priority (tasks s x)" if "x \<noteq> t" "x \<notin> set (Q h)" "x \<noteq> 0" for x
  proof -
    let ?p = "unat (queue_priority (if queue_priority (tasks s t) > LOWEST_TASK_PRIORITY then (tasks s t)\<lparr>queue_priority := LOWEST_TASK_PRIORITY\<rparr> else tasks s t))"
    have "?p < MAX_PRIORITY" by (auto simp: MAX_PRIORITY_def LOWEST_TASK_PRIORITY_def word_less_nat_alt)
    then have "x \<noteq> q_tails (hart_queue (harts s h)) ! ?p" using tail [of ?p] that by auto
    then show ?thesis using p that by (auto simp: pushTaskToQueue_def Let_def set_next_def split: if_splits)
  qed
  have st: "sched_state (ts x) = sched_state (tasks s x)" for x
    using p by (auto simp: pushTaskToQueue_def Let_def set_next_def split: if_splits)
  have q': "queue_rel (hart_queue (harts s h')) ts (Q h')" if "h' \<noteq> h" for h'
  proof (rule queue_rel_cong [OF sched_invD(1) [OF inv]])
    fix x assume "x \<in> set (Q h')"
    then show "sched_next (ts x) = sched_next (tasks s x) \<and> queue_priority (ts x) = queue_priority (tasks s x)"
      using same [of x] sched_invD(3) [OF inv, of h' h] sched_inv_nonnull [OF inv, of h'] t(3) that by auto
  qed
  have "linked (next_of ts) (waiting s) ws"
  proof -
    have "next_of ts x = next_of (tasks s) x" if "x \<in> set ws" for x
      using same [of x] that sched_invD(4) [OF inv, of h] sched_inv_nonnull [OF inv] t(2) by auto
    then show ?thesis using lseg_cong [of ws "next_of ts" "next_of (tasks s)"] sched_invD(2) [OF inv] by simp
  qed
  then have "sched_inv ?s ?Q ws"
    using r q' st t sched_invD(3-6) [OF inv] unfolding sched_inv_def s by auto
  then show ?thesis using st s(1) by simp
qed

lemma lower_priority_fields [simp]:
  "sched_state (lower_priority t) = sched_state t" "sched_next (lower_priority t) = sched_next t"
  by (auto simp: lower_priority_def)

lemma enqueueTask_spec:
  assumes inv: "sched_inv s Q ws" and t: "t \<noteq> 0"
    and h: "h = (if task_hart (tasks s t) = 0 then cur else task_hart (tasks s t))" "h \<noteq> 0" "idle_task (harts s h) \<noteq> t"
  shows "case sched_state (tasks s t) of
      ENQUABLE \<Rightarrow> \<exists>s'. enqueueTask dealloc cur t s = Some s' \<and> sched_state (tasks s' t) = READY \<and>
        sched_inv s' (Q(h := prio_insert (\<lambda>x. if x = t then min 39 (unat (queue_priority (lower_priority (tasks s t)))) else clamped (tasks s) x) t (Q h))) ws
        \<and> (\<forall>x. x \<noteq> t \<longrightarrow> sched_state (tasks s' x) = sched_state (tasks s x))
    | WAITING \<Rightarrow> if t \<in> set ws then enqueueTask dealloc cur t s = None
                else \<exists>s'. enqueueTask dealloc cur t s = Some s' \<and> sched_inv s' Q (t # ws)
    | TERMINATED \<Rightarrow> enqueueTask dealloc cur t s = dealloc t s
    | UNKNOWN \<Rightarrow> enqueueTask dealloc cur t s = None
    | _ \<Rightarrow> enqueueTask dealloc cur t s = Some s"
proof (cases "sched_state (tasks s t) = ENQUABLE")
  case True
  have n: "t \<notin> set ws" "t \<notin> set (Q h)" for h
    using True sched_invD(5) [OF inv, of t] sched_invD(6) [OF inv, of t h] by auto
  from moveTaskToState_spec [OF inv t, of READY] True n(2) obtain s1 where
    s1: "moveTaskToState t READY s = Some s1" "sched_inv s1 Q ws" "s1 = set_state t READY s" by (auto simp: next_state_def)
  let ?s2 = "s1\<lparr>tasks := (tasks s1)(t := lower_priority (tasks s1 t))\<rparr>"
  have "sched_inv ?s2 Q ws" by (rule sched_inv_other [OF s1(2) n])
  note ph = push_on_hart_inv [OF this t n, of h]
  have c: "clamped (tasks ?s2) = (\<lambda>x. if x = t then min 39 (unat (queue_priority (lower_priority (tasks s t)))) else clamped (tasks s) x)"
    by (auto simp: clamped_def s1(3) set_state_def fun_eq_iff lower_priority_def)
  have "enqueueTask dealloc cur t s = Some (push_on_hart h t ?s2)"
    using True h s1(1) by (auto simp: enqueueTask_def Let_def)
  then show ?thesis using ph True unfolding c by (auto simp: s1(3) set_state_def)
next
  case False
  then show ?thesis
    using h addWaitingTask_spec [OF inv t] by (cases "sched_state (tasks s t)") (auto simp: enqueueTask_def Let_def)
qed

subsection \<open>Waking tasks\<close>

text \<open>What scheduling never changes: the wakeup condition and hart of a task, the idle tasks.\<close>

definition fixed :: "'a Sched_scheme \<Rightarrow> 'a Sched_scheme \<Rightarrow> bool" where
  "fixed s s' \<longleftrightarrow> (\<forall>t. wakeup_function (tasks s' t) = wakeup_function (tasks s t) \<and> wakeup_udata (tasks s' t) = wakeup_udata (tasks s t)
      \<and> task_hart (tasks s' t) = task_hart (tasks s t)) \<and> (\<forall>h. idle_task (harts s' h) = idle_task (harts s h))"

lemma fixed_trans: "fixed s s' \<Longrightarrow> fixed s' s'' \<Longrightarrow> fixed s s''"
  by (auto simp: fixed_def)

lemma fixed_refl: "fixed s s"
  by (simp add: fixed_def)

lemma fixed_steps:
  "fixed s (set_state t st s)" "fixed s (unlink_waiting p t s)" "fixed s (push_on_hart h t s)"
  "fixed s (s\<lparr>tasks := (tasks s)(t := lower_priority (tasks s t))\<rparr>)"
  by (auto simp: fixed_def set_state_def unlink_waiting_def push_on_hart_def pushTaskToQueue_def set_next_def lower_priority_def Let_def)

lemma enqueueTask_fixed:
  assumes "sched_state (tasks s t) = ENQUABLE" "enqueueTask dealloc cur t s = Some s'"
  shows "fixed s s'"
proof -
  have "fixed s s1" if "moveTaskToState t READY s = Some s1" for s1
    using that assms(1) fixed_steps(1) [of s t READY] by (auto simp: moveTaskToState_def split: if_splits bind_splits)
  then show ?thesis
    using assms fixed_refl
    by (auto simp: enqueueTask_def Let_def split: if_splits bind_splits intro!: fixed_trans [OF fixed_trans [OF _ fixed_steps(4)] fixed_steps(3)])
qed

definition wakes :: "(u64 \<Rightarrow> u64 \<Rightarrow> u64 \<Rightarrow> bool) \<Rightarrow> 'a Sched_scheme \<Rightarrow> u64 \<Rightarrow> bool" where
  "wakes w s t \<longleftrightarrow> wakeup_function (tasks s t) \<noteq> 0 \<and> w (wakeup_function (tasks s t)) t (wakeup_udata (tasks s t))"

definition home :: "u64 \<Rightarrow> 'a Sched_scheme \<Rightarrow> u64 \<Rightarrow> u64" where
  "home cur s t = (if task_hart (tasks s t) = 0 then cur else task_hart (tasks s t))"

lemma wakes_fixed: "fixed s s' \<Longrightarrow> wakes w s' = wakes w s" "fixed s s' \<Longrightarrow> home cur s' = home cur s"
  by (simp_all add: wakes_def home_def fixed_def fun_eq_iff)

lemma awakenTasks_loop_spec:
  assumes "\<And>f t u s. wakeup f t u s = Some (w f t u, s)" "cur \<noteq> 0"
    and "sched_inv s Q (as @ rest)" "\<And>h. idle_task (harts s h) \<notin> set rest"
  shows "\<exists>s' Q'. awakenTasks_loop dealloc wakeup cur (last (0 # as)) s = Some s'
    \<and> sched_inv s' Q' (as @ filter (\<lambda>t. \<not> wakes w s t) rest) \<and> (\<forall>h. set (Q h) \<subseteq> set (Q' h))
    \<and> (\<forall>x. x \<notin> set rest \<longrightarrow> sched_state (tasks s' x) = sched_state (tasks s x))
    \<and> (\<forall>t\<in>set rest. wakes w s t \<longrightarrow> t \<in> set (Q' (home cur s t)) \<and> sched_state (tasks s' t) = READY)"
  using assms(3-)
proof (induction rest arbitrary: s Q as)
  case Nil
  have "(if last (0 # as) = 0 then waiting s else sched_next (tasks s (last (0 # as)))) = 0"
    using sched_invD(2) [OF Nil(1)] lseg_nonnull [OF sched_invD(2) [OF Nil(1)]] by (cases as rule: rev_cases) auto
  then show ?case using Nil by (subst awakenTasks_loop.simps) (auto simp: Let_def)
next
  case (Cons t rest)
  let ?p = "last (0 # as)" and ?h = "home cur s t"
  have hd: "(if ?p = 0 then waiting s else sched_next (tasks s ?p)) = t" "t \<noteq> 0"
    using sched_invD(2) [OF Cons.prems(1)] lseg_nonnull [OF sched_invD(2) [OF Cons.prems(1)]] by (cases as rule: rev_cases; auto)+
  show ?case
  proof (cases "wakes w s t")
    case False
    then have "awakenTasks_loop dealloc wakeup cur ?p s = awakenTasks_loop dealloc wakeup cur (last (0 # as @ [t])) s"
      using hd assms(1) by (subst awakenTasks_loop.simps) (auto simp: Let_def wakes_def)
    moreover have "\<And>h. idle_task (harts s h) \<notin> set rest" using Cons.prems(2) by simp
    ultimately show ?thesis using Cons.IH [of s Q "as @ [t]"] Cons.prems(1) False by fastforce
  next
    case True
    let ?s1 = "unlink_waiting ?p t (set_state t ENQUABLE s)"
    have ws: "t \<notin> set (as @ rest)" "\<And>h. t \<notin> set (Q h)"
      using sched_inv_nonnull [OF Cons.prems(1)] sched_invD(4) [OF Cons.prems(1)] by auto
    have pt: "?p \<noteq> t" using ws(1) hd(2) by (cases as rule: rev_cases) auto
    then have e: "?s1 = set_state t ENQUABLE (unlink_waiting ?p t s)"
      by (auto simp: unlink_waiting_def set_state_def set_next_def fun_upd_twist)
    have inv1: "sched_inv ?s1 Q (as @ rest)"
      unfolding e by (intro sched_inv_state unlink_waiting_inv(1) [OF Cons.prems(1)]) (use ws in auto)
    have st1: "sched_state (tasks ?s1 t) = ENQUABLE" unfolding e by (simp add: set_state_def)
    have f1: "fixed s ?s1" using fixed_trans [OF fixed_steps(1) fixed_steps(2)] .
    have h1: "?h = (if task_hart (tasks ?s1 t) = 0 then cur else task_hart (tasks ?s1 t))" "idle_task (harts ?s1 ?h) \<noteq> t"
      using f1 Cons.prems(2) [of ?h] by (auto simp: fixed_def home_def)
    have hn: "?h \<noteq> 0" using assms(2) by (simp add: home_def)
    obtain s2 g where s2: "enqueueTask dealloc cur t ?s1 = Some s2" "sched_state (tasks s2 t) = READY"
      "sched_inv s2 (Q(?h := prio_insert g t (Q ?h))) (as @ rest)" "\<forall>x. x \<noteq> t \<longrightarrow> sched_state (tasks s2 x) = sched_state (tasks ?s1 x)"
      using enqueueTask_spec [OF inv1 hd(2) h1(1) hn h1(2), of dealloc, unfolded st1 TaskState.case] by blast
    have f2: "fixed s s2" using fixed_trans [OF f1 enqueueTask_fixed [OF st1 s2(1)]] .
    have "idle_task (harts s2 h) \<notin> set rest" for h using f2 Cons.prems(2) [of h] by (simp add: fixed_def)
    from Cons.IH [OF s2(3) this] obtain s' Q' where
      r: "awakenTasks_loop dealloc wakeup cur ?p s2 = Some s'" "sched_inv s' Q' (as @ filter (\<lambda>t. \<not> wakes w s2 t) rest)"
        "\<forall>h. set ((Q(?h := prio_insert g t (Q ?h))) h) \<subseteq> set (Q' h)"
        "\<forall>x. x \<notin> set rest \<longrightarrow> sched_state (tasks s' x) = sched_state (tasks s2 x)"
        "\<forall>x\<in>set rest. wakes w s2 x \<longrightarrow> x \<in> set (Q' (home cur s2 x)) \<and> sched_state (tasks s' x) = READY"
      by blast
    have run: "awakenTasks_loop dealloc wakeup cur ?p s = Some s'"
      using hd assms(1) True s2(1) r(1) by (subst awakenTasks_loop.simps) (simp add: Let_def wakes_def)
    have "sched_state (tasks ?s1 x) = sched_state (tasks s x)" if "x \<noteq> t" for x
      using that by (auto simp: unlink_waiting_def set_state_def set_next_def)
    then have st: "\<forall>x. x \<notin> set (t # rest) \<longrightarrow> sched_state (tasks s' x) = sched_state (tasks s x)" using r(4) s2(4) by simp
    have t': "t \<in> set (Q' ?h)" "sched_state (tasks s' t) = READY" using r(3) [rule_format, of ?h] r(4) ws(1) s2(2) by auto
    have "set (Q h) \<subseteq> set (Q' h)" for h using r(3) [rule_format, of h] by (cases "h = ?h") auto
    moreover have "sched_inv s' Q' (as @ filter (\<lambda>t. \<not> wakes w s t) (t # rest))" using r(2) True wakes_fixed [OF f2] by simp
    ultimately show ?thesis using run st t' r(5) unfolding wakes_fixed [OF f2] by (intro exI [of _ s'] exI [of _ Q'] conjI allI ballI) (use True in auto)
  qed
qed

subsection \<open>Properties\<close>


text \<open>Witness: one enquable task in an idle system.\<close>

definition example_sched :: Sched where
  "example_sched = \<lparr>tasks = (\<lambda>t. (example_tasks t)\<lparr>sched_state := if t = 0x300 then WAITING else ENQUABLE, wakeup_function := 0x80\<rparr>),
     harts = (\<lambda>h. \<lparr>hart_queue = empty_queue, idle_task = 0x900, hart_next = h\<rparr>), waiting = 0x300\<rparr>"

lemma example_sched_inv: "sched_inv example_sched (\<lambda>_. []) [0x300]"
  by (simp add: sched_inv_def example_sched_def empty_queue_rel) (simp add: example_tasks_def)


text \<open>
  Property C11 (moveTaskToState_correct). \<open>moveTaskToState\<close> keeps the invariant. A terminated task
  stays terminated, a stopped one can only be terminated; any other task that is not waiting gets
  the new state. A waiting task can only be stopped or terminated, and leaves the waiting list;
  asking for any other state, or for a task marked waiting that is not in the list, panics.
\<close>

theorem moveTaskToState_correct:
  assumes "sched_inv s Q ws" "t \<noteq> 0" "\<forall>h. t \<in> set (Q h) \<longrightarrow> st \<in> {READY, STOPPED, TERMINATED}"
  shows "if sched_state (tasks s t) = WAITING
    then (if t \<in> set ws \<and> st \<in> {TERMINATED, STOPPED}
          then \<exists>s'. moveTaskToState t st s = Some s' \<and> sched_inv s' Q (remove1 t ws) \<and> sched_state (tasks s' t) = st
          else moveTaskToState t st s = None)
    else \<exists>s'. moveTaskToState t st s = Some s' \<and> sched_inv s' Q ws
           \<and> sched_state (tasks s' t) = (case sched_state (tasks s t) of TERMINATED \<Rightarrow> TERMINATED
               | STOPPED \<Rightarrow> (if st = TERMINATED then TERMINATED else STOPPED) | _ \<Rightarrow> st)"
proof (cases "sched_state (tasks s t) = WAITING")
  case True
  then show ?thesis using moveTaskToState_waiting [OF assms(1,2), of st] by simp
next
  case False
  then show ?thesis
    using moveTaskToState_spec [OF assms(1,2), of st] assms(3)
    by (cases "sched_state (tasks s t)") (auto simp: next_state_def set_state_def)
qed

theorem moveTaskToState_correct_witness:
  "\<exists>s'. moveTaskToState 0x300 STOPPED example_sched = Some s' \<and> sched_inv s' (\<lambda>_. []) [] \<and> sched_state (tasks s' 0x300) = STOPPED"
proof -
  have "sched_state (tasks example_sched 0x300) = WAITING" by (simp add: example_sched_def)
  then show ?thesis using moveTaskToState_correct [OF example_sched_inv, of "0x300" STOPPED] by auto
qed



end
