(* ===== verification/Bytes.thy ===== *)
theory Bytes
  imports Memory
begin

text \<open>Byte strings in memory and words as byte strings: copies of objects to and from buffers.\<close>

unbundle bit_operations_syntax

subsection \<open>Words\<close>

text \<open>\<open>n\<close> bytes of a word, little endian.\<close>

definition enc :: "nat \<Rightarrow> u64 \<Rightarrow> u8 list" where
  "enc n v = map (\<lambda>i. ucast (drop_bit (8 * i) v)) [0..<n]"

fun dec :: "u8 list \<Rightarrow> u64" where
  "dec [] = 0"
| "dec (b # bs) = ucast b OR push_bit 8 (dec bs)"

fun decs :: "nat \<Rightarrow> u8 list \<Rightarrow> u64 list" where
  "decs 0 bs = []"
| "decs (Suc k) bs = dec (take 8 bs) # decs k (drop 8 bs)"

lemma enc_Suc: "enc (Suc n) v = ucast v # enc n (drop_bit 8 v)"
proof -
  have "[0..<Suc n] = 0 # map Suc [0..<n]" using map_Suc_upt [of 0 n] upt_conv_Cons [of 0 "Suc n"] by simp
  then show ?thesis by (simp add: enc_def o_def drop_bit_drop_bit algebra_simps)
qed

lemma enc_length [simp]: "length (enc n v) = n"
  by (simp add: enc_def)

lemma dec_enc: "dec (enc n v) = take_bit (8 * n) v"
proof (induction n arbitrary: v)
  case 0
  then show ?case by (simp add: enc_def)
next
  case (Suc n)
  show ?case unfolding enc_Suc dec.simps Suc.IH by (rule bit_word_eqI) (auto simp: bit_simps)
qed

lemma dec_enc_8 [simp]: "dec (enc 8 v) = v"
  using dec_enc [of 8 v] by (simp add: take_bit_word_eq_self)

lemma concat_enc_length: "length (concat (map (enc 8) vs)) = length vs * 8"
  by (induction vs) auto

lemma decs_enc: "decs (length vs) (concat (map (enc 8) vs)) = vs"
  by (induction vs) auto

subsection \<open>Buffers\<close>

fun write_bytes :: "memory \<Rightarrow> u64 \<Rightarrow> u8 list \<Rightarrow> memory" where
  "write_bytes m a [] = m"
| "write_bytes m a (b # bs) = write_bytes (m(a := b)) (a + 1) bs"

fun read_bytes :: "memory \<Rightarrow> u64 \<Rightarrow> nat \<Rightarrow> u8 list" where
  "read_bytes m a 0 = []"
| "read_bytes m a (Suc n) = m a # read_bytes m (a + 1) n"

lemma read_bytes_split: "read_bytes m a (n + k) = read_bytes m a n @ read_bytes m (a + of_nat n) k"
  by (induction n arbitrary: a) (simp_all add: algebra_simps)

lemma read_bytes_cong: "(\<And>i. i < n \<Longrightarrow> m' (a + of_nat i) = m (a + of_nat i)) \<Longrightarrow> read_bytes m' a n = read_bytes m a n"
proof (induction n arbitrary: a)
  case (Suc n)
  have "read_bytes m' (a + 1) n = read_bytes m (a + 1) n"
  proof (rule Suc.IH)
    fix i assume "i < n"
    then show "m' (a + 1 + of_nat i) = m (a + 1 + of_nat i)" using Suc.prems [of "Suc i"] by (simp add: algebra_simps)
  qed
  moreover have "m' a = m a" using Suc.prems [of 0] by simp
  ultimately show ?case by simp
qed simp

lemma read_bytes_length [simp]: "length (read_bytes m a n) = n"
  by (induction n arbitrary: a) auto

lemma write_bytes_append: "write_bytes m a (xs @ ys) = write_bytes (write_bytes m a xs) (a + of_nat (length xs)) ys"
  by (induction xs arbitrary: m a) (simp_all add: algebra_simps)

lemma of_nat_neq: "i < 2 ^ 64 \<Longrightarrow> j < 2 ^ 64 \<Longrightarrow> i \<noteq> j \<Longrightarrow> a + of_nat i \<noteq> a + (of_nat j :: u64)"
  by (metis add_left_cancel unat_of_nat_64)

lemma write_bytes_other: "(\<And>i. i < length bs \<Longrightarrow> x \<noteq> a + of_nat i) \<Longrightarrow> write_bytes m a bs x = m x"
proof (induction bs arbitrary: m a)
  case (Cons b bs)
  have "x \<noteq> a" using Cons.prems [of 0] by simp
  moreover have "write_bytes (m(a := b)) (a + 1) bs x = (m(a := b)) x"
  proof (rule Cons.IH)
    fix i assume "i < length bs"
    then show "x \<noteq> a + 1 + of_nat i" using Cons.prems [of "Suc i"] by (simp add: algebra_simps)
  qed
  ultimately show ?case by simp
qed simp

lemma write_bytes_swap:
  assumes "b \<notin> (\<lambda>i. a + of_nat i) ` {..<length bs}"
  shows "write_bytes (m(b := v)) a bs = (write_bytes m a bs)(b := v)"
  using assms
proof (induction bs arbitrary: m a)
  case (Cons c bs)
  have "a + of_nat 0 \<in> (\<lambda>i. a + of_nat i) ` {..<length (c # bs)}" by (rule imageI) simp
  then have "b \<noteq> a" using Cons.prems by auto
  moreover have "b \<notin> (\<lambda>i. a + 1 + of_nat i) ` {..<length bs}"
  proof
    assume "b \<in> (\<lambda>i. a + 1 + of_nat i) ` {..<length bs}"
    then obtain i where "i < length bs" "b = a + of_nat (Suc i)" by (auto simp: algebra_simps)
    then have "b \<in> (\<lambda>i. a + of_nat i) ` {..<length (c # bs)}" by (intro image_eqI [of _ _ "Suc i"]) simp_all
    then show False using Cons.prems by blast
  qed
  ultimately have "(m(b := v))(a := c) = (m(a := c))(b := v)" "b \<notin> (\<lambda>i. a + 1 + of_nat i) ` {..<length bs}"
    by (auto simp: fun_upd_twist)
  then show ?case using Cons.IH [of "a + 1" "m(a := c)"] by (simp del: fun_upd_apply)
qed simp

text \<open>Writing below what has been written before is writing all at once.\<close>

lemma write_bytes_below:
  "length xs + length ys \<le> 2 ^ 64 \<Longrightarrow> write_bytes (write_bytes m (a + of_nat (length xs)) ys) a xs = write_bytes m a (xs @ ys)"
proof (induction xs arbitrary: m a)
  case (Cons x xs)
  have "a \<notin> (\<lambda>i. a + of_nat (length (x # xs)) + of_nat i) ` {..<length ys}"
  proof
    assume "a \<in> (\<lambda>i. a + of_nat (length (x # xs)) + of_nat i) ` {..<length ys}"
    then obtain i where "i < length ys" "a + of_nat 0 = a + of_nat (length (x # xs) + i)" by (auto simp: algebra_simps)
    then show False using of_nat_neq [of 0 "length (x # xs) + i" a] Cons.prems by auto
  qed
  then have "write_bytes (write_bytes m (a + of_nat (length (x # xs))) ys) a (x # xs)
      = write_bytes (write_bytes (m(a := x)) (a + 1 + of_nat (length xs)) ys) (a + 1) xs"
    using write_bytes_swap [of a "a + of_nat (length (x # xs))" ys m x] by (simp add: algebra_simps)
  also have "\<dots> = write_bytes (m(a := x)) (a + 1) (xs @ ys)" using Cons.prems by (intro Cons.IH) simp
  finally show ?case by simp
qed simp

lemma read_write_bytes: "length bs \<le> 2 ^ 64 \<Longrightarrow> read_bytes (write_bytes m a bs) a (length bs) = bs"
proof (induction bs arbitrary: m a)
  case (Cons b bs)
  have "a \<noteq> a + 1 + of_nat i" if "i < length bs" for i
    using of_nat_neq [of 0 "Suc i" a] that Cons.prems by (simp add: algebra_simps)
  then have "write_bytes (m(a := b)) (a + 1) bs a = b" by (subst write_bytes_other) auto
  then show ?case using Cons by simp
qed simp

end
