(* ===== verification/Signals.thy ===== *)
theory Signals
  imports LinkedList Bytes Util
begin

text \<open>
  Model of kernel/src/process/signals.c. Pending signals are a linked list with a tail pointer;
  \<open>sig_live\<close> is the set of its entries that are allocated. The memory of the process is the byte
  memory it sees, so that PUSH_TO_VIRTPTR and POP_FROM_VIRTPTR write and read bytes at the user
  stack pointer. \<open>exitProcess\<close>, \<open>stopProcess\<close> and \<open>continueProcess\<close> of process.c are arguments, as is
  the entry \<open>kalloc\<close> returns. Locks are omitted.
\<close>

unbundle bit_operations_syntax

type_synonym Signal = nat

definition SIGNONE :: Signal where "SIGNONE = 0"
definition SIGKILL :: Signal where "SIGKILL = 9"
definition SIGALRM :: Signal where "SIGALRM = 14"
definition SIGURG :: Signal where "SIGURG = 16"
definition SIGSTOP :: Signal where "SIGSTOP = 17"
definition SIGTSTP :: Signal where "SIGTSTP = 18"
definition SIGCONT :: Signal where "SIGCONT = 19"
definition SIGCHLD :: Signal where "SIGCHLD = 20"
definition SIGTTIN :: Signal where "SIGTTIN = 21"
definition SIGTTOU :: Signal where "SIGTTOU = 22"
definition SIGWINCH :: Signal where "SIGWINCH = 28"
definition SIGUSR1 :: Signal where "SIGUSR1 = 30"
definition SIGUSR2 :: Signal where "SIGUSR2 = 31"
definition SIG_COUNT :: nat where "SIG_COUNT = 32"
definition SIG_DFL :: u64 where "SIG_DFL = 0"
definition SIG_IGN :: u64 where "SIG_IGN = 1"
definition SA_RESETHAND :: u64 where "SA_RESETHAND = 4"
definition SA_SIGINFO :: u64 where "SA_SIGINFO = 16"
definition SA_NODEFER :: u64 where "SA_NODEFER = 64"

lemmas signal_numbers = SIGNONE_def SIGKILL_def SIGALRM_def SIGURG_def SIGSTOP_def SIGTSTP_def SIGCONT_def SIGCHLD_def
  SIGTTIN_def SIGTTOU_def SIGWINCH_def SIGUSR1_def SIGUSR2_def SIG_COUNT_def

record SignalHandler =
  handler :: u64
  sa_mask :: u64
  sa_flags :: u64
  restorer :: u64

record PendingSignal =
  ps_next :: u64
  ps_signal :: Signal
  ps_child_pid :: int

record SigState =
  pending :: "u64 \<Rightarrow> PendingSignal"
  sig_live :: "u64 set"
  sig_head :: u64
  sig_tail :: u64
  handlers :: "SignalHandler list"
  current_signal :: Signal
  restore_frame :: u64
  alarm_at :: u64
  altstack :: u64
  sig_mask :: u64
  regs :: "u64 list"
  fregs :: "u64 list"
  frame_pc :: u64
  umem :: memory

definition default_ignored :: "Signal \<Rightarrow> bool" where
  "default_ignored signal \<longleftrightarrow> signal = SIGCHLD \<or> signal = SIGURG \<or> signal = SIGWINCH
     \<or> signal = SIGUSR1 \<or> signal = SIGUSR2 \<or> signal = SIGCONT"

definition shouldIgnoreSignal :: "'a SigState_scheme \<Rightarrow> Signal \<Rightarrow> bool" where
  "shouldIgnoreSignal s signal \<longleftrightarrow> signal \<noteq> SIGKILL \<and> signal \<noteq> SIGSTOP
     \<and> (handler (handlers s ! signal) = SIG_IGN \<or> handler (handlers s ! signal) = SIG_DFL \<and> default_ignored signal)"

definition set_ps_next :: "u64 \<Rightarrow> u64 \<Rightarrow> (u64 \<Rightarrow> PendingSignal) \<Rightarrow> (u64 \<Rightarrow> PendingSignal)" where
  "set_ps_next e v p = p(e := (p e)\<lparr>ps_next := v\<rparr>)"

definition addSignalToProcess ::
  "(Signal \<Rightarrow> 'a SigState_scheme \<Rightarrow> 'a SigState_scheme) \<Rightarrow> u64 \<Rightarrow> Signal \<Rightarrow> int \<Rightarrow> 'a SigState_scheme \<Rightarrow> 'a SigState_scheme" where
  "addSignalToProcess continueProcess entry signal child_pid s =
     (let s = (if signal = SIGCONT then continueProcess signal s else s) in
      if signal > SIGNONE \<and> signal < SIG_COUNT \<and> \<not> shouldIgnoreSignal s signal then
        (let s = s\<lparr>pending := (pending s)(entry := \<lparr>ps_next = 0, ps_signal = signal, ps_child_pid = child_pid\<rparr>),
                   sig_live := insert entry (sig_live s)\<rparr>
         in if sig_tail s = 0 then s\<lparr>sig_tail := entry, sig_head := entry\<rparr>
            else s\<lparr>pending := set_ps_next (sig_tail s) entry (pending s), sig_tail := entry\<rparr>)
      else s)"

subsection \<open>Entering a handler\<close>

definition push_obj :: "u8 list \<Rightarrow> u64 \<times> memory \<Rightarrow> u64 \<times> memory" where
  "push_obj bs = (\<lambda>(sp, m). let sp = sp - of_nat (length bs) in (sp, write_bytes m sp bs))"

definition pop_obj :: "nat \<Rightarrow> memory \<Rightarrow> u64 \<Rightarrow> u8 list \<times> u64" where
  "pop_obj n m sp = (read_bytes m sp n, sp + of_nat n)"

text \<open>\<open>SigInfo\<close>: number, code and the integer value of the union, padded to 16 bytes.\<close>

definition sig_info :: "Signal \<Rightarrow> u8 list" where
  "sig_info signal = enc 4 (of_nat signal) @ enc 4 0 @ enc 8 0"

definition REG_RETURN_ADDRESS :: nat where "REG_RETURN_ADDRESS = 0"
definition REG_STACK_POINTER :: nat where "REG_STACK_POINTER = 1"
definition REG_ARGUMENT_0 :: nat where "REG_ARGUMENT_0 = 9"

text \<open>The restore frame: everything pushed after the \<open>SigInfo\<close>, in the order it is pushed.\<close>

definition restore_objects :: "'a SigState_scheme \<Rightarrow> u8 list list" where
  "restore_objects s = [enc 8 (sig_mask s), enc 8 (restore_frame s), enc 4 (of_nat (current_signal s)), enc 8 (frame_pc s),
     concat (map (enc 8) (fregs s)), concat (map (enc 8) (regs s))]"

definition enterHandler :: "Signal \<Rightarrow> 'a SigState_scheme \<Rightarrow> 'a SigState_scheme" where
  "enterHandler signal s =
     (let action = handlers s ! signal;
          (info_address, m) = push_obj (sig_info signal) (regs s ! REG_STACK_POINTER, umem s);
          (sp, m) = fold push_obj (restore_objects s) (info_address, m);
          mask = sig_mask s OR sa_mask action;
          mask = (if sa_flags action AND SA_NODEFER \<noteq> 0 then mask OR push_bit (signal - 1) 1 else mask);
          r = regs s;
          r = r[REG_ARGUMENT_0 := of_nat signal, REG_ARGUMENT_0 + 1 := info_address, REG_ARGUMENT_0 + 2 := sp,
                REG_STACK_POINTER := sp, REG_RETURN_ADDRESS := restorer action]
      in s\<lparr>umem := m, sig_mask := mask, restore_frame := sp, current_signal := signal, frame_pc := handler action, regs := r,
           handlers := (if sa_flags action AND SA_RESETHAND \<noteq> 0
             then (handlers s)[signal := action\<lparr>handler := SIG_DFL, sa_flags := sa_flags action AND NOT SA_SIGINFO\<rparr>]
             else handlers s)\<rparr>)"

definition handleActualSignal ::
  "(Signal \<Rightarrow> 'a SigState_scheme \<Rightarrow> 'a SigState_scheme) \<Rightarrow> (Signal \<Rightarrow> 'a SigState_scheme \<Rightarrow> 'a SigState_scheme)
    \<Rightarrow> Signal \<Rightarrow> 'a SigState_scheme \<Rightarrow> bool \<times> 'a SigState_scheme" where
  "handleActualSignal exitProcess stopProcess signal s =
     (if signal = SIGKILL then (False, exitProcess signal s)
      else if signal = SIGSTOP then (False, stopProcess signal s)
      else if signal \<ge> SIG_COUNT \<or> signal = SIGNONE then (True, s)
      else if handler (handlers s ! signal) = SIG_DFL then
        (if default_ignored signal then (True, s)
         else if signal = SIGTSTP \<or> signal = SIGTTIN \<or> signal = SIGTTOU then (False, stopProcess signal s)
         else (False, exitProcess signal s))
      else if handler (handlers s ! signal) = SIG_IGN then (True, s)
      else (True, enterHandler signal s))"

text \<open>A signal that may be delivered now.\<close>

definition deliverable :: "u64 \<Rightarrow> Signal \<Rightarrow> bool" where
  "deliverable blocked signal \<longleftrightarrow> signal = SIGKILL \<or> signal = SIGSTOP \<or> blocked AND push_bit (signal - 1) 1 = 0"

text \<open>
  The loop of \<open>getSignalToHandle\<close>: \<open>previous\<close> is the entry whose \<open>ps_next\<close> is \<open>*current\<close>, 0 for the
  head of the list.
\<close>

definition set_link :: "u64 \<Rightarrow> u64 \<Rightarrow> 'a SigState_scheme \<Rightarrow> 'a SigState_scheme" where
  "set_link previous v s =
     (if previous = 0 then s\<lparr>sig_head := v\<rparr> else s\<lparr>pending := set_ps_next previous v (pending s)\<rparr>)"

partial_function (option) getSignalToHandle_loop :: "u64 \<Rightarrow> u64 \<Rightarrow> 'a SigState_scheme \<Rightarrow> (Signal \<times> 'a SigState_scheme) option" where
  "getSignalToHandle_loop previous cur s =
     (if cur \<noteq> 0 then
        (if deliverable (sig_mask s) (ps_signal (pending s cur)) then
           (let s' = set_link previous (ps_next (pending s cur)) s;
                s' = (if sig_tail s' = cur then s'\<lparr>sig_tail := previous\<rparr> else s')
            in Some (ps_signal (pending s cur), s'\<lparr>sig_live := sig_live s' - {cur}\<rparr>))
         else getSignalToHandle_loop cur (ps_next (pending s cur)) s)
      else Some (SIGNONE, s))"

definition getSignalToHandle :: "'a SigState_scheme \<Rightarrow> (Signal \<times> 'a SigState_scheme) option" where
  "getSignalToHandle s = getSignalToHandle_loop 0 (sig_head s) s"

definition handlePendingSignals ::
  "(Signal \<Rightarrow> 'a SigState_scheme \<Rightarrow> 'a SigState_scheme) \<Rightarrow> (Signal \<Rightarrow> 'a SigState_scheme \<Rightarrow> 'a SigState_scheme)
    \<Rightarrow> u64 \<Rightarrow> 'a SigState_scheme \<Rightarrow> (bool \<times> 'a SigState_scheme) option" where
  "handlePendingSignals exitProcess stopProcess now s = do {
     (signal, s) \<leftarrow> getSignalToHandle s;
     if signal \<noteq> SIGNONE then Some (handleActualSignal exitProcess stopProcess signal s)
     else if alarm_at s \<noteq> 0 \<and> now \<ge> alarm_at s then
       (case handleActualSignal exitProcess stopProcess SIGALRM s of (ret, s) \<Rightarrow> Some (ret, s\<lparr>alarm_at := 0\<rparr>))
     else Some (True, s) }"

definition returnFromSignal :: "'a SigState_scheme \<Rightarrow> 'a SigState_scheme" where
  "returnFromSignal s =
     (if current_signal s \<noteq> SIGNONE then
        (let sp = restore_frame s;
             (r, sp) = pop_obj (31 * 8) (umem s) sp;
             (f, sp) = pop_obj (32 * 8) (umem s) sp;
             (p, sp) = pop_obj 8 (umem s) sp;
             (c, sp) = pop_obj 4 (umem s) sp;
             (b, sp) = pop_obj 8 (umem s) sp;
             (k, sp) = pop_obj 8 (umem s) sp
         in s\<lparr>regs := decs 31 r, fregs := decs 32 f, frame_pc := dec p, current_signal := unat (dec c),
              restore_frame := dec b, sig_mask := dec k\<rparr>)
      else s)"

partial_function (option) clearSignals_loop :: "'a SigState_scheme \<Rightarrow> 'a SigState_scheme option" where
  "clearSignals_loop s =
     (if sig_head s \<noteq> 0
      then clearSignals_loop (s\<lparr>sig_head := ps_next (pending s (sig_head s)), sig_live := sig_live s - {sig_head s}\<rparr>)
      else Some s)"

definition clearSignals :: "'a SigState_scheme \<Rightarrow> 'a SigState_scheme option" where
  "clearSignals s = do {
     s \<leftarrow> clearSignals_loop s;
     Some (s\<lparr>sig_tail := 0, altstack := 0, current_signal := 0, restore_frame := 0,
             handlers := map (\<lambda>h. h\<lparr>sa_flags := 0, handler := if handler h \<noteq> SIG_IGN then SIG_DFL else handler h\<rparr>) (handlers s)\<rparr>) }"

partial_function (option) clearPendingChildSignals_loop :: "int \<Rightarrow> u64 \<Rightarrow> u64 \<Rightarrow> 'a SigState_scheme \<Rightarrow> 'a SigState_scheme option" where
  "clearPendingChildSignals_loop child_pid previous cur s =
     (if cur \<noteq> 0 then
        (let n = ps_next (pending s cur) in
         if ps_signal (pending s cur) = SIGCHLD \<and> ps_child_pid (pending s cur) = child_pid
         then clearPendingChildSignals_loop child_pid previous n ((set_link previous n s)\<lparr>sig_live := sig_live s - {cur}\<rparr>)
         else clearPendingChildSignals_loop child_pid cur n s)
      else Some s)"

definition clearPendingChildSignals :: "int \<Rightarrow> 'a SigState_scheme \<Rightarrow> 'a SigState_scheme option" where
  "clearPendingChildSignals child_pid s = do {
     s \<leftarrow> clearPendingChildSignals_loop child_pid 0 (sig_head s) s;
     Some (if sig_head s = 0 then s\<lparr>sig_tail := 0\<rparr> else s) }"

subsection \<open>Objects on the stack\<close>

lemma push_objs:
  "sum_list (map length objs) \<le> 2 ^ 64 \<Longrightarrow> fold push_obj objs (sp, m) =
     (sp - of_nat (sum_list (map length objs)), write_bytes m (sp - of_nat (sum_list (map length objs))) (concat (rev objs)))"
proof (induction objs rule: rev_induct)
  case (snoc x objs)
  let ?n = "sum_list (map length objs)"
  have l: "length (concat (rev objs)) = ?n" by (simp add: length_concat rev_map [symmetric] sum_list_rev)
  have "fold push_obj (objs @ [x]) (sp, m) = push_obj x (sp - of_nat ?n, write_bytes m (sp - of_nat ?n) (concat (rev objs)))"
    using snoc by simp
  also have "\<dots> = (sp - of_nat ?n - of_nat (length x), write_bytes m (sp - of_nat ?n - of_nat (length x)) (x @ concat (rev objs)))"
    using write_bytes_below [of x "concat (rev objs)" m "sp - of_nat ?n - of_nat (length x)"] snoc.prems l by (simp add: push_obj_def Let_def)
  finally show ?case by (simp add: algebra_simps)
qed simp

subsection \<open>Round trip\<close>

text \<open>
  Property C27 (signal_roundtrip). Entering a signal handler and returning from it restores the
  registers, the floating point registers, the program counter, the blocked signals and the
  state of the interrupted handler, if any: for every state the handler may leave, as long as it
  did not overwrite the restore frame on the stack and the kernel still knows where that is.
\<close>

definition RESTORE_SIZE :: nat where "RESTORE_SIZE = 532"

lemma restore_frame_bytes:
  assumes "length (regs s) = 31" "length (fregs s) = 32"
  shows "read_bytes (umem (enterHandler signal s)) (restore_frame (enterHandler signal s)) RESTORE_SIZE = concat (rev (restore_objects s))"
proof -
  obtain sp0 m0 where p: "push_obj (sig_info signal) (regs s ! REG_STACK_POINTER, umem s) = (sp0, m0)" by fastforce
  have n: "sum_list (map length (restore_objects s)) = RESTORE_SIZE"
    using assms by (simp add: restore_objects_def concat_enc_length RESTORE_SIZE_def)
  have l: "length (concat (rev (restore_objects s))) = RESTORE_SIZE"
    unfolding n [symmetric] by (simp add: length_concat rev_map [symmetric] sum_list_rev)
  have f: "fold push_obj (restore_objects s) (sp0, m0) = (sp0 - of_nat RESTORE_SIZE, write_bytes m0 (sp0 - of_nat RESTORE_SIZE) (concat (rev (restore_objects s))))"
    using push_objs [of "restore_objects s" sp0 m0] unfolding n by (simp add: RESTORE_SIZE_def)
  have "umem (enterHandler signal s) = write_bytes m0 (sp0 - of_nat RESTORE_SIZE) (concat (rev (restore_objects s)))"
    "restore_frame (enterHandler signal s) = sp0 - of_nat RESTORE_SIZE"
    unfolding enterHandler_def p Let_def prod.case f by simp_all
  then show ?thesis using read_write_bytes [of "concat (rev (restore_objects s))" m0 "sp0 - of_nat RESTORE_SIZE"] l by (simp add: RESTORE_SIZE_def)
qed

lemma pops:
  assumes "read_bytes m a (length (x @ y)) = x @ y"
  shows "read_bytes m a (length x) = x" "read_bytes m (a + of_nat (length x)) (length y) = y"
  using assms read_bytes_split [of m a "length x" "length y"] by simp_all

theorem signal_roundtrip:
  assumes "length (regs s) = 31" "length (fregs s) = 32" "current_signal s < 2 ^ 32" "signal \<noteq> SIGNONE"
    and "current_signal s' = signal" "restore_frame s' = restore_frame (enterHandler signal s)"
    and "\<forall>i<RESTORE_SIZE. umem s' (restore_frame s' + of_nat i) = umem (enterHandler signal s) (restore_frame s' + of_nat i)"
  shows "regs (returnFromSignal s') = regs s \<and> fregs (returnFromSignal s') = fregs s \<and> frame_pc (returnFromSignal s') = frame_pc s
    \<and> sig_mask (returnFromSignal s') = sig_mask s \<and> restore_frame (returnFromSignal s') = restore_frame s
    \<and> current_signal (returnFromSignal s') = current_signal s"
proof -
  let ?m = "umem s'" and ?a = "restore_frame s'"
  let ?r = "concat (map (enc 8) (regs s))" and ?f = "concat (map (enc 8) (fregs s))"
  have "read_bytes ?m ?a RESTORE_SIZE = ?r @ ?f @ enc 8 (frame_pc s) @ enc 4 (of_nat (current_signal s)) @ enc 8 (restore_frame s) @ enc 8 (sig_mask s)"
    using read_bytes_cong [of RESTORE_SIZE ?m ?a "umem (enterHandler signal s)"] assms(7) restore_frame_bytes [OF assms(1,2), of signal] assms(6)
    by (simp add: restore_objects_def)
  moreover have n: "length ?r = 248" "length ?f = 256" using assms(1,2) by (simp_all add: concat_enc_length)
  ultimately have all: "read_bytes ?m ?a (length (?r @ ?f @ enc 8 (frame_pc s) @ enc 4 (of_nat (current_signal s)) @ enc 8 (restore_frame s) @ enc 8 (sig_mask s)))
      = ?r @ ?f @ enc 8 (frame_pc s) @ enc 4 (of_nat (current_signal s)) @ enc 8 (restore_frame s) @ enc 8 (sig_mask s)"
    by (simp add: RESTORE_SIZE_def)
  note p1 = pops [OF all, unfolded n] 
  note p2 = pops [OF p1(2), unfolded n]
  note p3 = pops [OF p2(2), unfolded enc_length]
  note p4 = pops [OF p3(2), unfolded enc_length]
  note p5 = pops [OF p4(2), unfolded enc_length]
  have c: "unat (dec (enc 4 (of_nat (current_signal s)))) = current_signal s"
    using assms(3) dec_enc [of 4 "of_nat (current_signal s)"] by (simp add: unsigned_take_bit_eq take_bit_nat_eq_self unat_of_nat_64)
  have d: "decs 31 ?r = regs s" "decs 32 ?f = fregs s" using decs_enc [of "regs s"] decs_enc [of "fregs s"] assms(1,2) by simp_all
  show ?thesis
    using assms(4,5) p1(1) p2(1) p3(1) p4(1) p5 c d by (simp add: returnFromSignal_def pop_obj_def Let_def)
qed

text \<open>Witness: a handler for signal 2 that returns at once.\<close>

definition example_sig :: SigState where
  "example_sig = \<lparr>pending = (\<lambda>_. \<lparr>ps_next = 0, ps_signal = SIGCHLD, ps_child_pid = 7\<rparr>), sig_live = {}, sig_head = 0, sig_tail = 0,
     handlers = replicate 32 \<lparr>handler = 0x10000, sa_mask = 0, sa_flags = 0, restorer = 0x20000\<rparr>,
     current_signal = 0, restore_frame = 0, alarm_at = 0, altstack = 0, sig_mask = 8, regs = replicate 31 0x4000, fregs = replicate 32 5,
     frame_pc = 0x1234, umem = (\<lambda>_. 0)\<rparr>"

theorem signal_roundtrip_witness:
  "regs (returnFromSignal (enterHandler 2 example_sig)) = replicate 31 0x4000 \<and> frame_pc (returnFromSignal (enterHandler 2 example_sig)) = 0x1234"
proof -
  have e: "current_signal (enterHandler 2 example_sig) = 2" by (simp add: enterHandler_def Let_def split: prod.split)
  have s: "length (regs example_sig) = 31" "length (fregs example_sig) = 32" "current_signal example_sig < 2 ^ 32" "(2 :: nat) \<noteq> SIGNONE"
    by (simp_all add: example_sig_def SIGNONE_def)
  from signal_roundtrip [OF s e refl] show ?thesis by (simp add: example_sig_def)
qed

subsection \<open>The list of pending signals\<close>

definition sig_inv :: "'a SigState_scheme \<Rightarrow> u64 list \<Rightarrow> bool" where
  "sig_inv s xs \<longleftrightarrow> linked (\<lambda>e. ps_next (pending s e)) (sig_head s) xs \<and> sig_tail s = (if xs = [] then 0 else last xs) \<and> set xs \<subseteq> sig_live s"

lemma set_ps_next_link: "(\<lambda>e. ps_next (set_ps_next a v p e)) = (\<lambda>e. ps_next (p e))(a := v)"
  by (auto simp: set_ps_next_def)

lemma set_ps_next_signal [simp]: "ps_signal (set_ps_next a v p e) = ps_signal (p e)" "ps_child_pid (set_ps_next a v p e) = ps_child_pid (p e)"
  by (auto simp: set_ps_next_def)

text \<open>Unlinking the entry after \<open>last (0 # as)\<close>.\<close>

lemma set_link_linked:
  assumes "linked (\<lambda>e. ps_next (pending s e)) (sig_head s) (as @ e # bs)"
  shows "linked (\<lambda>x. ps_next (pending (set_link (last (0 # as)) (ps_next (pending s e)) s) x)) (sig_head (set_link (last (0 # as)) (ps_next (pending s e)) s)) (as @ bs)"
proof (cases as rule: rev_cases)
  case Nil
  then show ?thesis using assms by (auto simp: set_link_def)
next
  case (snoc cs c)
  have "c \<noteq> 0" using lseg_nonnull [OF assms] snoc by auto
  then show ?thesis
    using linked_remove_after [of "\<lambda>e. ps_next (pending s e)" "sig_head s" cs c e bs] assms snoc by (simp add: set_link_def set_ps_next_link)
qed

lemma set_link_fields [simp]: "sig_live (set_link p v s) = sig_live s" "sig_tail (set_link p v s) = sig_tail s" "sig_mask (set_link p v s) = sig_mask s"
  "ps_signal (pending (set_link p v s) e) = ps_signal (pending s e)" "ps_child_pid (pending (set_link p v s) e) = ps_child_pid (pending s e)"
  by (auto simp: set_link_def)

lemma getSignal_loop_spec:
  assumes "linked (\<lambda>e. ps_next (pending s e)) p rest"
  shows "getSignalToHandle_loop (last (0 # as)) p s =
    (case dropWhile (\<lambda>e. \<not> deliverable (sig_mask s) (ps_signal (pending s e))) rest of
       [] \<Rightarrow> Some (SIGNONE, s)
     | e # bs \<Rightarrow> let prev = last (0 # as @ takeWhile (\<lambda>e. \<not> deliverable (sig_mask s) (ps_signal (pending s e))) rest);
                    s' = set_link prev (ps_next (pending s e)) s
                in Some (ps_signal (pending s e), s'\<lparr>sig_tail := if sig_tail s = e then prev else sig_tail s, sig_live := sig_live s - {e}\<rparr>))"
  using assms
proof (induction rest arbitrary: p as)
  case Nil
  then show ?case by (simp add: getSignalToHandle_loop.simps)
next
  case (Cons e rest)
  show ?case
  proof (cases "deliverable (sig_mask s) (ps_signal (pending s e))")
    case True
    then show ?thesis using Cons.prems by (subst getSignalToHandle_loop.simps) (auto simp: Let_def)
  next
    case False
    have "getSignalToHandle_loop (last (0 # as)) p s = getSignalToHandle_loop (last (0 # as @ [e])) (ps_next (pending s e)) s"
      using Cons.prems False by (subst getSignalToHandle_loop.simps) simp
    then show ?thesis
      unfolding dropWhile.simps(2) takeWhile.simps(2) if_P [OF False] using Cons.IH [of "ps_next (pending s e)" "as @ [e]"] Cons.prems
      by (simp only: append_assoc append_Cons append_Nil lseg.simps simp_thms)
  qed
qed

text \<open>
  Property C28 (getSignalToHandle_correct). If the pending signals of a process form a well-formed
  list, \<open>getSignalToHandle\<close> returns; it takes the first signal of the list that is not blocked
  (SIGKILL and SIGSTOP never are), leaves all others in order in a well-formed list, and frees
  its entry. If every pending signal is blocked, it returns SIGNONE and changes nothing.
\<close>

theorem getSignalToHandle_correct:
  assumes "sig_inv s xs"
  shows "case dropWhile (\<lambda>e. \<not> deliverable (sig_mask s) (ps_signal (pending s e))) xs of
      [] \<Rightarrow> getSignalToHandle s = Some (SIGNONE, s)
    | e # bs \<Rightarrow> \<exists>s'. getSignalToHandle s = Some (ps_signal (pending s e), s')
        \<and> sig_inv s' (takeWhile (\<lambda>e. \<not> deliverable (sig_mask s) (ps_signal (pending s e))) xs @ bs)
        \<and> e \<notin> sig_live s' \<and> (\<forall>x. ps_signal (pending s' x) = ps_signal (pending s x)) \<and> sig_mask s' = sig_mask s"
proof -
  let ?P = "\<lambda>e. \<not> deliverable (sig_mask s) (ps_signal (pending s e))"
  have l: "linked (\<lambda>e. ps_next (pending s e)) (sig_head s) xs" "sig_tail s = (if xs = [] then 0 else last xs)" "set xs \<subseteq> sig_live s"
    using assms by (auto simp: sig_inv_def)
  have run: "getSignalToHandle s = getSignalToHandle_loop (last (0 # [])) (sig_head s) s" by (simp add: getSignalToHandle_def)
  note run = run [unfolded getSignal_loop_spec [OF l(1), of "[]"]]
  show ?thesis
  proof (cases "dropWhile ?P xs")
    case Nil
    then show ?thesis unfolding run Nil by simp
  next
    case (Cons e bs)
    let ?as = "takeWhile ?P xs"
    have xs: "xs = ?as @ e # bs" using Cons takeWhile_dropWhile_id [of ?P xs] by simp
    have d: "distinct (?as @ e # bs)" using lseg_distinct [OF l(1)] xs by simp
    let ?s = "set_link (last (0 # ?as)) (ps_next (pending s e)) s"
    let ?s' = "?s\<lparr>sig_tail := if sig_tail s = e then last (0 # ?as) else sig_tail s, sig_live := sig_live s - {e}\<rparr>"
    have "linked (\<lambda>x. ps_next (pending ?s x)) (sig_head ?s) (?as @ bs)" using set_link_linked [of s ?as e bs] l(1) xs by simp
    moreover have "(if sig_tail s = e then last (0 # ?as) else sig_tail s) = (if ?as @ bs = [] then 0 else last (?as @ bs))"
    proof -
      have t: "sig_tail s = last (e # bs)" using l(2) xs by (metis append_is_Nil_conv last_append list.distinct(1))
      then show ?thesis using d by (cases bs rule: rev_cases) auto
    qed
    moreover have "set (?as @ bs) \<subseteq> sig_live s - {e}" using subset_trans [OF equalityD1 [OF arg_cong [OF xs [symmetric], of set]] l(3)] d by auto
    ultimately have "sig_inv ?s' (?as @ bs)" by (simp add: sig_inv_def)
    moreover have "getSignalToHandle s = Some (ps_signal (pending s e), ?s')" unfolding run Cons by (simp add: Let_def)
    ultimately show ?thesis unfolding Cons list.case by (intro exI [of _ ?s'] conjI) simp_all
  qed
qed

text \<open>Witness: two pending signals, the first one blocked.\<close>

theorem getSignalToHandle_correct_witness:
  "\<exists>s'. getSignalToHandle (example_sig\<lparr>pending := (\<lambda>e. if e = 0x100 then \<lparr>ps_next = 0x200, ps_signal = 4, ps_child_pid = 0\<rparr>
       else \<lparr>ps_next = 0, ps_signal = 2, ps_child_pid = 0\<rparr>), sig_live := {0x100, 0x200}, sig_head := 0x100, sig_tail := 0x200\<rparr>) = Some (2, s')
     \<and> sig_inv s' [0x100]"
proof -
  let ?s = "example_sig\<lparr>pending := (\<lambda>e. if e = 0x100 then \<lparr>ps_next = 0x200, ps_signal = 4, ps_child_pid = 0\<rparr>
       else \<lparr>ps_next = 0, ps_signal = 2, ps_child_pid = 0\<rparr>), sig_live := {0x100, 0x200}, sig_head := 0x100, sig_tail := 0x200\<rparr>"
  have i: "sig_inv ?s [0x100, 0x200]" by (simp add: sig_inv_def)
  have d: "\<not> deliverable (sig_mask ?s) 4" "deliverable (sig_mask ?s) 2"
    by (simp_all add: deliverable_def example_sig_def SIGKILL_def SIGSTOP_def push_bit_eq_mult)
  show ?thesis using getSignalToHandle_correct [OF i] d by auto
qed

text \<open>
  Property C29 (clearPendingChildSignals_dangling). When the last pending signal is the SIGCHLD of the child being
  waited for and another signal is pending before it, \<open>clearPendingChildSignals\<close> frees the last
  entry but leaves \<open>signals_tail\<close> pointing to it: the next signal sent to the process is linked to
  freed memory and lost.
\<close>

theorem clearPendingChildSignals_dangling:
  assumes "sig_inv s [a, b]" "ps_signal (pending s a) \<noteq> SIGCHLD" "ps_signal (pending s b) = SIGCHLD" "ps_child_pid (pending s b) = pid"
  shows "\<exists>s'. clearPendingChildSignals pid s = Some s' \<and> linked (\<lambda>e. ps_next (pending s' e)) (sig_head s') [a]
    \<and> sig_tail s' = b \<and> b \<notin> sig_live s'"
proof -
  have l: "sig_head s = a" "a \<noteq> 0" "ps_next (pending s a) = b" "b \<noteq> 0" "ps_next (pending s b) = 0" "sig_tail s = b"
    using assms(1) by (auto simp: sig_inv_def)
  let ?s = "set_link a 0 s\<lparr>sig_live := sig_live s - {b}\<rparr>"
  have "clearPendingChildSignals_loop pid 0 a s = clearPendingChildSignals_loop pid a b s"
    using l assms(2) by (subst clearPendingChildSignals_loop.simps) simp
  also have "\<dots> = clearPendingChildSignals_loop pid a 0 ?s"
    using l assms(3,4) by (subst clearPendingChildSignals_loop.simps) simp
  also have "\<dots> = Some ?s" by (subst clearPendingChildSignals_loop.simps) simp
  finally show ?thesis using l by (simp add: clearPendingChildSignals_def set_link_def set_ps_next_def)
qed

theorem clearPendingChildSignals_dangling_witness:
  "\<exists>s'. clearPendingChildSignals 7 (example_sig\<lparr>pending := (\<lambda>e. if e = 0x100 then \<lparr>ps_next = 0x200, ps_signal = 4, ps_child_pid = 0\<rparr>
       else \<lparr>ps_next = 0, ps_signal = SIGCHLD, ps_child_pid = 7\<rparr>), sig_live := {0x100, 0x200}, sig_head := 0x100, sig_tail := 0x200\<rparr>) = Some s'
     \<and> sig_tail s' = 0x200 \<and> 0x200 \<notin> sig_live s'"
proof -
  let ?s = "example_sig\<lparr>pending := (\<lambda>e. if e = 0x100 then \<lparr>ps_next = 0x200, ps_signal = 4, ps_child_pid = 0\<rparr>
       else \<lparr>ps_next = 0, ps_signal = SIGCHLD, ps_child_pid = 7\<rparr>), sig_live := {0x100, 0x200}, sig_head := 0x100, sig_tail := 0x200\<rparr>"
  have i: "sig_inv ?s [0x100, 0x200]" by (simp add: sig_inv_def)
  show ?thesis using clearPendingChildSignals_dangling [OF i, of 7] by (auto simp: SIGCHLD_def)
qed

end
