(* ===== verification/Pipe.thy ===== *)
theory Pipe
  imports LinkedList Bytes
begin

text \<open>
  Model of kernel/src/files/special/pipe.c: the shared data of a pipe, a ring buffer with lists of
  waiting reads and writes. \<open>spaces t\<close> is the memory of the address space \<open>t\<close> as its owner sees
  it, which \<open>memcpyBetweenVirtPtr\<close> reads and writes. Waiting operations are on the kernel stack of
  their task; \<open>ops\<close> maps their addresses to them. \<open>woken\<close> lists the tasks given to \<open>awakenTask\<close> and
  \<open>enqueueTask\<close>, in order. Positions and sizes are natural numbers; the lock is omitted.
\<close>

definition PIPE_BUFFER_CAPACITY :: nat where "PIPE_BUFFER_CAPACITY = 512"

record WaitingPipeOperation =
  op_table :: u64
  op_address :: u64
  op_size :: nat
  op_written :: nat
  op_wakeup :: u64
  op_next :: u64

record Pipe =
  ref_count :: nat
  write_count :: nat
  buffer :: "u8 list"
  read_pos :: nat
  count :: nat
  waiting_reads :: u64
  waiting_reads_tail :: u64
  waiting_writes :: u64
  waiting_writes_tail :: u64
  ops :: "u64 \<Rightarrow> WaitingPipeOperation"
  spaces :: "u64 \<Rightarrow> memory"
  woken :: "u64 list"

subsection \<open>Copies\<close>

text \<open>\<open>memcpyBetweenVirtPtr\<close> from the pipe buffer at \<open>pos\<close> to an operation's buffer, and back.\<close>

definition copy_out :: "u64 \<Rightarrow> nat \<Rightarrow> nat \<Rightarrow> Pipe \<Rightarrow> Pipe" where
  "copy_out op pos n p =
     (let o' = ops p op in
      p\<lparr>spaces := (spaces p)(op_table o' := write_bytes (spaces p (op_table o')) (op_address o') (take n (drop pos (buffer p))))\<rparr>)"

definition copy_in :: "u64 \<Rightarrow> nat \<Rightarrow> nat \<Rightarrow> Pipe \<Rightarrow> Pipe" where
  "copy_in op pos n p =
     (let o' = ops p op in
      p\<lparr>buffer := take pos (buffer p) @ read_bytes (spaces p (op_table o')) (op_address o') n @ drop (pos + n) (buffer p)\<rparr>)"

definition advance :: "u64 \<Rightarrow> nat \<Rightarrow> Pipe \<Rightarrow> Pipe" where
  "advance op n p = p\<lparr>ops := (ops p)(op := (ops p op)\<lparr>op_address := op_address (ops p op) + of_nat n\<rparr>)\<rparr>"

definition transferred :: "u64 \<Rightarrow> nat \<Rightarrow> Pipe \<Rightarrow> Pipe" where
  "transferred op n p = p\<lparr>ops := (ops p)(op := (ops p op)\<lparr>op_size := op_size (ops p op) - n, op_written := op_written (ops p op) + n\<rparr>)\<rparr>"

definition wake_op :: "u64 \<Rightarrow> Pipe \<Rightarrow> Pipe" where
  "wake_op op p = (if op_wakeup (ops p op) \<noteq> 0 then p\<lparr>woken := woken p @ [op_wakeup (ops p op)]\<rparr> else p)"

subsection \<open>Operations\<close>

text \<open>The two branches of the loop of \<open>doOperationOnPipe\<close>.\<close>

definition can_read :: "Pipe \<Rightarrow> bool" where
  "can_read p \<longleftrightarrow> waiting_reads p \<noteq> 0 \<and> (count p \<noteq> 0 \<or> write_count p = 0)"

definition can_write :: "Pipe \<Rightarrow> bool" where
  "can_write p \<longleftrightarrow> waiting_writes p \<noteq> 0 \<and> count p < PIPE_BUFFER_CAPACITY"

definition read_some :: "Pipe \<Rightarrow> Pipe" where
  "read_some p =
     (let op = waiting_reads p;
          len = min (count p) (op_size (ops p op));
          p = (if PIPE_BUFFER_CAPACITY < read_pos p + len then
                 (let first = PIPE_BUFFER_CAPACITY - read_pos p;
                      p = advance op first (copy_out op (read_pos p) first p);
                      second = len - first
                  in advance op second (copy_out op 0 second p))
               else advance op len (copy_out op (read_pos p) len p));
          p = transferred op len p;
          p = p\<lparr>read_pos := (read_pos p + len) mod PIPE_BUFFER_CAPACITY, count := count p - len\<rparr>
      in if op_size (ops p op) = 0 \<or> waiting_writes p = 0 then
           (let p = p\<lparr>waiting_reads := op_next (ops p op)\<rparr>;
                p = (if waiting_reads p = 0 then p\<lparr>waiting_reads_tail := 0\<rparr> else p)
            in wake_op op p)
         else p)"

definition write_some :: "Pipe \<Rightarrow> Pipe" where
  "write_some p =
     (let op = waiting_writes p;
          len = min (PIPE_BUFFER_CAPACITY - count p) (op_size (ops p op));
          write_pos = (read_pos p + count p) mod PIPE_BUFFER_CAPACITY;
          p = (if PIPE_BUFFER_CAPACITY < write_pos + len then
                 (let first = PIPE_BUFFER_CAPACITY - write_pos;
                      p = advance op first (copy_in op write_pos first p);
                      second = len - first
                  in advance op second (copy_in op 0 second p))
               else advance op len (copy_in op write_pos len p));
          p = transferred op len p;
          p = p\<lparr>count := count p + len\<rparr>
      in if op_size (ops p op) = 0 then
           (let p = p\<lparr>waiting_writes := op_next (ops p op)\<rparr>;
                p = (if waiting_writes p = 0 then p\<lparr>waiting_writes_tail := 0\<rparr> else p)
            in wake_op op p)
         else p)"

partial_function (option) doOperationOnPipe :: "Pipe \<Rightarrow> Pipe option" where
  "doOperationOnPipe p =
     (if can_read p then doOperationOnPipe (read_some p)
      else if can_write p then doOperationOnPipe (write_some p)
      else Some p)"

text \<open>
  \<open>handlePipeWakeup\<close>: \<open>signals\<close> says whether a signal is pending for the process. The search loop
  returns the predecessor and the operation found; only the waiting reads are searched.
\<close>

partial_function (option) find_op :: "(u64 \<Rightarrow> WaitingPipeOperation) \<Rightarrow> u64 \<Rightarrow> u64 \<Rightarrow> u64 \<Rightarrow> (u64 \<times> u64) option" where
  "find_op os task prev cur =
     (if cur \<noteq> 0 \<and> op_wakeup (os cur) \<noteq> task then find_op os task cur (op_next (os cur)) else Some (prev, cur))"

definition set_op_next :: "u64 \<Rightarrow> u64 \<Rightarrow> (u64 \<Rightarrow> WaitingPipeOperation) \<Rightarrow> (u64 \<Rightarrow> WaitingPipeOperation)" where
  "set_op_next a v os = os(a := (os a)\<lparr>op_next := v\<rparr>)"

definition handlePipeWakeup :: "bool \<Rightarrow> u64 \<Rightarrow> Pipe \<Rightarrow> (bool \<times> Pipe) option" where
  "handlePipeWakeup signals task p =
     (if signals then do {
        (prev, cur) \<leftarrow> find_op (ops p) task 0 (waiting_reads p);
        let p = (if cur \<noteq> 0 then
                   (let n = op_next (ops p cur);
                        p = (if prev = 0 then p\<lparr>waiting_reads := n\<rparr> else p\<lparr>ops := set_op_next prev n (ops p)\<rparr>)
                    in if waiting_reads p = 0 then p\<lparr>waiting_reads_tail := 0\<rparr> else p)
                 else p);
        Some (True, p) }
      else Some (False, p))"

partial_function (option) sum_sizes :: "(u64 \<Rightarrow> WaitingPipeOperation) \<Rightarrow> u64 \<Rightarrow> nat \<Rightarrow> nat option" where
  "sum_sizes os cur capacity =
     (if cur \<noteq> 0 then sum_sizes os (op_next (os cur)) (capacity + op_size (os cur)) else Some capacity)"

definition currentReadCapacity :: "Pipe \<Rightarrow> nat option" where
  "currentReadCapacity p = sum_sizes (ops p) (waiting_writes p) (count p)"

definition currentWriteCapacity :: "Pipe \<Rightarrow> nat option" where
  "currentWriteCapacity p = sum_sizes (ops p) (waiting_reads p) (PIPE_BUFFER_CAPACITY - count p)"

text \<open>Appending the operation, as \<open>executePipeOperation\<close> does: the tail pointers are not moved.\<close>

definition append_op :: "bool \<Rightarrow> u64 \<Rightarrow> Pipe \<Rightarrow> Pipe" where
  "append_op write op p =
     (if write then
        (if waiting_writes p = 0 then p\<lparr>waiting_writes := op, waiting_writes_tail := op\<rparr>
         else p\<lparr>ops := set_op_next (waiting_writes_tail p) op (ops p)\<rparr>)
      else
        (if waiting_reads p = 0 then p\<lparr>waiting_reads := op, waiting_reads_tail := op\<rparr>
         else p\<lparr>ops := set_op_next (waiting_reads_tail p) op (ops p)\<rparr>))"

datatype pipe_result = PipeEOF | PipeAgain | PipeWait

text \<open>
  \<open>executePipeOperation\<close> up to the point where the task sleeps: \<open>op\<close> is the address of the
  operation, \<open>task\<close> the current task. When it wakes up, \<open>pipe_return\<close> is its result.
\<close>

definition executePipeOperation :: "u64 \<Rightarrow> u64 \<Rightarrow> u64 \<Rightarrow> u64 \<Rightarrow> nat \<Rightarrow> bool \<Rightarrow> bool \<Rightarrow> Pipe \<Rightarrow> (pipe_result \<times> Pipe) option" where
  "executePipeOperation op task table address sz write block p = do {
     rc \<leftarrow> currentReadCapacity p;
     if rc = 0 \<and> write_count p = 0 then Some (PipeEOF, p)
     else do {
       wc \<leftarrow> currentWriteCapacity p;
       if block \<or> write \<and> wc \<ge> sz \<or> \<not> write \<and> rc > 0 then do {
         let p = p\<lparr>ops := (ops p)(op := \<lparr>op_table = table, op_address = address, op_size = sz, op_written = 0, op_wakeup = task, op_next = 0\<rparr>)\<rparr>;
         p \<leftarrow> doOperationOnPipe (append_op write op p);
         Some (PipeWait, p) }
       else Some (PipeAgain, p) } }"

definition pipe_return :: "u64 \<Rightarrow> Pipe \<Rightarrow> nat \<times> bool" where
  "pipe_return op p = (op_written (ops p op), op_written (ops p op) \<noteq> 0)"

definition createPipeSharedData :: "u8 list \<Rightarrow> bool \<Rightarrow> (u64 \<Rightarrow> memory) \<Rightarrow> Pipe" where
  "createPipeSharedData buf for_write sp = \<lparr>ref_count = 1, write_count = if for_write then 1 else 0, buffer = buf,
     read_pos = 0, count = 0, waiting_reads = 0, waiting_reads_tail = 0, waiting_writes = 0, waiting_writes_tail = 0,
     ops = (\<lambda>_. \<lparr>op_table = 0, op_address = 0, op_size = 0, op_written = 0, op_wakeup = 0, op_next = 0\<rparr>), spaces = sp, woken = []\<rparr>"

definition copyPipeSharedData :: "bool \<Rightarrow> Pipe \<Rightarrow> Pipe" where
  "copyPipeSharedData for_write p =
     (let p = p\<lparr>ref_count := ref_count p + 1\<rparr> in if for_write then p\<lparr>write_count := write_count p + 1\<rparr> else p)"

text \<open>The boolean says whether the data is freed.\<close>

definition freePipeSharedData :: "bool \<Rightarrow> Pipe \<Rightarrow> (bool \<times> Pipe) option" where
  "freePipeSharedData for_write p =
     (let p = p\<lparr>ref_count := ref_count p - 1\<rparr> in do {
        p \<leftarrow> (if for_write then do {
               cassert (write_count p > 0);
               let p = p\<lparr>write_count := write_count p - 1\<rparr>;
               if write_count p = 0 then doOperationOnPipe p else Some p }
             else Some p);
        cassert (write_count p \<le> ref_count p);
        Some (ref_count p = 0, p) })"

definition pipeIsReady :: "bool \<Rightarrow> Pipe \<Rightarrow> bool option" where
  "pipeIsReady write p =
     (if write then do { c \<leftarrow> currentWriteCapacity p; Some (c \<noteq> 0) }
      else do { c \<leftarrow> currentReadCapacity p; Some (c \<noteq> 0 \<or> write_count p = 0) })"

subsection \<open>The ring buffer\<close>

definition pipe_ok :: "Pipe \<Rightarrow> bool" where
  "pipe_ok p \<longleftrightarrow> length (buffer p) = PIPE_BUFFER_CAPACITY \<and> read_pos p < PIPE_BUFFER_CAPACITY \<and> count p \<le> PIPE_BUFFER_CAPACITY"

definition ring :: "u8 list \<Rightarrow> nat \<Rightarrow> u8 list" where
  "ring b r = drop r b @ take r b"

definition contents :: "Pipe \<Rightarrow> u8 list" where
  "contents p = take (count p) (ring (buffer p) (read_pos p))"

lemma split_list4:
  assumes "i \<le> j" "j \<le> k" "k \<le> length b"
  obtains A B C D where "b = A @ B @ C @ D" "length A = i" "length B = j - i" "length C = k - j" "length D = length b - k"
proof -
  have "b = take i b @ take (j - i) (drop i b) @ take (k - j) (drop j b) @ drop k b"
    by (metis (no_types, lifting) append_assoc append_take_drop_id assms(1,2) le_add_diff_inverse take_add)
  then show thesis using assms by (intro that) auto
qed

lemma contents_length: "pipe_ok p \<Longrightarrow> length (contents p) = count p"
  by (auto simp: pipe_ok_def contents_def ring_def min_def)

text \<open>Reading \<open>n\<close> bytes from the front, in one or two pieces, and moving the read position.\<close>

lemma ring_front:
  assumes "r < length b" "n \<le> length b"
  shows "take n (ring b r) = (if length b < r + n then drop r b @ take (n - (length b - r)) b else take n (drop r b))"
  using assms by (auto simp: ring_def min_def)

lemma ring_swap: "length B = n \<Longrightarrow> n \<le> c \<Longrightarrow> c - n \<le> length E \<Longrightarrow> take (c - n) (E @ B) = drop n (take c (B @ E))"
  by (simp add: min_def)

lemma ring_move:
  assumes "r < length b" "n \<le> c" "c \<le> length b"
  shows "take (c - n) (ring b ((r + n) mod length b)) = drop n (take c (ring b r))"
proof (cases "r + n < length b")
  case True
  then have le: "r \<le> r + n" "r + n \<le> length b" by simp_all
  obtain A B C D where b: "b = A @ B @ C @ D" "length A = r" "length B = r + n - r"
    by (rule split_list4 [OF le order_refl])
  have "ring b r = B @ C @ D @ A" "ring b ((r + n) mod length b) = C @ D @ A @ B"
    unfolding mod_less [OF True] using b by (simp_all add: ring_def)
  moreover have "c - n \<le> length (C @ D @ A)" using assms b by simp
  ultimately show ?thesis using b(3) ring_swap [of B n c "C @ D @ A"] assms(2) by simp
next
  case False
  then have w: "(r + n) mod length b = r + n - length b" "r + n - length b \<le> r" "r \<le> length b" using assms by (simp_all add: mod_if)
  obtain A B C D where b: "b = A @ B @ C @ D" "length A = r + n - length b" "length B = r - (r + n - length b)" "length C = length b - r" "length D = length b - length b"
    by (rule split_list4 [OF w(2,3) order_refl])
  have D: "D = []" using b(5) by simp
  have "ring b r = C @ A @ B" "ring b ((r + n) mod length b) = B @ C @ A"
    unfolding w(1) b(2) [symmetric] using b(3) w(2) unfolding b(2) [symmetric] ring_def by (simp_all add: b(1) D)
  moreover have "length C + length A = n" "c - n \<le> length B" using b w False assms by linarith+
  ultimately show ?thesis using ring_swap [of "C @ A" n c B] assms(2) by simp
qed

text \<open>Writing \<open>bs\<close> behind the first \<open>c\<close> bytes.\<close>

definition ring_write :: "u8 list \<Rightarrow> nat \<Rightarrow> u8 list \<Rightarrow> u8 list" where
  "ring_write b w bs =
     (if length b < w + length bs
      then (let f = length b - w; b' = take w b @ take f bs @ drop (w + f) b
            in drop f bs @ drop (length bs - f) b')
      else take w b @ bs @ drop (w + length bs) b)"

lemma ring_back:
  assumes "r < length b" "c + length bs \<le> length b"
  shows "take (c + length bs) (ring (ring_write b ((r + c) mod length b) bs) r) = take c (ring b r) @ bs \<and> length (ring_write b ((r + c) mod length b) bs) = length b"
proof -
  consider "r + c + length bs \<le> length b" "r + c < length b" | "r + c < length b" "length b < r + c + length bs" | "length b \<le> r + c" by linarith
  then show ?thesis
  proof cases
    case 1
    then have "r \<le> r + c" "r + c \<le> r + c + length bs" by simp_all
    then obtain A X Y Z where b: "b = A @ X @ Y @ Z" "length A = r" "length X = r + c - r" "length Y = r + c + length bs - (r + c)"
      by (rule split_list4 [OF _ _ 1(1)])
    then have n: "length X = c" "length Y = length bs" by simp_all
    have nw: "\<not> length b < r + c + length bs" using 1(1) by simp
    have tk: "take (r + c) b = A @ X" "drop (r + c + length bs) b = Z" using b(2) n by (simp_all add: b(1))
    have "ring_write b ((r + c) mod length b) bs = (A @ X) @ bs @ Z"
      unfolding mod_less [OF 1(2)] ring_write_def if_not_P [OF nw] tk ..
    moreover have "take c (ring b r) = X" "length b = r + c + length bs + length Z" using b(2) n by (simp_all add: ring_def b(1))
    ultimately show ?thesis using b(2) n by (simp add: ring_def)
  next
    case 2
    define k where "k = length bs - (length b - (r + c))"
    have k: "k \<le> r" "r \<le> r + c" "r + c \<le> length b" using 2 assms by (auto simp: k_def)
    obtain A1 A2 X Y where b: "b = A1 @ A2 @ X @ Y" "length A1 = k" "length A2 = r - k" "length X = r + c - r" "length Y = length b - (r + c)"
      by (rule split_list4 [OF k])
    have n: "length A1 + length A2 = r" "length b - (r + c) = length Y" "length bs - length Y = length A1" "length Y \<le> length bs" using b(2-5) k 2 k_def by linarith+
    have m: "(r + c) mod length b = r + c" "length b < r + c + length bs" "length b - (r + c) = length Y" using 2 n by simp_all
    have tk: "take (r + c) b = A1 @ A2 @ X" "drop (r + c + length Y) b = []" using b(4) n(1) m(3) 2 by (simp_all add: b(1))
    have "ring_write b ((r + c) mod length b) bs = drop (length Y) bs @ drop (length A1) ((A1 @ A2 @ X) @ take (length Y) bs @ [])"
      unfolding m(1) ring_write_def if_P [OF m(2)] Let_def m(3) tk n(3) ..
    then have "ring_write b ((r + c) mod length b) bs = drop (length Y) bs @ A2 @ X @ take (length Y) bs" by simp
    moreover have "length (drop (length Y) bs @ A2) = r" using n by simp
    moreover have "take c (ring b r) = X" using n(1) b(4) by (simp add: ring_def b(1))
    moreover have "length b = r + c + length Y" using n(1) b(4) by (simp add: b(1))
    ultimately show ?thesis using n b(4) by (simp add: ring_def)
  next
    case 3
    then have w: "(r + c) mod length b = r + c - length b" "r + c - length b \<le> r + c - length b + length bs" "r + c - length b + length bs \<le> r" "r \<le> length b"
      using assms by (simp_all add: mod_if)
    obtain A1 Y A2 X where b: "b = A1 @ Y @ A2 @ X" "length A1 = r + c - length b" "length Y = r + c - length b + length bs - (r + c - length b)"
      "length A2 = r - (r + c - length b + length bs)" "length X = length b - r" by (rule split_list4 [OF w(2-4)])
    have n: "length X + length A1 = c" "length A1 + length Y + length A2 = r" "length Y = length bs" using b(2-5) w 3 by linarith+
    have nw: "\<not> length b < length A1 + length bs" using b(2) w by simp
    have tk: "take (length A1) b = A1" "drop (length A1 + length bs) b = A2 @ X" using n(3) by (simp_all add: b(1))
    have "ring_write b ((r + c) mod length b) bs = A1 @ bs @ A2 @ X"
      unfolding w(1) b(2) [symmetric] ring_write_def if_not_P [OF nw] tk ..
    moreover have "take c (ring b r) = X @ A1" using n by (simp add: ring_def b(1))
    moreover have "length b = r + length X" using n by (simp add: b(1))
    ultimately show ?thesis using n by (simp add: ring_def)
  qed
qed

subsection \<open>Single steps\<close>

definition read_len :: "Pipe \<Rightarrow> nat" where
  "read_len p = min (count p) (op_size (ops p (waiting_reads p)))"

definition write_len :: "Pipe \<Rightarrow> nat" where
  "write_len p = min (PIPE_BUFFER_CAPACITY - count p) (op_size (ops p (waiting_writes p)))"

text \<open>The bytes a read step leaves in the memory of the reader, and those a write step takes from the writer.\<close>

definition delivered :: "Pipe \<Rightarrow> u8 list" where
  "delivered p = (let o' = ops p (waiting_reads p) in read_bytes (spaces (read_some p) (op_table o')) (op_address o') (read_len p))"

definition taken :: "Pipe \<Rightarrow> u8 list" where
  "taken p = (let o' = ops p (waiting_writes p) in read_bytes (spaces p (op_table o')) (op_address o') (write_len p))"

definition op_step :: "nat \<Rightarrow> WaitingPipeOperation \<Rightarrow> WaitingPipeOperation" where
  "op_step n x = x\<lparr>op_address := op_address x + of_nat n, op_size := op_size x - n, op_written := op_written x + n\<rparr>"

lemma op_step_fields [simp]: "op_next (op_step n x) = op_next x" "op_size (op_step n x) = op_size x - n" "op_wakeup (op_step n x) = op_wakeup x"
  "op_table (op_step n x) = op_table x" "op_written (op_step n x) = op_written x + n"
  by (simp_all add: op_step_def)

lemma copy_out_run:
  assumes "pipe_ok p" "n \<le> count p" "x = ops p op"
  shows "(if PIPE_BUFFER_CAPACITY < read_pos p + n
      then advance op (n - (PIPE_BUFFER_CAPACITY - read_pos p)) (copy_out op 0 (n - (PIPE_BUFFER_CAPACITY - read_pos p))
             (advance op (PIPE_BUFFER_CAPACITY - read_pos p) (copy_out op (read_pos p) (PIPE_BUFFER_CAPACITY - read_pos p) p)))
      else advance op n (copy_out op (read_pos p) n p))
    = p\<lparr>spaces := (spaces p)(op_table x := write_bytes (spaces p (op_table x)) (op_address x) (take n (contents p))),
        ops := (ops p)(op := x\<lparr>op_address := op_address x + of_nat n\<rparr>)\<rparr>"
proof -
  let ?b = "buffer p" and ?r = "read_pos p"
  have b: "length ?b = PIPE_BUFFER_CAPACITY" "?r < length ?b" "n \<le> length ?b" using assms by (auto simp: pipe_ok_def)
  have tk: "take n (contents p) = (if length ?b < ?r + n then drop ?r ?b @ take (n - (length ?b - ?r)) ?b else take n (drop ?r ?b))"
    using ring_front [OF b(2,3)] assms(2) by (simp add: contents_def min_absorb1)
  show ?thesis
  proof (cases "length ?b < ?r + n")
    case True
    let ?f = "length ?b - ?r"
    have "write_bytes (write_bytes m a (drop ?r ?b)) (a + of_nat ?f) (take (n - ?f) ?b) = write_bytes m a (take n (contents p))" for m a
      unfolding tk if_P [OF True] write_bytes_append by simp
    moreover have "of_nat ?f + of_nat (n - ?f) = (of_nat n :: u64)" using True b(2) by (metis add_diff_inverse_nat le_add_diff_inverse less_diff_conv2 less_imp_le_nat of_nat_add not_less add.commute)
    ultimately show ?thesis
      using True b(1) assms(3) by (simp add: copy_out_def advance_def Let_def add.assoc)
  next
    case False
    then show ?thesis using b(1) tk assms(3) by (simp add: copy_out_def advance_def Let_def)
  qed
qed

lemma copy_in_run:
  assumes "pipe_ok p" "n \<le> PIPE_BUFFER_CAPACITY - count p" "x = ops p op" "w = (read_pos p + count p) mod PIPE_BUFFER_CAPACITY"
  shows "(if PIPE_BUFFER_CAPACITY < w + n
      then advance op (n - (PIPE_BUFFER_CAPACITY - w)) (copy_in op 0 (n - (PIPE_BUFFER_CAPACITY - w))
             (advance op (PIPE_BUFFER_CAPACITY - w) (copy_in op w (PIPE_BUFFER_CAPACITY - w) p)))
      else advance op n (copy_in op w n p))
    = p\<lparr>buffer := ring_write (buffer p) w (read_bytes (spaces p (op_table x)) (op_address x) n),
        ops := (ops p)(op := x\<lparr>op_address := op_address x + of_nat n\<rparr>)\<rparr>"
proof -
  let ?b = "buffer p" and ?bs = "read_bytes (spaces p (op_table x)) (op_address x) n"
  have b: "length ?b = PIPE_BUFFER_CAPACITY" "w < length ?b" using assms by (auto simp: pipe_ok_def PIPE_BUFFER_CAPACITY_def)
  show ?thesis
  proof (cases "length ?b < w + n")
    case True
    define f where "f = length ?b - w"
    have f: "f \<le> n" "of_nat f + of_nat (n - f) = (of_nat n :: u64)" "w + f = length ?b"
      using True b(2) by (simp_all add: f_def)
    have bs: "?bs = read_bytes (spaces p (op_table x)) (op_address x) f @ read_bytes (spaces p (op_table x)) (op_address x + of_nat f) (n - f)"
      using read_bytes_split [of _ _ f "n - f"] f(1) by simp
    define b1 b2 where "b1 = read_bytes (spaces p (op_table x)) (op_address x) f" and "b2 = read_bytes (spaces p (op_table x)) (op_address x + of_nat f) (n - f)"
    have l: "length b1 = f" "length b2 = n - f" "length ?bs = n" "?bs = b1 @ b2" using bs f(1) by (simp_all add: b1_def b2_def)
    have rw: "ring_write ?b w ?bs = b2 @ drop (n - f) (take w ?b @ b1 @ drop (w + f) ?b)"
      unfolding ring_write_def l(3) if_P [OF True] Let_def f_def [symmetric] using l(1) by (simp add: l(4))
    have one: "advance op f (copy_in op w f p) = p\<lparr>buffer := take w ?b @ b1 @ drop (w + f) ?b, ops := (ops p)(op := x\<lparr>op_address := op_address x + of_nat f\<rparr>)\<rparr>"
      using assms(3) by (simp add: copy_in_def advance_def b1_def Let_def)
    have "advance op (n - f) (copy_in op 0 (n - f) (advance op f (copy_in op w f p)))
        = p\<lparr>buffer := ring_write ?b w ?bs, ops := (ops p)(op := x\<lparr>op_address := op_address x + of_nat n\<rparr>)\<rparr>"
      unfolding one rw using f(2) by (simp add: copy_in_def advance_def Let_def b2_def add.assoc)
    then show ?thesis using True unfolding b(1) [symmetric] f_def by simp
  next
    case False
    then show ?thesis using b(1) assms(3) by (simp add: copy_in_def advance_def Let_def ring_write_def)
  qed
qed

lemma read_some_spec:
  assumes ok: "pipe_ok p"
  shows "pipe_ok (read_some p)" "contents (read_some p) = drop (read_len p) (contents p)"
    "ops (read_some p) = (ops p)(waiting_reads p := op_step (read_len p) (ops p (waiting_reads p)))"
    "waiting_reads (read_some p) = (if op_size (ops p (waiting_reads p)) \<le> count p \<or> waiting_writes p = 0
       then op_next (ops p (waiting_reads p)) else waiting_reads p)"
    "waiting_writes (read_some p) = waiting_writes p" "write_count (read_some p) = write_count p" "delivered p = take (read_len p) (contents p)"
proof -
  let ?op = "waiting_reads p" and ?n = "read_len p" and ?x = "ops p (waiting_reads p)"
  have n: "?n \<le> count p" by (simp add: read_len_def)
  note run = copy_out_run [OF ok n refl, of ?op]
  let ?q = "p\<lparr>spaces := (spaces p)(op_table ?x := write_bytes (spaces p (op_table ?x)) (op_address ?x) (take ?n (contents p))), ops := (ops p)(?op := op_step ?n ?x),
     read_pos := (read_pos p + ?n) mod PIPE_BUFFER_CAPACITY, count := count p - ?n\<rparr>"
  have e: "read_some p = (if op_size ?x - ?n = 0 \<or> waiting_writes p = 0 then
           (let p = ?q\<lparr>waiting_reads := op_next ?x\<rparr>; p = (if waiting_reads p = 0 then p\<lparr>waiting_reads_tail := 0\<rparr> else p) in wake_op ?op p) else ?q)"
    unfolding read_some_def Let_def read_len_def [symmetric] run by (simp add: transferred_def op_step_def Let_def)
  have f: "buffer (read_some p) = buffer p" "count (read_some p) = count p - ?n" "read_pos (read_some p) = (read_pos p + ?n) mod PIPE_BUFFER_CAPACITY"
    "spaces (read_some p) = (spaces p)(op_table ?x := write_bytes (spaces p (op_table ?x)) (op_address ?x) (take ?n (contents p)))"
    by (simp_all add: e Let_def wake_op_def)
  show "ops (read_some p) = (ops p)(?op := op_step ?n ?x)" "waiting_writes (read_some p) = waiting_writes p" "write_count (read_some p) = write_count p"
    by (simp_all add: e Let_def wake_op_def)
  have "op_size ?x - ?n = 0 \<longleftrightarrow> op_size ?x \<le> count p" by (auto simp: read_len_def)
  then show "waiting_reads (read_some p) = (if op_size ?x \<le> count p \<or> waiting_writes p = 0 then op_next ?x else ?op)"
    by (simp add: e Let_def wake_op_def)
  have b: "length (buffer p) = PIPE_BUFFER_CAPACITY" "read_pos p < length (buffer p)" "count p \<le> length (buffer p)" using ok by (auto simp: pipe_ok_def)
  show "contents (read_some p) = drop ?n (contents p)"
    using ring_move [OF b(2) n b(3)] by (simp add: contents_def f b(1))
  show "pipe_ok (read_some p)" using ok f by (auto simp: pipe_ok_def PIPE_BUFFER_CAPACITY_def)
  have l: "length (take ?n (contents p)) = ?n" using contents_length [OF ok] n by simp
  have "length (take ?n (contents p)) \<le> 2 ^ 64" using b(1,3) n l by (simp add: PIPE_BUFFER_CAPACITY_def)
  from read_write_bytes [OF this] l show "delivered p = take ?n (contents p)" by (simp add: delivered_def Let_def f)
qed

lemma write_some_spec:
  assumes ok: "pipe_ok p"
  shows "pipe_ok (write_some p)" "contents (write_some p) = contents p @ taken p"
    "ops (write_some p) = (ops p)(waiting_writes p := op_step (write_len p) (ops p (waiting_writes p)))"
    "waiting_writes (write_some p) = (if op_size (ops p (waiting_writes p)) \<le> PIPE_BUFFER_CAPACITY - count p
       then op_next (ops p (waiting_writes p)) else waiting_writes p)"
    "waiting_reads (write_some p) = waiting_reads p" "write_count (write_some p) = write_count p" "spaces (write_some p) = spaces p"
proof -
  let ?op = "waiting_writes p" and ?n = "write_len p" and ?x = "ops p (waiting_writes p)"
  let ?w = "(read_pos p + count p) mod PIPE_BUFFER_CAPACITY"
  have n: "?n \<le> PIPE_BUFFER_CAPACITY - count p" by (simp add: write_len_def)
  have tk: "taken p = read_bytes (spaces p (op_table ?x)) (op_address ?x) ?n" "length (taken p) = ?n" by (simp_all add: taken_def Let_def)
  note run = copy_in_run [OF ok n refl refl, of ?op, folded tk(1)]
  let ?q = "p\<lparr>buffer := ring_write (buffer p) ?w (taken p), ops := (ops p)(?op := op_step ?n ?x), count := count p + ?n\<rparr>"
  have e: "write_some p = (if op_size ?x - ?n = 0 then
           (let p = ?q\<lparr>waiting_writes := op_next ?x\<rparr>; p = (if waiting_writes p = 0 then p\<lparr>waiting_writes_tail := 0\<rparr> else p) in wake_op ?op p) else ?q)"
    unfolding write_some_def Let_def write_len_def [symmetric] run by (simp add: transferred_def op_step_def Let_def)
  have f: "buffer (write_some p) = ring_write (buffer p) ?w (taken p)" "count (write_some p) = count p + ?n" "read_pos (write_some p) = read_pos p"
    by (simp_all add: e Let_def wake_op_def)
  show "ops (write_some p) = (ops p)(?op := op_step ?n ?x)" "waiting_reads (write_some p) = waiting_reads p" "write_count (write_some p) = write_count p"
    "spaces (write_some p) = spaces p"
    by (simp_all add: e Let_def wake_op_def)
  have "op_size ?x - ?n = 0 \<longleftrightarrow> op_size ?x \<le> PIPE_BUFFER_CAPACITY - count p" by (auto simp: write_len_def)
  then show "waiting_writes (write_some p) = (if op_size ?x \<le> PIPE_BUFFER_CAPACITY - count p then op_next ?x else ?op)"
    by (simp add: e Let_def wake_op_def)
  have b: "length (buffer p) = PIPE_BUFFER_CAPACITY" "read_pos p < length (buffer p)" "count p + length (taken p) \<le> length (buffer p)"
    using ok n tk(2) by (auto simp: pipe_ok_def)
  note rb = ring_back [OF b(2,3), unfolded b(1)]
  show "contents (write_some p) = contents p @ taken p" using rb tk(2) by (simp add: contents_def f)
  show "pipe_ok (write_some p)" using ok f rb b tk(2) by (simp add: pipe_ok_def)
qed

subsection \<open>Runs\<close>

text \<open>\<open>pipe_run p rd wr p'\<close>: the loop goes from \<open>p\<close> to \<open>p'\<close>, delivering \<open>rd\<close> to readers and taking \<open>wr\<close> from writers.\<close>

inductive pipe_run :: "Pipe \<Rightarrow> u8 list \<Rightarrow> u8 list \<Rightarrow> Pipe \<Rightarrow> bool" where
  run_stop: "\<not> can_read p \<Longrightarrow> \<not> can_write p \<Longrightarrow> pipe_run p [] [] p"
| run_read: "can_read p \<Longrightarrow> pipe_run (read_some p) rd wr p' \<Longrightarrow> pipe_run p (delivered p @ rd) wr p'"
| run_write: "\<not> can_read p \<Longrightarrow> can_write p \<Longrightarrow> pipe_run (write_some p) rd wr p' \<Longrightarrow> pipe_run p rd (taken p @ wr) p'"

lemma pipe_run_loop: "pipe_run p rd wr p' \<Longrightarrow> doOperationOnPipe p = Some p'"
  by (induction rule: pipe_run.induct) (simp_all add: doOperationOnPipe.simps)

lemma pipe_run_fifo: "pipe_run p rd wr p' \<Longrightarrow> pipe_ok p \<Longrightarrow> contents p @ wr = rd @ contents p' \<and> pipe_ok p'"
proof (induction rule: pipe_run.induct)
  case (run_read p rd wr p')
  then show ?case using read_some_spec(1,2,7) [OF run_read.prems] by (metis append.assoc append_take_drop_id)
next
  case (run_write p rd wr p')
  then show ?case using write_some_spec(1,2) [OF run_write.prems] by simp
qed simp

text \<open>The waiting operations, and a measure of the work left.\<close>

definition waits :: "Pipe \<Rightarrow> u64 list \<Rightarrow> u64 list \<Rightarrow> bool" where
  "waits p rs ws \<longleftrightarrow> linked (\<lambda>o'. op_next (ops p o')) (waiting_reads p) rs \<and> linked (\<lambda>o'. op_next (ops p o')) (waiting_writes p) ws
     \<and> set rs \<inter> set ws = {}"

definition work :: "Pipe \<Rightarrow> u64 list \<Rightarrow> nat" where
  "work p xs = (\<Sum>o'\<leftarrow>xs. op_size (ops p o') + 1)"

lemma work_step:
  assumes "xs = x # xs0" "distinct xs" "ops q = (ops p)(x := op_step n (ops p x))" "n \<le> op_size (ops p x)"
  shows "work p xs = work q xs0 + op_size (ops p x) + 1" "work q xs + n = work p xs"
proof -
  have "work q xs0 = work p xs0"
    unfolding work_def using assms by (auto intro!: arg_cong [where f = sum_list] map_cong)
  then show "work p xs = work q xs0 + op_size (ops p x) + 1" "work q xs + n = work p xs"
    using assms by (simp_all add: work_def)
qed

lemma work_other: "x \<notin> set xs \<Longrightarrow> ops q = (ops p)(x := y) \<Longrightarrow> work q xs = work p xs"
  unfolding work_def by (auto intro!: arg_cong [where f = sum_list] map_cong)

lemma waits_step:
  assumes "ops q = (ops p)(x := op_step n (ops p x))"
  shows "lseg (\<lambda>o'. op_next (ops q o')) = lseg (\<lambda>o'. op_next (ops p o'))"
  by (rule arg_cong [where f = lseg]) (auto simp: assms fun_eq_iff)

lemma read_progress:
  assumes w: "waits p rs ws" and ok: "pipe_ok p" and c: "can_read p" and nw: "write_count p > 0 \<or> waiting_writes p = 0"
  shows "\<exists>rs'. waits (read_some p) rs' ws \<and> work (read_some p) rs' + work (read_some p) ws < work p rs + work p ws"
proof -
  let ?x = "waiting_reads p" and ?q = "read_some p"
  note r = read_some_spec [OF ok]
  obtain rs0 where rs: "rs = ?x # rs0" "linked (\<lambda>o'. op_next (ops p o')) (op_next (ops p ?x)) rs0"
    using w c linked_nonnull unfolding waits_def can_read_def by meson
  have d: "distinct rs" "?x \<notin> set ws" "set rs0 \<inter> set ws = {}"
    using w rs(1) lseg_distinct [of _ "waiting_reads p" rs] by (auto simp: waits_def)
  note ws = work_step [OF rs(1) d(1) r(3), unfolded read_len_def] and wo = work_other [OF d(2) r(3)]
  show ?thesis
  proof (cases "op_size (ops p ?x) \<le> count p \<or> waiting_writes p = 0")
    case True
    then have "waits ?q rs0 ws" using w rs d(3) r(4,5) unfolding waits_def waits_step [OF r(3)] by simp
    then show ?thesis using ws(1) wo by auto
  next
    case False
    then have "waits ?q rs ws" "count p > 0" using w r(4,5) c nw unfolding waits_def waits_step [OF r(3)] by (auto simp: can_read_def)
    then show ?thesis using ws(2) wo False by auto
  qed
qed

lemma write_progress:
  assumes w: "waits p rs ws" and ok: "pipe_ok p" and c: "can_write p"
  shows "\<exists>ws'. waits (write_some p) rs ws' \<and> work (write_some p) rs + work (write_some p) ws' < work p rs + work p ws"
proof -
  let ?x = "waiting_writes p" and ?q = "write_some p"
  note r = write_some_spec [OF ok]
  obtain ws0 where ws: "ws = ?x # ws0" "linked (\<lambda>o'. op_next (ops p o')) (op_next (ops p ?x)) ws0"
    using w c linked_nonnull unfolding waits_def can_write_def by meson
  have d: "distinct ws" "?x \<notin> set rs" "set rs \<inter> set ws0 = {}"
    using w ws(1) lseg_distinct [of _ "waiting_writes p" ws] by (auto simp: waits_def)
  note wk = work_step [OF ws(1) d(1) r(3), unfolded write_len_def] and wo = work_other [OF d(2) r(3)]
  show ?thesis
  proof (cases "op_size (ops p ?x) \<le> PIPE_BUFFER_CAPACITY - count p")
    case True
    then have "waits ?q rs ws0" using w ws d(3) r(4,5) unfolding waits_def waits_step [OF r(3)] by simp
    then show ?thesis using wk(1) wo by auto
  next
    case False
    then have "waits ?q rs ws" "count p < PIPE_BUFFER_CAPACITY" using w r(4,5) c unfolding waits_def waits_step [OF r(3)] by (auto simp: can_write_def)
    then show ?thesis using wk(2) wo False by auto
  qed
qed

lemma pipe_run_exists:
  assumes "waits p rs ws" "pipe_ok p" "write_count p > 0 \<or> waiting_writes p = 0"
  shows "\<exists>rd wr p'. pipe_run p rd wr p'"
  using assms
proof (induction "work p rs + work p ws" arbitrary: p rs ws rule: less_induct)
  case less
  consider "can_read p" | "\<not> can_read p" "can_write p" | "\<not> can_read p" "\<not> can_write p" by blast
  then show ?case
  proof cases
    case 1
    obtain rs' where "waits (read_some p) rs' ws" "work (read_some p) rs' + work (read_some p) ws < work p rs + work p ws"
      using read_progress less.prems 1 by blast
    with less.hyps [OF this(2,1)] read_some_spec(1,5,6) [OF less.prems(2)] less.prems(3) run_read [OF 1]
    show ?thesis by simp blast
  next
    case 2
    obtain ws' where "waits (write_some p) rs ws'" "work (write_some p) rs + work (write_some p) ws' < work p rs + work p ws"
      using write_progress less.prems 2 by blast
    moreover have "write_count p > 0" using less.prems(3) 2(2) by (simp add: can_write_def)
    ultimately show ?thesis
      using less.hyps [of "write_some p" rs ws'] write_some_spec(1,6) [OF less.prems(2)] run_write [OF 2]
      by simp blast
  qed (use run_stop in blast)
qed

lemma pipe_run_stops: "pipe_run p rd wr p' \<Longrightarrow> \<not> can_read p' \<and> \<not> can_write p'"
  by (induction rule: pipe_run.induct) auto


text \<open>A pipe with one waiting write of three bytes and one waiting read of two.\<close>

definition sample_pipe :: Pipe where
  "sample_pipe = (createPipeSharedData (replicate 512 0) True (\<lambda>_ a. ucast a))
     \<lparr>waiting_reads := 16, waiting_reads_tail := 16, waiting_writes := 32, waiting_writes_tail := 32,
      ops := (\<lambda>_. \<lparr>op_table = 0, op_address = 0, op_size = 0, op_written = 0, op_wakeup = 0, op_next = 0\<rparr>)
        (16 := \<lparr>op_table = 1, op_address = 100, op_size = 2, op_written = 0, op_wakeup = 7, op_next = 0\<rparr>,
         32 := \<lparr>op_table = 2, op_address = 65, op_size = 3, op_written = 0, op_wakeup = 9, op_next = 0\<rparr>)\<rparr>"

lemma sample_pipe_ok: "pipe_ok sample_pipe" "waits sample_pipe [16] [32]" "write_count sample_pipe > 0 \<or> waiting_writes sample_pipe = 0"
  by (simp_all add: sample_pipe_def createPipeSharedData_def pipe_ok_def waits_def PIPE_BUFFER_CAPACITY_def)


subsection \<open>The tail of the waiting list\<close>

lemma sum_sizes_Null: "sum_sizes os 0 c = Some c"
  by (simp add: sum_sizes.simps)

lemma sum_sizes_total: "linked (\<lambda>o'. op_next (os o')) h xs \<Longrightarrow> sum_sizes os h c = Some (c + (\<Sum>o'\<leftarrow>xs. op_size (os o')))"
proof (induction xs arbitrary: h c)
  case Nil
  then show ?case by (simp add: sum_sizes_Null)
next
  case (Cons x xs)
  then show ?case by (simp add: sum_sizes.simps [of os x] add.assoc)
qed

definition idle_pipe :: "Pipe \<Rightarrow> u64 list \<Rightarrow> bool" where
  "idle_pipe p rs \<longleftrightarrow> count p = 0 \<and> write_count p > 0 \<and> waiting_writes p = 0 \<and> linked (\<lambda>o'. op_next (ops p o')) (waiting_reads p) rs"

lemma executePipeOperation_read_idle:
  assumes "idle_pipe p rs"
  shows "executePipeOperation op task table address sz False True p
    = Some (PipeWait, append_op False op (p\<lparr>ops := (ops p)(op := \<lparr>op_table = table, op_address = address, op_size = sz, op_written = 0, op_wakeup = task, op_next = 0\<rparr>)\<rparr>))"
  using assms sum_sizes_total [of "ops p" "waiting_reads p" rs]
  by (simp add: idle_pipe_def executePipeOperation_def currentReadCapacity_def currentWriteCapacity_def sum_sizes_Null
      doOperationOnPipe.simps can_read_def can_write_def append_op_def)

text \<open>
  Property C15 (pipe_loses_reader). The tail pointers are set when an operation enters an empty list and not when one
  is appended to it: of three reads that block on an empty pipe, the third replaces the second in
  the list, and the second reader is never woken.
\<close>

theorem pipe_loses_reader:
  assumes "idle_pipe p []" "a \<noteq> 0" "b \<noteq> 0" "c \<noteq> 0" "distinct [a, b, c]"
    "executePipeOperation a ta xa ya na False True p = Some (r1, p1)"
    "executePipeOperation b tb xb yb nb False True p1 = Some (r2, p2)"
    "executePipeOperation c tc xc yc nc False True p2 = Some (r3, p3)"
  shows "linked (\<lambda>o'. op_next (ops p2 o')) (waiting_reads p2) [a, b] \<and> linked (\<lambda>o'. op_next (ops p3 o')) (waiting_reads p3) [a, c]"
proof -
  have p1: "p1 = append_op False a (p\<lparr>ops := (ops p)(a := \<lparr>op_table = xa, op_address = ya, op_size = na, op_written = 0, op_wakeup = ta, op_next = 0\<rparr>)\<rparr>)"
    using executePipeOperation_read_idle [OF assms(1)] assms(6) by simp
  then have i1: "idle_pipe p1 [a]" "waiting_reads p1 = a" "waiting_reads_tail p1 = a"
    using assms(1,2) by (simp_all add: idle_pipe_def append_op_def)
  have p2: "p2 = append_op False b (p1\<lparr>ops := (ops p1)(b := \<lparr>op_table = xb, op_address = yb, op_size = nb, op_written = 0, op_wakeup = tb, op_next = 0\<rparr>)\<rparr>)"
    using executePipeOperation_read_idle [OF i1(1)] assms(7) by simp
  then have i2: "idle_pipe p2 [a, b]" "waiting_reads p2 = a" "waiting_reads_tail p2 = a"
    using i1 assms(2-5) by (auto simp: idle_pipe_def append_op_def set_op_next_def)
  have p3: "p3 = append_op False c (p2\<lparr>ops := (ops p2)(c := \<lparr>op_table = xc, op_address = yc, op_size = nc, op_written = 0, op_wakeup = tc, op_next = 0\<rparr>)\<rparr>)"
    using executePipeOperation_read_idle [OF i2(1)] assms(8) by simp
  then have "linked (\<lambda>o'. op_next (ops p3 o')) (waiting_reads p3) [a, c]"
    using i2 assms(2-5) by (auto simp: idle_pipe_def append_op_def set_op_next_def)
  then show ?thesis using i2(1) by (simp add: idle_pipe_def)
qed

theorem pipe_loses_reader_witness:
  "\<exists>p (p2 :: Pipe) (p3 :: Pipe). idle_pipe p [] \<and> linked (\<lambda>o'. op_next (ops p2 o')) (waiting_reads p2) [16, 32] \<and> linked (\<lambda>o'. op_next (ops p3 o')) (waiting_reads p3) [16, 48]"
proof -
  let ?p = "createPipeSharedData (replicate 512 0) True (\<lambda>_ _. 0)"
  have i: "idle_pipe ?p []" by (simp add: idle_pipe_def createPipeSharedData_def)
  have n: "(16::u64) \<noteq> 0" "(32::u64) \<noteq> 0" "(48::u64) \<noteq> 0" "distinct [16::u64, 32, 48]" by simp_all
  note e = executePipeOperation_read_idle
  obtain p1 where p1: "executePipeOperation 16 1 0 0 8 False True ?p = Some (PipeWait, p1)" "idle_pipe p1 [16]" "waiting_reads_tail p1 = 16"
    using e [OF i] i by (simp add: idle_pipe_def append_op_def)
  obtain p2 where p2: "executePipeOperation 32 2 0 0 8 False True p1 = Some (PipeWait, p2)" "idle_pipe p2 [16, 32]"
    using e [OF p1(2)] p1(2,3) by (simp add: idle_pipe_def append_op_def set_op_next_def)
  obtain p3 where p3: "executePipeOperation 48 3 0 0 8 False True p2 = Some (PipeWait, p3)"
    using e [OF p2(2)] by simp
  show ?thesis
    apply (rule exI [of _ ?p])
    apply (rule exI [of _ p2])
    apply (rule exI [of _ p3])
    apply (rule conjI [OF i])
    apply (rule pipe_loses_reader [OF i n p1(1) p2(1) p3])
    done
qed

end
