(* ===== verification/RandomGen.thy ===== *)
theory RandomGen
  imports Bytes Schedule
begin

text \<open>
  Model of kernel/src/util/random.c: the entropy pools, the block cipher and the generator. A
  \<open>Bits256\<close> is a list of eight words, a \<open>Bits128\<close> a list of four. \<open>sha256Block\<close> and \<open>addRandomEvent\<close>
  leave part of a local array unset; what the stack holds there is the argument \<open>junk\<close>. \<open>getRandom\<close>
  returns the bytes it copies to the buffer, in order. \<open>panic()\<close> in \<open>mulBytes\<close> is \<open>None\<close>. The lock is
  omitted.
\<close>

unbundle bit_operations_syntax

subsection \<open>Hash\<close>

definition rotateRight :: "u32 \<Rightarrow> nat \<Rightarrow> u32" where
  "rotateRight v r = drop_bit r v OR push_bit (32 - r) v"

definition rotateLeft :: "u32 \<Rightarrow> nat \<Rightarrow> u32" where
  "rotateLeft v r = push_bit r v OR drop_bit (32 - r) v"

definition sbox :: "u8 list" where
  "sbox = [
     0x63, 0x7c, 0x77, 0x7b, 0xf2, 0x6b, 0x6f, 0xc5, 0x30, 0x01, 0x67, 0x2b,
     0xfe, 0xd7, 0xab, 0x76, 0xca, 0x82, 0xc9, 0x7d, 0xfa, 0x59, 0x47, 0xf0,
     0xad, 0xd4, 0xa2, 0xaf, 0x9c, 0xa4, 0x72, 0xc0, 0xb7, 0xfd, 0x93, 0x26,
     0x36, 0x3f, 0xf7, 0xcc, 0x34, 0xa5, 0xe5, 0xf1, 0x71, 0xd8, 0x31, 0x15,
     0x04, 0xc7, 0x23, 0xc3, 0x18, 0x96, 0x05, 0x9a, 0x07, 0x12, 0x80, 0xe2,
     0xeb, 0x27, 0xb2, 0x75, 0x09, 0x83, 0x2c, 0x1a, 0x1b, 0x6e, 0x5a, 0xa0,
     0x52, 0x3b, 0xd6, 0xb3, 0x29, 0xe3, 0x2f, 0x84, 0x53, 0xd1, 0x00, 0xed,
     0x20, 0xfc, 0xb1, 0x5b, 0x6a, 0xcb, 0xbe, 0x39, 0x4a, 0x4c, 0x58, 0xcf,
     0xd0, 0xef, 0xaa, 0xfb, 0x43, 0x4d, 0x33, 0x85, 0x45, 0xf9, 0x02, 0x7f,
     0x50, 0x3c, 0x9f, 0xa8, 0x51, 0xa3, 0x40, 0x8f, 0x92, 0x9d, 0x38, 0xf5,
     0xbc, 0xb6, 0xda, 0x21, 0x10, 0xff, 0xf3, 0xd2, 0xcd, 0x0c, 0x13, 0xec,
     0x5f, 0x97, 0x44, 0x17, 0xc4, 0xa7, 0x7e, 0x3d, 0x64, 0x5d, 0x19, 0x73,
     0x60, 0x81, 0x4f, 0xdc, 0x22, 0x2a, 0x90, 0x88, 0x46, 0xee, 0xb8, 0x14,
     0xde, 0x5e, 0x0b, 0xdb, 0xe0, 0x32, 0x3a, 0x0a, 0x49, 0x06, 0x24, 0x5c,
     0xc2, 0xd3, 0xac, 0x62, 0x91, 0x95, 0xe4, 0x79, 0xe7, 0xc8, 0x37, 0x6d,
     0x8d, 0xd5, 0x4e, 0xa9, 0x6c, 0x56, 0xf4, 0xea, 0x65, 0x7a, 0xae, 0x08,
     0xba, 0x78, 0x25, 0x2e, 0x1c, 0xa6, 0xb4, 0xc6, 0xe8, 0xdd, 0x74, 0x1f,
     0x4b, 0xbd, 0x8b, 0x8a, 0x70, 0x3e, 0xb5, 0x66, 0x48, 0x03, 0xf6, 0x0e,
     0x61, 0x35, 0x57, 0xb9, 0x86, 0xc1, 0x1d, 0x9e, 0xe1, 0xf8, 0x98, 0x11,
     0x69, 0xd9, 0x8e, 0x94, 0x9b, 0x1e, 0x87, 0xe9, 0xce, 0x55, 0x28, 0xdf,
     0x8c, 0xa1, 0x89, 0x0d, 0xbf, 0xe6, 0x42, 0x68, 0x41, 0x99, 0x2d, 0x0f,
     0xb0, 0x54, 0xbb, 0x16]"

definition sbox_at :: "u8 \<Rightarrow> u8" where
  "sbox_at b = sbox ! unat b"

definition subWord :: "u32 \<Rightarrow> u32" where
  "subWord v = ucast (sbox_at (ucast v)) OR push_bit 8 (ucast (sbox_at (ucast (drop_bit 8 v))))
     OR push_bit 16 (ucast (sbox_at (ucast (drop_bit 16 v)))) OR push_bit 24 (ucast (sbox_at (ucast (drop_bit 24 v))))"

definition sha256Init :: "u32 list" where
  "sha256Init = [0x6a09e667, 0xbb67ae85, 0x3c6ef372, 0xa54ff53a, 0x510e527f, 0x9b05688c, 0x1f83d9ab, 0x5be0cd19]"

definition sha256_constants :: "u32 list" where
  "sha256_constants =
     [0x428a2f98, 0x71374491, 0xb5c0fbcf, 0xe9b5dba5, 0x3956c25b, 0x59f111f1, 0x923f82a4] @
     [0xab1c5ed5, 0xd807aa98, 0x12835b01, 0x243185be, 0x550c7dc3, 0x72be5d74, 0x80deb1fe] @
     [0x9bdc06a7, 0xc19bf174, 0xe49b69c1, 0xefbe4786, 0x0fc19dc6, 0x240ca1cc, 0x2de92c6f] @
     [0x4a7484aa, 0x5cb0a9dc, 0x76f988da, 0x983e5152, 0xa831c66d, 0xb00327c8, 0xbf597fc7] @
     [0xc6e00bf3, 0xd5a79147, 0x06ca6351, 0x14292967, 0x27b70a85, 0x2e1b2138, 0x4d2c6dfc] @
     [0x53380d13, 0x650a7354, 0x766a0abb, 0x81c2c92e, 0x92722c85, 0xa2bfe8a1, 0xa81a664b] @
     [0xc24b8b70, 0xc76c51a3, 0xd192e819, 0xd6990624, 0xf40e3585, 0x106aa070, 0x19a4c116] @
     [0x1e376c08, 0x2748774c, 0x34b0bcb5, 0x391c0cb3, 0x4ed8aa4a, 0x5b9cca4f, 0x682e6ff3] @
     [0x748f82ee, 0x78a5636f, 0x84c87814, 0x8cc70208, 0x90befffa, 0xa4506ceb, 0xbef9a3f7] @
     [0xc67178f2]"

text \<open>The message schedule: the eight words of the block, eight words nobody wrote, then the expansion.\<close>

definition sha256_schedule :: "u32 list \<Rightarrow> u32 list \<Rightarrow> u32 list" where
  "sha256_schedule junk block = fold (\<lambda>i s.
     (let s0 = rotateRight (s ! (i - 15)) 7 XOR rotateRight (s ! (i - 15)) 18 XOR rotateRight (s ! (i - 15)) 3;
          s1 = rotateRight (s ! (i - 2)) 17 XOR rotateRight (s ! (i - 2)) 19 XOR rotateRight (s ! (i - 2)) 10
      in s @ [s ! (i - 16) + s0 + s ! (i - 7) + s1])) [16..<64] (block @ junk)"

type_synonym sha_vars = "u32 \<times> u32 \<times> u32 \<times> u32 \<times> u32 \<times> u32 \<times> u32 \<times> u32"

definition sha256_round :: "u32 list \<Rightarrow> nat \<Rightarrow> sha_vars \<Rightarrow> sha_vars" where
  "sha256_round schedule i = (\<lambda>(a, b, c, d, e, f, g, h).
     let S1 = rotateRight e 6 XOR rotateRight e 11 XOR rotateRight e 25;
         ch = (e AND f) XOR ((NOT e) AND g);
         temp1 = h + S1 + ch + sha256_constants ! i + schedule ! i;
         S0 = rotateRight a 2 XOR rotateRight a 13 XOR rotateRight a 22;
         maj = (a AND b) XOR (a AND c) XOR (b AND c);
         temp2 = S0 + maj
     in (temp1 + temp2, a, b, c, d + temp1, e, f, g))"

definition sha256Block :: "u32 list \<Rightarrow> u32 list \<Rightarrow> u32 list \<Rightarrow> u32 list" where
  "sha256Block junk hash block =
     (let schedule = sha256_schedule junk block;
          (a, b, c, d, e, f, g, h) = fold (sha256_round schedule) [0..<64]
            (hash ! 0, hash ! 1, hash ! 2, hash ! 3, hash ! 4, hash ! 5, hash ! 6, hash ! 7)
      in [hash ! 0 + a, hash ! 1 + b, hash ! 2 + c, hash ! 3 + d, hash ! 4 + e, hash ! 5 + f, hash ! 6 + g, hash ! 7 + h])"

subsection \<open>Cipher\<close>

definition aes_constants :: "u8 list" where
  "aes_constants = [
     0x8d, 0x01, 0x02, 0x04, 0x08, 0x10, 0x20, 0x40, 0x80, 0x1b, 0x36]"

definition aesKeyExpansion :: "u32 list \<Rightarrow> u32 list" where
  "aesKeyExpansion key = fold (\<lambda>i ks.
     (let tmp = ks ! (i - 1);
          tmp = (if i mod 8 = 0 then subWord (rotateLeft tmp 8) XOR ucast (aes_constants ! (i div 8))
                 else if i mod 8 = 4 then subWord tmp else tmp)
      in ks @ [ks ! (i - 8) XOR tmp])) [8..<60] (take 4 key @ take 4 (drop 4 key))"

definition round_key :: "u32 list \<Rightarrow> nat \<Rightarrow> u32 list" where
  "round_key flat_keys i = take 4 (drop (4 * i) flat_keys)"

definition aesAddRoundKey :: "u32 list \<Rightarrow> u32 list \<Rightarrow> u32 list" where
  "aesAddRoundKey block key = fold (\<lambda>i b. b[i := b ! i XOR key ! i]) [0..<4] block"

definition aesSubBytes :: "u32 list \<Rightarrow> u32 list" where
  "aesSubBytes block = fold (\<lambda>i b. b[i := subWord (b ! i)]) [0..<4] block"

definition shift_row :: "u32 \<Rightarrow> u32 list \<Rightarrow> u32 list" where
  "shift_row mk block =
     (let tmp = block ! 0;
          block = fold (\<lambda>j b. b[j := (b ! j AND NOT mk) OR (b ! (j + 1) AND mk)]) [0..<3] block
      in block[3 := (block ! 3 AND NOT mk) OR (tmp AND mk)])"

definition aesShiftRows :: "u32 list \<Rightarrow> u32 list" where
  "aesShiftRows block = fold (\<lambda>i b. (shift_row (push_bit (i * 8) 0xff) ^^ i) b) [1..<4] block"

definition gmul2 :: "u8 list" where
  "gmul2 = [
     0x00, 0x02, 0x04, 0x06, 0x08, 0x0a, 0x0c, 0x0e, 0x10, 0x12, 0x14, 0x16,
     0x18, 0x1a, 0x1c, 0x1e, 0x20, 0x22, 0x24, 0x26, 0x28, 0x2a, 0x2c, 0x2e,
     0x30, 0x32, 0x34, 0x36, 0x38, 0x3a, 0x3c, 0x3e, 0x40, 0x42, 0x44, 0x46,
     0x48, 0x4a, 0x4c, 0x4e, 0x50, 0x52, 0x54, 0x56, 0x58, 0x5a, 0x5c, 0x5e,
     0x60, 0x62, 0x64, 0x66, 0x68, 0x6a, 0x6c, 0x6e, 0x70, 0x72, 0x74, 0x76,
     0x78, 0x7a, 0x7c, 0x7e, 0x80, 0x82, 0x84, 0x86, 0x88, 0x8a, 0x8c, 0x8e,
     0x90, 0x92, 0x94, 0x96, 0x98, 0x9a, 0x9c, 0x9e, 0xa0, 0xa2, 0xa4, 0xa6,
     0xa8, 0xaa, 0xac, 0xae, 0xb0, 0xb2, 0xb4, 0xb6, 0xb8, 0xba, 0xbc, 0xbe,
     0xc0, 0xc2, 0xc4, 0xc6, 0xc8, 0xca, 0xcc, 0xce, 0xd0, 0xd2, 0xd4, 0xd6,
     0xd8, 0xda, 0xdc, 0xde, 0xe0, 0xe2, 0xe4, 0xe6, 0xe8, 0xea, 0xec, 0xee,
     0xf0, 0xf2, 0xf4, 0xf6, 0xf8, 0xfa, 0xfc, 0xfe, 0x1b, 0x19, 0x1f, 0x1d,
     0x13, 0x11, 0x17, 0x15, 0x0b, 0x09, 0x0f, 0x0d, 0x03, 0x01, 0x07, 0x05,
     0x3b, 0x39, 0x3f, 0x3d, 0x33, 0x31, 0x37, 0x35, 0x2b, 0x29, 0x2f, 0x2d,
     0x23, 0x21, 0x27, 0x25, 0x5b, 0x59, 0x5f, 0x5d, 0x53, 0x51, 0x57, 0x55,
     0x4b, 0x49, 0x4f, 0x4d, 0x43, 0x41, 0x47, 0x45, 0x7b, 0x79, 0x7f, 0x7d,
     0x73, 0x71, 0x77, 0x75, 0x6b, 0x69, 0x6f, 0x6d, 0x63, 0x61, 0x67, 0x65,
     0x9b, 0x99, 0x9f, 0x9d, 0x93, 0x91, 0x97, 0x95, 0x8b, 0x89, 0x8f, 0x8d,
     0x83, 0x81, 0x87, 0x85, 0xbb, 0xb9, 0xbf, 0xbd, 0xb3, 0xb1, 0xb7, 0xb5,
     0xab, 0xa9, 0xaf, 0xad, 0xa3, 0xa1, 0xa7, 0xa5, 0xdb, 0xd9, 0xdf, 0xdd,
     0xd3, 0xd1, 0xd7, 0xd5, 0xcb, 0xc9, 0xcf, 0xcd, 0xc3, 0xc1, 0xc7, 0xc5,
     0xfb, 0xf9, 0xff, 0xfd, 0xf3, 0xf1, 0xf7, 0xf5, 0xeb, 0xe9, 0xef, 0xed,
     0xe3, 0xe1, 0xe7, 0xe5]"

definition gmul3 :: "u8 list" where
  "gmul3 = [
     0x00, 0x03, 0x06, 0x05, 0x0c, 0x0f, 0x0a, 0x09, 0x18, 0x1b, 0x1e, 0x1d,
     0x14, 0x17, 0x12, 0x11, 0x30, 0x33, 0x36, 0x35, 0x3c, 0x3f, 0x3a, 0x39,
     0x28, 0x2b, 0x2e, 0x2d, 0x24, 0x27, 0x22, 0x21, 0x60, 0x63, 0x66, 0x65,
     0x6c, 0x6f, 0x6a, 0x69, 0x78, 0x7b, 0x7e, 0x7d, 0x74, 0x77, 0x72, 0x71,
     0x50, 0x53, 0x56, 0x55, 0x5c, 0x5f, 0x5a, 0x59, 0x48, 0x4b, 0x4e, 0x4d,
     0x44, 0x47, 0x42, 0x41, 0xc0, 0xc3, 0xc6, 0xc5, 0xcc, 0xcf, 0xca, 0xc9,
     0xd8, 0xdb, 0xde, 0xdd, 0xd4, 0xd7, 0xd2, 0xd1, 0xf0, 0xf3, 0xf6, 0xf5,
     0xfc, 0xff, 0xfa, 0xf9, 0xe8, 0xeb, 0xee, 0xed, 0xe4, 0xe7, 0xe2, 0xe1,
     0xa0, 0xa3, 0xa6, 0xa5, 0xac, 0xaf, 0xaa, 0xa9, 0xb8, 0xbb, 0xbe, 0xbd,
     0xb4, 0xb7, 0xb2, 0xb1, 0x90, 0x93, 0x96, 0x95, 0x9c, 0x9f, 0x9a, 0x99,
     0x88, 0x8b, 0x8e, 0x8d, 0x84, 0x87, 0x82, 0x81, 0x9b, 0x98, 0x9d, 0x9e,
     0x97, 0x94, 0x91, 0x92, 0x83, 0x80, 0x85, 0x86, 0x8f, 0x8c, 0x89, 0x8a,
     0xab, 0xa8, 0xad, 0xae, 0xa7, 0xa4, 0xa1, 0xa2, 0xb3, 0xb0, 0xb5, 0xb6,
     0xbf, 0xbc, 0xb9, 0xba, 0xfb, 0xf8, 0xfd, 0xfe, 0xf7, 0xf4, 0xf1, 0xf2,
     0xe3, 0xe0, 0xe5, 0xe6, 0xef, 0xec, 0xe9, 0xea, 0xcb, 0xc8, 0xcd, 0xce,
     0xc7, 0xc4, 0xc1, 0xc2, 0xd3, 0xd0, 0xd5, 0xd6, 0xdf, 0xdc, 0xd9, 0xda,
     0x5b, 0x58, 0x5d, 0x5e, 0x57, 0x54, 0x51, 0x52, 0x43, 0x40, 0x45, 0x46,
     0x4f, 0x4c, 0x49, 0x4a, 0x6b, 0x68, 0x6d, 0x6e, 0x67, 0x64, 0x61, 0x62,
     0x73, 0x70, 0x75, 0x76, 0x7f, 0x7c, 0x79, 0x7a, 0x3b, 0x38, 0x3d, 0x3e,
     0x37, 0x34, 0x31, 0x32, 0x23, 0x20, 0x25, 0x26, 0x2f, 0x2c, 0x29, 0x2a,
     0x0b, 0x08, 0x0d, 0x0e, 0x07, 0x04, 0x01, 0x02, 0x13, 0x10, 0x15, 0x16,
     0x1f, 0x1c, 0x19, 0x1a]"

definition mulBytes :: "u8 \<Rightarrow> u8 \<Rightarrow> u8 option" where
  "mulBytes a b = (if a = 2 then Some (gmul2 ! unat b) else if a = 3 then Some (gmul3 ! unat b) else None)"

definition mixColumn :: "u32 \<Rightarrow> u32 option" where
  "mixColumn v =
     (let a0 = ucast v; a1 = ucast (drop_bit 8 v); a2 = ucast (drop_bit 16 v); a3 = ucast (drop_bit 24 v) in do {
        p0 \<leftarrow> mulBytes 2 a0; q1 \<leftarrow> mulBytes 3 a1;
        p1 \<leftarrow> mulBytes 2 a1; q2 \<leftarrow> mulBytes 3 a2;
        p2 \<leftarrow> mulBytes 2 a2; q3 \<leftarrow> mulBytes 3 a3;
        q0 \<leftarrow> mulBytes 3 a0; p3 \<leftarrow> mulBytes 2 a3;
        Some (ucast (p0 XOR q1 XOR a2 XOR a3) OR push_bit 8 (ucast (a0 XOR p1 XOR q2 XOR a3))
          OR push_bit 16 (ucast (a0 XOR a1 XOR p2 XOR q3)) OR push_bit 24 (ucast (q0 XOR a1 XOR a2 XOR p3))) })"

definition aesMixColumns :: "u32 list \<Rightarrow> u32 list option" where
  "aesMixColumns block = those (map mixColumn block)"

fun aes_rounds :: "u32 list \<Rightarrow> nat list \<Rightarrow> u32 list \<Rightarrow> u32 list option" where
  "aes_rounds keys [] block = Some block"
| "aes_rounds keys (i # is) block = do {
     block \<leftarrow> aesMixColumns (aesShiftRows (aesSubBytes block));
     aes_rounds keys is (aesAddRoundKey block (round_key keys (i + 1))) }"

definition aesBlock :: "u32 list \<Rightarrow> u32 list \<Rightarrow> u32 list option" where
  "aesBlock key block =
     (let keys = aesKeyExpansion key in do {
        block \<leftarrow> aes_rounds keys [0..<13] (aesAddRoundKey block (round_key keys 0));
        Some (aesAddRoundKey (aesShiftRows (aesSubBytes block)) (round_key keys 14)) })"

subsection \<open>Generator\<close>

definition MIN_RESEED_SIZE :: u64 where "MIN_RESEED_SIZE = 32"
definition ENTROPY_POOLS :: nat where "ENTROPY_POOLS = 32"

record Random =
  pools :: "u32 list list"
  pools_size :: u64
  acc_count :: u64
  req_count :: u64
  random_key :: "u32 list"
  counter :: "u32 list"
  last_reseed :: u64

definition word_of_bytes :: "u8 list \<Rightarrow> u32" where
  "word_of_bytes bs = ucast (dec bs)"

definition bytes_of_words :: "u32 list \<Rightarrow> u8 list" where
  "bytes_of_words ws = concat (map (\<lambda>w. enc 4 (ucast w)) ws)"

text \<open>\<open>junk2\<close> are the 24 bytes of the local block before \<open>memcpy\<close> writes the event.\<close>

definition addRandomEvent :: "u32 list \<Rightarrow> u8 list \<Rightarrow> u64 \<Rightarrow> u8 list \<Rightarrow> Random \<Rightarrow> Random option" where
  "addRandomEvent junk junk2 now data r = do {
     cassert (length data < 24);
     let r = (if acc_count r = 0 then r\<lparr>pools := replicate ENTROPY_POOLS sha256Init, pools_size := 0\<rparr> else r);
     let bs = data @ drop (length data) junk2;
     let block = [ucast now, of_nat (length data)] @ map (\<lambda>i. word_of_bytes (take 4 (drop (4 * i) bs))) [0..<6];
     let p = unat (acc_count r) mod ENTROPY_POOLS;
     let r = r\<lparr>pools := (pools r)[p := sha256Block junk (pools r ! p) block]\<rparr>;
     let r = r\<lparr>acc_count := acc_count r + 1\<rparr>;
     Some (if unat (acc_count r) mod ENTROPY_POOLS = 0 then r\<lparr>pools_size := pools_size r + 1\<rparr> else r) }"

text \<open>\<open>1 << i\<close> is an int, converted to \<open>size_t\<close> for the remainder.\<close>

definition one_shl :: "nat \<Rightarrow> u64" where
  "one_shl i = scast (push_bit i 1 :: u32)"

definition reseedRandom :: "u32 list \<Rightarrow> u64 \<Rightarrow> Random \<Rightarrow> Random" where
  "reseedRandom junk now r =
     (let k = (if last_reseed r = 0 then sha256Init else random_key r);
          k = fold (\<lambda>i k. sha256Block junk k (pools r ! i)) (takeWhile (\<lambda>i. req_count r mod one_shl i = 0) [0..<ENTROPY_POOLS]) k
      in r\<lparr>random_key := k, req_count := req_count r + 1, pools_size := 0, last_reseed := now\<rparr>)"

text \<open>\<open>carry + counter[i]\<close> is computed in 32 bits before it is stored in 64.\<close>

fun advance_loop :: "u32 \<Rightarrow> nat list \<Rightarrow> u32 list \<Rightarrow> u32 list" where
  "advance_loop carry [] c = c"
| "advance_loop carry (i # is) c =
     (if carry \<noteq> 0 then
        (let nxt = ucast (carry + c ! i) :: u64 in advance_loop (ucast (drop_bit 32 nxt)) is (c[i := ucast nxt]))
      else c)"

definition advanceCounter :: "u32 list \<Rightarrow> u32 list" where
  "advanceCounter c = advance_loop 1 [0..<4] c"

definition randomBlock :: "Random \<Rightarrow> (u32 list \<times> Random) option" where
  "randomBlock r = do {
     block \<leftarrow> aesBlock (random_key r) (counter r);
     Some (block, r\<lparr>counter := advanceCounter (counter r)\<rparr>) }"

function random_chunk :: "nat \<Rightarrow> Random \<Rightarrow> (u8 list \<times> Random) option" where
  "random_chunk left r =
     (if left > 0 then do {
        (block, r) \<leftarrow> randomBlock r;
        let this = min left 16;
        (out, r) \<leftarrow> random_chunk (left - this) r;
        Some (take this (bytes_of_words block) @ out, r) }
      else Some ([], r))"
  by pat_completeness auto
termination by (relation "measure fst") auto

function random_loop :: "nat \<Rightarrow> Random \<Rightarrow> (u8 list \<times> Random) option" where
  "random_loop sz r =
     (if sz > 0 then do {
        let left = min sz (2 ^ 20);
        (out, r) \<leftarrow> random_chunk left r;
        (k1, r) \<leftarrow> randomBlock r;
        (k2, r) \<leftarrow> randomBlock r;
        let r = r\<lparr>random_key := k1 @ k2\<rparr>;
        (out', r) \<leftarrow> random_loop (sz - left) r;
        Some (out @ out', r) }
      else Some ([], r))"
  by pat_completeness auto
termination by (relation "measure fst") auto

definition getRandom :: "u32 list \<Rightarrow> u64 \<Rightarrow> u64 \<Rightarrow> u64 \<Rightarrow> Random \<Rightarrow> (u8 list \<times> Random) option" where
  "getRandom junk now now2 sz r =
     (let r = (if last_reseed r = 0 \<or> last_reseed r + CLOCKS_PER_SEC div 10 < now \<and> pools_size r \<ge> MIN_RESEED_SIZE
               then reseedRandom junk now2 r else r)
      in random_loop (unat sz) r)"

declare random_chunk.simps [simp del] random_loop.simps [simp del]

subsection \<open>The field of the cipher\<close>

text \<open>Multiplication in GF(2^8) modulo x^8 + x^4 + x^3 + x + 1, as a reference for the tables.\<close>

definition xtime :: "u8 \<Rightarrow> u8" where
  "xtime b = push_bit 1 b XOR (if bit b 7 then 0x1b else 0)"

definition gf_mul :: "u8 \<Rightarrow> u8 \<Rightarrow> u8" where
  "gf_mul a b = fst (fold (\<lambda>i (acc, p). (acc XOR (if bit a i then p else 0), xtime p)) [0, 1, 2, 3, 4, 5, 6, 7] (0, b))"

definition inv_affine :: "u8 \<Rightarrow> u8" where
  "inv_affine y = (let y = y XOR 0x63 in (push_bit 1 y OR drop_bit 7 y) XOR (push_bit 3 y OR drop_bit 5 y) XOR (push_bit 6 y OR drop_bit 2 y))"

text \<open>A check of a table entry by entry.\<close>

fun all_from :: "u8 \<Rightarrow> (u8 \<Rightarrow> 'a \<Rightarrow> bool) \<Rightarrow> 'a list \<Rightarrow> bool" where
  "all_from i P [] \<longleftrightarrow> True"
| "all_from i P (x # xs) \<longleftrightarrow> P i x \<and> all_from (i + 1) P xs"

lemma all_from_nth: "all_from i P xs \<Longrightarrow> j < length xs \<Longrightarrow> P (i + of_nat j) (xs ! j)"
proof (induction xs arbitrary: i j)
  case (Cons x xs)
  then show ?case by (cases j) (auto simp: algebra_simps dest: Cons.IH)
qed simp

lemma all_from_byte: "all_from 0 P xs \<Longrightarrow> length xs = 256 \<Longrightarrow> P b (xs ! unat b)"
  using all_from_nth [of 0 P xs "unat b"] unsigned_less [of b] by simp

lemma gmul2_table: "all_from 0 (\<lambda>b x. x = xtime b) gmul2" "length gmul2 = 256"
  by (simp_all add: gmul2_def xtime_def)

lemma gmul3_table: "all_from 0 (\<lambda>b x. x = xtime b XOR b) gmul3" "length gmul3 = 256"
  by (simp_all add: gmul3_def xtime_def)

definition sbox_entry_ok :: "u8 \<Rightarrow> u8 \<Rightarrow> bool" where
  "sbox_entry_ok b x \<longleftrightarrow> (if b = 0 then inv_affine x = 0 else gf_mul b (inv_affine x) = 1)"

lemma xtime_eval: "xtime (numeral n) = push_bit 1 (numeral n) XOR (if bit (numeral n :: u8) 7 then 0x1b else 0)" "xtime 0 = 0" "xtime 1 = 2"
  by (simp_all add: xtime_def)

lemma sbox_table: "all_from 0 sbox_entry_ok sbox"
  unfolding sbox_def all_from.simps
  by (simp add: sbox_entry_ok_def gf_mul_def inv_affine_def xtime_eval)

lemma sbox_length: "length sbox = 256"
  by (simp add: sbox_def)

lemma sbox_distinct: "distinct sbox"
proof -
  have "distinct (map unat sbox)" by (simp add: sbox_def)
  then show ?thesis by (rule distinct_map [THEN iffD1, THEN conjunct1])
qed

lemma mulBytes_eq: "mulBytes 2 b = Some (xtime b)" "mulBytes 3 b = Some (xtime b XOR b)"
  using all_from_byte [OF gmul2_table] all_from_byte [OF gmul3_table] by (simp_all add: mulBytes_def)

lemma gf_mul_small: "gf_mul 2 b = xtime b" "gf_mul 3 b = xtime b XOR b"
  by (simp_all add: gf_mul_def xor.commute)

text \<open>
  Property C30 (aes_tables_correct). The tables of the cipher agree with arithmetic in GF(2^8): \<open>mulBytes\<close> with
  factor 2 or 3 is multiplication and panics for every other factor, and the S-box maps each
  byte to the affine transform of its inverse (0 to that of 0).
\<close>

theorem aes_tables_correct:
  "mulBytes a b = (if a = 2 \<or> a = 3 then Some (gf_mul a b) else None)
   \<and> (if b = 0 then inv_affine (sbox_at b) = 0 else gf_mul b (inv_affine (sbox_at b)) = 1)"
  using all_from_byte [OF sbox_table sbox_length, of b]
  by (auto simp: mulBytes_eq gf_mul_small sbox_entry_ok_def sbox_at_def) (simp_all add: mulBytes_def)

end
