(* ===== verification/Cipher.thy ===== *)
theory Cipher
  imports RandomGen
begin

text \<open>
  The block cipher of kernel/src/util/random.c is a permutation of blocks for every key, so the generator never
  repeats a block under one key as long as the counter does not repeat.
\<close>

unbundle bit_operations_syntax

subsection \<open>The cipher is a permutation\<close>

definition pack4 :: "u8 \<Rightarrow> u8 \<Rightarrow> u8 \<Rightarrow> u8 \<Rightarrow> u32" where
  "pack4 a b c d = ucast a OR push_bit 8 (ucast b) OR push_bit 16 (ucast c) OR push_bit 24 (ucast d)"

lemma not_bit_u8: "\<not> bit (b :: u8) (8 + n)" "\<not> bit b (16 + n)" "\<not> bit b (24 + n)"
  by (auto dest: bit_imp_le_length)

lemma pack4_bytes: "ucast (pack4 a b c d) = a" "ucast (drop_bit 8 (pack4 a b c d)) = b"
  "ucast (drop_bit 16 (pack4 a b c d)) = c" "ucast (drop_bit 24 (pack4 a b c d)) = d"
  unfolding pack4_def by (auto intro!: bit_word_eqI simp: bit_simps not_bit_u8)

lemma pack4_inject: "pack4 a b c d = pack4 a' b' c' d' \<longleftrightarrow> a = a' \<and> b = b' \<and> c = c' \<and> d = d'"
  by (metis pack4_bytes)

lemma bytes_pack4: "pack4 (ucast v) (ucast (drop_bit 8 v)) (ucast (drop_bit 16 v)) (ucast (drop_bit 24 v)) = v"
proof (rule bit_word_eqI)
  fix n assume n: "n < LENGTH(32)"
  consider "n < 8" | "8 \<le> n" "n < 16" | "16 \<le> n" "n < 24" | "24 \<le> n" using n by linarith
  then show "bit (pack4 (ucast v) (ucast (drop_bit 8 v)) (ucast (drop_bit 16 v)) (ucast (drop_bit 24 v))) n = bit v n"
    by cases (use n in \<open>auto simp: pack4_def bit_simps\<close>)
qed

lemma word_bytes_eqI:
  assumes "(ucast v :: u8) = ucast w" "(ucast (drop_bit 8 v) :: u8) = ucast (drop_bit 8 w)"
    "(ucast (drop_bit 16 v) :: u8) = ucast (drop_bit 16 w)" "(ucast (drop_bit 24 v) :: u8) = ucast (drop_bit 24 w)"
  shows "v = (w :: u32)"
  using bytes_pack4 [of v] unfolding assms bytes_pack4 by simp

lemma sbox_at_inj: "inj sbox_at"
proof (rule injI)
  fix a b assume "sbox_at a = sbox_at b"
  moreover have "unat a < length sbox" "unat b < length sbox"
    using unsigned_less [of a] unsigned_less [of b] by (simp_all add: sbox_length)
  ultimately have "unat a = unat b" using sbox_distinct by (simp add: sbox_at_def nth_eq_iff_index_eq)
  then show "a = b" by (rule unsigned_word_eqI)
qed

lemma subWord_inj: "inj subWord"
proof (rule injI)
  fix v w assume "subWord v = subWord w"
  then have "pack4 (sbox_at (ucast v)) (sbox_at (ucast (drop_bit 8 v))) (sbox_at (ucast (drop_bit 16 v))) (sbox_at (ucast (drop_bit 24 v)))
    = pack4 (sbox_at (ucast w)) (sbox_at (ucast (drop_bit 8 w))) (sbox_at (ucast (drop_bit 16 w))) (sbox_at (ucast (drop_bit 24 w)))"
    by (simp add: subWord_def pack4_def)
  then show "v = w" by (intro word_bytes_eqI) (simp_all add: pack4_inject inj_eq [OF sbox_at_inj])
qed

text \<open>The mixing of a column is linear, and only the zero column is mixed to zero.\<close>

definition mix_bytes :: "u8 \<Rightarrow> u8 \<Rightarrow> u8 \<Rightarrow> u8 \<Rightarrow> u8" where
  "mix_bytes a b c d = xtime a XOR (xtime b XOR b) XOR c XOR d"

lemma xtime_xor: "xtime (a XOR b) = xtime a XOR xtime b"
  unfolding xtime_def by (rule bit_word_eqI) (auto simp: bit_simps)

lemma xtime_0: "xtime 0 = 0"
  by (simp add: xtime_def)

lemma xor_eq_0: "a XOR b = 0 \<longleftrightarrow> a = (b :: 'w::len word)"
  by (metis xor.assoc xor.right_neutral xor_self_eq)

lemma mixColumn_eq:
  "mixColumn v = (let a = ucast v; b = ucast (drop_bit 8 v); c = ucast (drop_bit 16 v); d = ucast (drop_bit 24 v) in
     Some (pack4 (mix_bytes a b c d) (mix_bytes b c d a) (mix_bytes c d a b) (mix_bytes d a b c)))"
  by (simp add: mixColumn_def mulBytes_eq pack4_def mix_bytes_def Let_def ac_simps)

lemma mix_bytes_xor: "mix_bytes a b c d XOR mix_bytes a' b' c' d' = mix_bytes (a XOR a') (b XOR b') (c XOR c') (d XOR d')"
  by (simp add: mix_bytes_def xtime_xor ac_simps)

lemma mix_kernel:
  assumes "mix_bytes a b c d = 0" "mix_bytes b c d a = 0" "mix_bytes c d a b = 0" "mix_bytes d a b c = 0"
  shows "a = 0 \<and> b = 0 \<and> c = 0 \<and> d = 0"
proof -
  have cancel: "x XOR (x XOR y) = y" for x y :: u8 by (simp add: xor.assoc [symmetric])
  have "mix_bytes a b c d XOR mix_bytes b c d a XOR mix_bytes c d a b XOR mix_bytes d a b c = a XOR b XOR c XOR d"
    unfolding mix_bytes_def by (simp add: ac_simps cancel)
  then have sum: "a XOR b XOR c XOR d = 0" using assms by simp
  have one: "w = xtime (w XOR x)" if "mix_bytes w x y z = 0" "w XOR x XOR y XOR z = 0" for w x y z
  proof -
    have "mix_bytes w x y z XOR (w XOR x XOR y XOR z) = xtime (w XOR x) XOR w"
      unfolding mix_bytes_def xtime_xor by (simp add: ac_simps cancel)
    then have "xtime (w XOR x) XOR w = 0" using that by simp
    then show ?thesis by (simp add: xor_eq_0)
  qed
  have a: "a = xtime (a XOR b)" and b: "b = xtime (b XOR c)" and c: "c = xtime (c XOR d)" and d: "d = xtime (d XOR a)"
    using one [OF assms(1)] one [OF assms(2)] one [OF assms(3)] one [OF assms(4)] sum by (simp_all add: ac_simps)
  have "a XOR c = xtime (a XOR b XOR c XOR d)" using a c by (metis xtime_xor xor.assoc)
  then have ac: "a = c" using sum by (simp add: xtime_0 xor_eq_0)
  have "b = d" using sum ac by (metis cancel xor.commute xor.left_commute xor_eq_0)
  have "a XOR b = xtime (a XOR c)" using a b by (metis cancel xor.assoc xor.left_commute xtime_xor)
  then have "a = b" using ac by (simp add: xtime_0 xor_eq_0)
  then have "a = 0" using a by (simp add: xtime_0)
  then show ?thesis using ac \<open>a = b\<close> \<open>b = d\<close> by simp
qed

lemma mix_bytes_diff: "mix_bytes a b c d = mix_bytes a' b' c' d' \<Longrightarrow> mix_bytes (a XOR a') (b XOR b') (c XOR c') (d XOR d') = 0"
  by (simp add: mix_bytes_xor [symmetric])

lemma mixColumn_inj:
  assumes "mixColumn v = mixColumn w"
  shows "v = w"
proof -
  define a b c d a' b' c' d' :: u8 where "a = ucast v" and "b = ucast (drop_bit 8 v)" and "c = ucast (drop_bit 16 v)" and "d = ucast (drop_bit 24 v)"
    and "a' = ucast w" and "b' = ucast (drop_bit 8 w)" and "c' = ucast (drop_bit 16 w)" and "d' = ucast (drop_bit 24 w)"
  note defs = this
  have "pack4 (mix_bytes a b c d) (mix_bytes b c d a) (mix_bytes c d a b) (mix_bytes d a b c)
      = pack4 (mix_bytes a' b' c' d') (mix_bytes b' c' d' a') (mix_bytes c' d' a' b') (mix_bytes d' a' b' c')"
    using assms unfolding mixColumn_eq Let_def defs by simp
  then have "mix_bytes a b c d = mix_bytes a' b' c' d'" "mix_bytes b c d a = mix_bytes b' c' d' a'"
    "mix_bytes c d a b = mix_bytes c' d' a' b'" "mix_bytes d a b c = mix_bytes d' a' b' c'" by (simp_all add: pack4_inject)
  then have "a XOR a' = 0 \<and> b XOR b' = 0 \<and> c XOR c' = 0 \<and> d XOR d' = 0"
    by (intro mix_kernel mix_bytes_diff)
  then show ?thesis by (intro word_bytes_eqI) (simp_all add: defs xor_eq_0)
qed

text \<open>The steps on blocks.\<close>

definition block_inj :: "(u32 list \<Rightarrow> u32 list) \<Rightarrow> bool" where
  "block_inj f \<longleftrightarrow> (\<forall>b. length b = 4 \<longrightarrow> length (f b) = 4) \<and> inj_on f {b. length b = 4}"

lemma block_cases:
  assumes "length b = 4"
  obtains w x y z where "b = [w, x, y, z]"
  using assms by (auto simp: eval_nat_numeral length_Suc_conv)

lemma block_injI: "(\<And>w x y z. length (f [w, x, y, z]) = 4) \<Longrightarrow>
    (\<And>w x y z w' x' y' z'. f [w, x, y, z] = f [w', x', y', z'] \<Longrightarrow> [w, x, y, z] = [w', x', y', z']) \<Longrightarrow> block_inj f"
  by (auto simp: block_inj_def inj_on_def elim!: block_cases)

lemma block_injD: "block_inj f \<Longrightarrow> length b = 4 \<Longrightarrow> length c = 4 \<Longrightarrow> f b = f c \<Longrightarrow> b = c"
  by (simp add: block_inj_def inj_on_def)

lemma block_inj_length: "block_inj f \<Longrightarrow> length b = 4 \<Longrightarrow> length (f b) = 4"
  by (simp add: block_inj_def)

lemma block_inj_comp: "block_inj f \<Longrightarrow> block_inj g \<Longrightarrow> block_inj (\<lambda>b. g (f b))"
  unfolding block_inj_def [of "\<lambda>b. g (f b)"] inj_on_def mem_Collect_eq
  by (blast intro: block_inj_length dest: block_injD)

lemma upt_small: "[0..<4] = [0, 1, 2, 3::nat]" "[0..<3] = [0, 1, 2::nat]" "[1..<4] = [1, 2, 3::nat]"
  by (simp_all add: upt_rec)

lemma xor_left_cancel: "a XOR k = b XOR k \<longleftrightarrow> a = (b :: u32)"
  by (auto simp: bit_eq_iff bit_simps)

lemma aesAddRoundKey_inj: "block_inj (\<lambda>b. aesAddRoundKey b k)"
  by (rule block_injI) (simp_all add: aesAddRoundKey_def upt_small xor_left_cancel)

lemma aesSubBytes_inj: "block_inj aesSubBytes"
  by (rule block_injI) (simp_all add: aesSubBytes_def upt_small inj_eq [OF subWord_inj])

lemma shift_row_eq: "shift_row m [w, x, y, z] =
    [(w AND NOT m) OR (x AND m), (x AND NOT m) OR (y AND m), (y AND NOT m) OR (z AND m), (z AND NOT m) OR (w AND m)]"
  by (simp add: shift_row_def upt_small)

lemma merge_bits: "(a AND NOT m) OR (b AND m) = (a' AND NOT m) OR (b' AND m) \<Longrightarrow> a AND NOT m = a' AND NOT m \<and> b AND m = b' AND (m :: u32)"
  by (simp add: bit_eq_iff bit_simps) blast

lemma split_bits: "a AND NOT m = a' AND NOT m \<Longrightarrow> a AND m = a' AND m \<Longrightarrow> a = (a' :: u32)"
  by (simp add: bit_eq_iff bit_simps) blast

lemma shift_row_inj: "block_inj (shift_row m)"
proof (rule block_injI)
  fix w x y z w' x' y' z' assume "shift_row m [w, x, y, z] = shift_row m [w', x', y', z']"
  then show "[w, x, y, z] = [w', x', y', z']"
    unfolding shift_row_eq by (auto dest!: merge_bits intro: split_bits)
qed (simp add: shift_row_eq)

lemma block_inj_id: "block_inj (\<lambda>b. b)"
  by (simp add: block_inj_def)

lemma block_inj_funpow: "block_inj f \<Longrightarrow> block_inj (f ^^ n)"
proof (induction n)
  case 0
  then show ?case using block_inj_id by (simp add: id_def)
next
  case (Suc n)
  then show ?case using block_inj_comp [of "f ^^ n" f] by (simp add: comp_def)
qed

lemma aesShiftRows_inj: "block_inj aesShiftRows"
proof -
  let ?s = "\<lambda>i. shift_row (push_bit (i * 8) 0xff) ^^ i"
  have b: "block_inj (?s i)" for i by (intro block_inj_funpow shift_row_inj)
  have "block_inj (\<lambda>b. ?s 3 (?s 2 (?s 1 b)))"
    by (rule block_inj_comp [OF block_inj_comp [OF b b] b])
  moreover have "aesShiftRows = (\<lambda>b. ?s 3 (?s 2 (?s 1 b)))"
    unfolding aesShiftRows_def upt_small fold_simps by (rule refl)
  ultimately show ?thesis by simp
qed

lemma aesMixColumns_inj: "\<exists>f. block_inj f \<and> (\<forall>b. length b = 4 \<longrightarrow> aesMixColumns b = Some (f b))"
proof -
  define mix where "mix v = the (mixColumn v)" for v
  have m: "mixColumn v = Some (mix v)" for v by (simp add: mix_def mixColumn_eq Let_def)
  then have "mix v = mix w \<longleftrightarrow> v = w" for v w using mixColumn_inj [of v w] by auto
  then have "block_inj (map mix)" by (intro block_injI) simp_all
  moreover have "aesMixColumns b = Some (map mix b)" if "length b = 4" for b
    using that by (auto elim!: block_cases simp: aesMixColumns_def m)
  ultimately show ?thesis by blast
qed

lemma aes_rounds_inj: "\<exists>f. block_inj f \<and> (\<forall>b. length b = 4 \<longrightarrow> aes_rounds keys is b = Some (f b))"
proof (induction "is")
  case Nil
  then show ?case using block_inj_id by auto
next
  case (Cons i "is")
  obtain f where f: "block_inj f" "\<And>b. length b = 4 \<Longrightarrow> aes_rounds keys is b = Some (f b)" using Cons by blast
  obtain m where m: "block_inj m" "\<And>b. length b = 4 \<Longrightarrow> aesMixColumns b = Some (m b)" using aesMixColumns_inj by blast
  let ?k = "round_key keys (i + 1)"
  let ?g = "\<lambda>b. f (aesAddRoundKey (m (aesShiftRows (aesSubBytes b))) ?k)"
  note inj = block_inj_comp [OF aesSubBytes_inj aesShiftRows_inj]
  have "block_inj ?g"
    by (rule block_inj_comp [OF block_inj_comp [OF block_inj_comp [OF inj m(1)] aesAddRoundKey_inj [of ?k]] f(1)])
  moreover have "aes_rounds keys (i # is) b = Some (?g b)" if "length b = 4" for b
    using that m(2) f(2) block_inj_length [OF inj that] block_inj_length [OF m(1)] block_inj_length [OF aesAddRoundKey_inj] by simp
  ultimately show ?case by blast
qed

lemma aesBlock_inj: "\<exists>f. block_inj f \<and> (\<forall>b. length b = 4 \<longrightarrow> aesBlock key b = Some (f b))"
proof -
  let ?ks = "aesKeyExpansion key"
  obtain f where f: "block_inj f" "\<And>b. length b = 4 \<Longrightarrow> aes_rounds ?ks [0..<13] b = Some (f b)" using aes_rounds_inj by blast
  let ?g = "\<lambda>b. aesAddRoundKey (aesShiftRows (aesSubBytes (f (aesAddRoundKey b (round_key ?ks 0))))) (round_key ?ks 14)"
  have "block_inj ?g"
    by (rule block_inj_comp [OF block_inj_comp [OF block_inj_comp [OF block_inj_comp [OF aesAddRoundKey_inj f(1)] aesSubBytes_inj] aesShiftRows_inj] aesAddRoundKey_inj])
  moreover have "aesBlock key b = Some (?g b)" if "length b = 4" for b
    using that f(2) block_inj_length [OF aesAddRoundKey_inj that] by (simp add: aesBlock_def Let_def)
  ultimately show ?thesis by blast
qed

lemma aesBlock_returns: "length b = 4 \<Longrightarrow> \<exists>e. aesBlock key b = Some e \<and> length e = 4"
  using aesBlock_inj [of key] block_inj_length by blast

lemma aesBlock_unique: "aesBlock key b = aesBlock key c \<Longrightarrow> length b = 4 \<Longrightarrow> length c = 4 \<Longrightarrow> b = c"
  using aesBlock_inj [of key] block_injD by auto

subsection \<open>The counter\<close>

lemma advanceCounter_eq: "length c = 4 \<Longrightarrow> advanceCounter c = c[0 := c ! 0 + 1]"
proof (erule block_cases)
  fix w x y z assume c: "c = [w, x, y, z]"
  have "drop_bit 32 (ucast (1 + w) :: u64) = 0"
    by (rule bit_word_eqI) (auto simp: bit_simps dest: bit_imp_le_length)
  moreover have "ucast (ucast (1 + w) :: u64) = 1 + w" by (rule bit_word_eqI) (auto simp: bit_simps)
  ultimately show "advanceCounter c = c[0 := c ! 0 + 1]" by (simp add: advanceCounter_def upt_small c add.commute)
qed

lemma advanceCounter_steps: "length c = 4 \<Longrightarrow> (advanceCounter ^^ n) c = c[0 := c ! 0 + of_nat n]"
proof (induction n)
  case (Suc n)
  then show ?case by (simp add: advanceCounter_eq algebra_simps)
qed simp

lemma counter_distinct:
  assumes "length c = 4" "i < 2 ^ 32" "j < 2 ^ 32" "(advanceCounter ^^ i) c = (advanceCounter ^^ j) c"
  shows "i = j"
proof -
  have "c ! 0 + of_nat i = c ! 0 + of_nat j"
    using assms by (metis advanceCounter_steps nth_list_update_eq zero_less_numeral)
  then have "(of_nat i :: u32) = of_nat j" by simp
  then have "unat (of_nat i :: u32) = unat (of_nat j :: u32)" by (rule arg_cong)
  then show ?thesis using assms(2,3) by (simp add: unat_of_nat take_bit_nat_eq_self)
qed

text \<open>
  Property C32 (counter_carry_lost). The sum with the carry is computed in 32 bits, so the carry out of a word is lost:
  \<open>advanceCounter\<close> changes only the first word of the 128-bit counter, and the counter repeats after
  2^32 steps.
\<close>

theorem counter_carry_lost:
  assumes "length c = 4"
  shows "drop 1 (advanceCounter c) = drop 1 c \<and> (advanceCounter ^^ (2 ^ 32)) c = c"
proof -
  have "(advanceCounter ^^ (2 ^ 32)) c = c[0 := c ! 0 + of_nat (2 ^ 32)]" by (rule advanceCounter_steps [OF assms])
  also have "of_nat (2 ^ 32) = (0 :: u32)" by simp
  finally show ?thesis using advanceCounter_eq [OF assms] by simp
qed

theorem counter_carry_lost_witness: "advanceCounter [0xffffffff, 0, 0, 0] = [0, 0, 0, 0]"
  using counter_carry_lost [of "[0xffffffff, 0, 0, 0]"] advanceCounter_eq [of "[0xffffffff, 0, 0, 0]"] by simp

subsection \<open>The output of the generator\<close>

definition chunk_blocks :: "nat \<Rightarrow> nat" where
  "chunk_blocks left = (left + 15) div 16"

lemma bytes_of_words_length: "length (bytes_of_words ws) = 4 * length ws"
  by (induction ws) (auto simp: bytes_of_words_def)

lemma take_block_append: "length x = 16 \<Longrightarrow> take (min n 16) x @ take (n - min n 16) xs = take n (x @ xs)"
  by (auto simp: min_def)

lemma chunk_blocks_step: "0 < left \<Longrightarrow> chunk_blocks left = Suc (chunk_blocks (left - min left 16))"
proof (cases "left \<le> 16")
  case False
  then have "left + 15 = (left - 16 + 15) + 16" by simp
  then show ?thesis using False by (metis Suc_eq_plus1 chunk_blocks_def div_add_self2 min.absorb2 nat_le_linear zero_neq_numeral)
qed (auto simp: chunk_blocks_def min_def intro!: div_nat_eqI)

lemma random_chunk_blocks:
  assumes "length (counter r) = 4"
  shows "\<exists>bs. random_chunk left r = Some (take left (concat (map bytes_of_words bs)), r\<lparr>counter := (advanceCounter ^^ chunk_blocks left) (counter r)\<rparr>)
    \<and> length bs = chunk_blocks left
    \<and> (\<forall>i < length bs. aesBlock (random_key r) ((advanceCounter ^^ i) (counter r)) = Some (bs ! i) \<and> length (bs ! i) = 4)"
  using assms
proof (induction left arbitrary: r rule: less_induct)
  case (less left)
  show ?case
  proof (cases "left = 0")
    case True
    then show ?thesis by (intro exI [of _ "[]"]) (simp add: random_chunk.simps chunk_blocks_def)
  next
    case False
    let ?r = "r\<lparr>counter := advanceCounter (counter r)\<rparr>" and ?m = "left - min left 16"
    obtain b where b: "aesBlock (random_key r) (counter r) = Some b" "length b = 4" using aesBlock_returns less.prems by blast
    have "length (counter ?r) = 4" using less.prems by (simp add: advanceCounter_eq)
    then obtain bs where bs: "random_chunk ?m ?r = Some (take ?m (concat (map bytes_of_words bs)), ?r\<lparr>counter := (advanceCounter ^^ chunk_blocks ?m) (counter ?r)\<rparr>)"
      "length bs = chunk_blocks ?m"
      "\<And>i. i < length bs \<Longrightarrow> aesBlock (random_key ?r) ((advanceCounter ^^ i) (counter ?r)) = Some (bs ! i) \<and> length (bs ! i) = 4"
      using less.IH [of ?m ?r] False by auto
    have "random_chunk left r = Some (take left (concat (map bytes_of_words (b # bs))), r\<lparr>counter := (advanceCounter ^^ chunk_blocks left) (counter r)\<rparr>)"
      using False b bs(1) chunk_blocks_step [of left] take_block_append [of "bytes_of_words b" left]
      by (simp add: random_chunk.simps [of left] randomBlock_def bytes_of_words_length funpow_swap1)
    moreover have "aesBlock (random_key r) ((advanceCounter ^^ i) (counter r)) = Some ((b # bs) ! i) \<and> length ((b # bs) ! i) = 4" if "i < length (b # bs)" for i
      using b bs(3) that by (cases i) (simp_all add: funpow_swap1)
    moreover have "length (b # bs) = chunk_blocks left" using bs(2) chunk_blocks_step [of left] False by simp
    ultimately show ?thesis by blast
  qed
qed

lemma concat_blocks_length: "(\<And>b. b \<in> set bs \<Longrightarrow> length b = 4) \<Longrightarrow> length (concat (map bytes_of_words bs)) = 16 * length bs"
  by (induction bs) (auto simp: bytes_of_words_length)

lemma chunk_blocks_enough: "left \<le> 16 * chunk_blocks left"
  using mult_div_mod_eq [of 16 "left + 15"] mod_less_divisor [of 16 "left + 15"] unfolding chunk_blocks_def by linarith

lemma random_chunk_length:
  assumes "length (counter r) = 4"
  shows "\<exists>out r'. random_chunk left r = Some (out, r') \<and> length out = left \<and> length (counter r') = 4"
proof -
  obtain bs where bs: "random_chunk left r = Some (take left (concat (map bytes_of_words bs)), r\<lparr>counter := (advanceCounter ^^ chunk_blocks left) (counter r)\<rparr>)"
    "length bs = chunk_blocks left" "\<And>i. i < length bs \<Longrightarrow> length (bs ! i) = 4"
    using random_chunk_blocks [OF assms] by blast
  have "length (concat (map bytes_of_words bs)) = 16 * chunk_blocks left"
    using concat_blocks_length [of bs] bs(2,3) by (auto simp: in_set_conv_nth)
  then show ?thesis using bs(1) chunk_blocks_enough [of left] advanceCounter_steps [OF assms] assms by simp
qed

lemma randomBlock_returns:
  "length (counter r) = 4 \<Longrightarrow> \<exists>b. randomBlock r = Some (b, r\<lparr>counter := advanceCounter (counter r)\<rparr>) \<and> length (advanceCounter (counter r)) = 4"
  using aesBlock_returns [of "counter r" "random_key r"] by (auto simp: randomBlock_def advanceCounter_eq)

lemma random_loop_length:
  "length (counter r) = 4 \<Longrightarrow> \<exists>out r'. random_loop sz r = Some (out, r') \<and> length out = sz \<and> length (counter r') = 4"
proof (induction sz arbitrary: r rule: less_induct)
  case (less sz)
  show ?case
  proof (cases "sz = 0")
    case True
    then show ?thesis using less.prems by (simp add: random_loop.simps)
  next
    case False
    let ?l = "min sz (2 ^ 20)"
    obtain out r1 where r1: "random_chunk ?l r = Some (out, r1)" "length out = ?l" "length (counter r1) = 4"
      using random_chunk_length [OF less.prems] by blast
    obtain k1 r2 where r2: "randomBlock r1 = Some (k1, r2)" "length (counter r2) = 4" using randomBlock_returns [OF r1(3)] by auto
    obtain k2 r3 where r3: "randomBlock r2 = Some (k2, r3)" "length (counter r3) = 4" using randomBlock_returns [OF r2(2)] by auto
    obtain out' r' where r': "random_loop (sz - ?l) (r3\<lparr>random_key := k1 @ k2\<rparr>) = Some (out', r')" "length out' = sz - ?l" "length (counter r') = 4"
      using less.IH [of "sz - ?l" "r3\<lparr>random_key := k1 @ k2\<rparr>"] False r3(2) by auto
    have "random_loop sz r = Some (out @ out', r')"
      using False r1(1) r2(1) r3(1) r'(1) by (simp add: random_loop.simps [of sz] Let_def)
    then show ?thesis using r1(2) r' by simp
  qed
qed


definition example_random :: Random where
  "example_random = \<lparr>pools = replicate 32 (replicate 8 0), pools_size = 0, acc_count = 0, req_count = 0,
     random_key = replicate 8 0, counter = replicate 4 0, last_reseed = 0\<rparr>"


end
