(* ===== verification/Path.thy ===== *)
theory Path
  imports Prelude
begin

text \<open>
  Model of kernel/src/files/path.c. A C string is a byte buffer that ends in NUL; positions are
  natural numbers. A read outside of the buffer is undefined behaviour, modelled as \<open>None\<close>. The
  copies that \<open>stringClone\<close> allocates are the lists themselves, a NULL pointer is \<open>None\<close> of the
  argument.
\<close>

abbreviation slash :: u8 where "slash \<equiv> 47"
abbreviation dot :: u8 where "dot \<equiv> 46"

definition rd :: "u8 list \<Rightarrow> nat \<Rightarrow> u8 option" where
  "rd buf i = (if i < length buf then Some (buf ! i) else None)"

subsection \<open>Reducing a path in place\<close>

partial_function (option) skip_slashes :: "u8 list \<Rightarrow> nat \<Rightarrow> nat option" where
  "skip_slashes path read_pos = do {
     c \<leftarrow> rd path read_pos;
     if c = slash then skip_slashes path (read_pos + 1) else Some read_pos }"

partial_function (option) segment_end :: "u8 list \<Rightarrow> nat \<Rightarrow> nat option" where
  "segment_end path next_slash = do {
     c \<leftarrow> rd path next_slash;
     if c \<noteq> 0 \<and> c \<noteq> slash then segment_end path (next_slash + 1) else Some next_slash }"

primrec back_to_slash :: "u8 list \<Rightarrow> nat \<Rightarrow> nat option" where
  "back_to_slash path 0 = Some 0"
| "back_to_slash path (Suc n) = do {
     c \<leftarrow> rd path n;
     if c \<noteq> slash then back_to_slash path n else Some (Suc n) }"

partial_function (option) copy_segment :: "nat \<Rightarrow> u8 list \<Rightarrow> nat \<Rightarrow> nat \<Rightarrow> (u8 list \<times> nat \<times> nat) option" where
  "copy_segment next_slash path read_pos insert_pos =
     (if read_pos \<le> next_slash then do {
        c \<leftarrow> rd path read_pos;
        if c \<noteq> 0 then copy_segment next_slash (path[insert_pos := c]) (read_pos + 1) (insert_pos + 1)
        else Some (path, read_pos, insert_pos) }
      else Some (path, read_pos, insert_pos))"

definition is_dot :: "u8 list \<Rightarrow> nat \<Rightarrow> nat \<Rightarrow> bool" where
  "is_dot path read_pos next_slash \<longleftrightarrow> next_slash = read_pos + 1 \<and> rd path read_pos = Some dot"

definition is_dotdot :: "u8 list \<Rightarrow> nat \<Rightarrow> nat \<Rightarrow> bool" where
  "is_dotdot path read_pos next_slash \<longleftrightarrow> next_slash = read_pos + 2 \<and> rd path read_pos = Some dot \<and> rd path (read_pos + 1) = Some dot"

partial_function (option) reduce_loop :: "bool \<Rightarrow> u8 list \<Rightarrow> nat \<Rightarrow> nat \<Rightarrow> nat \<Rightarrow> (u8 list \<times> nat) option" where
  "reduce_loop is_absolute path read_pos insert_pos segments = do {
     c \<leftarrow> rd path read_pos;
     if c \<noteq> 0 then do {
       read_pos \<leftarrow> skip_slashes path read_pos;
       next_slash \<leftarrow> segment_end path read_pos;
       if is_dot path read_pos next_slash then reduce_loop is_absolute path (read_pos + 1) insert_pos segments
       else if is_dotdot path read_pos next_slash then
         (if segments > 0 then do {
            insert_pos \<leftarrow> back_to_slash path (insert_pos - 1);
            reduce_loop is_absolute path (read_pos + 2) insert_pos (segments - 1) }
          else if is_absolute then reduce_loop is_absolute path (read_pos + 2) insert_pos segments
          else do {
            (path, read_pos, insert_pos) \<leftarrow> copy_segment next_slash path read_pos insert_pos;
            reduce_loop is_absolute path read_pos insert_pos segments })
       else do {
         (path, read_pos, insert_pos) \<leftarrow> copy_segment next_slash path read_pos insert_pos;
         reduce_loop is_absolute path read_pos insert_pos (segments + 1) } }
     else Some (path, insert_pos) }"

definition inlineReducePath :: "u8 list \<Rightarrow> u8 list option" where
  "inlineReducePath path = do {
     c \<leftarrow> rd path 0;
     (path, insert_pos) \<leftarrow> (if c = slash then reduce_loop True path 1 1 0 else reduce_loop False path 0 0 0);
     let insert_pos = (if insert_pos > 1 \<and> rd path (insert_pos - 1) = Some slash then insert_pos - 1 else insert_pos);
     Some (path[insert_pos := 0]) }"

subsection \<open>Other operations\<close>

text \<open>\<open>c_str\<close> is the string in a buffer.\<close>

definition c_str :: "u8 list \<Rightarrow> u8 list" where
  "c_str buf = takeWhile (\<lambda>c. c \<noteq> 0) buf"

definition stringClone :: "u8 list option \<Rightarrow> u8 list option" where
  "stringClone path = map_option (\<lambda>p. take (length (c_str p) + 1) p) path"

definition reducedPathCopy :: "u8 list option \<Rightarrow> u8 list option option" where
  "reducedPathCopy path = (case stringClone path of None \<Rightarrow> Some None | Some new_path \<Rightarrow> map_option Some (inlineReducePath new_path))"

text \<open>\<open>while (len > 0 && P(path[len - k])) len--\<close>.\<close>

fun walk_back :: "nat \<Rightarrow> (u8 \<Rightarrow> bool) \<Rightarrow> u8 list \<Rightarrow> nat \<Rightarrow> nat option" where
  "walk_back k P path len =
     (if len > 0 then do { c \<leftarrow> rd path (len - k); if P c then walk_back k P path (len - 1) else Some len } else Some 0)"

declare walk_back.simps [simp del]

definition size_minus_1 :: "nat \<Rightarrow> nat" where
  "size_minus_1 n = (if n = 0 then 2 ^ 64 - 1 else n - 1)"

definition getParentPath :: "u8 list \<Rightarrow> u8 list option" where
  "getParentPath path = do {
     path_copy \<leftarrow> stringClone (Some path);
     let len = size_minus_1 (length (c_str path_copy));
     len \<leftarrow> walk_back 0 (\<lambda>c. c = slash) path_copy len;
     len \<leftarrow> walk_back 0 (\<lambda>c. c \<noteq> slash) path_copy len;
     len \<leftarrow> walk_back 1 (\<lambda>c. c = slash) path_copy len;
     c \<leftarrow> rd path_copy 0;
     let len = (if len = 0 \<and> c = slash then len + 1 else len);
     Some (path_copy[len := 0]) }"

text \<open>The last loop of \<open>getBaseFilename\<close> counts the length of the name down; at 0 it reads before the buffer.\<close>

fun strip_slashes :: "u8 list \<Rightarrow> nat \<Rightarrow> nat option" where
  "strip_slashes buf 0 = None"
| "strip_slashes buf (Suc n) = do { c \<leftarrow> rd buf n; if c = slash then strip_slashes buf n else Some (Suc n) }"

definition getBaseFilename :: "u8 list \<Rightarrow> u8 list option" where
  "getBaseFilename path = do {
     path_copy \<leftarrow> stringClone (Some path);
     let path_len = length (c_str path);
     let len = size_minus_1 path_len;
     len \<leftarrow> walk_back 0 (\<lambda>c. c = slash) path_copy len;
     len \<leftarrow> walk_back 0 (\<lambda>c. c \<noteq> slash) path len;
     c \<leftarrow> rd path len;
     let len = (if c = slash then len + 1 else len);
     let path_copy = take (path_len - len) (drop len path) @ drop (path_len - len) path_copy;
     n \<leftarrow> strip_slashes path_copy (path_len - len);
     Some (path_copy[n := 0]) }"

subsection \<open>Reference\<close>

text \<open>The components of a path, and what they amount to.\<close>

function components :: "u8 list \<Rightarrow> u8 list list" where
  "components s = (let s = dropWhile (\<lambda>c. c = slash) s in
     if s = [] then [] else takeWhile (\<lambda>c. c \<noteq> slash) s # components (dropWhile (\<lambda>c. c \<noteq> slash) s))"
  by pat_completeness auto
termination
proof (relation "measure length", simp)
  fix s t :: "u8 list" assume t: "t = dropWhile (\<lambda>c. c = slash) s" "t \<noteq> []"
  obtain a u where u: "t = a # u" using t(2) by (meson neq_Nil_conv)
  have "hd t \<noteq> slash" unfolding t(1) by (rule hd_dropWhile [of "\<lambda>c. c = slash"]) (use t in simp)
  then have "a \<noteq> slash" by (simp add: u)
  then have "dropWhile (\<lambda>c. c \<noteq> slash) t = dropWhile (\<lambda>c. c \<noteq> slash) u" by (simp add: u)
  then have "length (dropWhile (\<lambda>c. c \<noteq> slash) t) < length t" using length_dropWhile_le [of _ u] by (simp add: u le_imp_less_Suc)
  also have "length t \<le> length s" by (simp add: t(1) length_dropWhile_le)
  finally show "(dropWhile (\<lambda>c. c \<noteq> slash) t, s) \<in> measure length" by simp
qed

declare components.simps [simp del]

definition reduce_comp :: "bool \<Rightarrow> u8 list list \<Rightarrow> u8 list \<Rightarrow> u8 list list" where
  "reduce_comp absolute st c =
     (if c = [dot] then st
      else if c = [dot, dot] then
        (if st \<noteq> [] \<and> last st \<noteq> [dot, dot] then butlast st else if absolute then st else st @ [[dot, dot]])
      else st @ [c])"

fun join_path :: "u8 list list \<Rightarrow> u8 list" where
  "join_path [] = []"
| "join_path [c] = c"
| "join_path (c # cs) = c @ slash # join_path cs"

definition reduced_path :: "u8 list \<Rightarrow> u8 list" where
  "reduced_path s =
     (let absolute = (s \<noteq> [] \<and> hd s = slash)
      in (if absolute then [slash] else []) @ join_path (foldl (reduce_comp absolute) [] (components s)))"

subsection \<open>The loops\<close>

lemma rd_append [simp]: "rd (xs @ c # ys) (length xs) = Some c"
  by (simp add: rd_def)

lemma rd_at: "n = length xs \<Longrightarrow> rd (xs @ c # ys) n = Some c"
  by simp

lemma skip_slashes_run: "c \<noteq> slash \<Longrightarrow> skip_slashes (pre @ replicate n slash @ c # ys) (length pre) = Some (length pre + n)"
proof (induction n arbitrary: pre)
  case 0
  then show ?case by (simp add: skip_slashes.simps)
next
  case (Suc n)
  then show ?case using Suc.IH [of "pre @ [slash]"] by (simp add: skip_slashes.simps [of _ "length pre"])
qed

lemma segment_end_run:
  assumes "0 \<notin> set w" "slash \<notin> set w" "c = 0 \<or> c = slash"
  shows "segment_end (pre @ w @ c # ys) (length pre) = Some (length pre + length w)"
  using assms
proof (induction w arbitrary: pre)
  case Nil
  then show ?case by (auto simp: segment_end.simps)
next
  case (Cons a w)
  then show ?case using Cons.IH [of "pre @ [a]"] by (auto simp: segment_end.simps [of _ "length pre"])
qed

lemma back_to_slash_run:
  assumes "slash \<notin> set w" "pre = [] \<or> last pre = slash"
  shows "back_to_slash (pre @ w @ ys) (length pre + length w) = Some (length pre)"
  using assms
proof (induction w arbitrary: ys rule: rev_induct)
  case Nil
  show ?case
  proof (cases pre rule: rev_cases)
    case (snoc p x)
    then show ?thesis using Nil rd_append [of p x ys] by simp
  qed simp
next
  case (snoc a w)
  then show ?case using rd_append [of "pre @ w" a ys] by simp
qed

lemma copy_segment_run:
  assumes "0 \<notin> set w" "length out + length mid + length w = Suc ns \<or> ys \<noteq> [] \<and> hd ys = 0 \<and> length out + length mid + length w \<le> ns"
  shows "\<exists>mid'. length mid' = length mid \<and>
    copy_segment ns (out @ mid @ w @ ys) (length out + length mid) (length out) = Some (out @ w @ mid' @ ys, length out + length mid + length w, length out + length w)"
  using assms
proof (induction w arbitrary: out mid)
  case Nil
  then show ?case using rd_at [of _ "out @ mid" 0 "tl ys"] by (cases ys) (auto simp: copy_segment.simps)
next
  case (Cons c w)
  define mid1 where "mid1 = (case mid of [] \<Rightarrow> [] | m # ms \<Rightarrow> ms @ [c])"
  have m: "length mid1 = length mid" "(out @ mid @ (c # w) @ ys)[length out := c] = (out @ [c]) @ mid1 @ w @ ys"
    by (cases mid; simp add: mid1_def)+
  have "rd (out @ mid @ (c # w) @ ys) (length out + length mid) = Some c" using rd_at [of _ "out @ mid" c "w @ ys"] by simp
  moreover have "length out + length mid \<le> ns" "c \<noteq> 0" using Cons.prems by auto
  ultimately have "copy_segment ns (out @ mid @ (c # w) @ ys) (length out + length mid) (length out)
      = copy_segment ns ((out @ [c]) @ mid1 @ w @ ys) (length (out @ [c]) + length mid1) (length (out @ [c]))"
    using m by (simp add: copy_segment.simps [of _ _ "length out + length mid"])
  then show ?case using Cons.IH [of "out @ [c]" mid1] Cons.prems m(1) by auto
qed

subsection \<open>The written part\<close>

definition root_part :: "bool \<Rightarrow> u8 list" where
  "root_part absolute = (if absolute then [slash] else [])"

definition render :: "bool \<Rightarrow> u8 list list \<Rightarrow> u8 list" where
  "render absolute st = root_part absolute @ concat (map (\<lambda>c. c @ [slash]) st)"

definition comp_ok :: "u8 list \<Rightarrow> bool" where
  "comp_ok c \<longleftrightarrow> c \<noteq> [] \<and> slash \<notin> set c \<and> 0 \<notin> set c"

definition stack_ok :: "bool \<Rightarrow> nat \<Rightarrow> u8 list list \<Rightarrow> bool" where
  "stack_ok absolute segments st \<longleftrightarrow> (\<exists>k sg. st = replicate k [dot, dot] @ sg \<and> length sg = segments \<and> [dot, dot] \<notin> set sg
     \<and> (\<forall>c \<in> set st. comp_ok c) \<and> (absolute \<longrightarrow> k = 0))"

lemma render_snoc: "render absolute (st @ [c]) = render absolute st @ c @ [slash]"
  by (simp add: render_def)

lemma render_last: "render absolute st = [] \<or> last (render absolute st) = slash"
  by (cases st rule: rev_cases) (auto simp: render_def root_part_def)

lemma join_path_snoc: "root_part absolute @ join_path (st @ [c]) = render absolute st @ c"
proof -
  have "join_path (st @ [c]) = concat (map (\<lambda>c. c @ [slash]) st) @ c"
  proof (induction st)
    case (Cons a st)
    then show ?case by (cases st) auto
  qed simp
  then show ?thesis by (simp add: render_def)
qed

lemma stack_ok_push: "stack_ok absolute n st \<Longrightarrow> comp_ok c \<Longrightarrow> c \<noteq> [dot, dot] \<Longrightarrow> stack_ok absolute (Suc n) (st @ [c])"
proof -
  assume h: "stack_ok absolute n st" "comp_ok c" "c \<noteq> [dot, dot]"
  then obtain k sg where "st = replicate k [dot, dot] @ sg" "length sg = n" "[dot, dot] \<notin> set sg" "\<forall>c \<in> set st. comp_ok c" "absolute \<longrightarrow> k = 0"
    unfolding stack_ok_def by blast
  then show ?thesis unfolding stack_ok_def using h(2,3) by (intro exI [of _ k] exI [of _ "sg @ [c]"]) auto
qed

lemma stack_ok_dotdot: "stack_ok False 0 st \<Longrightarrow> stack_ok False 0 (st @ [[dot, dot]]) \<and> (st = [] \<or> last st = [dot, dot])"
proof -
  assume "stack_ok False 0 st"
  then obtain k where k: "st = replicate k [dot, dot]" by (auto simp: stack_ok_def)
  have "stack_ok False 0 (st @ [[dot, dot]])"
    unfolding stack_ok_def k replicate_append_same [symmetric] by (intro exI [of _ "Suc k"] exI [of _ "[]"]) (auto simp: replicate_append_same comp_ok_def)
  then show ?thesis using k by (cases k) auto
qed

lemma stack_ok_pop:
  assumes "stack_ok absolute (Suc n) st"
  shows "\<exists>st0 c. st = st0 @ [c] \<and> comp_ok c \<and> c \<noteq> [dot, dot] \<and> stack_ok absolute n st0"
proof -
  obtain k sg where h: "st = replicate k [dot, dot] @ sg" "length sg = Suc n" "[dot, dot] \<notin> set sg" "\<forall>c \<in> set st. comp_ok c" "absolute \<longrightarrow> k = 0"
    using assms unfolding stack_ok_def by blast
  then obtain sg0 c where sg: "sg = sg0 @ [c]" by (cases sg rule: rev_cases) auto
  then have "stack_ok absolute n (replicate k [dot, dot] @ sg0)" unfolding stack_ok_def using h by (intro exI [of _ k] exI [of _ sg0]) auto
  then show ?thesis using h sg by (intro exI [of _ "replicate k [dot, dot] @ sg0"] exI [of _ c]) auto
qed

lemma stack_ok_abs: "stack_ok True 0 st \<Longrightarrow> st = []"
  by (auto simp: stack_ok_def)

lemma components_slash: "components (replicate n slash @ s) = components s"
proof -
  have "dropWhile (\<lambda>c. c = slash) (replicate n slash @ s) = dropWhile (\<lambda>c. c = slash) s" by (induction n) auto
  then show ?thesis by (simp add: components.simps [of "replicate n slash @ s"] components.simps [of s])
qed

lemma components_Cons_slash: "components (slash # s) = components s"
  using components_slash [of 1 s] by simp

lemma components_word:
  assumes "w \<noteq> []" "slash \<notin> set w" "t = [] \<or> hd t = slash"
  shows "components (w @ t) = w # components t"
proof -
  have "hd w \<noteq> slash" using assms(1,2) by (metis hd_in_set)
  then have "dropWhile (\<lambda>c. c = slash) (w @ t) = w @ t" using assms(1) by (cases w) auto
  moreover have "takeWhile (\<lambda>c. c \<noteq> slash) (w @ t) = w" "dropWhile (\<lambda>c. c \<noteq> slash) (w @ t) = t"
    using assms(2,3) by (auto simp: takeWhile_append dropWhile_append) (cases t; simp)+
  ultimately show ?thesis using assms(1) by (simp add: components.simps [of "w @ t"])
qed

lemma split_component:
  obtains n w t where "s = replicate n slash @ w @ t" "slash \<notin> set w" "t = [] \<or> hd t = slash" "w = [] \<longrightarrow> t = []"
proof -
  let ?n = "length (takeWhile (\<lambda>c. c = slash) s)" and ?u = "dropWhile (\<lambda>c. c = slash) s"
  have "takeWhile (\<lambda>c. c = slash) s = replicate ?n slash" by (induction s) auto
  then have "s = replicate ?n slash @ takeWhile (\<lambda>c. c \<noteq> slash) ?u @ dropWhile (\<lambda>c. c \<noteq> slash) ?u"
    by (metis takeWhile_dropWhile_id)
  moreover have "slash \<notin> set (takeWhile (\<lambda>c. c \<noteq> slash) ?u)" by (auto dest: set_takeWhileD)
  moreover have "dropWhile (\<lambda>c. c \<noteq> slash) ?u = [] \<or> hd (dropWhile (\<lambda>c. c \<noteq> slash) ?u) = slash"
    using hd_dropWhile [of "\<lambda>c. c \<noteq> slash" ?u] by blast
  moreover have "takeWhile (\<lambda>c. c \<noteq> slash) ?u = [] \<longrightarrow> dropWhile (\<lambda>c. c \<noteq> slash) ?u = []"
  proof (rule impI, rule ccontr)
    assume that: "takeWhile (\<lambda>c. c \<noteq> slash) ?u = []" and "dropWhile (\<lambda>c. c \<noteq> slash) ?u \<noteq> []"
    then have u: "?u \<noteq> []" by (metis dropWhile.simps(1))
    then have "hd ?u \<noteq> slash" by (rule hd_dropWhile)
    then show False using that u by (cases ?u) auto
  qed
  ultimately show thesis by (rule that)
qed

subsection \<open>The main loop\<close>

definition reduces :: "bool \<Rightarrow> u8 list \<Rightarrow> nat \<Rightarrow> nat \<Rightarrow> nat \<Rightarrow> u8 list list \<Rightarrow> bool" where
  "reduces absolute path read_pos insert_pos segments st \<longleftrightarrow> (\<exists>path' pos. reduce_loop absolute path read_pos insert_pos segments = Some (path', pos)
     \<and> length path' = length path \<and> pos < length path
     \<and> (take pos path' = render absolute st \<or> st \<noteq> [] \<and> take pos path' = root_part absolute @ join_path st))"

lemma reduces_cong: "reduce_loop absolute path r i n = reduce_loop absolute path' r' i' n' \<Longrightarrow> length path = length path' \<Longrightarrow>
    reduces absolute path r i n st = reduces absolute path' r' i' n' st"
  by (simp add: reduces_def)

lemma reduces_end: "reduces absolute (render absolute st @ mid @ [0]) (length (render absolute st) + length mid) (length (render absolute st)) n st"
  using rd_append [of "render absolute st @ mid" 0 "[]"] by (simp add: reduces_def reduce_loop.simps)

lemma reduces_end_word:
  "st = st0 @ [w] \<Longrightarrow> reduces absolute (render absolute st0 @ w @ mid @ [0]) (length (render absolute st0) + length w + length mid) (length (render absolute st0) + length w) n st"
  using rd_append [of "render absolute st0 @ w @ mid" 0 "[]"] join_path_snoc [of absolute st0 w]
  by (simp add: reduces_def reduce_loop.simps add.assoc)

lemma reduce_loop_head:
  assumes "path = pre @ replicate n slash @ w @ t @ [0]" "0 < n \<or> w \<noteq> []" "0 \<notin> set w" "slash \<notin> set w" "t = [] \<or> hd t = slash" "w = [] \<Longrightarrow> t = []"
    "r = length pre + n" "ns = r + length w"
  shows "reduce_loop absolute path (length pre) ins seg =
    (if w = [dot] then reduce_loop absolute path (r + 1) ins seg
     else if w = [dot, dot] then
       (if seg > 0 then do { ins \<leftarrow> back_to_slash path (ins - 1); reduce_loop absolute path (r + 2) ins (seg - 1) }
        else if absolute then reduce_loop absolute path (r + 2) ins seg
        else do { (path, r, ins) \<leftarrow> copy_segment ns path r ins; reduce_loop absolute path r ins seg })
     else do { (path, r, ins) \<leftarrow> copy_segment ns path r ins; reduce_loop absolute path r ins (seg + 1) })"
proof -
  obtain c ys where c: "w @ t @ [0] = c # ys" "c \<noteq> slash" using assms(4,6) by (cases w) auto
  have e: "t @ [0] = hd (t @ [0]) # tl (t @ [0])" "hd (t @ [0]) = 0 \<or> hd (t @ [0]) = slash" using assms(5) by (cases t; auto)+
  have "rd path (length pre) = Some (if n = 0 then c else slash)"
    using c(1) assms(1) rd_append [of pre _ "replicate (n - 1) slash @ w @ t @ [0]"] by (cases n) simp_all
  moreover have "n = 0 \<Longrightarrow> c \<noteq> 0" using assms(2,3) c(1) by (cases w) auto
  moreover have "skip_slashes path (length pre) = Some r" using skip_slashes_run [OF c(2), of pre n ys] assms(1,7) c(1) by simp
  moreover have "segment_end path r = Some ns"
    using segment_end_run [OF assms(3,4) e(2), of "pre @ replicate n slash" "tl (t @ [0])"] assms(1,7,8) e(1) by (simp add: add.assoc)
  moreover have "is_dot path r ns \<longleftrightarrow> w = [dot]"
    using assms(1,7,8) rd_append [of "pre @ replicate n slash" "hd w" "t @ [0]"] by (cases w) (auto simp: is_dot_def)
  moreover have "is_dotdot path r ns \<longleftrightarrow> w = [dot, dot]"
  proof (cases "length w = 2")
    case True
    then obtain a b where w: "w = [a, b]" by (auto simp: length_Suc_conv eval_nat_numeral)
    show ?thesis using assms(1,7,8) rd_append [of "pre @ replicate n slash" a "b # t @ [0]"] rd_append [of "pre @ replicate n slash @ [a]" b "t @ [0]"]
      by (auto simp: is_dotdot_def w)
  qed (auto simp: is_dotdot_def assms(8))
  ultimately show ?thesis by (simp add: reduce_loop.simps [of _ path "length pre"])
qed

lemma copy_reduces:
  assumes path: "path = render absolute st @ mid @ w @ t @ [0]" and ok: "comp_ok w" and t: "t = [] \<or> hd t = slash"
    and r: "r = length (render absolute st) + length mid" and ns: "ns = r + length w"
    and rest: "\<And>mid' t'. t = slash # t' \<Longrightarrow> reduces absolute (render absolute (st @ [w]) @ mid' @ t' @ [0])
        (length (render absolute (st @ [w])) + length mid') (length (render absolute (st @ [w]))) n st'"
    and st': "t = [] \<Longrightarrow> st' = st @ [w]"
    and eq: "reduce_loop absolute path0 r0 i0 n0 = do { (path, r, ins) \<leftarrow> copy_segment ns path r (length (render absolute st)); reduce_loop absolute path r ins n }"
    and len: "length path0 = length path"
  shows "reduces absolute path0 r0 i0 n0 st'"
proof (cases t)
  case Nil
  have w: "0 \<notin> set w" using ok by (simp add: comp_ok_def)
  obtain mid' where m: "length mid' = length mid"
    "copy_segment ns path r (length (render absolute st)) = Some (render absolute st @ w @ mid' @ [0], r + length w, length (render absolute st) + length w)"
    using copy_segment_run [OF w, of "render absolute st" mid ns "[0]"] unfolding path r ns Nil by auto
  then have "reduce_loop absolute path0 r0 i0 n0 = reduce_loop absolute (render absolute st @ w @ mid' @ [0]) (r + length w) (length (render absolute st) + length w) n"
    using eq by simp
  moreover have "length path0 = length (render absolute st @ w @ mid' @ [0])" using len m(1) path Nil by simp
  ultimately show ?thesis
    using reduces_end_word [OF st' [OF Nil], of absolute mid' n] unfolding r m(1) [symmetric] by (simp add: reduces_def ac_simps)
next
  case (Cons c t')
  then have c: "c = slash" using t by simp
  have w: "0 \<notin> set (w @ [slash])" using ok by (simp add: comp_ok_def)
  obtain mid' where m: "length mid' = length mid"
    "copy_segment ns path r (length (render absolute st)) = Some (render absolute st @ (w @ [slash]) @ mid' @ t' @ [0], r + length (w @ [slash]), length (render absolute st) + length (w @ [slash]))"
    using copy_segment_run [OF w, of "render absolute st" mid ns "t' @ [0]"] unfolding path r ns Cons c by auto
  then have "reduce_loop absolute path0 r0 i0 n0 = reduce_loop absolute (render absolute (st @ [w]) @ mid' @ t' @ [0])
      (length (render absolute (st @ [w])) + length mid') (length (render absolute (st @ [w]))) n"
    using eq m(1) r by (simp add: render_snoc ac_simps)
  moreover have "length path0 = length (render absolute (st @ [w]) @ mid' @ t' @ [0])" using len m(1) path Cons by (simp add: render_snoc)
  ultimately show ?thesis using rest [of t' mid'] Cons c by (simp add: reduces_def)
qed

lemma reduce_dotdot:
  assumes ok: "stack_ok absolute n st" and path: "path = render absolute st @ mid @ s @ [0]" and s: "s = replicate m slash @ [dot, dot] @ t"
    and t: "t = [] \<or> hd t = slash" and i: "i = length (render absolute st)" and r: "r = i + length mid"
    and IH: "\<And>t' st n mid'. length t' < length s \<Longrightarrow> set t' \<subseteq> set t \<Longrightarrow> stack_ok absolute n st \<Longrightarrow> reduces absolute (render absolute st @ mid' @ t' @ [0])
        (length (render absolute st) + length mid') (length (render absolute st)) n (foldl (reduce_comp absolute) st (components t'))"
  shows "reduces absolute path r i n (foldl (reduce_comp absolute) st ([dot, dot] # components t))"
proof -
  let ?c = "reduce_comp absolute"
  note head = reduce_loop_head [of path "render absolute st @ mid" m "[dot, dot]" t _ _ absolute i n, simplified]
  have head: "reduce_loop absolute path r i n =
       (if n > 0 then do { ins \<leftarrow> back_to_slash path (i - 1); reduce_loop absolute path (r + m + 2) ins (n - 1) }
        else if absolute then reduce_loop absolute path (r + m + 2) i n
        else do { (path, r, ins) \<leftarrow> copy_segment (r + m + 2) path (r + m) i; reduce_loop absolute path r ins n })"
    using head t path s r i by (simp add: add.assoc)
  have short: "length t < length s" "set t \<subseteq> set t" by (simp_all add: s)
  consider n' where "n = Suc n'" | "n = 0" absolute | "n = 0" "\<not> absolute" by (cases n) auto
  then show ?thesis
  proof cases
    case 1
    then obtain st0 c where st: "st = st0 @ [c]" "comp_ok c" "c \<noteq> [dot, dot]" "stack_ok absolute n' st0" using stack_ok_pop ok by blast
    let ?m = "c @ [slash] @ mid @ replicate m slash @ [dot, dot]"
    have p: "path = render absolute st0 @ ?m @ t @ [0]" by (simp add: path s st(1) render_snoc)
    have "back_to_slash path (i - 1) = Some (length (render absolute st0))"
      using back_to_slash_run [of c "render absolute st0" "slash # mid @ s @ [0]"] st(1,2) render_last [of absolute st0] path i
      by (simp add: render_snoc comp_ok_def)
    then have "reduce_loop absolute path r i n = reduce_loop absolute path (length (render absolute st0) + length ?m) (length (render absolute st0)) n'"
      using head 1 r i st(1) by (simp add: render_snoc ac_simps)
    then show ?thesis using IH [OF short st(4), of ?m] st(1,3) p by (simp add: reduces_def reduce_comp_def)
  next
    case 2
    then have st: "st = []" using ok stack_ok_abs by auto
    let ?m = "mid @ replicate m slash @ [dot, dot]"
    have "path = render absolute st @ ?m @ t @ [0]" by (simp add: path s)
    then show ?thesis using IH [OF short ok, of ?m] head 2 r i by (simp add: reduces_def reduce_comp_def st ac_simps)
  next
    case 3
    then have st: "stack_ok absolute 0 (st @ [[dot, dot]])" "st = [] \<or> last st = [dot, dot]" using ok stack_ok_dotdot by auto
    then have f: "foldl ?c st ([dot, dot] # components t) = foldl ?c (st @ [[dot, dot]]) (components t)" using 3 by (auto simp: reduce_comp_def)
    show ?thesis unfolding f
    proof (rule copy_reduces [where w = "[dot, dot]" and t = t and mid = "mid @ replicate m slash" and path = path and st = st and n = 0])
      fix mid' t' assume t': "t = slash # t'"
      show "reduces absolute (render absolute (st @ [[dot, dot]]) @ mid' @ t' @ [0]) (length (render absolute (st @ [[dot, dot]])) + length mid')
          (length (render absolute (st @ [[dot, dot]]))) 0 (foldl ?c (st @ [[dot, dot]]) (components t))"
        using IH [OF _ _ st(1), of t' mid'] t' by (auto simp: s components_Cons_slash)
    qed (use t 3 head r i path s in \<open>simp_all add: comp_ok_def components.simps add.assoc\<close>)
  qed
qed

lemma reduces_all:
  assumes "stack_ok absolute n st" "0 \<notin> set s"
  shows "reduces absolute (render absolute st @ mid @ s @ [0]) (length (render absolute st) + length mid) (length (render absolute st)) n
    (foldl (reduce_comp absolute) st (components s))"
  using assms
proof (induction "length s" arbitrary: s st n mid rule: less_induct)
  case less
  let ?p = "render absolute st @ mid @ s @ [0]" and ?i = "length (render absolute st)"
  obtain m w t where s: "s = replicate m slash @ w @ t" "slash \<notin> set w" "t = [] \<or> hd t = slash" "w = [] \<longrightarrow> t = []" by (rule split_component [of s])
  have IH: "reduces absolute (render absolute st @ mid' @ t' @ [0]) (length (render absolute st) + length mid') (length (render absolute st)) n
      (foldl (reduce_comp absolute) st (components t'))"
    if "length t' < length s" "set t' \<subseteq> set t" "stack_ok absolute n st" for t' st n mid'
  proof (rule less.hyps [OF that(1,3)])
    show "0 \<notin> set t'" using that(2) less.prems(2) s(1) by auto
  qed
  have nz: "0 \<notin> set w" using less.prems(2) s(1) by auto
  note hd = reduce_loop_head [of ?p "render absolute st @ mid" m w t _ _ absolute ?i n, OF _ _ nz s(2,3) s(4) [rule_format] refl refl]
  have head1: "w = [dot] \<Longrightarrow> reduce_loop absolute ?p (?i + length mid) ?i n = reduce_loop absolute ?p (?i + length mid + m + 1) ?i n"
    using hd s(1) by simp
  have head: "m > 0 \<or> w \<noteq> [] \<Longrightarrow> w \<noteq> [dot] \<Longrightarrow> w \<noteq> [dot, dot] \<Longrightarrow> reduce_loop absolute ?p (?i + length mid) ?i n
      = do { (path, r, ins) \<leftarrow> copy_segment (?i + length mid + m + length w) ?p (?i + length mid + m) ?i; reduce_loop absolute path r ins (n + 1) }"
    using hd s(1) by simp
  consider "s = []" | "m > 0" "w = []" | "w = [dot]" | "w = [dot, dot]" | "w \<noteq> []" "w \<noteq> [dot]" "w \<noteq> [dot, dot]" using s(1,4) by (cases m) auto
  then show ?case
  proof cases
    case 1
    then show ?thesis using reduces_end [of absolute st mid n] by (simp add: components.simps)
  next
    case 2
    then have t: "t = []" using s(4) by simp
    have "rd ?p (?i + length mid + m) = Some 0" using s(1) 2 t rd_append [of "render absolute st @ mid @ replicate m slash" 0 "[]"] by (simp add: add.assoc)
    then have "reduce_loop absolute ?p (?i + length mid) ?i n = reduce_loop absolute (render absolute st @ (mid @ s) @ [0]) (?i + length (mid @ s)) ?i (n + 1)"
      using head 2 t s(1) by (simp add: copy_segment.simps add.assoc)
    then show ?thesis using reduces_end [of absolute st "mid @ s" "n + 1"] components_slash [of m "[]"] s(1) 2 t
      by (simp add: reduces_def components.simps)
  next
    case 3
    let ?m = "mid @ replicate m slash @ [dot]"
    have c: "components s = [dot] # components t" using s 3 components_slash components_word [of w t] by simp
    have "?p = render absolute st @ ?m @ t @ [0]" using s(1) 3 by simp
    then show ?thesis using IH [of t, OF _ _ less.prems(1), of ?m] head1 3 s(1) unfolding c by (simp add: reduces_def reduce_comp_def add.assoc)
  next
    case 4
    have c: "components s = [dot, dot] # components t" using s 4 components_slash components_word [of w t] by simp
    show ?thesis unfolding c by (rule reduce_dotdot [OF less.prems(1) refl _ s(3) refl refl IH]) (use s(1) 4 in auto)
  next
    case 5
    have c: "components s = w # components t" using s 5 components_slash components_word [of w t] by simp
    have ok: "comp_ok w" "stack_ok absolute (Suc n) (st @ [w])" using 5 s(2) nz stack_ok_push less.prems(1) by (auto simp: comp_ok_def)
    have f: "foldl (reduce_comp absolute) st (components s) = foldl (reduce_comp absolute) (st @ [w]) (components t)" using 5 c by (simp add: reduce_comp_def)
    show ?thesis unfolding f
    proof (rule copy_reduces [where w = w and t = t and mid = "mid @ replicate m slash" and path = ?p and st = st and n = "Suc n"])
      fix mid' t' assume t': "t = slash # t'"
      show "reduces absolute (render absolute (st @ [w]) @ mid' @ t' @ [0]) (length (render absolute (st @ [w])) + length mid')
          (length (render absolute (st @ [w]))) (Suc n) (foldl (reduce_comp absolute) (st @ [w]) (components t))"
        using IH [of t' "Suc n" "st @ [w]" mid'] ok(2) t' s(1) by (auto simp: components_Cons_slash)
    qed (use s(1,3) 5 ok(1) head in \<open>simp_all add: components.simps add.assoc\<close>)
  qed
qed

lemma components_ok: "0 \<notin> set s \<Longrightarrow> \<forall>c \<in> set (components s). comp_ok c"
proof (induction "length s" arbitrary: s rule: less_induct)
  case less
  obtain n w t where s: "s = replicate n slash @ w @ t" "slash \<notin> set w" "t = [] \<or> hd t = slash" "w = [] \<longrightarrow> t = []" by (rule split_component [of s])
  show ?case
  proof (cases "w = []")
    case True
    then show ?thesis using s components_slash [of n "[]"] by (simp add: components.simps)
  next
    case False
    have "components s = w # components t" using s False components_slash components_word [of w t] by simp
    moreover have "\<forall>c \<in> set (components t). comp_ok c" using less.hyps [of t] less.prems s(1) False by simp
    ultimately show ?thesis using False s less.prems by (simp add: comp_ok_def)
  qed
qed

lemma reduce_comps_ok: "\<forall>c \<in> set st. comp_ok c \<Longrightarrow> \<forall>c \<in> set cs. comp_ok c \<Longrightarrow> \<forall>c \<in> set (foldl (reduce_comp absolute) st cs). comp_ok c"
proof (induction cs arbitrary: st)
  case (Cons c cs)
  have "set (reduce_comp absolute st c) \<subseteq> insert c (set st)" by (auto simp: reduce_comp_def dest: in_set_butlastD)
  then have "\<forall>c \<in> set (reduce_comp absolute st c). comp_ok c" using Cons.prems by auto
  then show ?case using Cons.IH Cons.prems(2) by simp
qed simp

lemma c_str_cut: "take pos buf = x \<Longrightarrow> pos < length buf \<Longrightarrow> 0 \<notin> set x \<Longrightarrow> c_str (buf[pos := 0]) = x"
proof -
  assume h: "take pos buf = x" "pos < length buf" "0 \<notin> set x"
  have "buf[pos := 0] = x @ 0 # drop (Suc pos) buf" using upd_conv_take_nth_drop [OF h(2)] h(1) by simp
  moreover have "takeWhile (\<lambda>c. c \<noteq> 0) (x @ 0 # drop (Suc pos) buf) = x" using h(3) by (subst takeWhile_append2) auto
  ultimately show ?thesis by (simp add: c_str_def)
qed

definition cut_slash :: "u8 list \<Rightarrow> nat \<Rightarrow> nat" where
  "cut_slash path pos = (if pos > 1 \<and> rd path (pos - 1) = Some slash then pos - 1 else pos)"

lemma rd_take: "take pos buf = x @ [c] \<Longrightarrow> pos < length buf \<Longrightarrow> rd buf (pos - 1) = Some c \<and> pos = length x + 1"
proof -
  assume h: "take pos buf = x @ [c]" "pos < length buf"
  then have "length (x @ [c]) = pos" by (metis length_take min.absorb4)
  moreover have "buf = x @ c # drop pos buf" using h append_take_drop_id [of pos buf] by simp
  ultimately show ?thesis using rd_append [of x c "drop pos buf"] by auto
qed

lemma reduces_result:
  assumes "reduces absolute path r i n st" "\<forall>c \<in> set st. comp_ok c"
  shows "\<exists>path' pos. reduce_loop absolute path r i n = Some (path', pos) \<and> length path' = length path
    \<and> c_str (path'[cut_slash path' pos := 0]) = root_part absolute @ join_path st"
proof -
  obtain path' pos where p: "reduce_loop absolute path r i n = Some (path', pos)" "length path' = length path" "pos < length path'"
    "take pos path' = render absolute st \<or> st \<noteq> [] \<and> take pos path' = root_part absolute @ join_path st"
    using assms(1) by (auto simp: reduces_def)
  have "c_str (path'[cut_slash path' pos := 0]) = root_part absolute @ join_path st"
  proof (cases st rule: rev_cases)
    case Nil
    then have t: "take pos path' = root_part absolute" using p(4) by (simp add: render_def)
    then have "pos = length (root_part absolute)" using p(3) by (metis length_take min.absorb4)
    then have "cut_slash path' pos = pos" by (simp add: cut_slash_def root_part_def)
    then show ?thesis using c_str_cut [OF t p(3)] Nil by (simp add: root_part_def)
  next
    case (snoc st0 c)
    have c: "comp_ok c" "0 \<notin> set (render absolute st0 @ c)" using assms(2) snoc by (auto simp: render_def root_part_def comp_ok_def)
    then obtain d a where d: "c = d @ [a]" "a \<noteq> slash" by (cases c rule: rev_cases) (auto simp: comp_ok_def)
    have j: "root_part absolute @ join_path st = render absolute st0 @ c" using snoc join_path_snoc by blast
    consider "take pos path' = (render absolute st0 @ c) @ [slash]" | "take pos path' = (render absolute st0 @ d) @ [a]"
      using p(4) snoc j d(1) by (auto simp: render_snoc)
    then show ?thesis
    proof cases
      case 1
      from rd_take [OF 1 p(3)] d(1) have q: "cut_slash path' pos = length (render absolute st0 @ c)" by (auto simp: cut_slash_def)
      then have "take (cut_slash path' pos) path' = render absolute st0 @ c" using 1 rd_take [OF 1 p(3)]
        by (metis Suc_eq_plus1 append_eq_conv_conj le_add1 min.absorb1 plus_1_eq_Suc take_take add.commute)
      then show ?thesis unfolding j using c_str_cut c(2) p(3) q rd_take [OF 1 p(3)] by (simp add: c_str_cut)
    next
      case 2
      from rd_take [OF 2 p(3)] d(2) have "cut_slash path' pos = pos" by (auto simp: cut_slash_def)
      then show ?thesis unfolding j using c_str_cut [OF 2 p(3)] c(2) d(1) by simp
    qed
  qed
  then show ?thesis using p(1,2) by blast
qed

text \<open>
  Property C19 (inlineReducePath_correct). Reducing a path in place returns for every string, stays within the buffer,
  and leaves the path that the reference computes from the components: empty and \<open>.\<close> components
  are dropped, \<open>..\<close> removes the component before it, is dropped at the root and kept at the start of
  a relative path, and no slash is left at the end except for the root itself.
\<close>

theorem inlineReducePath_correct:
  assumes "0 \<notin> set s"
  shows "\<exists>buf. inlineReducePath (s @ [0]) = Some buf \<and> length buf = length s + 1 \<and> c_str buf = reduced_path s"
proof -
  have st: "stack_ok absolute 0 []" for absolute by (auto simp: stack_ok_def)
  note ok = reduce_comps_ok [of "[]"]
  show ?thesis
  proof (cases "s \<noteq> [] \<and> hd s = slash")
    case True
    then obtain t where t: "s = slash # t" by (cases s) auto
    have "reduces True (s @ [0]) 1 1 0 (foldl (reduce_comp True) [] (components t))"
      using reduces_all [OF st, of t True "[]"] assms t by (simp add: render_def root_part_def)
    from reduces_result [OF this ok] components_ok [of t] assms t obtain path' pos where
      "reduce_loop True (s @ [0]) 1 1 0 = Some (path', pos)" "length path' = length (s @ [0])"
      "c_str (path'[cut_slash path' pos := 0]) = root_part True @ join_path (foldl (reduce_comp True) [] (components t))" by auto
    then show ?thesis using t
      by (simp add: inlineReducePath_def rd_def cut_slash_def reduced_path_def root_part_def components_Cons_slash)
  next
    case False
    then have c: "\<exists>c. rd (s @ [0]) 0 = Some c \<and> c \<noteq> slash" by (cases s) (auto simp: rd_def)
    have "reduces False (s @ [0]) 0 0 0 (foldl (reduce_comp False) [] (components s))"
      using reduces_all [OF st, of s False "[]"] assms by (simp add: render_def root_part_def)
    from reduces_result [OF this ok] components_ok [of s] assms obtain path' pos where
      "reduce_loop False (s @ [0]) 0 0 0 = Some (path', pos)" "length path' = length (s @ [0])"
      "c_str (path'[cut_slash path' pos := 0]) = root_part False @ join_path (foldl (reduce_comp False) [] (components s))" by auto
    then show ?thesis using False c
      by (auto simp: inlineReducePath_def cut_slash_def reduced_path_def root_part_def)
  qed
qed

text \<open>The path \<open>/a/../b/.\<close> is reduced to \<open>/b\<close>.\<close>

theorem inlineReducePath_correct_witness:
  "0 \<notin> set [47, 97, 47, 46, 46, 47, 98, 47, 46 :: u8]
   \<and> (\<exists>buf. inlineReducePath [47, 97, 47, 46, 46, 47, 98, 47, 46, 0] = Some buf \<and> c_str buf = [47, 98])"
  using inlineReducePath_correct [of "[47, 97, 47, 46, 46, 47, 98, 47, 46]"]
  by (auto simp: reduced_path_def components.simps reduce_comp_def)

text \<open>\<open>getParentPath\<close> and \<open>getBaseFilename\<close> read outside of the string when the path is empty.\<close>

lemma empty_path_undefined: "getParentPath [0] = None" "getBaseFilename [0] = None"
  by (simp_all add: getParentPath_def getBaseFilename_def stringClone_def c_str_def size_minus_1_def walk_back.simps rd_def)

end
