(* ===== verification/FdTable.thy ===== *)
theory FdTable
  imports LinkedList
begin

text \<open>
  Model of kernel/src/files/process.c, the table of file descriptors of a process, and of the
  reference counts of files (\<open>vfsFileCopy\<close>, \<open>vfsFileClose\<close> of vfs/file.c). Descriptors live in a
  heap; each process has a list of them in ascending order of their numbers. \<open>fresh\<close> are the
  addresses \<open>kalloc\<close> returns next; \<open>closed\<close> lists the files whose last reference was dropped, which
  close their node and are freed. Locks are omitted; descriptor numbers are the C \<open>int\<close>s.
\<close>

unbundle bit_operations_syntax

record VfsFileDescriptor =
  d_next :: u64
  d_file :: u64
  d_id :: int
  d_flags :: u64
  d_ref_count :: u64

record FdState =
  files :: "u64 \<Rightarrow> u64"
  descs :: "u64 \<Rightarrow> VfsFileDescriptor"
  file_refs :: "u64 \<Rightarrow> u64"
  closed :: "u64 list"
  fresh :: "u64 list"

definition VFS_DESC_CLOEXEC :: u64 where "VFS_DESC_CLOEXEC = 1"

subsection \<open>Operations\<close>

definition vfsFileCopy :: "u64 \<Rightarrow> FdState \<Rightarrow> FdState" where
  "vfsFileCopy f s = s\<lparr>file_refs := (file_refs s)(f := file_refs s f + 1)\<rparr>"

definition vfsFileClose :: "u64 \<Rightarrow> FdState \<Rightarrow> FdState" where
  "vfsFileClose f s =
     (let s = s\<lparr>file_refs := (file_refs s)(f := file_refs s f - 1)\<rparr>
      in if file_refs s f = 0 then s\<lparr>closed := closed s @ [f]\<rparr> else s)"

definition set_d_ref :: "u64 \<Rightarrow> u64 \<Rightarrow> FdState \<Rightarrow> FdState" where
  "set_d_ref d n s = s\<lparr>descs := (descs s)(d := (descs s d)\<lparr>d_ref_count := n\<rparr>)\<rparr>"

definition vfsFileDescriptorCopy :: "u64 \<Rightarrow> FdState \<Rightarrow> FdState" where
  "vfsFileDescriptorCopy d s = set_d_ref d (d_ref_count (descs s d) + 1) s"

definition vfsFileDescriptorClose :: "u64 \<Rightarrow> FdState \<Rightarrow> FdState" where
  "vfsFileDescriptorClose d s =
     (let s = set_d_ref d (d_ref_count (descs s d) - 1) s
      in if d_ref_count (descs s d) = 0 then vfsFileClose (d_file (descs s d)) s else s)"

text \<open>
  \<open>while (*current != NULL && (*current)->id < fd) current = &(*current)->next\<close>. The place a
  pointer to a pointer stands for is the descriptor whose \<open>next\<close> it is, or 0 for the head of the list.
\<close>

partial_function (option) fd_seek :: "int \<Rightarrow> (u64 \<Rightarrow> VfsFileDescriptor) \<Rightarrow> u64 \<Rightarrow> u64 \<Rightarrow> (u64 \<times> u64) option" where
  "fd_seek fd ds prev cur =
     (if cur \<noteq> 0 \<and> d_id (ds cur) < fd then fd_seek fd ds cur (d_next (ds cur)) else Some (prev, cur))"

text \<open>\<open>while (*current != NULL && (*current)->id == fd) { current = &(*current)->next; fd++; }\<close>\<close>

partial_function (option) fd_gap :: "int \<Rightarrow> (u64 \<Rightarrow> VfsFileDescriptor) \<Rightarrow> u64 \<Rightarrow> u64 \<Rightarrow> (u64 \<times> u64 \<times> int) option" where
  "fd_gap fd ds prev cur =
     (if cur \<noteq> 0 \<and> d_id (ds cur) = fd then fd_gap (fd + 1) ds cur (d_next (ds cur)) else Some (prev, cur, fd))"

definition set_place :: "u64 \<Rightarrow> u64 \<Rightarrow> u64 \<Rightarrow> FdState \<Rightarrow> FdState" where
  "set_place proc prev v s =
     (if prev = 0 then s\<lparr>files := (files s)(proc := v)\<rparr> else s\<lparr>descs := (descs s)(prev := (descs s prev)\<lparr>d_next := v\<rparr>)\<rparr>)"

definition getFileDescriptorUnsafe :: "u64 \<Rightarrow> int \<Rightarrow> FdState \<Rightarrow> u64 option" where
  "getFileDescriptorUnsafe proc fd s = do {
     (_, cur) \<leftarrow> fd_seek fd (descs s) 0 (files s proc);
     Some (if cur \<noteq> 0 \<and> d_id (descs s cur) = fd then cur else 0) }"

definition getFileDescriptor :: "u64 \<Rightarrow> int \<Rightarrow> FdState \<Rightarrow> (u64 \<times> FdState) option" where
  "getFileDescriptor proc fd s = do {
     (_, cur) \<leftarrow> fd_seek fd (descs s) 0 (files s proc);
     Some (if cur \<noteq> 0 \<and> d_id (descs s cur) = fd then (cur, vfsFileDescriptorCopy cur s) else (0, s)) }"

definition remove_at :: "u64 \<Rightarrow> u64 \<Rightarrow> u64 \<Rightarrow> FdState \<Rightarrow> FdState" where
  "remove_at proc prev cur s = vfsFileDescriptorClose cur (set_place proc prev (d_next (descs s cur)) s)"

definition closeFileDescriptor :: "u64 \<Rightarrow> int \<Rightarrow> FdState \<Rightarrow> FdState option" where
  "closeFileDescriptor proc fd s = do {
     (prev, cur) \<leftarrow> fd_seek fd (descs s) 0 (files s proc);
     Some (if cur \<noteq> 0 \<and> d_id (descs s cur) = fd then remove_at proc prev cur s else s) }"

text \<open>The end of \<open>putNewFileDescriptor\<close>: the new descriptor goes in at the place found.\<close>

definition fd_insert :: "u64 \<Rightarrow> u64 \<Rightarrow> u64 \<Rightarrow> int \<Rightarrow> u64 \<Rightarrow> u64 \<Rightarrow> FdState \<Rightarrow> (int \<times> FdState) option" where
  "fd_insert proc prev cur fd flags f s = do {
     cassert (cur = 0 \<or> d_id (descs s cur) > fd);
     case fresh s of
       [] \<Rightarrow> None
     | a # as \<Rightarrow> Some (fd, set_place proc prev a
         (s\<lparr>fresh := as, descs := (descs s)(a := \<lparr>d_next = cur, d_file = f, d_id = fd, d_flags = flags, d_ref_count = 1\<rparr>)\<rparr>)) }"

definition putNewFileDescriptor :: "u64 \<Rightarrow> int \<Rightarrow> u64 \<Rightarrow> u64 \<Rightarrow> bool \<Rightarrow> FdState \<Rightarrow> (int \<times> FdState) option" where
  "putNewFileDescriptor proc fd flags f replace s =
     (let s = vfsFileCopy f s in
      if fd < 0 then do {
        (prev, cur, fd) \<leftarrow> fd_gap 0 (descs s) 0 (files s proc);
        fd_insert proc prev cur fd flags f s }
      else do {
        s \<leftarrow> closeFileDescriptor proc fd s;
        (prev, cur) \<leftarrow> fd_seek fd (descs s) 0 (files s proc);
        if cur \<noteq> 0 \<and> d_id (descs s cur) = fd then
          (if replace then
             (let nxt = d_next (descs s cur) in fd_insert proc prev nxt fd flags f (remove_at proc prev cur s))
           else do {
             (prev, cur, fd) \<leftarrow> fd_gap fd (descs s) prev cur;
             fd_insert proc prev cur fd flags f s })
        else fd_insert proc prev cur fd flags f s })"

partial_function (option) close_all_loop :: "u64 \<Rightarrow> FdState \<Rightarrow> FdState option" where
  "close_all_loop cur s =
     (if cur \<noteq> 0 then (let nxt = d_next (descs s cur) in close_all_loop nxt (vfsFileDescriptorClose cur s)) else Some s)"

definition closeAllProcessFiles :: "u64 \<Rightarrow> FdState \<Rightarrow> FdState option" where
  "closeAllProcessFiles proc s = do {
     s \<leftarrow> close_all_loop (files s proc) s;
     Some (s\<lparr>files := (files s)(proc := 0)\<rparr>) }"

partial_function (option) close_exec_loop :: "u64 \<Rightarrow> u64 \<Rightarrow> u64 \<Rightarrow> FdState \<Rightarrow> FdState option" where
  "close_exec_loop proc prev cur s =
     (if cur \<noteq> 0 then
        (if d_flags (descs s cur) AND VFS_DESC_CLOEXEC \<noteq> 0 then
           (let nxt = d_next (descs s cur) in close_exec_loop proc prev nxt (remove_at proc prev cur s))
         else close_exec_loop proc cur (d_next (descs s cur)) s)
      else Some s)"

definition closeExecProcessFiles :: "u64 \<Rightarrow> FdState \<Rightarrow> FdState option" where
  "closeExecProcessFiles proc s = close_exec_loop proc 0 (files s proc) s"

partial_function (option) fork_loop :: "u64 \<Rightarrow> u64 \<Rightarrow> FdState \<Rightarrow> FdState option" where
  "fork_loop new_proc cur s =
     (if cur \<noteq> 0 then do {
        (_, s) \<leftarrow> putNewFileDescriptor new_proc (d_id (descs s cur)) (d_flags (descs s cur)) (d_file (descs s cur)) False s;
        fork_loop new_proc (d_next (descs s cur)) s }
      else Some s)"

definition forkFileDescriptors :: "u64 \<Rightarrow> u64 \<Rightarrow> FdState \<Rightarrow> FdState option" where
  "forkFileDescriptors new_proc old_proc s = fork_loop new_proc (files s old_proc) s"

subsection \<open>Places in a list\<close>

lemma linked_place_insert:
  assumes "linked nxt h (as @ bs)" "a \<notin> set (as @ bs)" "a \<noteq> 0" "prev = (if as = [] then 0 else last as)" "c = (if bs = [] then 0 else hd bs)"
  shows "linked (if prev = 0 then nxt(a := c) else nxt(a := c, prev := a)) (if prev = 0 then a else h) (as @ a # bs)"
proof (cases as rule: rev_cases)
  case Nil
  then have "h = c" using assms(1,5) by (cases bs) auto
  then show ?thesis using Nil assms by simp
next
  case (snoc as' p)
  then have "nxt p = c" "p \<noteq> 0" using assms(1,5) by (cases bs; auto)+
  then show ?thesis using linked_insert_after [of nxt h as' p bs a] assms snoc by simp
qed

lemma linked_place_remove:
  assumes "linked nxt h (as @ x # bs)" "prev = (if as = [] then 0 else last as)"
  shows "linked (if prev = 0 then nxt else nxt(prev := nxt x)) (if prev = 0 then nxt x else h) (as @ bs)"
proof (cases as rule: rev_cases)
  case (snoc as' p)
  then have "p \<noteq> 0" using assms(1) by auto
  then show ?thesis using linked_remove_after [of nxt h as' p x bs] assms snoc by simp
qed (use assms in auto)

subsection \<open>The table as a map\<close>

definition nxt :: "FdState \<Rightarrow> u64 \<Rightarrow> u64" where
  "nxt s d = d_next (descs s d)"

definition content :: "FdState \<Rightarrow> u64 \<Rightarrow> int \<times> u64 \<times> u64" where
  "content s d = (d_id (descs s d), d_file (descs s d), d_flags (descs s d))"

abbreviation fd_of :: "FdState \<Rightarrow> u64 \<Rightarrow> int" where
  "fd_of s d \<equiv> fst (content s d)"

definition fd_list :: "FdState \<Rightarrow> u64 \<Rightarrow> u64 list \<Rightarrow> bool" where
  "fd_list s proc xs \<longleftrightarrow> linked (nxt s) (files s proc) xs \<and> sorted_wrt (<) (map (fd_of s) xs) \<and> (\<forall>d \<in> set xs. 0 \<le> fd_of s d)
     \<and> distinct (fresh s) \<and> 0 \<notin> set (fresh s) \<and> set (fresh s) \<inter> set xs = {}"

definition fd_map :: "FdState \<Rightarrow> u64 list \<Rightarrow> int \<rightharpoonup> u64 \<times> u64" where
  "fd_map s xs = map_of (map (content s) xs)"

lemma fd_of_eq: "fd_of s d = d_id (descs s d)"
  by (simp add: content_def)

lemma close_desc_frame [simp]:
  "nxt (vfsFileDescriptorClose d s) = nxt s" "content (vfsFileDescriptorClose d s) = content s"
  "files (vfsFileDescriptorClose d s) = files s" "fresh (vfsFileDescriptorClose d s) = fresh s"
  by (auto simp: vfsFileDescriptorClose_def vfsFileClose_def set_d_ref_def nxt_def content_def fun_eq_iff Let_def)

lemma copy_file_frame [simp]:
  "nxt (vfsFileCopy f s) = nxt s" "content (vfsFileCopy f s) = content s" "files (vfsFileCopy f s) = files s"
  "fresh (vfsFileCopy f s) = fresh s" "descs (vfsFileCopy f s) = descs s"
  by (auto simp: vfsFileCopy_def nxt_def content_def fun_eq_iff)

lemma set_place_frame [simp]:
  "nxt (set_place proc prev v s) = (if prev = 0 then nxt s else (nxt s)(prev := v))"
  "files (set_place proc prev v s) = (if prev = 0 then (files s)(proc := v) else files s)"
  "content (set_place proc prev v s) = content s" "fresh (set_place proc prev v s) = fresh s"
  by (auto simp: set_place_def nxt_def content_def fun_eq_iff)

abbreviation place :: "u64 list \<Rightarrow> u64" where
  "place as \<equiv> (if as = [] then 0 else last as)"

abbreviation head_of :: "u64 list \<Rightarrow> u64" where
  "head_of bs \<equiv> (if bs = [] then 0 else hd bs)"

lemma linked_head: "linked n h xs \<Longrightarrow> h = head_of xs"
  by (cases xs) auto

lemma fd_seek_run:
  assumes "linked (nxt s) cur bs" "prev = place as"
  shows "\<exists>cs es. bs = cs @ es \<and> fd_seek fd (descs s) prev cur = Some (place (as @ cs), head_of es)
    \<and> (\<forall>d \<in> set cs. fd_of s d < fd) \<and> (es \<noteq> [] \<longrightarrow> fd \<le> fd_of s (hd es))"
  using assms
proof (induction bs arbitrary: as prev cur)
  case Nil
  then show ?case by (simp add: fd_seek.simps)
next
  case (Cons x bs)
  then have x: "cur = x" "x \<noteq> 0" "linked (nxt s) (nxt s x) bs" by auto
  show ?case
  proof (cases "fd_of s x < fd")
    case True
    obtain cs es where "bs = cs @ es" "fd_seek fd (descs s) x (nxt s x) = Some (place ((as @ [x]) @ cs), head_of es)"
      "\<forall>d \<in> set cs. fd_of s d < fd" "es \<noteq> [] \<longrightarrow> fd \<le> fd_of s (hd es)"
      using Cons.IH [OF x(3), of x "as @ [x]"] by auto
    then show ?thesis using True x
      by (intro exI [of _ "x # cs", OF exI [of _ es]]) (simp add: fd_seek.simps [of _ _ _ x] fd_of_eq nxt_def)
  next
    case False
    then show ?thesis using x Cons.prems(2)
      by (intro exI [of _ "[]", OF exI [of _ "x # bs"]]) (simp add: fd_seek.simps [of _ _ _ x] fd_of_eq)
  qed
qed

lemma fd_gap_run:
  assumes "linked (nxt s) cur bs" "prev = place as"
  shows "\<exists>cs es. bs = cs @ es \<and> fd_gap fd (descs s) prev cur = Some (place (as @ cs), head_of es, fd + int (length cs))
    \<and> map (fd_of s) cs = map (\<lambda>i. fd + int i) [0..<length cs] \<and> (es \<noteq> [] \<longrightarrow> fd_of s (hd es) \<noteq> fd + int (length cs))"
  using assms
proof (induction bs arbitrary: as prev cur fd)
  case Nil
  then show ?case by (simp add: fd_gap.simps)
next
  case (Cons x bs)
  then have x: "cur = x" "x \<noteq> 0" "linked (nxt s) (nxt s x) bs" by auto
  show ?case
  proof (cases "fd_of s x = fd")
    case True
    obtain cs es where c: "bs = cs @ es" "fd_gap (fd + 1) (descs s) x (nxt s x) = Some (place ((as @ [x]) @ cs), head_of es, fd + 1 + int (length cs))"
      "map (fd_of s) cs = map (\<lambda>i. fd + 1 + int i) [0..<length cs]" "es \<noteq> [] \<longrightarrow> fd_of s (hd es) \<noteq> fd + 1 + int (length cs)"
      using Cons.IH [OF x(3), of x "as @ [x]" "fd + 1"] by auto
    have "[0..<length (x # cs)] = 0 # map Suc [0..<length cs]" using map_Suc_upt [of 0 "length cs"] upt_conv_Cons [of 0 "Suc (length cs)"] by simp
    then show ?thesis using True x c
      by (intro exI [of _ "x # cs", OF exI [of _ es]]) (simp add: fd_gap.simps [of _ _ _ x] fd_of_eq nxt_def o_def algebra_simps del: upt.simps)
  next
    case False
    then show ?thesis using x Cons.prems(2)
      by (intro exI [of _ "[]", OF exI [of _ "x # bs"]]) (simp add: fd_gap.simps [of _ _ _ x] fd_of_eq)
  qed
qed

lemma fd_list_head: "fd_list s proc xs \<Longrightarrow> linked (nxt s) (files s proc) xs"
  by (simp add: fd_list_def)

lemma sorted_above: "sorted_wrt (<) (map f (as @ e # es)) \<Longrightarrow> (n :: int) < f e \<Longrightarrow> \<forall>d \<in> set (e # es). n < f d"
  by (auto simp: sorted_wrt_append)

text \<open>Removing a descriptor.\<close>

lemma remove_at_list:
  assumes "fd_list s proc (as @ x # bs)"
  shows "fd_list (remove_at proc (place as) x s) proc (as @ bs)" "content (remove_at proc (place as) x s) = content s"
    "fd_map (remove_at proc (place as) x s) (as @ bs) = (fd_map s (as @ x # bs))(fd_of s x := None)"
    "fresh (remove_at proc (place as) x s) = fresh s"
proof -
  let ?s = "remove_at proc (place as) x s"
  have l: "linked (nxt s) (files s proc) (as @ x # bs)" and st: "sorted_wrt (<) (map (fd_of s) (as @ x # bs))"
    using assms by (auto simp: fd_list_def)
  show c: "content ?s = content s" and fr: "fresh ?s = fresh s" by (simp_all add: remove_at_def)
  have "as \<noteq> [] \<Longrightarrow> last as \<noteq> 0" using lseg_nonnull [OF l] by (metis Un_iff last_in_set set_append)
  then have "linked (nxt ?s) (files ?s proc) (as @ bs)"
    using linked_place_remove [OF l refl] by (auto simp: remove_at_def nxt_def split: if_splits)
  then show "fd_list ?s proc (as @ bs)" using assms c fr by (auto simp: fd_list_def sorted_wrt_append)
  have "fd_of s x \<notin> fd_of s ` set as" "fd_of s x \<notin> fd_of s ` set bs" using st by (auto simp: sorted_wrt_append)
  then have "map_of (map (content s) as) (fd_of s x) = None" "map_of (map (content s) bs) (fd_of s x) = None"
    by (auto simp: map_of_eq_None_iff image_image)
  then show "fd_map ?s (as @ bs) = (fd_map s (as @ x # bs))(fd_of s x := None)"
    unfolding fd_map_def c by (cases "content s x") (auto simp: fun_eq_iff map_add_def split: option.split)
qed

lemma closeFileDescriptor_list:
  assumes "fd_list s proc xs"
  shows "\<exists>s' xs'. closeFileDescriptor proc fd s = Some s' \<and> fd_list s' proc xs' \<and> fd_map s' xs' = (fd_map s xs)(fd := None) \<and> fresh s' = fresh s
    \<and> set xs' \<subseteq> set xs \<and> content s' = content s \<and> fd \<notin> fd_of s' ` set xs'"
proof -
  obtain cs es where sk: "xs = cs @ es" "fd_seek fd (descs s) 0 (files s proc) = Some (place cs, head_of es)"
    "\<forall>d \<in> set cs. fd_of s d < fd" "es \<noteq> [] \<longrightarrow> fd \<le> fd_of s (hd es)"
    using fd_seek_run [OF fd_list_head [OF assms], of 0 "[]" fd] unfolding append_Nil by auto
  have nn: "0 \<notin> set xs" using lseg_nonnull [OF fd_list_head [OF assms]] .
  have st: "sorted_wrt (<) (map (fd_of s) (cs @ es))" using assms sk(1) by (simp add: fd_list_def)
  show ?thesis
  proof (cases "es \<noteq> [] \<and> fd_of s (hd es) = fd")
    case True
    then obtain e fs where e: "es = e # fs" "fd_of s e = fd" by (cases es) auto
    have "closeFileDescriptor proc fd s = Some (remove_at proc (place cs) e s)"
      using sk e nn by (auto simp: closeFileDescriptor_def fd_of_eq)
    moreover have "fd \<notin> fd_of s ` set (cs @ fs)" using st e by (auto simp: sorted_wrt_append)
    ultimately show ?thesis using remove_at_list [of s proc cs e fs] assms sk(1) e by (intro exI [of _ "remove_at proc (place cs) e s"] exI [of _ "cs @ fs"]) auto
  next
    case False
    have "fd \<notin> fd_of s ` set es"
    proof (cases es)
      case (Cons e fs)
      then have "fd < fd_of s e" using False sk(4) by simp
      then show ?thesis using sorted_above st Cons by fastforce
    qed simp
    then have n: "fd \<notin> fd_of s ` set xs" using sk(1,3) by auto
    then have "fd_map s xs fd = None" by (auto simp: fd_map_def map_of_eq_None_iff image_image)
    then have "fd_map s xs = (fd_map s xs)(fd := None)" by auto
    moreover have "closeFileDescriptor proc fd s = Some s" using sk(2) False nn sk(1) by (auto simp: closeFileDescriptor_def fd_of_eq)
    ultimately show ?thesis using assms n by auto
  qed
qed

text \<open>Inserting a descriptor.\<close>

lemma map_of_insert: "map_of A k = None \<Longrightarrow> map_of (A @ (k, v) # B) = (map_of (A @ B))(k \<mapsto> v)"
  by (auto simp: fun_eq_iff map_add_def split: option.split)

lemma fd_insert_list:
  assumes ok: "fd_list s proc (as @ bs)" and fr: "fresh s = a # rest" and fd: "0 \<le> fd"
    and below: "\<forall>d \<in> set as. fd_of s d < fd" and above: "\<forall>d \<in> set bs. fd < fd_of s d"
  shows "\<exists>s'. fd_insert proc (place as) (head_of bs) fd flags f s = Some (fd, s') \<and> fd_list s' proc (as @ a # bs)
    \<and> fd_map s' (as @ a # bs) = (fd_map s (as @ bs))(fd \<mapsto> (f, flags))"
proof -
  let ?s1 = "s\<lparr>fresh := rest, descs := (descs s)(a := \<lparr>d_next = head_of bs, d_file = f, d_id = fd, d_flags = flags, d_ref_count = 1\<rparr>)\<rparr>"
  let ?s = "set_place proc (place as) a ?s1"
  have l: "linked (nxt s) (files s proc) (as @ bs)" and a: "a \<notin> set (as @ bs)" "a \<noteq> 0" "a \<notin> set rest" "distinct rest" "0 \<notin> set rest" "set rest \<inter> set (as @ bs) = {}"
    using ok fr by (auto simp: fd_list_def)
  have nn: "0 \<notin> set (as @ bs)" using lseg_nonnull [OF l] .
  have "cassert (head_of bs = 0 \<or> d_id (descs s (head_of bs)) > fd) = Some ()"
    using above by (auto simp: fd_of_eq)
  then have e: "fd_insert proc (place as) (head_of bs) fd flags f s = Some (fd, ?s)" by (simp add: fd_insert_def fr)
  have n1: "nxt ?s1 = (nxt s)(a := head_of bs)" "content ?s1 = (content s)(a := (fd, f, flags))" by (auto simp: nxt_def content_def fun_eq_iff)
  have "as \<noteq> [] \<Longrightarrow> last as \<noteq> 0" using nn by (metis Un_iff last_in_set set_append)
  then have ln: "linked (nxt ?s) (files ?s proc) (as @ a # bs)"
    using linked_place_insert [OF l a(1,2) refl refl] n1 by (auto split: if_splits)
  have c: "content ?s = (content s)(a := (fd, f, flags))" using n1 by simp
  have m: "map ((content s)(a := x)) as = map (content s) as" "map ((content s)(a := x)) bs = map (content s) bs" for x using a(1) by auto
  have ids: "map (fd_of ?s) (as @ a # bs) = map (fd_of s) as @ fd # map (fd_of s) bs" using c a(1) by auto
  have "sorted_wrt (<) (map (fd_of ?s) (as @ a # bs))"
    unfolding ids using ok below above by (auto simp: fd_list_def sorted_wrt_append)
  moreover have "\<forall>d \<in> set (as @ a # bs). 0 \<le> fd_of ?s d" using ok fd c by (auto simp: fd_list_def)
  ultimately have "fd_list ?s proc (as @ a # bs)" using ln a by (auto simp: fd_list_def)
  moreover have "map_of (map (content s) as) fd = None" using below by (auto simp: map_of_eq_None_iff image_image)
  then have "fd_map ?s (as @ a # bs) = (fd_map s (as @ bs))(fd \<mapsto> (f, flags))"
    unfolding fd_map_def map_append list.map(2) c m using map_of_insert [of "map (content s) as" fd] by simp
  ultimately show ?thesis using e by blast
qed

lemma fd_map_dom: "dom (fd_map s xs) = fd_of s ` set xs"
  by (simp add: fd_map_def dom_map_of_conv_image_fst image_image)

lemma fd_list_copy: "fd_list (vfsFileCopy f s) proc xs = fd_list s proc xs" "fd_map (vfsFileCopy f s) xs = fd_map s xs"
  by (simp_all add: fd_list_def fd_map_def)

lemma putNew_lowest:
  assumes ok: "fd_list s proc xs" and fr: "fresh s \<noteq> []"
  shows "\<exists>n prev cur s' xs'. fd_gap 0 (descs s) 0 (files s proc) = Some (prev, cur, n) \<and> fd_insert proc prev cur n flags f s = Some (n, s')
    \<and> fd_list s' proc xs' \<and> fd_map s' xs' = (fd_map s xs)(n \<mapsto> (f, flags)) \<and> 0 \<le> n \<and> n \<notin> dom (fd_map s xs) \<and> {0..<n} \<subseteq> dom (fd_map s xs)"
proof -
  obtain a rest where a: "fresh s = a # rest" using fr by (cases "fresh s") auto
  obtain cs es where g: "xs = cs @ es" "fd_gap 0 (descs s) 0 (files s proc) = Some (place cs, head_of es, int (length cs))"
    "map (fd_of s) cs = map int [0..<length cs]" "es \<noteq> [] \<longrightarrow> fd_of s (hd es) \<noteq> int (length cs)"
    using fd_gap_run [OF fd_list_head [OF ok], of 0 "[]" 0] unfolding append_Nil by auto
  let ?n = "int (length cs)"
  have st: "sorted_wrt (<) (map (fd_of s) (cs @ es))" using ok g(1) by (simp add: fd_list_def)
  have cs: "fd_of s ` set cs = {0..<?n}"
    using arg_cong [OF g(3), of set] by (simp add: image_int_atLeastLessThan del: set_upt) (simp add: atLeastLessThan_upt [symmetric] image_int_atLeastLessThan)
  have above: "\<forall>d \<in> set es. ?n < fd_of s d"
  proof (cases es)
    case (Cons e fs)
    have "?n - 1 < fd_of s e"
    proof (cases cs rule: rev_cases)
      case Nil
      then show ?thesis using ok g(1) Cons by (simp add: fd_list_def)
    next
      case (snoc cs' c)
      then have "fd_of s c = ?n - 1" using arg_cong [OF g(3), of last] by simp
      then show ?thesis using st snoc Cons by (auto simp: sorted_wrt_append)
    qed
    then have "?n < fd_of s e" using g(4) Cons by simp
    then show ?thesis using sorted_above [of "fd_of s" cs e fs ?n] st Cons by simp
  qed simp
  have below: "\<forall>d \<in> set cs. fd_of s d < ?n" using cs by (metis atLeastLessThan_iff imageI)
  obtain s' where "fd_insert proc (place cs) (head_of es) ?n flags f s = Some (?n, s')" "fd_list s' proc (cs @ a # es)"
    "fd_map s' (cs @ a # es) = (fd_map s xs)(?n \<mapsto> (f, flags))"
    using fd_insert_list [OF _ a _ below above, of proc flags f] ok g(1) by auto
  moreover have "?n \<notin> fd_of s ` set xs" using cs above g(1) by auto
  ultimately show ?thesis using g(2) cs g(1) unfolding fd_map_dom by fastforce
qed

lemma putNew_at:
  assumes ok: "fd_list s proc xs" and fr: "fresh s \<noteq> []" and fd: "0 \<le> fd" "fd \<notin> fd_of s ` set xs"
  shows "\<exists>prev cur s' xs'. fd_seek fd (descs s) 0 (files s proc) = Some (prev, cur) \<and> \<not> (cur \<noteq> 0 \<and> d_id (descs s cur) = fd)
    \<and> fd_insert proc prev cur fd flags f s = Some (fd, s') \<and> fd_list s' proc xs' \<and> fd_map s' xs' = (fd_map s xs)(fd \<mapsto> (f, flags))"
proof -
  obtain a rest where a: "fresh s = a # rest" using fr by (cases "fresh s") auto
  obtain cs es where sk: "xs = cs @ es" "fd_seek fd (descs s) 0 (files s proc) = Some (place cs, head_of es)"
    "\<forall>d \<in> set cs. fd_of s d < fd" "es \<noteq> [] \<longrightarrow> fd \<le> fd_of s (hd es)"
    using fd_seek_run [OF fd_list_head [OF ok], of 0 "[]" fd] unfolding append_Nil by auto
  have st: "sorted_wrt (<) (map (fd_of s) (cs @ es))" using ok sk(1) by (simp add: fd_list_def)
  have above: "\<forall>d \<in> set es. fd < fd_of s d"
  proof (cases es)
    case (Cons e fs)
    then have "fd_of s e \<noteq> fd" using fd(2) sk(1) by auto
    then have "fd < fd_of s e" using sk(4) Cons by simp
    then show ?thesis using sorted_above [of "fd_of s" cs e fs fd] st Cons by simp
  qed simp
  then have "\<not> (head_of es \<noteq> 0 \<and> d_id (descs s (head_of es)) = fd)" by (auto simp: fd_of_eq)
  then show ?thesis using fd_insert_list [OF _ a fd(1) sk(3) above, of proc flags f] ok sk(1,2) by blast
qed

text \<open>
  Property C18 (putNewFileDescriptor_correct). A new descriptor changes the table of the process in exactly one entry: for
  a negative number it is stored under the lowest number that is not in use, otherwise under
  the number asked for, replacing what was there even when \<open>replace\<close> is false. The list stays
  sorted without duplicates and \<open>closeFileDescriptor\<close> removes exactly its entry.
\<close>

theorem putNewFileDescriptor_correct:
  assumes "fd_list s proc xs" "fresh s \<noteq> []"
  shows "\<exists>n s' xs'. putNewFileDescriptor proc fd flags f replace s = Some (n, s') \<and> fd_list s' proc xs'
      \<and> fd_map s' xs' = (fd_map s xs)(n \<mapsto> (f, flags))
      \<and> (if fd < 0 then n \<notin> dom (fd_map s xs) \<and> {0..<n} \<subseteq> dom (fd_map s xs) else n = fd)
      \<and> (\<exists>s'' xs''. closeFileDescriptor proc n s' = Some s'' \<and> fd_list s'' proc xs'' \<and> fd_map s'' xs'' = (fd_map s xs)(n := None))"
proof -
  let ?s = "vfsFileCopy f s"
  have ok: "fd_list ?s proc xs" "fresh ?s \<noteq> []" "fd_map ?s xs = fd_map s xs" using assms fd_list_copy by auto
  have "\<exists>n s' xs'. putNewFileDescriptor proc fd flags f replace s = Some (n, s') \<and> fd_list s' proc xs' \<and> fd_map s' xs' = (fd_map s xs)(n \<mapsto> (f, flags))
      \<and> (if fd < 0 then n \<notin> dom (fd_map s xs) \<and> {0..<n} \<subseteq> dom (fd_map s xs) else n = fd)"
  proof (cases "fd < 0")
    case True
    obtain n prev cur s' xs' where "fd_gap 0 (descs ?s) 0 (files ?s proc) = Some (prev, cur, n)" "fd_insert proc prev cur n flags f ?s = Some (n, s')"
      "fd_list s' proc xs'" "fd_map s' xs' = (fd_map s xs)(n \<mapsto> (f, flags))" "n \<notin> dom (fd_map s xs)" "{0..<n} \<subseteq> dom (fd_map s xs)"
      using putNew_lowest [OF ok(1,2), of flags f] unfolding ok(3) by blast
    then have "putNewFileDescriptor proc fd flags f replace s = Some (n, s')" using True by (simp add: putNewFileDescriptor_def)
    then show ?thesis using True \<open>fd_list s' proc xs'\<close> \<open>fd_map s' xs' = _\<close> \<open>n \<notin> _\<close> \<open>_ \<subseteq> _\<close> by auto
  next
    case False
    obtain s1 xs1 where c: "closeFileDescriptor proc fd ?s = Some s1" "fd_list s1 proc xs1" "fd_map s1 xs1 = (fd_map s xs)(fd := None)" "fresh s1 = fresh ?s" "fd \<notin> fd_of s1 ` set xs1"
      using closeFileDescriptor_list [OF ok(1), of fd] ok(3) by auto
    obtain prev cur s' xs' where p: "fd_seek fd (descs s1) 0 (files s1 proc) = Some (prev, cur)" "\<not> (cur \<noteq> 0 \<and> d_id (descs s1 cur) = fd)"
      "fd_insert proc prev cur fd flags f s1 = Some (fd, s')" "fd_list s' proc xs'" "fd_map s' xs' = (fd_map s1 xs1)(fd \<mapsto> (f, flags))"
      using putNew_at [OF c(2) _ _ c(5), of flags f] ok(2) c(4) False by auto
    have "putNewFileDescriptor proc fd flags f replace s = Some (fd, s')"
      using False c(1) p(1,3) unfolding putNewFileDescriptor_def Let_def by (simp add: if_not_P [OF p(2)])
    then show ?thesis using False p(4,5) c(3) by auto
  qed
  then obtain n s' xs' where r: "putNewFileDescriptor proc fd flags f replace s = Some (n, s')" "fd_list s' proc xs'" "fd_map s' xs' = (fd_map s xs)(n \<mapsto> (f, flags))"
    "if fd < 0 then n \<notin> dom (fd_map s xs) \<and> {0..<n} \<subseteq> dom (fd_map s xs) else n = fd" by blast
  obtain s'' xs'' where "closeFileDescriptor proc n s' = Some s''" "fd_list s'' proc xs''" "fd_map s'' xs'' = (fd_map s xs)(n := None)"
    using closeFileDescriptor_list [OF r(2), of n] r(3) by auto
  then show ?thesis using r by blast
qed

definition example_fds :: FdState where
  "example_fds = \<lparr>files = (\<lambda>_. 0)(1 := 16), descs = (\<lambda>_. \<lparr>d_next = 0, d_file = 7, d_id = 0, d_flags = 0, d_ref_count = 1\<rparr>),
     file_refs = (\<lambda>_. 1), closed = [], fresh = [32, 48]\<rparr>"

theorem putNewFileDescriptor_correct_witness:
  "fd_list example_fds 1 [16] \<and> fresh example_fds \<noteq> []
   \<and> (\<exists>n s' xs'. putNewFileDescriptor 1 (- 1) 0 9 False example_fds = Some (n, s') \<and> fd_map s' xs' = (fd_map example_fds [16])(n \<mapsto> (9, 0)) \<and> n \<noteq> 0)"
proof -
  have h: "fd_list example_fds 1 [16]" "fresh example_fds \<noteq> []"
    by (simp_all add: fd_list_def example_fds_def nxt_def content_def)
  have "0 \<in> dom (fd_map example_fds [16])" by (simp add: fd_map_def content_def example_fds_def)
  then show ?thesis using putNewFileDescriptor_correct [OF h, of "- 1" 0 9 False] h by fastforce
qed

end
