(* ===== verification/VfsTypes.thy ===== *)
theory VfsTypes
  imports VirtPtr Util
begin

text \<open>
  The data of the virtual file system: kernel/src/files/vfs/types.h, the error codes of
  kernel/src/error/error.h that the file system uses, and the permission check at the end of
  kernel/src/files/vfs/fs.c.

  Nodes, files and superblocks live in heaps indexed by their addresses. What a concrete
  file system does is reached through tables of function pointers; the tables are parameters of
  the operations, functions on the state that may also change the part of the state that the
  virtual file system does not know (the \<open>more\<close> part of the record). \<open>clock\<close> gives the readings of
  \<open>getNanosecondsWithFallback\<close> in order. Locks are omitted.
\<close>

unbundle bit_operations_syntax

subsection \<open>Errors\<close>

text \<open>
  An operation that returns an \<open>Error\<close> has a sum as its result: \<open>Inl\<close> an error, \<open>Inr\<close> the success
  with the values of the output parameters. \<open>OtherError\<close> stands for the remaining codes.
\<close>

datatype Error = EPERM | ENOENT | ESRCH | EINTR | EIO | ENXIO | E2BIG | ENOEXEC | EBADF | ECHILD | EAGAIN | ENOMEM | EACCES | EFAULT
  | ENOTBLK | EBUSY | EEXIST | EXDEV | ENODEV | ENOTDIR | EISDIR | EINVAL | ENFILE | EMFILE | ENOTTY | ETXTBSY | EFBIG | ENOSPC
  | OtherError nat

subsection \<open>Constants\<close>

definition VFS_TYPE_FIFO :: u16 where "VFS_TYPE_FIFO = 1"
definition VFS_TYPE_CHAR :: u16 where "VFS_TYPE_CHAR = 2"
definition VFS_TYPE_DIR :: u16 where "VFS_TYPE_DIR = 4"
definition VFS_TYPE_BLOCK :: u16 where "VFS_TYPE_BLOCK = 6"
definition VFS_TYPE_REG :: u16 where "VFS_TYPE_REG = 8"

definition VFS_OPEN_READ :: u64 where "VFS_OPEN_READ = 0x0001"
definition VFS_OPEN_WRITE :: u64 where "VFS_OPEN_WRITE = 0x0002"
definition VFS_OPEN_APPEND :: u64 where "VFS_OPEN_APPEND = 0x0008"
definition VFS_OPEN_CREAT :: u64 where "VFS_OPEN_CREAT = 0x0200"
definition VFS_OPEN_TRUNC :: u64 where "VFS_OPEN_TRUNC = 0x0400"
definition VFS_OPEN_EXCL :: u64 where "VFS_OPEN_EXCL = 0x0800"

definition OPEN_ACCESS :: "u64 \<Rightarrow> u64" where
  "OPEN_ACCESS open_flags = (open_flags AND 3) OR push_bit 2 (drop_bit 20 open_flags AND 7)"

definition VFS_ACCESS_R :: u64 where "VFS_ACCESS_R = 1"
definition VFS_ACCESS_W :: u64 where "VFS_ACCESS_W = 2"
definition VFS_ACCESS_X :: u64 where "VFS_ACCESS_X = 4"
definition VFS_ACCESS_DIR :: u64 where "VFS_ACCESS_DIR = 8"
definition VFS_ACCESS_REG :: u64 where "VFS_ACCESS_REG = 16"
definition VFS_ACCESS_CHMOD :: u64 where "VFS_ACCESS_CHMOD = 32"
definition VFS_ACCESS_CHOWN :: u64 where "VFS_ACCESS_CHOWN = 64"

definition VFS_MODE_A_X :: u16 where "VFS_MODE_A_X = 1"
definition VFS_MODE_A_W :: u16 where "VFS_MODE_A_W = 2"
definition VFS_MODE_A_R :: u16 where "VFS_MODE_A_R = 4"
definition VFS_MODE_G_X :: u16 where "VFS_MODE_G_X = 8"
definition VFS_MODE_G_W :: u16 where "VFS_MODE_G_W = 16"
definition VFS_MODE_G_R :: u16 where "VFS_MODE_G_R = 32"
definition VFS_MODE_O_X :: u16 where "VFS_MODE_O_X = 64"
definition VFS_MODE_O_W :: u16 where "VFS_MODE_O_W = 128"
definition VFS_MODE_O_R :: u16 where "VFS_MODE_O_R = 256"
definition VFS_MODE_STICKY :: u16 where "VFS_MODE_STICKY = 512"
definition VFS_MODE_TYPE :: u16 where "VFS_MODE_TYPE = 0xf000"

definition VFS_FILE_NONBLOCK :: u64 where "VFS_FILE_NONBLOCK = 0x4000"

definition MODE_TYPE :: "u16 \<Rightarrow> u16" where
  "MODE_TYPE mode = drop_bit 12 mode"

definition TYPE_MODE :: "u16 \<Rightarrow> u16" where
  "TYPE_MODE type = push_bit 12 type"

datatype VfsSeekWhence = VFS_SEEK_SET | VFS_SEEK_CUR | VFS_SEEK_END | VFS_SEEK_OTHER

subsection \<open>State\<close>

record VfsStat =
  st_dev :: u64
  st_id :: u64
  st_mode :: u16
  st_nlinks :: u64
  st_uid :: int
  st_gid :: int
  st_rdev :: u64
  st_size :: u64
  st_block_size :: u64
  st_blocks :: u64
  st_atime :: u64
  st_mtime :: u64
  st_ctime :: u64

record VfsNode =
  n_functions :: u64
  n_super :: u64
  n_stat :: VfsStat
  n_ref_count :: u64
  n_mounted :: u64
  n_real_node :: u64
  n_dirty :: bool

record VfsNodeCache =
  nc_nodes :: "u64 list"
  nc_count :: nat
  nc_capacity :: nat

record VfsSuperblock =
  sb_root_node :: u64
  sb_id :: u64
  sb_ref_count :: u64
  sb_nodes :: VfsNodeCache

record VfsFile =
  vf_node :: u64
  vf_path :: "u8 list option"
  vf_ref_count :: u64
  vf_offset :: u64
  vf_flags :: u64

record Vfs =
  vnodes :: "u64 \<Rightarrow> VfsNode"
  vsupers :: "u64 \<Rightarrow> VfsSuperblock"
  vfiles :: "u64 \<Rightarrow> VfsFile"
  clock :: "nat \<Rightarrow> u64"
  ticks :: nat

record ProcessUser =
  euid :: int
  egid :: int

definition getNanosecondsWithFallback :: "'a Vfs_scheme \<Rightarrow> u64 \<times> 'a Vfs_scheme" where
  "getNanosecondsWithFallback s = (clock s (ticks s), s\<lparr>ticks := ticks s + 1\<rparr>)"

definition upd_node :: "u64 \<Rightarrow> (VfsNode \<Rightarrow> VfsNode) \<Rightarrow> 'a Vfs_scheme \<Rightarrow> 'a Vfs_scheme" where
  "upd_node n f s = s\<lparr>vnodes := (vnodes s)(n := f (vnodes s n))\<rparr>"

definition upd_stat :: "u64 \<Rightarrow> (VfsStat \<Rightarrow> VfsStat) \<Rightarrow> 'a Vfs_scheme \<Rightarrow> 'a Vfs_scheme" where
  "upd_stat n f s = upd_node n (\<lambda>v. v\<lparr>n_stat := f (n_stat v)\<rparr>) s"

definition upd_file :: "u64 \<Rightarrow> (VfsFile \<Rightarrow> VfsFile) \<Rightarrow> 'a Vfs_scheme \<Rightarrow> 'a Vfs_scheme" where
  "upd_file f g s = s\<lparr>vfiles := (vfiles s)(f := g (vfiles s f))\<rparr>"

definition upd_super :: "u64 \<Rightarrow> (VfsSuperblock \<Rightarrow> VfsSuperblock) \<Rightarrow> 'a Vfs_scheme \<Rightarrow> 'a Vfs_scheme" where
  "upd_super b f s = s\<lparr>vsupers := (vsupers s)(b := f (vsupers s b))\<rparr>"

abbreviation stat_of :: "'a Vfs_scheme \<Rightarrow> u64 \<Rightarrow> VfsStat" where
  "stat_of s n \<equiv> n_stat (vnodes s n)"

subsection \<open>Function tables\<close>

record 's VfsNodeFunctions =
  fn_free :: "u64 \<Rightarrow> 's \<Rightarrow> 's"
  fn_read_at :: "(u64 \<Rightarrow> VirtPtr \<Rightarrow> u64 \<Rightarrow> u64 \<Rightarrow> bool \<Rightarrow> 's \<Rightarrow> (Error + u64) \<times> 's) option"
  fn_write_at :: "(u64 \<Rightarrow> VirtPtr \<Rightarrow> u64 \<Rightarrow> u64 \<Rightarrow> bool \<Rightarrow> 's \<Rightarrow> (Error + u64) \<times> 's) option"
  fn_trunc :: "(u64 \<Rightarrow> u64 \<Rightarrow> 's \<Rightarrow> (Error + unit) \<times> 's) option"
  fn_readdir_at :: "(u64 \<Rightarrow> VirtPtr \<Rightarrow> u64 \<Rightarrow> u64 \<Rightarrow> 's \<Rightarrow> (Error + u64 \<times> u64) \<times> 's) option"
  fn_lookup :: "(u64 \<Rightarrow> u8 list \<Rightarrow> 's \<Rightarrow> (Error + u64) \<times> 's) option"
  fn_unlink :: "(u64 \<Rightarrow> u8 list \<Rightarrow> 's \<Rightarrow> (Error + unit) \<times> 's) option"
  fn_link :: "(u64 \<Rightarrow> u8 list \<Rightarrow> u64 \<Rightarrow> 's \<Rightarrow> (Error + unit) \<times> 's) option"
  fn_ioctl :: "(u64 \<Rightarrow> u64 \<Rightarrow> VirtPtr \<Rightarrow> 's \<Rightarrow> (Error + u64) \<times> 's) option"
  fn_is_ready :: "(u64 \<Rightarrow> bool \<Rightarrow> 's \<Rightarrow> bool) option"

record 's VfsSuperblockFunctions =
  sf_free :: "u64 \<Rightarrow> 's \<Rightarrow> 's"
  sf_read_node :: "u64 \<Rightarrow> u64 \<Rightarrow> 's \<Rightarrow> (Error + u64) \<times> 's"
  sf_write_node :: "u64 \<Rightarrow> u64 \<Rightarrow> 's \<Rightarrow> (Error + unit) \<times> 's"
  sf_new_node :: "u64 \<Rightarrow> 's \<Rightarrow> (Error + u64) \<times> 's"
  sf_free_node :: "u64 \<Rightarrow> u64 \<Rightarrow> 's \<Rightarrow> (Error + unit) \<times> 's"

text \<open>The table that the \<open>functions\<close> pointer of a node points to; \<open>F\<close> gives the table at an address.\<close>

abbreviation fns :: "(u64 \<Rightarrow> 'a Vfs_scheme VfsNodeFunctions) \<Rightarrow> 'a Vfs_scheme \<Rightarrow> u64 \<Rightarrow> 'a Vfs_scheme VfsNodeFunctions" where
  "fns F s n \<equiv> F (n_functions (vnodes s n))"

subsection \<open>Permissions\<close>

text \<open>One of the three checks of \<open>basicCanAccess\<close>: none of the bits for all, group and owner grants the access.\<close>

definition denied :: "VfsStat \<Rightarrow> ProcessUser \<Rightarrow> u16 \<Rightarrow> u16 \<Rightarrow> u16 \<Rightarrow> bool" where
  "denied stat user a g w \<longleftrightarrow> st_mode stat AND a = 0
     \<and> (st_mode stat AND g = 0 \<or> st_gid stat \<noteq> egid user)
     \<and> (st_mode stat AND w = 0 \<or> st_uid stat \<noteq> euid user)"

definition basicCanAccess :: "VfsStat \<Rightarrow> ProcessUser \<Rightarrow> u64 \<Rightarrow> Error + unit" where
  "basicCanAccess stat user flags =
     (if flags AND VFS_ACCESS_REG \<noteq> 0 \<and> MODE_TYPE (st_mode stat) \<noteq> VFS_TYPE_REG then
        Inl (if MODE_TYPE (st_mode stat) = VFS_TYPE_DIR then EISDIR else EINVAL)
      else if flags AND VFS_ACCESS_DIR \<noteq> 0 \<and> MODE_TYPE (st_mode stat) \<noteq> VFS_TYPE_DIR then Inl ENOTDIR
      else if euid user = 0 then Inr ()
      else if (flags AND VFS_ACCESS_CHMOD \<noteq> 0 \<or> flags AND VFS_ACCESS_CHOWN \<noteq> 0) \<and> st_uid stat \<noteq> euid user then Inl EPERM
      else if flags AND VFS_ACCESS_R \<noteq> 0 \<and> denied stat user VFS_MODE_A_R VFS_MODE_G_R VFS_MODE_O_R then Inl EACCES
      else if flags AND VFS_ACCESS_W \<noteq> 0 \<and> denied stat user VFS_MODE_A_W VFS_MODE_G_W VFS_MODE_O_W then Inl EACCES
      else if flags AND VFS_ACCESS_X \<noteq> 0 \<and> denied stat user VFS_MODE_A_X VFS_MODE_G_X VFS_MODE_O_X then Inl EACCES
      else Inr ())"

text \<open>A NULL process, the kernel itself, is \<open>None\<close>.\<close>

definition canAccess :: "'a Vfs_scheme \<Rightarrow> u64 \<Rightarrow> ProcessUser option \<Rightarrow> u64 \<Rightarrow> Error + unit" where
  "canAccess s node process flags = (case process of None \<Rightarrow> Inr () | Some user \<Rightarrow> basicCanAccess (stat_of s node) user flags)"

end
