(* ===== verification/VfsNodes.thy ===== *)
theory VfsNodes
  imports VfsTypes
begin

text \<open>
  Model of kernel/src/files/vfs/node.c and file.c: the operations on nodes, which check the permission of the
  process and hand over to the function table \<open>fns F s n\<close> of the node, and those on open files.
\<close>

unbundle bit_operations_syntax

text \<open>Sequencing of operations with errors: \<open>CHECKED\<close> and the plain return of an error.\<close>

definition checked :: "(Error + 'r) \<times> 's \<Rightarrow> ('r \<Rightarrow> 's \<Rightarrow> (Error + 'q) \<times> 's) \<Rightarrow> (Error + 'q) \<times> 's" where
  "checked x k = (case x of (Inl e, s) \<Rightarrow> (Inl e, s) | (Inr r, s) \<Rightarrow> k r s)"

subsection \<open>Nodes\<close>

definition vfsSuperWriteNode :: "u64 \<Rightarrow> 'a Vfs_scheme \<Rightarrow> (Error + unit) \<times> 'a Vfs_scheme" where
  "vfsSuperWriteNode n s =
     (if n_super (vnodes s n) = 0 then (Inr (), s)
      else (let (time, s) = getNanosecondsWithFallback s;
                s = upd_stat n (\<lambda>st. st\<lparr>st_ctime := time\<rparr>) s;
                s = upd_node n (\<lambda>v. v\<lparr>n_dirty := True\<rparr>) s
            in (Inr (), s)))"

text \<open>\<open>DELEGATE_NODE_FUNCTION\<close>: \<open>call\<close> applies the entry of the table to the arguments.\<close>

definition delegate :: "'f option \<Rightarrow> ('f \<Rightarrow> 'a Vfs_scheme \<Rightarrow> (Error + 'r) \<times> 'a Vfs_scheme) \<Rightarrow> u64 \<Rightarrow> ProcessUser option \<Rightarrow> u64
    \<Rightarrow> 'a Vfs_scheme \<Rightarrow> (Error + 'r) \<times> 'a Vfs_scheme" where
  "delegate entry call node process access s =
     (case entry of None \<Rightarrow> (Inl EINVAL, s)
      | Some f \<Rightarrow>
          checked (canAccess s node process access, s) (\<lambda>_ s.
            let (time, s) = getNanosecondsWithFallback s;
                s = (if access AND VFS_ACCESS_W \<noteq> 0 then upd_stat node (\<lambda>st. st\<lparr>st_mtime := time\<rparr>) s else s);
                s = upd_stat node (\<lambda>st. st\<lparr>st_atime := time\<rparr>) s
            in checked (vfsSuperWriteNode node s) (\<lambda>_ s. call f s)))"

definition vfsNodeReadAt where
  "vfsNodeReadAt F node process buff offset len block s =
     delegate (fn_read_at (fns F s node)) (\<lambda>f. f node buff offset len block) node process VFS_ACCESS_R s"

definition vfsNodeWriteAt where
  "vfsNodeWriteAt F node process buff offset len block s =
     delegate (fn_write_at (fns F s node)) (\<lambda>f. f node buff offset len block) node process VFS_ACCESS_W s"

definition vfsNodeReaddirAt where
  "vfsNodeReaddirAt F node process buff offset len s =
     delegate (fn_readdir_at (fns F s node)) (\<lambda>f. f node buff offset len) node process (VFS_ACCESS_R OR VFS_ACCESS_DIR) s"

definition vfsNodeTrunc where
  "vfsNodeTrunc F node process len s =
     delegate (fn_trunc (fns F s node)) (\<lambda>f. f node len) node process VFS_ACCESS_W s"

definition vfsNodeBasicLookup where
  "vfsNodeBasicLookup F node process name s =
     delegate (fn_lookup (fns F s node)) (\<lambda>f. f node name) node process (VFS_ACCESS_X OR VFS_ACCESS_DIR) s"

definition vfsNodeBasicUnlink where
  "vfsNodeBasicUnlink F node process name s =
     delegate (fn_unlink (fns F s node)) (\<lambda>f. f node name) node process (VFS_ACCESS_W OR VFS_ACCESS_DIR) s"

definition vfsNodeUnlink :: "(u64 \<Rightarrow> 'a Vfs_scheme VfsNodeFunctions) \<Rightarrow> u64 \<Rightarrow> ProcessUser option \<Rightarrow> u8 list \<Rightarrow> u64
    \<Rightarrow> 'a Vfs_scheme \<Rightarrow> (Error + unit) \<times> 'a Vfs_scheme" where
  "vfsNodeUnlink F node process name entry s =
     (let entry = n_real_node (vnodes s entry) in
      if n_super (vnodes s node) \<noteq> n_super (vnodes s entry) then (Inl EXDEV, s)
      else
        checked (if st_mode (stat_of s node) AND VFS_MODE_STICKY \<noteq> 0 then canAccess s entry process VFS_ACCESS_W else Inr (), s) (\<lambda>_ s.
        checked (vfsNodeBasicUnlink F node process name s) (\<lambda>_ s.
          let s = upd_stat entry (\<lambda>st. st\<lparr>st_nlinks := st_nlinks st - 1\<rparr>) s
          in vfsSuperWriteNode entry s)))"

definition vfsNodeLink :: "(u64 \<Rightarrow> 'a Vfs_scheme VfsNodeFunctions) \<Rightarrow> u64 \<Rightarrow> ProcessUser option \<Rightarrow> u8 list \<Rightarrow> u64
    \<Rightarrow> 'a Vfs_scheme \<Rightarrow> (Error + unit) \<times> 'a Vfs_scheme" where
  "vfsNodeLink F node process name entry s =
     (let entry = n_real_node (vnodes s entry) in
      if n_super (vnodes s node) \<noteq> n_super (vnodes s entry) then (Inl EXDEV, s)
      else case fn_link (fns F s node) of None \<Rightarrow> (Inl EINVAL, s)
      | Some f \<Rightarrow>
        checked (canAccess s node process (VFS_ACCESS_W OR VFS_ACCESS_DIR), s) (\<lambda>_ s.
          let (time, s) = getNanosecondsWithFallback s;
              s = upd_stat node (\<lambda>st. st\<lparr>st_mtime := time\<rparr>) s;
              s = upd_stat node (\<lambda>st. st\<lparr>st_atime := time\<rparr>) s
          in checked (vfsSuperWriteNode node s) (\<lambda>_ s.
             let s = upd_stat entry (\<lambda>st. st\<lparr>st_nlinks := st_nlinks st + 1\<rparr>) s
             in checked (vfsSuperWriteNode entry s) (\<lambda>_ s. f node name entry s))))"

definition vfsNodeIoctl :: "(u64 \<Rightarrow> 'a Vfs_scheme VfsNodeFunctions) \<Rightarrow> u64 \<Rightarrow> u64 \<Rightarrow> VirtPtr
    \<Rightarrow> 'a Vfs_scheme \<Rightarrow> (Error + u64) \<times> 'a Vfs_scheme" where
  "vfsNodeIoctl F node request argp s =
     (case fn_ioctl (fns F s node) of None \<Rightarrow> (Inl ENOTTY, s) | Some f \<Rightarrow> f node request argp s)"

definition vfsNodeIsReady :: "(u64 \<Rightarrow> 'a Vfs_scheme VfsNodeFunctions) \<Rightarrow> u64 \<Rightarrow> bool \<Rightarrow> 'a Vfs_scheme \<Rightarrow> bool" where
  "vfsNodeIsReady F node write s = (case fn_is_ready (fns F s node) of None \<Rightarrow> True | Some f \<Rightarrow> f node write s)"

subsection \<open>Files\<close>

definition vfsFileSeek :: "u64 \<Rightarrow> u64 \<Rightarrow> VfsSeekWhence \<Rightarrow> 'a Vfs_scheme \<Rightarrow> (Error + u64) \<times> 'a Vfs_scheme" where
  "vfsFileSeek file offset whence s =
     (case whence of
        VFS_SEEK_CUR \<Rightarrow> (let s = upd_file file (\<lambda>f. f\<lparr>vf_offset := vf_offset f + offset\<rparr>) s in (Inr (vf_offset (vfiles s file)), s))
      | VFS_SEEK_SET \<Rightarrow> (let s = upd_file file (\<lambda>f. f\<lparr>vf_offset := offset\<rparr>) s in (Inr (vf_offset (vfiles s file)), s))
      | VFS_SEEK_END \<Rightarrow> (let s = upd_file file (\<lambda>f. f\<lparr>vf_offset := st_size (stat_of s (vf_node f)) + offset\<rparr>) s
                        in (Inr (vf_offset (vfiles s file)), s))
      | VFS_SEEK_OTHER \<Rightarrow> (Inl EINVAL, s))"

definition file_blocks :: "'a Vfs_scheme \<Rightarrow> u64 \<Rightarrow> bool" where
  "file_blocks s file \<longleftrightarrow> vf_flags (vfiles s file) AND VFS_FILE_NONBLOCK = 0"

definition vfsFileReadAt where
  "vfsFileReadAt F file process buffer offset len s =
     vfsNodeReadAt F (vf_node (vfiles s file)) process buffer offset len (file_blocks s file) s"

definition vfsFileWriteAt where
  "vfsFileWriteAt F file process buffer offset len s =
     vfsNodeWriteAt F (vf_node (vfiles s file)) process buffer offset len (file_blocks s file) s"

text \<open>The offset moves by what was transferred, and only when there was no error.\<close>

definition moved_by :: "u64 \<Rightarrow> ('r \<Rightarrow> u64) \<Rightarrow> (Error + 'r) \<times> 'a Vfs_scheme \<Rightarrow> (Error + 'r) \<times> 'a Vfs_scheme" where
  "moved_by file amount x = checked x (\<lambda>r s. (Inr r, upd_file file (\<lambda>f. f\<lparr>vf_offset := vf_offset f + amount r\<rparr>) s))"

definition vfsFileRead where
  "vfsFileRead F file process buffer len s =
     moved_by file id (vfsFileReadAt F file process buffer (vf_offset (vfiles s file)) len s)"

definition vfsFileWrite where
  "vfsFileWrite F file process buffer len s =
     moved_by file id (vfsFileWriteAt F file process buffer (vf_offset (vfiles s file)) len s)"

text \<open>The result of \<open>vfsFileStat\<close> is the record copied to the buffer.\<close>

definition vfsFileStat :: "u64 \<Rightarrow> 'a Vfs_scheme \<Rightarrow> VfsStat" where
  "vfsFileStat file s = stat_of s (n_real_node (vnodes s (vf_node (vfiles s file))))"

definition vfsFileTrunc where
  "vfsFileTrunc F file process len s = vfsNodeTrunc F (vf_node (vfiles s file)) process len s"

definition vfsFileChmod :: "u64 \<Rightarrow> ProcessUser option \<Rightarrow> u16 \<Rightarrow> 'a Vfs_scheme \<Rightarrow> (Error + unit) \<times> 'a Vfs_scheme" where
  "vfsFileChmod file process mode s =
     (let node = n_real_node (vnodes s (vf_node (vfiles s file))) in
      checked (canAccess s node process VFS_ACCESS_CHMOD, s) (\<lambda>_ s.
        let s = upd_stat node (\<lambda>st. st\<lparr>st_mode := st_mode st AND VFS_MODE_TYPE\<rparr>) s;
            s = upd_stat node (\<lambda>st. st\<lparr>st_mode := st_mode st OR (mode AND NOT VFS_MODE_TYPE)\<rparr>) s
        in vfsSuperWriteNode node s))"

definition vfsFileChown :: "u64 \<Rightarrow> ProcessUser option \<Rightarrow> int \<Rightarrow> int \<Rightarrow> 'a Vfs_scheme \<Rightarrow> (Error + unit) \<times> 'a Vfs_scheme" where
  "vfsFileChown file process uid gid s =
     (let node = n_real_node (vnodes s (vf_node (vfiles s file))) in
      checked (canAccess s node process VFS_ACCESS_CHOWN, s) (\<lambda>_ s.
        let s = (if uid \<ge> 0 then upd_stat node (\<lambda>st. st\<lparr>st_uid := uid\<rparr>) s else s);
            s = (if gid \<ge> 0 then upd_stat node (\<lambda>st. st\<lparr>st_gid := gid\<rparr>) s else s)
        in vfsSuperWriteNode node s))"

definition vfsFileReaddir where
  "vfsFileReaddir F file process buffer len s =
     moved_by file fst (vfsNodeReaddirAt F (vf_node (vfiles s file)) process buffer (vf_offset (vfiles s file)) len s)"

definition vfsFileIoctl where
  "vfsFileIoctl F file request argp s = vfsNodeIoctl F (vf_node (vfiles s file)) request argp s"

definition vfsFileIsReady where
  "vfsFileIsReady F file write s = vfsNodeIsReady F (vf_node (vfiles s file)) write s"

subsection \<open>Permissions in terms of mode bits\<close>

lemmas access_flags = VFS_ACCESS_R_def VFS_ACCESS_W_def VFS_ACCESS_X_def VFS_ACCESS_DIR_def VFS_ACCESS_REG_def VFS_ACCESS_CHMOD_def VFS_ACCESS_CHOWN_def

lemmas mode_flags = VFS_MODE_A_R_def VFS_MODE_A_W_def VFS_MODE_A_X_def VFS_MODE_G_R_def VFS_MODE_G_W_def VFS_MODE_G_X_def
  VFS_MODE_O_R_def VFS_MODE_O_W_def VFS_MODE_O_X_def

text \<open>\<open>may stat user k\<close>: bit \<open>k\<close> of the mode for everybody (2 read, 1 write, 0 execute), or the same bit for the group or the owner.\<close>

definition may :: "VfsStat \<Rightarrow> ProcessUser \<Rightarrow> nat \<Rightarrow> bool" where
  "may stat user k \<longleftrightarrow> euid user = 0 \<or> bit (st_mode stat) k \<or> bit (st_mode stat) (k + 3) \<and> st_gid stat = egid user
     \<or> bit (st_mode stat) (k + 6) \<and> st_uid stat = euid user"

lemma and_power_bit: "(w AND 2 ^ k = 0) \<longleftrightarrow> \<not> bit w k" for w :: "'w::len word"
proof -
  have "w AND 2 ^ k = (if bit w k then 2 ^ k else 0)" by (rule bit_word_eqI) (auto simp: bit_simps)
  moreover have "bit w k \<Longrightarrow> (2 :: 'w word) ^ k \<noteq> 0" using bit_imp_le_length [of w k] by (simp add: exp_eq_zero_iff not_le)
  ultimately show ?thesis by auto
qed

lemma mode_bits: "st_mode st AND VFS_MODE_A_R = 0 \<longleftrightarrow> \<not> bit (st_mode st) 2" "st_mode st AND VFS_MODE_A_W = 0 \<longleftrightarrow> \<not> bit (st_mode st) 1"
  "st_mode st AND VFS_MODE_A_X = 0 \<longleftrightarrow> \<not> bit (st_mode st) 0" "st_mode st AND VFS_MODE_G_R = 0 \<longleftrightarrow> \<not> bit (st_mode st) 5"
  "st_mode st AND VFS_MODE_G_W = 0 \<longleftrightarrow> \<not> bit (st_mode st) 4" "st_mode st AND VFS_MODE_G_X = 0 \<longleftrightarrow> \<not> bit (st_mode st) 3"
  "st_mode st AND VFS_MODE_O_R = 0 \<longleftrightarrow> \<not> bit (st_mode st) 8" "st_mode st AND VFS_MODE_O_W = 0 \<longleftrightarrow> \<not> bit (st_mode st) 7"
  "st_mode st AND VFS_MODE_O_X = 0 \<longleftrightarrow> \<not> bit (st_mode st) 6"
  using and_power_bit [of "st_mode st" 2] and_power_bit [of "st_mode st" 1] and_power_bit [of "st_mode st" 0] and_power_bit [of "st_mode st" 5]
    and_power_bit [of "st_mode st" 4] and_power_bit [of "st_mode st" 3] and_power_bit [of "st_mode st" 8] and_power_bit [of "st_mode st" 7] and_power_bit [of "st_mode st" 6]
  by (simp_all add: mode_flags)

lemma denied_may:
  "euid user \<noteq> 0 \<Longrightarrow> denied st user VFS_MODE_A_R VFS_MODE_G_R VFS_MODE_O_R \<longleftrightarrow> \<not> may st user 2"
  "euid user \<noteq> 0 \<Longrightarrow> denied st user VFS_MODE_A_W VFS_MODE_G_W VFS_MODE_O_W \<longleftrightarrow> \<not> may st user 1"
  "euid user \<noteq> 0 \<Longrightarrow> denied st user VFS_MODE_A_X VFS_MODE_G_X VFS_MODE_O_X \<longleftrightarrow> \<not> may st user 0"
  by (auto simp: denied_def may_def mode_bits)

lemma may_root: "euid user = 0 \<Longrightarrow> may st user k"
  by (simp add: may_def)

lemma canAccess_read: "canAccess s n (Some u) VFS_ACCESS_R = (if may (stat_of s n) u 2 then Inr () else Inl EACCES)"
  by (cases "euid u = 0") (simp_all add: canAccess_def basicCanAccess_def access_flags denied_may may_root)

lemma canAccess_write: "canAccess s n (Some u) VFS_ACCESS_W = (if may (stat_of s n) u 1 then Inr () else Inl EACCES)"
  by (cases "euid u = 0") (simp_all add: canAccess_def basicCanAccess_def access_flags denied_may may_root)

lemma canAccess_readdir: "canAccess s n (Some u) (VFS_ACCESS_R OR VFS_ACCESS_DIR)
    = (if MODE_TYPE (st_mode (stat_of s n)) \<noteq> VFS_TYPE_DIR then Inl ENOTDIR else if may (stat_of s n) u 2 then Inr () else Inl EACCES)"
  by (cases "euid u = 0") (simp_all add: canAccess_def basicCanAccess_def access_flags denied_may may_root)

lemma canAccess_owner: "canAccess s n (Some u) VFS_ACCESS_CHMOD = (if euid u = 0 \<or> st_uid (stat_of s n) = euid u then Inr () else Inl EPERM)"
  "canAccess s n (Some u) VFS_ACCESS_CHOWN = (if euid u = 0 \<or> st_uid (stat_of s n) = euid u then Inr () else Inl EPERM)"
  by (simp_all add: canAccess_def basicCanAccess_def access_flags)

lemma checked_simps [simp]: "checked (Inl e, s) k = (Inl e, s)" "checked (Inr r, s) k = k r s"
  by (simp_all add: checked_def)

text \<open>The state a permitted access hands to the function of the node: new times, and the node is dirty.\<close>

definition touched :: "u64 \<Rightarrow> bool \<Rightarrow> 'a Vfs_scheme \<Rightarrow> 'a Vfs_scheme" where
  "touched n w s = (let t = clock s (ticks s); s = s\<lparr>ticks := ticks s + 1\<rparr>;
       s = upd_stat n (\<lambda>st. (if w then st\<lparr>st_mtime := t\<rparr> else st)\<lparr>st_atime := t\<rparr>) s
     in snd (vfsSuperWriteNode n s))"

lemma vfsSuperWriteNode_ok: "\<exists>s'. vfsSuperWriteNode n s = (Inr (), s')"
  by (simp add: vfsSuperWriteNode_def Let_def getNanosecondsWithFallback_def)

lemma vfsSuperWriteNode_eq: "vfsSuperWriteNode n s = (Inr (), snd (vfsSuperWriteNode n s))"
  using vfsSuperWriteNode_ok [of n s] by auto

lemma checked_write: "checked (vfsSuperWriteNode n s) k = k () (snd (vfsSuperWriteNode n s))"
  by (subst vfsSuperWriteNode_eq) simp

lemma upd_stat_twice: "upd_stat n f (upd_stat n g s) = upd_stat n (\<lambda>st. f (g st)) s"
  by (simp add: upd_stat_def upd_node_def)

lemma upd_stat_id: "upd_stat n (\<lambda>st. st) s = s"
  by (simp add: upd_stat_def upd_node_def)

lemma delegate_allowed:
  assumes "canAccess s n p access = Inr ()"
  shows "delegate (Some f) call n p access s = call f (touched n (access AND VFS_ACCESS_W \<noteq> 0) s)"
  using assms by (cases "access AND VFS_ACCESS_W = 0")
    (simp_all add: delegate_def touched_def Let_def getNanosecondsWithFallback_def upd_stat_twice checked_write)

lemma delegate_denied: "canAccess s n p access = Inl e \<Longrightarrow> delegate entry call n p access s = (Inl (if entry = None then EINVAL else e), s)"
  by (cases entry) (simp_all add: delegate_def)

text \<open>
  Property C17 (file_access_enforced). The permission bits decide: a process that none of the classes everybody, group and
  owner grants the right cannot read, write, truncate or list the file, every such call returns an
  error and leaves the whole state as it was, whatever the functions of the node do; only the
  owner (or user 0) changes mode and owner. A granted call is exactly the function of the node,
  run after the times were updated, and the offset moves by what it transferred.
\<close>

theorem file_access_enforced:
  fixes s :: "'a Vfs_scheme" and F :: "u64 \<Rightarrow> 'a Vfs_scheme VfsNodeFunctions"
  assumes "n = vf_node (vfiles s file)" "st = stat_of s n"
  shows "(\<not> may st u 2 \<longrightarrow> (\<exists>e. vfsFileRead F file (Some u) buf len s = (Inl e, s)) \<and> (\<exists>e. vfsFileReaddir F file (Some u) buf len s = (Inl e, s)))
    \<and> (\<not> may st u 1 \<longrightarrow> (\<exists>e. vfsFileWrite F file (Some u) buf len s = (Inl e, s)) \<and> (\<exists>e. vfsFileTrunc F file (Some u) len s = (Inl e, s)))
    \<and> (euid u \<noteq> 0 \<and> st_uid (stat_of s (n_real_node (vnodes s n))) \<noteq> euid u \<longrightarrow>
         vfsFileChmod file (Some u) mode s = (Inl EPERM, s) \<and> vfsFileChown file (Some u) uid gid s = (Inl EPERM, s))
    \<and> (may st u 2 \<and> fn_read_at (fns F s n) = Some rd \<longrightarrow>
         vfsFileRead F file (Some u) buf len s = moved_by file id (rd n buf (vf_offset (vfiles s file)) len (file_blocks s file) (touched n False s)))
    \<and> (may st u 1 \<and> fn_write_at (fns F s n) = Some wr \<longrightarrow>
         vfsFileWrite F file (Some u) buf len s = moved_by file id (wr n buf (vf_offset (vfiles s file)) len (file_blocks s file) (touched n True s)))"
proof (intro conjI impI)
  note d = vfsFileRead_def vfsFileReaddir_def vfsFileWrite_def vfsFileTrunc_def vfsFileReadAt_def vfsFileWriteAt_def vfsNodeReadAt_def vfsNodeWriteAt_def vfsNodeReaddirAt_def vfsNodeTrunc_def
  assume "\<not> may st u 2"
  then have c: "canAccess s n (Some u) VFS_ACCESS_R = Inl EACCES" "\<exists>e. canAccess s n (Some u) (VFS_ACCESS_R OR VFS_ACCESS_DIR) = Inl e"
    by (simp_all add: canAccess_read canAccess_readdir assms(2))
  show "\<exists>e. vfsFileRead F file (Some u) buf len s = (Inl e, s)" using c(1) by (simp add: d moved_by_def assms(1) delegate_denied)
  show "\<exists>e. vfsFileReaddir F file (Some u) buf len s = (Inl e, s)" using c(2) by (auto simp: d moved_by_def assms(1) delegate_denied)
next
  assume "\<not> may st u 1"
  then have c: "canAccess s n (Some u) VFS_ACCESS_W = Inl EACCES" by (simp add: canAccess_write assms(2))
  then show "\<exists>e. vfsFileWrite F file (Some u) buf len s = (Inl e, s)" "\<exists>e. vfsFileTrunc F file (Some u) len s = (Inl e, s)"
    by (simp_all add: vfsFileWrite_def vfsFileWriteAt_def vfsNodeWriteAt_def vfsFileTrunc_def vfsNodeTrunc_def moved_by_def assms(1) delegate_denied)
next
  assume "euid u \<noteq> 0 \<and> st_uid (stat_of s (n_real_node (vnodes s n))) \<noteq> euid u"
  then show "vfsFileChmod file (Some u) mode s = (Inl EPERM, s)" "vfsFileChown file (Some u) uid gid s = (Inl EPERM, s)"
    by (simp_all add: vfsFileChmod_def vfsFileChown_def canAccess_owner Let_def assms(1))
next
  assume r: "may st u 2 \<and> fn_read_at (fns F s n) = Some rd"
  then have "canAccess s n (Some u) VFS_ACCESS_R = Inr ()" by (simp add: canAccess_read assms(2))
  note a = delegate_allowed [OF this, of rd]
  from r
  show "vfsFileRead F file (Some u) buf len s = moved_by file id (rd n buf (vf_offset (vfiles s file)) len (file_blocks s file) (touched n False s))"
    by (simp add: vfsFileRead_def vfsFileReadAt_def vfsNodeReadAt_def a [unfolded assms(1)] assms(1)) (simp add: access_flags)
next
  assume r: "may st u 1 \<and> fn_write_at (fns F s n) = Some wr"
  then have "canAccess s n (Some u) VFS_ACCESS_W = Inr ()" by (simp add: canAccess_write assms(2))
  note a = delegate_allowed [OF this, of wr]
  from r
  show "vfsFileWrite F file (Some u) buf len s = moved_by file id (wr n buf (vf_offset (vfiles s file)) len (file_blocks s file) (touched n True s))"
    by (simp add: vfsFileWrite_def vfsFileWriteAt_def vfsNodeWriteAt_def a [unfolded assms(1)] assms(1)) (simp add: access_flags)
qed

text \<open>A file of user 3 that only its owner may write, and a process of user 5; reading is allowed to everybody.\<close>

definition example_vfs :: Vfs where
  "example_vfs = \<lparr>vnodes = (\<lambda>_. \<lparr>n_functions = 0, n_super = 8, n_stat = \<lparr>st_dev = 0, st_id = 1, st_mode = 0x81A4, st_nlinks = 1, st_uid = 3, st_gid = 3, st_rdev = 0,
       st_size = 10, st_block_size = 0, st_blocks = 0, st_atime = 0, st_mtime = 0, st_ctime = 0\<rparr>, n_ref_count = 1, n_mounted = 0, n_real_node = 16, n_dirty = False\<rparr>),
     vsupers = (\<lambda>_. \<lparr>sb_root_node = 16, sb_id = 1, sb_ref_count = 1, sb_nodes = \<lparr>nc_nodes = [], nc_count = 0, nc_capacity = 0\<rparr>\<rparr>),
     vfiles = (\<lambda>_. \<lparr>vf_node = 16, vf_path = None, vf_ref_count = 1, vf_offset = 0, vf_flags = 0\<rparr>), clock = (\<lambda>n. of_nat n), ticks = 0\<rparr>"

definition no_functions :: "u64 \<Rightarrow> Vfs VfsNodeFunctions" where
  "no_functions n = \<lparr>fn_free = (\<lambda>_ s. s), fn_read_at = Some (\<lambda>_ _ _ len _ s. (Inr len, s)), fn_write_at = Some (\<lambda>_ _ _ len _ s. (Inr len, s)), fn_trunc = None,
     fn_readdir_at = None, fn_lookup = None, fn_unlink = None, fn_link = Some (\<lambda>_ _ _ s. (Inl ENOSPC, s)), fn_ioctl = None, fn_is_ready = None\<rparr>"

theorem file_access_enforced_witness:
  "\<not> may (stat_of example_vfs 16) \<lparr>euid = 5, egid = 5\<rparr> 1 \<and> may (stat_of example_vfs 16) \<lparr>euid = 5, egid = 5\<rparr> 2
   \<and> (\<exists>e. vfsFileWrite no_functions 0 (Some \<lparr>euid = 5, egid = 5\<rparr>) \<lparr>vp_address = 0, vp_table = 0, allow_all = False\<rparr> 4 example_vfs = (Inl e, example_vfs))"
proof -
  let ?u = "\<lparr>euid = 5, egid = 5\<rparr> :: ProcessUser"
  have m: "\<not> may (stat_of example_vfs 16) ?u 1" "may (stat_of example_vfs 16) ?u 2" by (simp_all add: may_def example_vfs_def)
  have n: "16 = vf_node (vfiles example_vfs 0)" by (simp add: example_vfs_def)
  show ?thesis using file_access_enforced [OF n refl, of ?u no_functions] m by blast
qed

subsection \<open>Link counts\<close>

text \<open>
  \<open>vfsNodeLink\<close> increments the number of links of the entry before it calls the
  link function of the directory, and does not take it back: when that function fails without
  touching the entry, the count is one too high, and the entry is never freed.
\<close>

theorem vfsNodeLink_counts_first:
  assumes "n_super (vnodes s node) = n_super (vnodes s e)" "e = n_real_node (vnodes s entry)" "e \<noteq> node"
    "canAccess s node p (VFS_ACCESS_W OR VFS_ACCESS_DIR) = Inr ()"
    "fn_link (fns F s node) = Some f" "\<And>s. f node name e s = (Inl err, s)"
  shows "\<exists>s'. vfsNodeLink F node p name entry s = (Inl err, s') \<and> st_nlinks (stat_of s' e) = st_nlinks (stat_of s e) + 1"
  using assms
  by (simp add: vfsNodeLink_def Let_def getNanosecondsWithFallback_def upd_stat_twice checked_write
      vfsSuperWriteNode_def upd_stat_def upd_node_def)

theorem vfsNodeLink_counts_first_witness:
  "\<exists>s'. vfsNodeLink no_functions 32 None [97] 0 example_vfs = (Inl ENOSPC, s') \<and> st_nlinks (stat_of s' 16) = 2"
proof -
  have "\<exists>s'. vfsNodeLink no_functions 32 None [97] 0 example_vfs = (Inl ENOSPC, s') \<and> st_nlinks (stat_of s' 16) = st_nlinks (stat_of example_vfs 16) + 1"
  proof (rule vfsNodeLink_counts_first)
    show "n_super (vnodes example_vfs 32) = n_super (vnodes example_vfs 16)" "16 = n_real_node (vnodes example_vfs 0)" by (simp_all add: example_vfs_def)
    show "canAccess example_vfs 32 None (VFS_ACCESS_W OR VFS_ACCESS_DIR) = Inr ()" by (simp add: canAccess_def)
    show "fn_link (fns no_functions example_vfs 32) = Some (\<lambda>_ _ _ s. (Inl ENOSPC, s))" by (simp add: no_functions_def)
  qed simp_all
  moreover have "st_nlinks (stat_of example_vfs 16) + 1 = 2" by (simp add: example_vfs_def)
  ultimately show ?thesis by simp
qed

end
