(* ===== verification/NodeCache.thy ===== *)
theory NodeCache
  imports VfsNodes OpenAddressing
begin

text \<open>
  Model of kernel/src/files/vfs/cache.c, the hash table of the nodes of a superblock that are in
  use, and of super.c, which keeps the reference counts of nodes and superblocks. A slot of the
  table is 0 (empty), 1 (deleted) or the address of a node; \<open>SIZE_MAX\<close> as the result of a search is
  \<open>None\<close>. \<open>key\<close> gives the two identifiers that a node is filed under. The functions of the file system
  are the tables \<open>F\<close> of the nodes and \<open>SF\<close> of the superblocks.
\<close>

subsection \<open>The table\<close>

definition MIN_CACHE_CAPACITY :: nat where "MIN_CACHE_CAPACITY = 32"

definition vfsNodeKeyHash :: "u64 \<times> u64 \<Rightarrow> nat" where
  "vfsNodeKeyHash k = unat (hashCombine (hashInt64 (fst k)) (hashInt64 (snd k)))"

definition isIndexValid :: "u64 list \<Rightarrow> nat \<Rightarrow> bool" where
  "isIndexValid nodes idx \<longleftrightarrow> nodes ! idx \<noteq> 0 \<and> nodes ! idx \<noteq> 1"

definition continueInsertSearch :: "(u64 \<Rightarrow> u64 \<times> u64) \<Rightarrow> u64 list \<Rightarrow> u64 \<Rightarrow> nat \<Rightarrow> bool" where
  "continueInsertSearch key nodes node idx \<longleftrightarrow> isIndexValid nodes idx \<and> key (nodes ! idx) \<noteq> key node"

definition insertIndexHashTable :: "(u64 \<Rightarrow> u64 \<times> u64) \<Rightarrow> u64 list \<Rightarrow> nat \<Rightarrow> u64 \<Rightarrow> nat option" where
  "insertIndexHashTable key nodes capacity node =
     probe_free (continueInsertSearch key nodes node) capacity (vfsNodeKeyHash (key node) mod capacity)"

fun rebuildHashTable_loop :: "(u64 \<Rightarrow> u64 \<times> u64) \<Rightarrow> u64 list \<Rightarrow> nat \<Rightarrow> nat list \<Rightarrow> u64 list \<Rightarrow> u64 list option" where
  "rebuildHashTable_loop key nodes new_size [] new = Some new"
| "rebuildHashTable_loop key nodes new_size (i # is) new =
     (if isIndexValid nodes i then do {
        idx \<leftarrow> insertIndexHashTable key new new_size (nodes ! i);
        rebuildHashTable_loop key nodes new_size is (new[idx := nodes ! i]) }
      else rebuildHashTable_loop key nodes new_size is new)"

definition rebuildHashTable :: "(u64 \<Rightarrow> u64 \<times> u64) \<Rightarrow> VfsNodeCache \<Rightarrow> nat \<Rightarrow> VfsNodeCache option" where
  "rebuildHashTable key table new_size = do {
     new \<leftarrow> rebuildHashTable_loop key (nc_nodes table) new_size [0..<nc_capacity table] (replicate new_size 0);
     Some (table\<lparr>nc_nodes := new, nc_capacity := new_size\<rparr>) }"

definition testForResizeCache :: "(u64 \<Rightarrow> u64 \<times> u64) \<Rightarrow> VfsNodeCache \<Rightarrow> VfsNodeCache option" where
  "testForResizeCache key table =
     (if nc_capacity table < MIN_CACHE_CAPACITY then rebuildHashTable key table MIN_CACHE_CAPACITY
      else if nc_capacity table > MIN_CACHE_CAPACITY \<and> nc_count table * 4 < nc_capacity table
      then rebuildHashTable key table (nc_capacity table div 2)
      else if nc_count table * 3 > nc_capacity table * 2
      then rebuildHashTable key table (nc_capacity table + nc_capacity table div 2)
      else Some table)"

definition continueSearch :: "(u64 \<Rightarrow> u64 \<times> u64) \<Rightarrow> u64 list \<Rightarrow> u64 \<times> u64 \<Rightarrow> nat \<Rightarrow> bool" where
  "continueSearch key nodes k idx \<longleftrightarrow> nodes ! idx = 1 \<or> isIndexValid nodes idx \<and> key (nodes ! idx) \<noteq> k"

partial_function (option) find_loop :: "(u64 \<Rightarrow> u64 \<times> u64) \<Rightarrow> u64 \<times> u64 \<Rightarrow> u64 list \<Rightarrow> nat \<Rightarrow> nat \<Rightarrow> nat \<Rightarrow> nat option
    \<Rightarrow> (nat option \<times> u64 list) option" where
  "find_loop key k nodes capacity start idx free_slot_idx =
     (if continueSearch key nodes k idx then
        (let free_slot_idx = (if nodes ! idx = 1 then Some idx else free_slot_idx);
             idx = (idx + 1) mod capacity
         in if idx = start then Some (None, nodes) else find_loop key k nodes capacity start idx free_slot_idx)
      else
        (let found = nodes ! idx in
         if found = 1 \<or> found = 0 then Some (None, nodes)
         else case free_slot_idx of
           Some f \<Rightarrow> Some (Some f, nodes[f := found, idx := 1])
         | None \<Rightarrow> Some (Some idx, nodes)))"

definition findIndexHashTable :: "(u64 \<Rightarrow> u64 \<times> u64) \<Rightarrow> VfsNodeCache \<Rightarrow> u64 \<times> u64 \<Rightarrow> (nat option \<times> VfsNodeCache) option" where
  "findIndexHashTable key table k =
     (if nc_count table = 0 then Some (None, table)
      else do {
        let start = vfsNodeKeyHash k mod nc_capacity table;
        (r, nodes) \<leftarrow> find_loop key k (nc_nodes table) (nc_capacity table) start start None;
        Some (r, table\<lparr>nc_nodes := nodes\<rparr>) })"

definition vfsCacheInit :: VfsNodeCache where
  "vfsCacheInit = \<lparr>nc_nodes = [], nc_count = 0, nc_capacity = 0\<rparr>"

definition vfsCacheInsertNewNode :: "(u64 \<Rightarrow> u64 \<times> u64) \<Rightarrow> VfsNodeCache \<Rightarrow> u64 \<Rightarrow> VfsNodeCache option" where
  "vfsCacheInsertNewNode key cache node = do {
     cache \<leftarrow> testForResizeCache key cache;
     idx \<leftarrow> insertIndexHashTable key (nc_nodes cache) (nc_capacity cache) node;
     cassert (nc_nodes cache ! idx = 0 \<or> nc_nodes cache ! idx = 1);
     Some (cache\<lparr>nc_nodes := (nc_nodes cache)[idx := node], nc_count := nc_count cache + 1\<rparr>) }"

subsection \<open>Nodes in use\<close>

definition node_key :: "'a Vfs_scheme \<Rightarrow> u64 \<Rightarrow> u64 \<times> u64" where
  "node_key s n = (sb_id (vsupers s (n_super (vnodes s n))), st_id (stat_of s n))"

abbreviation cache_of :: "'a Vfs_scheme \<Rightarrow> u64 \<Rightarrow> VfsNodeCache" where
  "cache_of s sb \<equiv> sb_nodes (vsupers s sb)"

definition set_cache :: "u64 \<Rightarrow> VfsNodeCache \<Rightarrow> 'a Vfs_scheme \<Rightarrow> 'a Vfs_scheme" where
  "set_cache sb c s = upd_super sb (\<lambda>b. b\<lparr>sb_nodes := c\<rparr>) s"

definition set_refs :: "u64 \<Rightarrow> u64 \<Rightarrow> 'a Vfs_scheme \<Rightarrow> 'a Vfs_scheme" where
  "set_refs n r s = upd_node n (\<lambda>v. v\<lparr>n_ref_count := r\<rparr>) s"

definition vfsCacheCopyNode :: "u64 \<Rightarrow> u64 \<Rightarrow> 'a Vfs_scheme \<Rightarrow> (u64 \<times> 'a Vfs_scheme) option" where
  "vfsCacheCopyNode sb node s = do {
     s \<leftarrow> (if n_ref_count (vnodes s node) = 0 then do {
            cache \<leftarrow> vfsCacheInsertNewNode (node_key s) (cache_of s sb) node;
            Some (set_cache sb cache s) }
          else Some s);
     let s = set_refs node (n_ref_count (vnodes s node) + 1) s;
     Some (n_ref_count (vnodes s node), s) }"

definition vfsCacheCloseNode :: "u64 \<Rightarrow> u64 \<Rightarrow> 'a Vfs_scheme \<Rightarrow> (u64 \<times> 'a Vfs_scheme) option" where
  "vfsCacheCloseNode sb node s = do {
     cassert (n_ref_count (vnodes s node) > 0);
     let s = set_refs node (n_ref_count (vnodes s node) - 1) s;
     s \<leftarrow> (if n_ref_count (vnodes s node) = 0 then do {
            (idx, cache) \<leftarrow> findIndexHashTable (node_key s) (cache_of s sb) (node_key s node);
            (case idx of
               None \<Rightarrow> None
             | Some i \<Rightarrow> do {
                 cassert (nc_nodes cache ! i = node);
                 Some (set_cache sb (cache\<lparr>nc_nodes := (nc_nodes cache)[i := 1], nc_count := nc_count cache - 1\<rparr>) s) }) }
          else Some s);
     Some (n_ref_count (vnodes s node), s) }"

subsection \<open>Superblocks\<close>

definition vfsSuperCopy :: "u64 \<Rightarrow> 'a Vfs_scheme \<Rightarrow> 'a Vfs_scheme" where
  "vfsSuperCopy sb s = upd_super sb (\<lambda>b. b\<lparr>sb_ref_count := sb_ref_count b + 1\<rparr>) s"

text \<open>\<open>vfsCacheDeinit\<close> frees the memory of the table.\<close>

definition vfsSuperClose :: "(u64 \<Rightarrow> 'a Vfs_scheme VfsNodeFunctions) \<Rightarrow> (u64 \<Rightarrow> 'a Vfs_scheme VfsSuperblockFunctions) \<Rightarrow> u64
    \<Rightarrow> 'a Vfs_scheme \<Rightarrow> 'a Vfs_scheme option" where
  "vfsSuperClose F SF sb s =
     (let s = upd_super sb (\<lambda>b. b\<lparr>sb_ref_count := sb_ref_count b - 1\<rparr>) s; root = sb_root_node (vsupers s sb) in
      if sb_ref_count (vsupers s sb) = 0 then do {
        cassert (n_ref_count (vnodes s root) = 0);
        cassert (nc_count (cache_of s sb) = 0);
        Some (sf_free (SF sb) sb (fn_free (fns F s root) root s)) }
      else Some s)"

definition vfsSuperCopyNode :: "u64 \<Rightarrow> 'a Vfs_scheme \<Rightarrow> 'a Vfs_scheme option" where
  "vfsSuperCopyNode node s =
     (let sb = n_super (vnodes s node) in
      if sb = 0 then Some (set_refs node (n_ref_count (vnodes s node) + 1) s)
      else do {
        (refs, s) \<leftarrow> vfsCacheCopyNode sb node s;
        Some (if refs = 1 then vfsSuperCopy sb s else s) })"

definition vfsCacheGetNodeOrLock :: "u64 \<Rightarrow> u64 \<times> u64 \<Rightarrow> 'a Vfs_scheme \<Rightarrow> (u64 \<times> 'a Vfs_scheme) option" where
  "vfsCacheGetNodeOrLock sb k s = do {
     (idx, cache) \<leftarrow> findIndexHashTable (node_key s) (cache_of s sb) k;
     let s = set_cache sb cache s;
     (case idx of
        None \<Rightarrow> Some (0, s)
      | Some i \<Rightarrow> do {
          let found = nc_nodes cache ! i;
          s \<leftarrow> vfsSuperCopyNode found s;
          Some (found, s) }) }"

definition vfsSuperReadNode :: "(u64 \<Rightarrow> 'a Vfs_scheme VfsSuperblockFunctions) \<Rightarrow> u64 \<Rightarrow> u64 \<Rightarrow> 'a Vfs_scheme
    \<Rightarrow> ((Error + u64) \<times> 'a Vfs_scheme) option" where
  "vfsSuperReadNode SF sb id' s =
     (let root = sb_root_node (vsupers s sb) in
      if id' = st_id (stat_of s root) then do { s \<leftarrow> vfsSuperCopyNode root s; Some (Inr root, s) }
      else do {
        (node, s) \<leftarrow> vfsCacheGetNodeOrLock sb (sb_id (vsupers s sb), id') s;
        if node \<noteq> 0 then Some (Inr node, s)
        else case sf_read_node (SF sb) sb id' s of
          (Inl e, s) \<Rightarrow> Some (Inl e, s)
        | (Inr node, s) \<Rightarrow> do {
            cassert (n_ref_count (vnodes s node) = 0);
            s \<leftarrow> vfsSuperCopyNode node s;
            Some (Inr node, s) } })"

definition vfsSuperNewNode :: "(u64 \<Rightarrow> 'a Vfs_scheme VfsSuperblockFunctions) \<Rightarrow> u64 \<Rightarrow> 'a Vfs_scheme \<Rightarrow> ((Error + u64) \<times> 'a Vfs_scheme) option" where
  "vfsSuperNewNode SF sb s =
     (case sf_new_node (SF sb) sb s of
        (Inl e, s) \<Rightarrow> Some (Inl e, s)
      | (Inr new_id, s) \<Rightarrow> vfsSuperReadNode SF sb new_id s)"

definition vfsSuperFreeNode :: "(u64 \<Rightarrow> 'a Vfs_scheme VfsNodeFunctions) \<Rightarrow> (u64 \<Rightarrow> 'a Vfs_scheme VfsSuperblockFunctions) \<Rightarrow> u64
    \<Rightarrow> 'a Vfs_scheme \<Rightarrow> ((Error + unit) \<times> 'a Vfs_scheme) option" where
  "vfsSuperFreeNode F SF node s = do {
     cassert (n_super (vnodes s node) \<noteq> 0);
     Some (checked (vfsNodeTrunc F node None 0 s) (\<lambda>_ s. sf_free_node (SF (n_super (vnodes s node))) (n_super (vnodes s node)) node s)) }"

definition vfsSuperCloseNode :: "(u64 \<Rightarrow> 'a Vfs_scheme VfsNodeFunctions) \<Rightarrow> (u64 \<Rightarrow> 'a Vfs_scheme VfsSuperblockFunctions) \<Rightarrow> u64
    \<Rightarrow> 'a Vfs_scheme \<Rightarrow> ((Error + unit) \<times> 'a Vfs_scheme) option" where
  "vfsSuperCloseNode F SF node s =
     (let sb = n_super (vnodes s node) in
      if sb = 0 then
        (let s = set_refs node (n_ref_count (vnodes s node) - 1) s
         in Some (Inr (), if n_ref_count (vnodes s node) = 0 then fn_free (fns F s node) node s else s))
      else do {
        (refs, s) \<leftarrow> vfsCacheCloseNode sb node s;
        if refs \<noteq> 0 then Some (Inr (), s)
        else if sb_root_node (vsupers s sb) = node then do { s \<leftarrow> vfsSuperClose F SF sb s; Some (Inr (), s) }
        else do {
          (r, s) \<leftarrow> (if st_nlinks (stat_of s node) = 0 then vfsSuperFreeNode F SF node s else Some (Inr (), s));
          (case r of
             Inl e \<Rightarrow> Some (Inl e, s)
           | Inr _ \<Rightarrow> do {
               let (err, s) = (if n_dirty (vnodes s node) then sf_write_node (SF (n_super (vnodes s node))) (n_super (vnodes s node)) node s else (Inr (), s));
               let s = fn_free (fns F s node) node s;
               s \<leftarrow> vfsSuperClose F SF sb s;
               Some (err, s) }) } })"

subsection \<open>The table holds a set of nodes\<close>

definition opt_hash :: "(u64 \<times> u64) option \<Rightarrow> nat" where
  "opt_hash k = (case k of None \<Rightarrow> 0 | Some k \<Rightarrow> vfsNodeKeyHash k)"

definition slot_key :: "(u64 \<Rightarrow> u64 \<times> u64) \<Rightarrow> u64 list \<Rightarrow> nat \<Rightarrow> (u64 \<times> u64) option" where
  "slot_key key ns i = (if isIndexValid ns i then Some (key (ns ! i)) else None)"

definition held :: "u64 list \<Rightarrow> u64 set" where
  "held ns = {ns ! i | i. i < length ns \<and> isIndexValid ns i}"

definition table_holds :: "(u64 \<Rightarrow> u64 \<times> u64) \<Rightarrow> u64 list \<Rightarrow> u64 set \<Rightarrow> bool" where
  "table_holds key ns S \<longleftrightarrow> probing opt_hash (length ns) (slot_key key ns) (isIndexValid ns) (\<lambda>i. ns ! i \<noteq> 0) \<and> held ns = S"

definition cache_rel :: "(u64 \<Rightarrow> u64 \<times> u64) \<Rightarrow> VfsNodeCache \<Rightarrow> u64 set \<Rightarrow> bool" where
  "cache_rel key c S \<longleftrightarrow> table_holds key (nc_nodes c) S \<and> nc_capacity c = length (nc_nodes c) \<and> nc_count c = card S"

lemma held_valid: "n \<in> held ns \<Longrightarrow> n \<noteq> 0 \<and> n \<noteq> 1"
  by (auto simp: held_def isIndexValid_def)

lemma held_finite: "finite (held ns)"
proof -
  have "held ns \<subseteq> set ns" by (auto simp: held_def)
  then show ?thesis using finite_subset by blast
qed

lemma table_slot: "table_holds key ns S \<Longrightarrow> n \<in> S \<Longrightarrow> \<exists>i<length ns. ns ! i = n \<and> isIndexValid ns i"
  by (auto simp: table_holds_def held_def)

lemma table_unique:
  assumes "table_holds key ns S" "i < length ns" "isIndexValid ns i" "j < length ns" "isIndexValid ns j" "key (ns ! i) = key (ns ! j)"
  shows "i = j"
  using probing_unique [of opt_hash "length ns" "slot_key key ns" _ _ i j] assms by (auto simp: table_holds_def slot_key_def)

lemma held_mem: "i < length ns \<Longrightarrow> isIndexValid ns i \<Longrightarrow> ns ! i \<in> held ns"
  by (auto simp: held_def)

lemma table_key_inj:
  assumes "table_holds key ns S"
  shows "inj_on key S"
proof (rule inj_onI)
  fix m n assume h: "m \<in> S" "n \<in> S" "key m = key n"
  obtain i j where "i < length ns" "ns ! i = m" "isIndexValid ns i" "j < length ns" "ns ! j = n" "isIndexValid ns j"
    using table_slot [OF assms h(1)] table_slot [OF assms h(2)] by blast
  then show "m = n" using table_unique [OF assms, of i j] h(3) by simp
qed

lemma table_free:
  assumes "table_holds key ns S" "card S < length ns"
  shows "\<exists>i<length ns. \<not> isIndexValid ns i"
proof (rule ccontr)
  assume a: "\<not> ?thesis"
  then have "S = (\<lambda>i. ns ! i) ` {..<length ns}" using assms(1) by (auto simp: table_holds_def held_def)
  moreover have "inj_on (\<lambda>i. ns ! i) {..<length ns}" using a table_unique [OF assms(1)] by (auto intro!: inj_onI)
  ultimately show False using assms(2) card_image by fastforce
qed

lemma update_slots:
  assumes "idx < length ns" "n \<noteq> 0" "n \<noteq> 1"
  shows "isIndexValid (ns[idx := n]) = (isIndexValid ns)(idx := True)" "slot_key key (ns[idx := n]) = (slot_key key ns)(idx := Some (key n))"
    "(\<lambda>i. ns[idx := n] ! i \<noteq> 0) = (\<lambda>i. ns ! i \<noteq> 0)(idx := True)"
  using assms by (auto simp: fun_eq_iff isIndexValid_def slot_key_def nth_list_update)

lemma clear_slots:
  assumes "idx < length ns"
  shows "isIndexValid (ns[idx := 1]) = (isIndexValid ns)(idx := False)" "slot_key key (ns[idx := 1]) = (slot_key key ns)(idx := None)"
  using assms by (auto simp: fun_eq_iff isIndexValid_def slot_key_def nth_list_update)

lemma held_update: "idx < length ns \<Longrightarrow> \<not> isIndexValid ns idx \<Longrightarrow> n \<noteq> 0 \<Longrightarrow> n \<noteq> 1 \<Longrightarrow> held (ns[idx := n]) = insert n (held ns)"
proof -
  assume h: "idx < length ns" "\<not> isIndexValid ns idx" "n \<noteq> 0" "n \<noteq> 1"
  have "x \<in> held (ns[idx := n]) \<longleftrightarrow> x \<in> insert n (held ns)" for x
    unfolding held_def mem_Collect_eq insert_iff update_slots [OF h(1,3,4)] length_list_update
    using h by (metis fun_upd_apply nth_list_update_eq nth_list_update_neq)
  then show ?thesis by blast
qed

lemma table_insert_node:
  assumes ok: "table_holds key ns S" and n: "n \<noteq> 0" "n \<noteq> 1" and new: "key n \<notin> key ` S" and room: "card S < length ns"
  shows "\<exists>idx. insertIndexHashTable key ns (length ns) n = Some idx \<and> idx < length ns \<and> \<not> isIndexValid ns idx \<and> table_holds key (ns[idx := n]) (insert n S)"
proof -
  have p: "probing opt_hash (length ns) (slot_key key ns) (isIndexValid ns) (\<lambda>i. ns ! i \<noteq> 0)" "held ns = S" using ok by (auto simp: table_holds_def)
  have "\<forall>i<length ns. isIndexValid ns i \<longrightarrow> slot_key key ns i \<noteq> Some (key n)"
    using new held_mem [of _ ns] unfolding p(2) slot_key_def by (metis imageI option.inject)
  moreover have "continueInsertSearch key ns n idx \<longleftrightarrow> slot_key key ns idx \<noteq> Some (key n) \<and> isIndexValid ns idx" for idx
    by (auto simp: continueInsertSearch_def slot_key_def)
  ultimately obtain idx where i: "probe_free (continueInsertSearch key ns n) (length ns) (opt_hash (Some (key n)) mod length ns) = Some idx" "idx < length ns"
    "\<not> isIndexValid ns idx" "probing opt_hash (length ns) ((slot_key key ns)(idx := Some (key n))) ((isIndexValid ns)(idx := True)) ((\<lambda>i. ns ! i \<noteq> 0)(idx := True))"
    using probing_insert [OF p(1) table_free [OF ok room], of "Some (key n)" "continueInsertSearch key ns n"] by blast
  have "table_holds key (ns[idx := n]) (insert n S)"
    using i(4) held_update [OF i(2,3) n] p(2) unfolding table_holds_def update_slots [OF i(2) n] by simp
  then show ?thesis using i(1-3) by (auto simp: insertIndexHashTable_def opt_hash_def)
qed

lemma table_remove_node:
  assumes ok: "table_holds key ns S" and i: "i < length ns" "isIndexValid ns i"
  shows "table_holds key (ns[i := 1]) (S - {ns ! i})"
proof -
  have p: "probing opt_hash (length ns) (slot_key key ns) (isIndexValid ns) (\<lambda>i. ns ! i \<noteq> 0)" "held ns = S" using ok by (auto simp: table_holds_def)
  have u: "(\<lambda>j. ns[i := 1] ! j \<noteq> 0) = (\<lambda>j. ns ! j \<noteq> 0)" using i by (auto simp: fun_eq_iff nth_list_update isIndexValid_def)
  have "probing opt_hash (length ns) ((slot_key key ns)(i := None)) ((isIndexValid ns)(i := False)) (\<lambda>i. ns ! i \<noteq> 0)"
    by (rule probing_retire [OF p(1)]) (use i in \<open>auto simp: slot_key_def isIndexValid_def\<close>)
  moreover have "held (ns[i := 1]) = S - {ns ! i}"
  proof -
    have "x \<in> held (ns[i := 1]) \<longleftrightarrow> x \<in> held ns \<and> x \<noteq> ns ! i" for x
      unfolding held_def mem_Collect_eq clear_slots [OF i(1)] length_list_update
      using i table_unique [OF ok] by (metis fun_upd_apply nth_list_update_neq)
    then show ?thesis using p(2) by blast
  qed
  ultimately show ?thesis unfolding table_holds_def clear_slots [OF i(1)] u length_list_update by simp
qed

text \<open>Moving an entry to a deleted slot that its search passes first.\<close>

lemma probe_inj: "start < cap \<Longrightarrow> i < cap \<Longrightarrow> j < cap \<Longrightarrow> probe cap start i = probe cap start j \<Longrightarrow> i = j"
proof (induction i j rule: linorder_wlog)
  case (le i j)
  then have "(start + i) mod cap = (start + j) mod cap" by (simp add: probe_def)
  then have "cap dvd (start + j) - (start + i)" using le by (metis mod_eq_dvd_iff_nat nat_add_left_cancel_le)
  then have "cap dvd j - i" by simp
  then show ?case using le by (metis diff_is_0_eq dual_order.antisym dvd_imp_le less_imp_diff_less linorder_not_less neq0_conv)
qed auto

lemma table_move:
  assumes ok: "table_holds key ns S" and d: "d < length ns" "d' < d" and st: "start = vfsNodeKeyHash k mod length ns"
    and i: "i = probe (length ns) start d" "isIndexValid ns i" "key (ns ! i) = k" and f: "f = probe (length ns) start d'" "ns ! f = 1"
    and before: "\<forall>j<d. ns ! probe (length ns) start j \<noteq> 0 \<and> slot_key key ns (probe (length ns) start j) \<noteq> Some k"
  shows "table_holds key (ns[f := ns ! i, i := 1]) S"
proof -
  let ?n = "length ns" and ?ms = "ns[f := ns ! i, i := 1]"
  have p: "probing opt_hash ?n (slot_key key ns) (isIndexValid ns) (\<lambda>i. ns ! i \<noteq> 0)" "held ns = S" using ok by (auto simp: table_holds_def)
  have pos: "0 < ?n" using d(1) by linarith
  have fi: "f \<noteq> i" "f < ?n" "i < ?n" using f i pos by (auto simp: isIndexValid_def)
  have ni: "ns ! i \<noteq> 0" "ns ! i \<noteq> 1" using i(2) by (auto simp: isIndexValid_def)
  have live: "isIndexValid ?ms = (isIndexValid ns)(f := True, i := False)"
    and K: "slot_key key ?ms = (slot_key key ns)(f := Some k, i := None)" and used: "(\<lambda>j. ?ms ! j \<noteq> 0) = (\<lambda>j. ns ! j \<noteq> 0)"
    using fi ni f(2) i(3) by (auto simp: fun_eq_iff isIndexValid_def slot_key_def nth_list_update)
  have r: "reaches opt_hash ?n (slot_key key ?ms) (\<lambda>j. ns ! j \<noteq> 0) (slot_key key ?ms j) j" if j: "j < ?n" "isIndexValid ?ms j" for j
  proof (cases "j = f")
    case True
    have "j = probe ?n (opt_hash (Some k) mod ?n) d'" using True f st by (simp add: opt_hash_def)
    moreover have "ns ! probe ?n start m \<noteq> 0 \<and> slot_key key ?ms (probe ?n start m) \<noteq> Some k" if "m < d'" for m
    proof -
      have "probe ?n start m \<noteq> f" using probe_inj [of start ?n m d'] that d st pos f(1) by auto
      then show ?thesis using before that d unfolding K by auto
    qed
    moreover have "slot_key key ?ms j = Some k" using True fi unfolding K by simp
    moreover have "opt_hash (Some k) mod ?n = start" by (simp add: opt_hash_def st)
    ultimately show ?thesis unfolding reaches_def using d by (intro exI [of _ d']) auto
  next
    case False
    then have lv: "isIndexValid ns j" "j \<noteq> i" using j(2) unfolding live by (auto split: if_splits)
    then have "reaches opt_hash ?n (slot_key key ns) (\<lambda>j. ns ! j \<noteq> 0) (slot_key key ns j) j" using p(1) j(1) by (simp add: probing_def)
    moreover have "key (ns ! j) \<noteq> k" using table_unique [OF ok j(1) lv(1) fi(3) i(2)] lv(2) i(3) by auto
    ultimately show ?thesis using False lv unfolding reaches_def K by (fastforce simp: slot_key_def)
  qed
  have "probing opt_hash ?n (slot_key key ?ms) (isIndexValid ?ms) (\<lambda>j. ?ms ! j \<noteq> 0)"
    unfolding probing_def used
  proof (intro allI impI conjI)
    fix j assume j: "j < ?n" "isIndexValid ?ms j"
    then have "?ms ! j \<noteq> 0" by (simp add: isIndexValid_def)
    then show "ns ! j \<noteq> 0" using used by (metis (no_types))
    show "reaches opt_hash ?n (slot_key key ?ms) (\<lambda>j. ns ! j \<noteq> 0) (slot_key key ?ms j) j" by (rule r [OF j])
  qed
  moreover have "held ?ms = S"
  proof -
    have "held (ns[f := ns ! i]) = insert (ns ! i) S" using held_update [of f ns "ns ! i"] fi ni f(2) p(2) by (simp add: isIndexValid_def)
    have "x \<in> held ?ms \<longleftrightarrow> x \<in> held ns" for x
      unfolding held_def mem_Collect_eq live length_list_update
      using fi f(2) i(2) by (auto simp: nth_list_update isIndexValid_def split: if_splits) metis+
    then show ?thesis using p(2) by blast
  qed
  ultimately show ?thesis by (simp add: table_holds_def)
qed

subsection \<open>Searching\<close>

lemma continueSearch_slot: "continueSearch key ns k i \<longleftrightarrow> ns ! i \<noteq> 0 \<and> slot_key key ns i \<noteq> Some k"
  by (auto simp: continueSearch_def slot_key_def isIndexValid_def)

lemma find_loop_steps:
  assumes "start < cap" "d < cap" "\<forall>j<d. continueSearch key ns k (probe cap start j)"
  shows "\<exists>ff. find_loop key k ns cap start start None = find_loop key k ns cap start (probe cap start d) ff
    \<and> (ff = None \<or> (\<exists>d'<d. ff = Some (probe cap start d') \<and> ns ! probe cap start d' = 1))"
  using assms(2,3)
proof (induction d)
  case 0
  then show ?case using assms(1) by auto
next
  case (Suc d)
  then obtain ff where ff: "find_loop key k ns cap start start None = find_loop key k ns cap start (probe cap start d) ff"
    "ff = None \<or> (\<exists>d'<d. ff = Some (probe cap start d') \<and> ns ! probe cap start d' = 1)" by auto
  let ?i = "probe cap start d" and ?f = "if ns ! probe cap start d = 1 then Some (probe cap start d) else ff"
  have "probe cap start (Suc d) \<noteq> start" using probe_eq_start [OF assms(1) Suc.prems(1)] by simp
  then have "find_loop key k ns cap start ?i ff = find_loop key k ns cap start (probe cap start (Suc d)) ?f"
    using Suc.prems(2) unfolding find_loop.simps [of key k ns cap start ?i] Let_def probe_Suc by simp
  from trans [OF ff(1) this]
  have a: "find_loop key k ns cap start start None = find_loop key k ns cap start (probe cap start (Suc d)) ?f" .
  have b: "?f = None \<or> (\<exists>d'<Suc d. ?f = Some (probe cap start d') \<and> ns ! probe cap start d' = 1)"
    using ff(2) less_Suc_eq by auto
  show ?case by (rule exI [of _ ?f], rule conjI [OF a b])
qed

lemma find_present:
  assumes ok: "table_holds key ns S" and n: "n \<in> S" "key n = k" and st: "start = vfsNodeKeyHash k mod length ns"
  shows "\<exists>i ms. find_loop key k ns (length ns) start start None = Some (Some i, ms) \<and> i < length ms \<and> ms ! i = n \<and> length ms = length ns \<and> table_holds key ms S"
proof -
  obtain i where i: "i < length ns" "ns ! i = n" "isIndexValid ns i" using table_slot [OF ok n(1)] by blast
  then have "reaches opt_hash (length ns) (slot_key key ns) (\<lambda>i. ns ! i \<noteq> 0) (Some k) i" using ok n(2) by (auto simp: table_holds_def probing_def slot_key_def)
  then obtain d where d: "d < length ns" "i = probe (length ns) start d"
    "\<forall>j<d. ns ! probe (length ns) start j \<noteq> 0 \<and> slot_key key ns (probe (length ns) start j) \<noteq> Some k"
    using st by (auto simp: reaches_def opt_hash_def)
  have pos: "0 < length ns" using i(1) by linarith
  then have s: "start < length ns" by (simp add: st)
  obtain ff where ff: "find_loop key k ns (length ns) start start None = find_loop key k ns (length ns) start i ff"
    "ff = None \<or> (\<exists>d'<d. ff = Some (probe (length ns) start d') \<and> ns ! probe (length ns) start d' = 1)"
    using find_loop_steps [OF s d(1), of key ns k] d(2,3) by (auto simp: continueSearch_slot)
  have nc: "\<not> continueSearch key ns k i" using i n(2) by (simp add: continueSearch_slot slot_key_def)
  have v: "ns ! i \<noteq> 0" "ns ! i \<noteq> 1" using i(3) by (auto simp: isIndexValid_def)
  show ?thesis
  proof (cases ff)
    case None
    then have "find_loop key k ns (length ns) start start None = Some (Some i, ns)" using ff(1) nc v by (simp add: find_loop.simps [of _ _ _ _ _ i])
    then show ?thesis using i ok by auto
  next
    case (Some f)
    then obtain d' where d': "d' < d" "f = probe (length ns) start d'" "ns ! f = 1" using ff(2) by auto
    have fl: "f < length ns" "f \<noteq> i" using d' probe_less [OF pos] v by auto
    have "find_loop key k ns (length ns) start start None = Some (Some f, ns[f := ns ! i, i := 1])"
      using ff(1) nc v Some by (simp add: find_loop.simps [of _ _ _ _ _ i])
    moreover have "table_holds key (ns[f := ns ! i, i := 1]) S"
      using table_move [OF ok d(1) d'(1) st d(2) i(3) _ d'(2,3) d(3)] i(2) n(2) by simp
    ultimately show ?thesis using fl i by simp
  qed
qed

lemma find_absent:
  assumes ok: "table_holds key ns S" and n: "k \<notin> key ` S" and st: "start = vfsNodeKeyHash k mod length ns" and pos: "0 < length ns"
  shows "find_loop key k ns (length ns) start start None = Some (None, ns)"
proof -
  have s: "start < length ns" using st pos by simp
  have z: "ns ! i = 0" if "i < length ns" "\<not> continueSearch key ns k i" for i
    using that n ok held_mem [of i ns] by (auto simp: continueSearch_slot slot_key_def table_holds_def split: if_splits)
  show ?thesis
  proof (cases "\<exists>j<length ns. \<not> continueSearch key ns k (probe (length ns) start j)")
    case True
    then obtain d where d: "d < length ns" "\<not> continueSearch key ns k (probe (length ns) start d)" "\<forall>j<d. continueSearch key ns k (probe (length ns) start j)"
      by (rule first_stop)
    obtain ff where "find_loop key k ns (length ns) start start None = find_loop key k ns (length ns) start (probe (length ns) start d) ff"
      using find_loop_steps [OF s d(1,3)] by blast
    moreover have "ns ! probe (length ns) start d = 0" using z d pos by simp
    ultimately show ?thesis using d(2) by (simp add: find_loop.simps [of _ _ _ _ _ "probe (length ns) start d"])
  next
    case False
    let ?d = "length ns - 1"
    have d: "?d < length ns" using pos by simp
    obtain ff where ff: "find_loop key k ns (length ns) start start None = find_loop key k ns (length ns) start (probe (length ns) start ?d) ff"
      using find_loop_steps [OF s d, of key ns k] False by auto
    have c: "continueSearch key ns k (probe (length ns) start ?d)" using False d by blast
    have "(probe (length ns) start ?d + 1) mod length ns = start" unfolding probe_Suc using pos probe_cap [OF s] by simp
    then show ?thesis unfolding ff find_loop.simps [of key k ns _ _ "probe (length ns) start ?d"] using c by simp
  qed
qed

lemma cache_find:
  assumes "cache_rel key c S"
  shows "\<exists>r c'. findIndexHashTable key c k = Some (r, c') \<and> cache_rel key c' S
    \<and> (case r of None \<Rightarrow> k \<notin> key ` S | Some i \<Rightarrow> i < length (nc_nodes c') \<and> nc_nodes c' ! i \<in> S \<and> key (nc_nodes c' ! i) = k)"
proof -
  have c: "table_holds key (nc_nodes c) S" "nc_capacity c = length (nc_nodes c)" "nc_count c = card S" "finite S"
    using assms held_finite by (auto simp: cache_rel_def table_holds_def)
  show ?thesis
  proof (cases "S = {}")
    case True
    then show ?thesis using assms c by (simp add: findIndexHashTable_def)
  next
    case False
    then have n0: "nc_count c \<noteq> 0" "0 < length (nc_nodes c)" using c table_slot by (auto simp: card_eq_0_iff) fastforce
    show ?thesis
    proof (cases "k \<in> key ` S")
      case True
      then obtain n where n: "n \<in> S" "key n = k" by auto
      from find_present [OF c(1) n refl] obtain i ms where "find_loop key k (nc_nodes c) (length (nc_nodes c)) (vfsNodeKeyHash k mod length (nc_nodes c)) (vfsNodeKeyHash k mod length (nc_nodes c)) None = Some (Some i, ms)"
        "i < length ms" "ms ! i = n" "length ms = length (nc_nodes c)" "table_holds key ms S" by blast
      then show ?thesis using n n0 c by (simp add: findIndexHashTable_def cache_rel_def Let_def)
    next
      case False
      from find_absent [OF c(1) False refl n0(2)] show ?thesis using False n0 c by (simp add: findIndexHashTable_def cache_rel_def Let_def)
    qed
  qed
qed

subsection \<open>Rebuilding and inserting\<close>

lemma rebuild_loop:
  assumes ok: "table_holds key ns S" and room: "card S < n"
    and "table_holds key new T" "length new = n" "T \<subseteq> S" "distinct is" "\<forall>i \<in> set is. i < length ns \<and> (isIndexValid ns i \<longrightarrow> ns ! i \<notin> T)"
  shows "\<exists>new'. rebuildHashTable_loop key ns n is new = Some new' \<and> length new' = n
    \<and> table_holds key new' (T \<union> {ns ! i | i. i \<in> set is \<and> isIndexValid ns i})"
  using assms(3-)
proof (induction "is" arbitrary: new T)
  case Nil
  then show ?case by simp
next
  case (Cons i js)
  show ?case
  proof (cases "isIndexValid ns i")
    case False
    then have "{ns ! j |j. j \<in> set (i # js) \<and> isIndexValid ns j} = {ns ! j |j. j \<in> set js \<and> isIndexValid ns j}" by auto
    then show ?thesis using Cons.IH [OF Cons.prems(1-3)] Cons.prems(4,5) False by simp
  next
    case True
    have i: "i < length ns" "ns ! i \<in> S" "ns ! i \<notin> T" using Cons.prems(5) True held_mem [of i ns] ok by (auto simp: table_holds_def)
    have fin: "finite S" using ok held_finite by (auto simp: table_holds_def)
    have c: "card T < n" using card_mono [OF fin Cons.prems(3)] room by simp
    have new: "key (ns ! i) \<notin> key ` T" using table_key_inj [OF ok] i Cons.prems(3) by (auto dest: inj_onD)
    have nz: "ns ! i \<noteq> 0" "ns ! i \<noteq> 1" using True by (auto simp: isIndexValid_def)
    obtain idx where idx: "insertIndexHashTable key new n (ns ! i) = Some idx" "table_holds key (new[idx := ns ! i]) (insert (ns ! i) T)"
      using table_insert_node [OF Cons.prems(1) nz new] c Cons.prems(2) by auto
    have "\<forall>j \<in> set js. j < length ns \<and> (isIndexValid ns j \<longrightarrow> ns ! j \<notin> insert (ns ! i) T)"
    proof (intro ballI conjI impI)
      fix j assume j: "j \<in> set js"
      show "j < length ns" using Cons.prems(5) j by simp
      assume v: "isIndexValid ns j"
      have "j \<noteq> i" using Cons.prems(4) j by auto
      then have "ns ! j \<noteq> ns ! i" using table_unique [OF ok, of j i] Cons.prems(5) j v True i(1) by auto
      then show "ns ! j \<notin> insert (ns ! i) T" using Cons.prems(5) j v by simp
    qed
    then obtain new' where n': "rebuildHashTable_loop key ns n js (new[idx := ns ! i]) = Some new'" "length new' = n"
      "table_holds key new' (insert (ns ! i) T \<union> {ns ! j |j. j \<in> set js \<and> isIndexValid ns j})"
      using Cons.IH [OF idx(2)] Cons.prems i by auto
    have "T \<union> {ns ! j |j. j \<in> set (i # js) \<and> isIndexValid ns j} = insert (ns ! i) T \<union> {ns ! j |j. j \<in> set js \<and> isIndexValid ns j}" using True by auto
    then show ?thesis using True idx(1) n' by simp
  qed
qed

lemma rebuild_holds:
  assumes "cache_rel key c S" "card S < n"
  shows "\<exists>c'. rebuildHashTable key c n = Some c' \<and> cache_rel key c' S \<and> nc_capacity c' = n"
proof -
  have c: "table_holds key (nc_nodes c) S" "nc_capacity c = length (nc_nodes c)" "nc_count c = card S" using assms(1) by (auto simp: cache_rel_def)
  have e: "table_holds key (replicate n 0) {}" by (auto simp: table_holds_def held_def isIndexValid_def probing_def)
  obtain new where "rebuildHashTable_loop key (nc_nodes c) n [0..<length (nc_nodes c)] (replicate n 0) = Some new" "length new = n"
    "table_holds key new {nc_nodes c ! i | i. i < length (nc_nodes c) \<and> isIndexValid (nc_nodes c) i}"
    using rebuild_loop [OF c(1) assms(2) e, of "[0..<length (nc_nodes c)]"] by auto
  moreover have "{nc_nodes c ! i | i. i < length (nc_nodes c) \<and> isIndexValid (nc_nodes c) i} = S" using c(1) by (simp add: table_holds_def held_def)
  ultimately show ?thesis using c by (simp add: rebuildHashTable_def cache_rel_def)
qed

lemma resize_holds:
  assumes "cache_rel key c S"
  shows "\<exists>c'. testForResizeCache key c = Some c' \<and> cache_rel key c' S \<and> card S < nc_capacity c'"
proof -
  have r: "\<exists>c'. rebuildHashTable key c n = Some c' \<and> cache_rel key c' S \<and> card S < nc_capacity c'" if "nc_count c < n" for n
    using rebuild_holds [OF assms, of n] that assms by (auto simp: cache_rel_def)
  have cnt: "nc_count c = card S" using assms by (simp add: cache_rel_def)
  have "nc_count c \<le> nc_capacity c"
  proof -
    have "held (nc_nodes c) \<subseteq> (\<lambda>i. nc_nodes c ! i) ` {..<length (nc_nodes c)}" by (auto simp: held_def)
    then have "card (held (nc_nodes c)) \<le> length (nc_nodes c)" by (metis card_lessThan finite_lessThan surj_card_le)
    then show ?thesis using assms by (auto simp: cache_rel_def table_holds_def)
  qed
  then have "nc_capacity c < 32 \<Longrightarrow> nc_count c < 32" "nc_capacity c > 32 \<Longrightarrow> nc_count c * 4 < nc_capacity c \<Longrightarrow> nc_count c < nc_capacity c div 2"
    "nc_capacity c \<ge> 32 \<Longrightarrow> nc_count c < nc_capacity c + nc_capacity c div 2" by linarith+
  moreover have "nc_capacity c \<ge> 32 \<Longrightarrow> \<not> nc_count c * 3 > nc_capacity c * 2 \<Longrightarrow> card S < nc_capacity c" unfolding cnt by linarith
  ultimately show ?thesis unfolding testForResizeCache_def MIN_CACHE_CAPACITY_def using assms by (auto intro!: r)
qed

lemma cache_insert:
  assumes "cache_rel key c S" "n \<noteq> 0" "n \<noteq> 1" "key n \<notin> key ` S"
  shows "\<exists>c'. vfsCacheInsertNewNode key c n = Some c' \<and> cache_rel key c' (insert n S)"
proof -
  obtain c1 where c1: "testForResizeCache key c = Some c1" "cache_rel key c1 S" "card S < nc_capacity c1" using resize_holds [OF assms(1)] by blast
  then have h: "table_holds key (nc_nodes c1) S" "nc_capacity c1 = length (nc_nodes c1)" "nc_count c1 = card S" by (auto simp: cache_rel_def)
  obtain idx where i: "insertIndexHashTable key (nc_nodes c1) (length (nc_nodes c1)) n = Some idx" "\<not> isIndexValid (nc_nodes c1) idx"
    "table_holds key ((nc_nodes c1)[idx := n]) (insert n S)"
    using table_insert_node [OF h(1) assms(2-4)] c1(3) h(2) by auto
  have "n \<notin> S" "finite S" using assms(4) held_finite h(1) by (auto simp: table_holds_def)
  then show ?thesis using c1(1) i h by (auto simp: vfsCacheInsertNewNode_def cache_rel_def isIndexValid_def cassert_def)
qed

lemma cache_remove:
  assumes "cache_rel key c S" "i < length (nc_nodes c)" "nc_nodes c ! i = n" "n \<in> S"
  shows "cache_rel key (c\<lparr>nc_nodes := (nc_nodes c)[i := 1], nc_count := nc_count c - 1\<rparr>) (S - {n})"
proof -
  have h: "table_holds key (nc_nodes c) S" "finite S" using assms(1) held_finite by (auto simp: cache_rel_def table_holds_def)
  then have v: "isIndexValid (nc_nodes c) i" using assms(3,4) held_valid [of n "nc_nodes c"] by (auto simp: isIndexValid_def table_holds_def)
  show ?thesis using table_remove_node [OF h(1) assms(2) v] assms h(2) by (simp add: cache_rel_def)
qed

subsection \<open>Nodes in use are the nodes in the cache\<close>

definition in_use :: "'a Vfs_scheme \<Rightarrow> u64 \<Rightarrow> u64 set" where
  "in_use s sb = {n. n_super (vnodes s n) = sb \<and> n_ref_count (vnodes s n) \<noteq> 0}"

definition cache_inv :: "'a Vfs_scheme \<Rightarrow> u64 \<Rightarrow> bool" where
  "cache_inv s sb \<longleftrightarrow> cache_rel (node_key s) (cache_of s sb) (in_use s sb)"

lemma node_key_frame [simp]: "node_key (set_refs n r s) = node_key s" "node_key (set_cache sb c s) = node_key s"
  "node_key (upd_super sb (\<lambda>b. b\<lparr>sb_ref_count := x b\<rparr>) s) = node_key s"
  by (auto simp: node_key_def set_refs_def set_cache_def upd_node_def upd_super_def fun_eq_iff)

lemma cache_frame [simp]: "cache_of (set_refs n r s) sb = cache_of s sb" "cache_of (set_cache sb c s) sb = c"
  "vnodes (set_cache sb c s) = vnodes s"
  by (simp_all add: set_refs_def set_cache_def upd_node_def upd_super_def)

lemma in_use_frame: "in_use (set_cache sb c s) sb' = in_use s sb'"
  "n_super (vnodes s n) = sb \<Longrightarrow> in_use (set_refs n r s) sb = (if r = 0 then in_use s sb - {n} else insert n (in_use s sb))"
  by (auto simp: in_use_def set_refs_def set_cache_def upd_node_def upd_super_def)

lemma refs_set [simp]: "n_ref_count (vnodes (set_refs n r s) n) = r"
  by (simp add: set_refs_def upd_node_def)

lemma vfsCacheCopyNode_inv:
  assumes "cache_inv s sb" "n_super (vnodes s n) = sb" "n \<noteq> 0" "n \<noteq> 1" "n_ref_count (vnodes s n) + 1 \<noteq> 0"
    "n_ref_count (vnodes s n) = 0 \<Longrightarrow> node_key s n \<notin> node_key s ` in_use s sb"
  shows "\<exists>s'. vfsCacheCopyNode sb n s = Some (n_ref_count (vnodes s n) + 1, s') \<and> cache_inv s' sb \<and> in_use s' sb = insert n (in_use s sb)"
proof (cases "n_ref_count (vnodes s n) = 0")
  case True
  obtain c where c: "vfsCacheInsertNewNode (node_key s) (cache_of s sb) n = Some c" "cache_rel (node_key s) c (insert n (in_use s sb))"
    using cache_insert [of "node_key s" "cache_of s sb" "in_use s sb" n] assms(1,3,4) assms(6) [OF True] by (auto simp: cache_inv_def)
  show ?thesis using c True assms(2,5) by (simp add: vfsCacheCopyNode_def cache_inv_def in_use_frame)
next
  case False
  then have "insert n (in_use s sb) = in_use s sb" using assms(2) by (auto simp: in_use_def)
  then show ?thesis using False assms(1,2,5) by (simp add: vfsCacheCopyNode_def cache_inv_def in_use_frame)
qed

lemma vfsCacheCloseNode_inv:
  assumes "cache_inv s sb" "n_super (vnodes s n) = sb" "n_ref_count (vnodes s n) \<noteq> 0"
  shows "\<exists>s'. vfsCacheCloseNode sb n s = Some (n_ref_count (vnodes s n) - 1, s') \<and> cache_inv s' sb
    \<and> in_use s' sb = (if n_ref_count (vnodes s n) = 1 then in_use s sb - {n} else in_use s sb)"
proof -
  let ?s = "set_refs n (n_ref_count (vnodes s n) - 1) s"
  have pos: "n_ref_count (vnodes s n) > 0" using assms(3) by (simp add: word_gt_0)
  have n: "n \<in> in_use s sb" using assms(2,3) by (simp add: in_use_def)
  have rel: "cache_rel (node_key s) (cache_of s sb) (in_use s sb)" using assms(1) by (simp add: cache_inv_def)
  show ?thesis
  proof (cases "n_ref_count (vnodes s n) = 1")
    case True
    obtain r c where f: "findIndexHashTable (node_key s) (cache_of s sb) (node_key s n) = Some (r, c)" "cache_rel (node_key s) c (in_use s sb)"
      "case r of None \<Rightarrow> node_key s n \<notin> node_key s ` in_use s sb | Some i \<Rightarrow> i < length (nc_nodes c) \<and> nc_nodes c ! i \<in> in_use s sb \<and> node_key s (nc_nodes c ! i) = node_key s n"
      using cache_find [OF rel] by blast
    then obtain i where i: "r = Some i" "i < length (nc_nodes c)" "nc_nodes c ! i \<in> in_use s sb" "node_key s (nc_nodes c ! i) = node_key s n" using n by (cases r) auto
    have "inj_on (node_key s) (in_use s sb)" using f(2) table_key_inj by (auto simp: cache_rel_def)
    then have "nc_nodes c ! i = n" using i n by (auto dest: inj_onD)
    then show ?thesis using True pos f(1) i cache_remove [OF f(2) i(2) _ n] assms(2)
      by (simp add: vfsCacheCloseNode_def cache_inv_def in_use_frame)
  next
    case False
    then have "n_ref_count (vnodes s n) - 1 \<noteq> 0" by simp
    moreover have "insert n (in_use s sb) = in_use s sb" using n by auto
    ultimately show ?thesis using False pos rel assms(2) by (simp add: vfsCacheCloseNode_def cache_inv_def in_use_frame)
  qed
qed

lemma vfsSuperCopy_frame: "cache_inv (vfsSuperCopy sb s) sb = cache_inv s sb" "in_use (vfsSuperCopy sb s) sb = in_use s sb" "vnodes (vfsSuperCopy sb s) = vnodes s"
proof -
  have "node_key (vfsSuperCopy sb s) = node_key s" by (simp add: vfsSuperCopy_def)
  moreover show "in_use (vfsSuperCopy sb s) sb = in_use s sb" "vnodes (vfsSuperCopy sb s) = vnodes s" by (simp_all add: vfsSuperCopy_def in_use_def upd_super_def)
  moreover have "cache_of (vfsSuperCopy sb s) sb = cache_of s sb" by (simp add: vfsSuperCopy_def upd_super_def)
  ultimately show "cache_inv (vfsSuperCopy sb s) sb = cache_inv s sb" by (simp add: cache_inv_def)
qed

lemma copy_node_refs: "vfsCacheCopyNode sb n s = Some (r, s') \<Longrightarrow> n_ref_count (vnodes s' n) = r"
  by (auto simp: vfsCacheCopyNode_def bind_eq_Some_conv split: if_splits)

lemma vfsSuperCopyNode_inv:
  assumes "cache_inv s sb" "sb \<noteq> 0" "n_super (vnodes s n) = sb" "n \<noteq> 0" "n \<noteq> 1" "n_ref_count (vnodes s n) + 1 \<noteq> 0"
    "n_ref_count (vnodes s n) = 0 \<Longrightarrow> node_key s n \<notin> node_key s ` in_use s sb"
  shows "\<exists>s'. vfsSuperCopyNode n s = Some s' \<and> cache_inv s' sb \<and> in_use s' sb = insert n (in_use s sb) \<and> n_ref_count (vnodes s' n) = n_ref_count (vnodes s n) + 1"
proof -
  obtain s1 where c: "vfsCacheCopyNode sb n s = Some (n_ref_count (vnodes s n) + 1, s1)" "cache_inv s1 sb" "in_use s1 sb = insert n (in_use s sb)"
    using vfsCacheCopyNode_inv [OF assms(1,3-7)] by blast
  then show ?thesis using assms(2,3) copy_node_refs [OF c(1)] by (simp add: vfsSuperCopyNode_def Let_def vfsSuperCopy_frame)
qed

text \<open>
  Property C16 (node_cache_exact). The table of a superblock holds exactly its nodes with references, through resizes,
  deleted slots and the entries that a search moves: a lookup returns the node with the identifiers
  asked for and takes a reference, or nothing if no such node is in use; taking a reference
  to a node and dropping one keep the table exact, and the last drop removes the node.
\<close>

theorem node_cache_exact:
  assumes inv: "cache_inv s sb" and sb: "sb \<noteq> 0" and refs: "\<And>n. n \<in> in_use s sb \<Longrightarrow> n_ref_count (vnodes s n) + 1 \<noteq> 0"
    and n: "n_super (vnodes s n) = sb" "n \<noteq> 0" "n \<noteq> 1" "n_ref_count (vnodes s n) = 0 \<Longrightarrow> node_key s n \<notin> node_key s ` in_use s sb"
  shows "(\<exists>m s'. vfsCacheGetNodeOrLock sb k s = Some (m, s') \<and> cache_inv s' sb \<and> in_use s' sb = in_use s sb
        \<and> (if k \<in> node_key s ` in_use s sb then m \<in> in_use s sb \<and> node_key s m = k \<and> n_ref_count (vnodes s' m) = n_ref_count (vnodes s m) + 1 else m = 0))
    \<and> (\<exists>s'. vfsSuperCopyNode n s = Some s' \<and> cache_inv s' sb \<and> in_use s' sb = insert n (in_use s sb)
        \<and> (\<exists>r s''. vfsCacheCloseNode sb n s' = Some (r, s'') \<and> cache_inv s'' sb \<and> in_use s'' sb = in_use s sb))"
proof
  obtain r c where f: "findIndexHashTable (node_key s) (cache_of s sb) k = Some (r, c)" "cache_rel (node_key s) c (in_use s sb)"
    "case r of None \<Rightarrow> k \<notin> node_key s ` in_use s sb | Some i \<Rightarrow> i < length (nc_nodes c) \<and> nc_nodes c ! i \<in> in_use s sb \<and> node_key s (nc_nodes c ! i) = k"
    using cache_find inv unfolding cache_inv_def by blast
  have s1: "cache_inv (set_cache sb c s) sb" "in_use (set_cache sb c s) sb = in_use s sb" using f(2) by (simp_all add: cache_inv_def in_use_frame)
  show "\<exists>m s'. vfsCacheGetNodeOrLock sb k s = Some (m, s') \<and> cache_inv s' sb \<and> in_use s' sb = in_use s sb
      \<and> (if k \<in> node_key s ` in_use s sb then m \<in> in_use s sb \<and> node_key s m = k \<and> n_ref_count (vnodes s' m) = n_ref_count (vnodes s m) + 1 else m = 0)"
  proof (cases r)
    case None
    then show ?thesis using f(1,3) s1 by (simp add: vfsCacheGetNodeOrLock_def Let_def)
  next
    case (Some i)
    let ?m = "nc_nodes c ! i"
    have m: "?m \<in> in_use s sb" "node_key s ?m = k" using f(3) Some by auto
    then have "?m \<noteq> 0" "?m \<noteq> 1" "n_super (vnodes s ?m) = sb" "n_ref_count (vnodes s ?m) \<noteq> 0"
      using f(2) held_valid by (auto simp: cache_rel_def table_holds_def in_use_def)
    then obtain s' where "vfsSuperCopyNode ?m (set_cache sb c s) = Some s'" "cache_inv s' sb" "in_use s' sb = insert ?m (in_use s sb)"
      "n_ref_count (vnodes s' ?m) = n_ref_count (vnodes s ?m) + 1"
      using vfsSuperCopyNode_inv [OF s1(1) sb, of ?m] refs [OF m(1)] s1(2) by auto
    moreover have "insert ?m (in_use s sb) = in_use s sb" "k \<in> node_key s ` in_use s sb" using m by auto
    ultimately show ?thesis using f(1) Some m by (simp add: vfsCacheGetNodeOrLock_def Let_def)
  qed
next
  have r1: "n_ref_count (vnodes s n) + 1 \<noteq> 0"
    using refs [of n] n(1) by (cases "n_ref_count (vnodes s n) = 0") (simp_all add: in_use_def)
  obtain s' where s': "vfsSuperCopyNode n s = Some s'" "cache_inv s' sb" "in_use s' sb = insert n (in_use s sb)" "n_ref_count (vnodes s' n) = n_ref_count (vnodes s n) + 1"
    using vfsSuperCopyNode_inv [OF inv sb n(1-3) r1 n(4)] by blast
  have "n \<in> in_use s' sb" using s'(3) by simp
  then have u: "n_super (vnodes s' n) = sb" "n_ref_count (vnodes s' n) \<noteq> 0" by (simp_all add: in_use_def)
  obtain s'' where "vfsCacheCloseNode sb n s' = Some (n_ref_count (vnodes s' n) - 1, s'')" "cache_inv s'' sb"
    "in_use s'' sb = (if n_ref_count (vnodes s' n) = 1 then in_use s' sb - {n} else in_use s' sb)"
    using vfsCacheCloseNode_inv [OF s'(2) u] by blast
  moreover have "(if n_ref_count (vnodes s' n) = 1 then in_use s' sb - {n} else in_use s' sb) = in_use s sb"
    unfolding s'(3,4) using n(1) by (auto simp: in_use_def)
  ultimately show "\<exists>s'. vfsSuperCopyNode n s = Some s' \<and> cache_inv s' sb \<and> in_use s' sb = insert n (in_use s sb)
      \<and> (\<exists>r s''. vfsCacheCloseNode sb n s' = Some (r, s'') \<and> cache_inv s'' sb \<and> in_use s'' sb = in_use s sb)"
    using s' by auto
qed

definition fresh_vfs :: Vfs where
  "fresh_vfs = example_vfs\<lparr>vnodes := (\<lambda>n. (vnodes example_vfs n)\<lparr>n_ref_count := 0\<rparr>)\<rparr>"

theorem node_cache_exact_witness:
  "cache_inv fresh_vfs 8 \<and> in_use fresh_vfs 8 = {} \<and> (\<exists>s'. vfsSuperCopyNode 16 fresh_vfs = Some s' \<and> cache_inv s' 8 \<and> in_use s' 8 = {16})"
proof -
  have e: "in_use fresh_vfs 8 = {}" by (simp add: in_use_def fresh_vfs_def)
  have c: "cache_of fresh_vfs 8 = vfsCacheInit" by (simp add: fresh_vfs_def example_vfs_def vfsCacheInit_def)
  have i: "cache_inv fresh_vfs 8"
    unfolding cache_inv_def e c by (simp add: cache_rel_def table_holds_def vfsCacheInit_def held_def probing_def)
  have n: "n_super (vnodes fresh_vfs 16) = 8" by (simp add: fresh_vfs_def example_vfs_def)
  show ?thesis using node_cache_exact [OF i _ _ n, of "(0, 0)"] e i by auto
qed

end
