(* ===== verification/TaskLock.thy ===== *)
theory TaskLock
  imports SchedInv
begin

text \<open>
  Model of kernel/src/task/tasklock.c: reentrant locks on which tasks wait in the scheduler. A task that finds
  the lock taken joins the waiting list of the scheduler and the queue of the lock; the last
  unlock wakes every task of the queue, and they compete for the lock again.

  The operations run in a critical section under the spin lock \<open>unsafelock\<close> of the lock, so each is one step.
  \<open>lockTaskLock\<close> here is one turn of its loop, up to its return (\<open>True\<close>) or up to \<open>runNextTask\<close>
  (\<open>False\<close>); a task that runs again after it waited starts the next turn. \<open>num_locks\<close> does
  not overflow. The list of held locks and the call sites that debug builds record are omitted.
\<close>

record TaskLock =
  locked_by :: u64
  num_locks :: nat
  wait_queue :: u64

record LockSched = Sched +
  locks :: "u64 \<Rightarrow> TaskLock"

definition set_lock :: "u64 \<Rightarrow> TaskLock \<Rightarrow> 'a LockSched_scheme \<Rightarrow> 'a LockSched_scheme" where
  "set_lock l v s = s\<lparr>locks := (locks s)(l := v)\<rparr>"

definition initTaskLock :: "u64 \<Rightarrow> 'a LockSched_scheme \<Rightarrow> 'a LockSched_scheme" where
  "initTaskLock l s = set_lock l \<lparr>locked_by = 0, num_locks = 0, wait_queue = 0\<rparr> s"

definition waitForTaskLock :: "(u64 \<Rightarrow> 'a LockSched_scheme \<Rightarrow> 'a LockSched_scheme option) \<Rightarrow> u64 \<Rightarrow> u64 \<Rightarrow> u64 \<Rightarrow> 'a LockSched_scheme \<Rightarrow> 'a LockSched_scheme option" where
  "waitForTaskLock deallocTask hart task l s = do {
     let s = s\<lparr>tasks := (tasks s)(task := (tasks s task)\<lparr>wakeup_function := 0\<rparr>)\<rparr>;
     s \<leftarrow> moveTaskToState task WAITING s;
     s \<leftarrow> enqueueTask deallocTask hart task s;
     let s = s\<lparr>tasks := (tasks s)(task := (tasks s task)\<lparr>locks_next := wait_queue (locks s l)\<rparr>)\<rparr>;
     Some (set_lock l ((locks s l)\<lparr>wait_queue := task\<rparr>) s) }"

definition basicLockByTask :: "u64 \<Rightarrow> u64 \<Rightarrow> 'a LockSched_scheme \<Rightarrow> 'a LockSched_scheme" where
  "basicLockByTask l task s = set_lock l ((locks s l)\<lparr>locked_by := task\<rparr>) s"

definition basicUnlockByTask :: "u64 \<Rightarrow> 'a LockSched_scheme \<Rightarrow> 'a LockSched_scheme" where
  "basicUnlockByTask l s = set_lock l ((locks s l)\<lparr>locked_by := 0\<rparr>) s"

definition lockOrWaitTaskLock :: "(u64 \<Rightarrow> 'a LockSched_scheme \<Rightarrow> 'a LockSched_scheme option) \<Rightarrow> u64 \<Rightarrow> u64 \<Rightarrow> u64 \<Rightarrow> 'a LockSched_scheme
    \<Rightarrow> (bool \<times> 'a LockSched_scheme) option" where
  "lockOrWaitTaskLock deallocTask hart l task s = do {
     cassert (task \<noteq> 0);
     if locked_by (locks s l) = 0 then Some (True, basicLockByTask l task s)
     else do { s \<leftarrow> waitForTaskLock deallocTask hart task l s; Some (False, s) } }"

definition lockTaskLock :: "(u64 \<Rightarrow> 'a LockSched_scheme \<Rightarrow> 'a LockSched_scheme option) \<Rightarrow> u64 \<Rightarrow> u64 \<Rightarrow> u64 \<Rightarrow> 'a LockSched_scheme
    \<Rightarrow> (bool \<times> 'a LockSched_scheme) option" where
  "lockTaskLock deallocTask hart l task s = do {
     cassert (task \<noteq> 0);
     (locked, s) \<leftarrow> (if locked_by (locks s l) \<noteq> task then lockOrWaitTaskLock deallocTask hart l task s else Some (True, s));
     Some (locked, if locked then set_lock l ((locks s l)\<lparr>num_locks := num_locks (locks s l) + 1\<rparr>) s else s) }"

definition tryLockingTaskLock :: "u64 \<Rightarrow> u64 \<Rightarrow> 'a LockSched_scheme \<Rightarrow> (bool \<times> 'a LockSched_scheme) option" where
  "tryLockingTaskLock l task s = do {
     cassert (task \<noteq> 0);
     let (result, s) =
       (if locked_by (locks s l) \<noteq> task then
          (if locked_by (locks s l) = 0 then (True, basicLockByTask l task s) else (False, s))
        else (True, s));
     Some (result, if result then set_lock l ((locks s l)\<lparr>num_locks := num_locks (locks s l) + 1\<rparr>) s else s) }"

partial_function (option) wake_queue :: "(u64 \<Rightarrow> 'a LockSched_scheme \<Rightarrow> 'a LockSched_scheme option) \<Rightarrow> u64 \<Rightarrow> u64 \<Rightarrow> 'a LockSched_scheme \<Rightarrow> 'a LockSched_scheme option" where
  "wake_queue deallocTask hart l s =
     (if wait_queue (locks s l) \<noteq> 0 then do {
        let wakeup = wait_queue (locks s l);
        let s = set_lock l ((locks s l)\<lparr>wait_queue := locks_next (tasks s wakeup)\<rparr>) s;
        s \<leftarrow> awakenTask wakeup s;
        s \<leftarrow> enqueueTask deallocTask hart wakeup s;
        wake_queue deallocTask hart l s }
      else Some s)"

definition unlockTaskLock :: "(u64 \<Rightarrow> 'a LockSched_scheme \<Rightarrow> 'a LockSched_scheme option) \<Rightarrow> u64 \<Rightarrow> u64 \<Rightarrow> u64 \<Rightarrow> 'a LockSched_scheme \<Rightarrow> 'a LockSched_scheme option" where
  "unlockTaskLock deallocTask hart l task s = do {
     cassert (task \<noteq> 0);
     cassert (task = locked_by (locks s l));
     let s = set_lock l ((locks s l)\<lparr>num_locks := num_locks (locks s l) - 1\<rparr>) s;
     if num_locks (locks s l) = 0 then wake_queue deallocTask hart l (basicUnlockByTask l s) else Some s }"

subsection \<open>Frames\<close>

text \<open>What the scheduler leaves alone.\<close>

definition untouched :: "'a LockSched_scheme \<Rightarrow> 'a LockSched_scheme \<Rightarrow> bool" where
  "untouched s s' \<longleftrightarrow> locks s' = locks s \<and> (\<forall>t. locks_next (tasks s' t) = locks_next (tasks s t) \<and> task_hart (tasks s' t) = task_hart (tasks s t))
     \<and> (\<forall>h. idle_task (harts s' h) = idle_task (harts s h))"

lemma untouched_trans: "untouched s s' \<Longrightarrow> untouched s' s'' \<Longrightarrow> untouched s s''"
  by (simp add: untouched_def)

lemma untouched_refl: "untouched s s"
  by (simp add: untouched_def)

lemma untouched_steps:
  "untouched s (set_state t st s)" "untouched s (unlink_waiting p t s)" "untouched s (push_on_hart h t s)"
  "untouched s (s\<lparr>tasks := (tasks s)(t := lower_priority (tasks s t))\<rparr>)" "untouched s (s\<lparr>tasks := set_next t v (tasks s), waiting := w\<rparr>)"
  "untouched s (s\<lparr>tasks := (tasks s)(t := (tasks s t)\<lparr>wakeup_function := f\<rparr>)\<rparr>)"
  by (auto simp: untouched_def set_state_def unlink_waiting_def push_on_hart_def pushTaskToQueue_def set_next_def lower_priority_def Let_def)

lemma awakenTask_untouched: "awakenTask t s = Some s' \<Longrightarrow> untouched s s'"
  using untouched_steps(1,2) untouched_trans
  by (auto simp: awakenTask_def Let_def bind_eq_Some_conv split: if_splits) blast+

lemma moveTaskToState_untouched: "moveTaskToState t st s = Some s' \<Longrightarrow> untouched s s'"
  using untouched_steps(1) untouched_trans untouched_refl awakenTask_untouched
  by (auto simp: moveTaskToState_def bind_eq_Some_conv split: if_splits) blast+

lemma enqueueTask_untouched:
  assumes "enqueueTask dealloc cur t s = Some s'" "sched_state (tasks s t) \<noteq> TERMINATED"
  shows "untouched s s'"
proof (cases "sched_state (tasks s t) = ENQUABLE \<and> idle_task (harts s (if task_hart (tasks s t) = 0 then cur else task_hart (tasks s t))) \<noteq> t")
  case True
  then obtain s1 where "moveTaskToState t READY s = Some s1"
    "s' = push_on_hart (if task_hart (tasks s t) = 0 then cur else task_hart (tasks s t)) t (s1\<lparr>tasks := (tasks s1)(t := lower_priority (tasks s1 t))\<rparr>)"
    using assms(1) by (auto simp: enqueueTask_def Let_def bind_eq_Some_conv split: if_splits)
  then show ?thesis using untouched_trans [OF untouched_trans [OF moveTaskToState_untouched untouched_steps(4)] untouched_steps(3)] by blast
next
  case False
  then show ?thesis using assms untouched_refl untouched_steps(5)
    by (auto simp: enqueueTask_def addWaitingTask_def Let_def bind_eq_Some_conv split: if_splits TaskState.splits)
qed

subsection \<open>Invariant\<close>

text \<open>
  \<open>B l\<close> are the tasks blocked on the lock \<open>l\<close>. They wait in the scheduler, no task is blocked on
  two locks, and a free lock has no blocked task.
\<close>

definition queues_inv :: "'a LockSched_scheme \<Rightarrow> (u64 \<Rightarrow> u64 list) \<Rightarrow> u64 list \<Rightarrow> (u64 \<Rightarrow> u64 list) \<Rightarrow> bool" where
  "queues_inv s Q ws B \<longleftrightarrow> sched_inv s Q ws \<and> (\<forall>h. idle_task (harts s h) \<notin> set ws)
     \<and> (\<forall>l. linked (\<lambda>t. locks_next (tasks s t)) (wait_queue (locks s l)) (B l)) \<and> (\<forall>l. set (B l) \<subseteq> set ws)
     \<and> (\<forall>l l'. l \<noteq> l' \<longrightarrow> set (B l) \<inter> set (B l') = {})"

definition lock_inv :: "'a LockSched_scheme \<Rightarrow> (u64 \<Rightarrow> u64 list) \<Rightarrow> u64 list \<Rightarrow> (u64 \<Rightarrow> u64 list) \<Rightarrow> bool" where
  "lock_inv s Q ws B \<longleftrightarrow> queues_inv s Q ws B
     \<and> (\<forall>l. locked_by (locks s l) = 0 \<longrightarrow> B l = []) \<and> (\<forall>l. locked_by (locks s l) = 0 \<longleftrightarrow> num_locks (locks s l) = 0)"

lemma queues_invD:
  assumes "queues_inv s Q ws B"
  shows "sched_inv s Q ws" "idle_task (harts s h) \<notin> set ws" "linked (\<lambda>t. locks_next (tasks s t)) (wait_queue (locks s l)) (B l)" "set (B l) \<subseteq> set ws"
    "l \<noteq> l' \<Longrightarrow> set (B l) \<inter> set (B l') = {}"
  using assms unfolding queues_inv_def by blast+

lemma lock_invD:
  assumes "lock_inv s Q ws B"
  shows "sched_inv s Q ws" "idle_task (harts s h) \<notin> set ws" "linked (\<lambda>t. locks_next (tasks s t)) (wait_queue (locks s l)) (B l)" "set (B l) \<subseteq> set ws"
    "l \<noteq> l' \<Longrightarrow> set (B l) \<inter> set (B l') = {}" "locked_by (locks s l) = 0 \<Longrightarrow> B l = []" "locked_by (locks s l) = 0 \<longleftrightarrow> num_locks (locks s l) = 0"
  using assms unfolding lock_inv_def queues_inv_def by blast+

definition running :: "'a LockSched_scheme \<Rightarrow> u64 \<Rightarrow> bool" where
  "running s t \<longleftrightarrow> t \<noteq> 0 \<and> sched_state (tasks s t) = RUNNING \<and> (\<forall>h. idle_task (harts s h) \<noteq> t)"

lemma running_free: "sched_inv s Q ws \<Longrightarrow> running s t \<Longrightarrow> t \<notin> set ws \<and> t \<notin> set (Q h)"
  using sched_invD(5) [of s Q ws t] sched_invD(6) [of s Q ws t h] by (auto simp: running_def)

lemma sched_inv_locks: "sched_inv (set_lock l v s) Q ws \<longleftrightarrow> sched_inv s Q ws"
  by (simp add: sched_inv_def set_lock_def)

lemma set_lock_simps [simp]:
  "tasks (set_lock l v s) = tasks s" "harts (set_lock l v s) = harts s" "waiting (set_lock l v s) = waiting s" "locks (set_lock l v s) = (locks s)(l := v)"
  by (simp_all add: set_lock_def)

lemma lock_inv_lock:
  assumes "lock_inv s Q ws B" "wait_queue v = wait_queue (locks s l)" "locked_by v \<noteq> 0" "num_locks v \<noteq> 0"
  shows "lock_inv (set_lock l v s) Q ws B"
  using assms unfolding lock_inv_def queues_inv_def sched_inv_locks by simp

lemma sched_inv_fields:
  assumes "sched_inv s Q ws" "harts s' = harts s" "waiting s' = waiting s"
    and "\<And>x. sched_next (tasks s' x) = sched_next (tasks s x)" "\<And>x. queue_priority (tasks s' x) = queue_priority (tasks s x)"
    and "\<And>x. sched_state (tasks s' x) = sched_state (tasks s x)"
  shows "sched_inv s' Q ws"
proof -
  have q: "queue_rel q (tasks s') xs" if "queue_rel q (tasks s) xs" for q xs using that assms(4,5) by (intro queue_rel_cong [OF that]) auto
  have "next_of (tasks s') = next_of (tasks s)" using assms(4) by (simp add: fun_eq_iff)
  then show ?thesis using assms(1) q unfolding sched_inv_def assms(2,3,6) by auto
qed

text \<open>The task blocks.\<close>

lemma waitForTaskLock_spec:
  assumes inv: "lock_inv s Q ws B" and t: "running s t" and cur: "cur \<noteq> 0" and l: "locked_by (locks s l) \<noteq> 0"
  shows "\<exists>s'. waitForTaskLock d cur t l s = Some s' \<and> lock_inv s' Q (t # ws) (B(l := t # B l)) \<and> sched_state (tasks s' t) = WAITING
    \<and> (\<forall>l. locked_by (locks s' l) = locked_by (locks s l) \<and> num_locks (locks s' l) = num_locks (locks s l))"
proof -
  note free = running_free [OF lock_invD(1) [OF inv] t]
  let ?s1 = "s\<lparr>tasks := (tasks s)(t := (tasks s t)\<lparr>wakeup_function := 0\<rparr>)\<rparr>"
  have i1: "sched_inv ?s1 Q ws" using free by (intro sched_inv_other [OF lock_invD(1) [OF inv]]) auto
  obtain s2 where s2: "moveTaskToState t WAITING ?s1 = Some s2" "sched_inv s2 Q ws" "s2 = set_state t WAITING ?s1"
    using moveTaskToState_spec [OF i1, of t WAITING] t free by (auto simp: running_def next_state_def)
  have w: "sched_state (tasks s2 t) = WAITING" "task_hart (tasks s2 t) = task_hart (tasks s t)" "harts s2 = harts s" by (simp_all add: s2(3) set_state_def)
  define h where "h = (if task_hart (tasks s2 t) = 0 then cur else task_hart (tasks s2 t))"
  have "h \<noteq> 0" "idle_task (harts s2 h) \<noteq> t" "t \<noteq> 0" using cur t w(3) by (auto simp: h_def running_def)
  from enqueueTask_spec [OF s2(2) this(3) h_def this(1,2), of d] w(1) free obtain s3 where
    s3: "enqueueTask d cur t s2 = Some s3" "sched_inv s3 Q (t # ws)" by auto
  have u: "untouched s s3"
    using untouched_trans [OF untouched_trans [OF untouched_steps(6) moveTaskToState_untouched [OF s2(1)]] enqueueTask_untouched [OF s3(1)]] w(1) by simp
  let ?s4 = "s3\<lparr>tasks := (tasks s3)(t := (tasks s3 t)\<lparr>locks_next := wait_queue (locks s3 l)\<rparr>)\<rparr>"
  let ?s5 = "set_lock l ((locks s3 l)\<lparr>wait_queue := t\<rparr>) ?s4"
  have r: "waitForTaskLock d cur t l s = Some ?s5" using s2(1) s3(1) by (simp add: waitForTaskLock_def Let_def)
  have i4: "sched_inv ?s4 Q (t # ws)" by (rule sched_inv_fields [OF s3(2)]) auto
  have nt: "t \<notin> set (B k)" for k using free lock_invD(4) [OF inv, of k] by auto
  have lk: "locks s3 = locks s" "\<And>x. locks_next (tasks s3 x) = locks_next (tasks s x)" "\<And>h. idle_task (harts s3 h) = idle_task (harts s h)" using u by (simp_all add: untouched_def)
  have ln: "linked (\<lambda>x. locks_next (tasks ?s5 x)) p (B k) = linked (\<lambda>x. locks_next (tasks s x)) p (B k)" for p k
    using nt [of k] by (intro lseg_cong) (auto simp: lk)
  have "lock_inv ?s5 Q (t # ws) (B(l := t # B l))"
    unfolding lock_inv_def queues_inv_def sched_inv_locks
    using i4 ln lock_invD(2,3,5-7) [OF inv] t l nt by (auto simp: lk running_def dest: subsetD [OF lock_invD(4) [OF inv]])
  moreover have "sched_state (tasks ?s5 t) = WAITING" using sched_invD(5) [OF i4, of t] by simp
  ultimately show ?thesis using r by (auto simp: lk)
qed

lemma lockTaskLock_spec:
  assumes inv: "lock_inv s Q ws B" and t: "running s t" and cur: "cur \<noteq> 0"
  shows "if locked_by (locks s l) \<in> {0, t}
    then \<exists>s'. lockTaskLock d cur l t s = Some (True, s') \<and> lock_inv s' Q ws B \<and> locked_by (locks s' l) = t \<and> num_locks (locks s' l) = num_locks (locks s l) + 1
      \<and> (\<forall>k. k \<noteq> l \<longrightarrow> locks s' k = locks s k)
    else \<exists>s'. lockTaskLock d cur l t s = Some (False, s') \<and> lock_inv s' Q (t # ws) (B(l := t # B l)) \<and> sched_state (tasks s' t) = WAITING
      \<and> (\<forall>l. locked_by (locks s' l) = locked_by (locks s l) \<and> num_locks (locks s' l) = num_locks (locks s l))"
proof (cases "locked_by (locks s l) \<in> {0, t}")
  case True
  let ?v = "(locks s l)\<lparr>locked_by := t, num_locks := num_locks (locks s l) + 1\<rparr>"
  have "lockTaskLock d cur l t s = Some (True, set_lock l ?v s)"
    using True t by (auto simp: lockTaskLock_def lockOrWaitTaskLock_def basicLockByTask_def set_lock_def running_def)
  moreover have "lock_inv (set_lock l ?v s) Q ws B" using t by (intro lock_inv_lock [OF inv]) (auto simp: running_def)
  ultimately show ?thesis using True by auto
next
  case False
  then show ?thesis using waitForTaskLock_spec [OF inv t cur, of l d] t by (auto simp: lockTaskLock_def lockOrWaitTaskLock_def running_def)
qed

text \<open>The last unlock wakes the blocked tasks one after the other.\<close>

lemma wake_one:
  assumes inv: "queues_inv s Q ws B" and b: "B l = b # bs" and cur: "cur \<noteq> 0"
  shows "\<exists>s1 s2 Q' ws'. awakenTask b (set_lock l ((locks s l)\<lparr>wait_queue := locks_next (tasks s b)\<rparr>) s) = Some s1 \<and> enqueueTask d cur b s1 = Some s2
    \<and> queues_inv s2 Q' ws' (B(l := bs)) \<and> sched_state (tasks s2 b) = READY \<and> (\<forall>x. x \<noteq> b \<longrightarrow> sched_state (tasks s2 x) = sched_state (tasks s x))
    \<and> (\<forall>k. locked_by (locks s2 k) = locked_by (locks s k) \<and> num_locks (locks s2 k) = num_locks (locks s k))"
proof -
  let ?s0 = "set_lock l ((locks s l)\<lparr>wait_queue := locks_next (tasks s b)\<rparr>) s"
  have w: "b \<in> set ws" using queues_invD(4) [OF inv, of l] b by auto
  have i0: "sched_inv ?s0 Q ws" using queues_invD(1) [OF inv] by (simp add: sched_inv_locks)
  obtain s1 where s1: "awakenTask b ?s0 = Some s1" "sched_inv s1 Q (remove1 b ws)" "sched_state (tasks s1 b) = ENQUABLE"
    "\<forall>x. x \<noteq> b \<longrightarrow> sched_state (tasks s1 x) = sched_state (tasks s x)"
    using awakenTask_spec [OF i0, of b] w by auto
  have u1: "untouched ?s0 s1" by (rule awakenTask_untouched [OF s1(1)])
  define h where "h = (if task_hart (tasks s1 b) = 0 then cur else task_hart (tasks s1 b))"
  have "b \<noteq> 0" "h \<noteq> 0" "idle_task (harts s1 h) \<noteq> b"
    using queues_invD(2) [OF inv, of h] w cur u1 sched_inv_nonnull [OF queues_invD(1) [OF inv]] by (auto simp: h_def untouched_def)
  from enqueueTask_spec [OF s1(2) this(1) h_def this(2,3), of d] s1(3) obtain s2 Q' where
    s2: "enqueueTask d cur b s1 = Some s2" "sched_state (tasks s2 b) = READY" "sched_inv s2 Q' (remove1 b ws)"
    "\<forall>x. x \<noteq> b \<longrightarrow> sched_state (tasks s2 x) = sched_state (tasks s1 x)" by auto
  have u2: "untouched ?s0 s2" using untouched_trans [OF u1 enqueueTask_untouched [OF s2(1)]] s1(3) by simp
  have lk: "locks s2 = (locks s)(l := (locks s l)\<lparr>wait_queue := locks_next (tasks s b)\<rparr>)" "\<And>x. locks_next (tasks s2 x) = locks_next (tasks s x)"
    "\<And>h. idle_task (harts s2 h) = idle_task (harts s h)" using u2 by (simp_all add: untouched_def)
  have ln: "linked (\<lambda>t. locks_next (tasks s t)) (locks_next (tasks s b)) bs" "b \<notin> set bs"
    using queues_invD(3) [OF inv, of l] b lseg_distinct by (fastforce simp: b)+
  have d: "set (B k) \<inter> set (b # bs) = {}" if "k \<noteq> l" for k using queues_invD(5) [OF inv that] b by simp
  have sub: "x \<in> set (remove1 b ws)" if "x \<in> set (B k)" "x \<noteq> b" for x k using queues_invD(4) [OF inv, of k] that by auto
  have "queues_inv s2 Q' (remove1 b ws) (B(l := bs))"
    unfolding queues_inv_def lk
  proof (intro conjI allI impI s2(3))
    show "idle_task (harts s k) \<notin> set (remove1 b ws)" for k using queues_invD(2) [OF inv, of k] set_remove1_subset [of b ws] by blast
    show "linked (\<lambda>t. locks_next (tasks s t)) (wait_queue (((locks s)(l := locks s l\<lparr>wait_queue := locks_next (tasks s b)\<rparr>)) k)) ((B(l := bs)) k)" for k
      using queues_invD(3) [OF inv, of k] ln(1) by simp
    show "set ((B(l := bs)) k) \<subseteq> set (remove1 b ws)" for k
    proof
      fix x assume "x \<in> set ((B(l := bs)) k)"
      then have "x \<noteq> b" "x \<in> set (B k)" using d [of k] ln(2) b by (auto split: if_splits)
      then show "x \<in> set (remove1 b ws)" by (intro sub)
    qed
    show "set ((B(l := bs)) k) \<inter> set ((B(l := bs)) k') = {}" if "k \<noteq> k'" for k k'
      using queues_invD(5) [OF inv that] d [of k] d [of k'] that by (cases "k = l"; cases "k' = l") auto
  qed
  then show ?thesis using s1(1,4) s2(1,2,4) by (intro exI [of _ s1, OF exI [of _ s2]]) (auto simp: lk)
qed

lemma wake_queue_spec:
  assumes "queues_inv s Q ws B" "B l = xs" "cur \<noteq> 0"
  shows "\<exists>s' Q' ws'. wake_queue d cur l s = Some s' \<and> queues_inv s' Q' ws' (B(l := [])) \<and> (\<forall>b \<in> set xs. sched_state (tasks s' b) = READY)
    \<and> (\<forall>x. x \<notin> set xs \<longrightarrow> sched_state (tasks s' x) = sched_state (tasks s x))
    \<and> (\<forall>k. locked_by (locks s' k) = locked_by (locks s k) \<and> num_locks (locks s' k) = num_locks (locks s k))"
  using assms
proof (induction xs arbitrary: s Q ws B)
  case Nil
  have "wait_queue (locks s l) = 0" using queues_invD(3) [OF Nil(1), of l] Nil(2) by simp
  then have "wake_queue d cur l s = Some s" by (simp add: wake_queue.simps)
  moreover have "B(l := []) = B" using Nil(2) by auto
  ultimately show ?case using Nil(1) by auto
next
  case (Cons b bs)
  have b: "wait_queue (locks s l) = b" "b \<noteq> 0" "b \<notin> set bs"
    using queues_invD(3) [OF Cons.prems(1), of l] Cons.prems(2) lseg_distinct by fastforce+
  obtain s1 s2 Q1 ws1 where s2: "awakenTask b (set_lock l ((locks s l)\<lparr>wait_queue := locks_next (tasks s b)\<rparr>) s) = Some s1" "enqueueTask d cur b s1 = Some s2"
    "queues_inv s2 Q1 ws1 (B(l := bs))" "sched_state (tasks s2 b) = READY" "\<forall>x. x \<noteq> b \<longrightarrow> sched_state (tasks s2 x) = sched_state (tasks s x)"
    "\<forall>k. locked_by (locks s2 k) = locked_by (locks s k) \<and> num_locks (locks s2 k) = num_locks (locks s k)"
    using wake_one [OF Cons.prems] by blast
  obtain s' Q' ws' where s': "wake_queue d cur l s2 = Some s'" "queues_inv s' Q' ws' ((B(l := bs))(l := []))" "\<forall>b \<in> set bs. sched_state (tasks s' b) = READY"
    "\<forall>x. x \<notin> set bs \<longrightarrow> sched_state (tasks s' x) = sched_state (tasks s2 x)"
    "\<forall>k. locked_by (locks s' k) = locked_by (locks s2 k) \<and> num_locks (locks s' k) = num_locks (locks s2 k)"
    using Cons.IH [OF s2(3) fun_upd_same Cons.prems(3)] by blast
  have "wake_queue d cur l s = Some s'" using b s2(1,2) s'(1) by (subst wake_queue.simps) (simp add: Let_def)
  moreover have "queues_inv s' Q' ws' (B(l := []))" using s'(2) unfolding fun_upd_upd .
  moreover have "\<forall>x \<in> set (b # bs). sched_state (tasks s' x) = READY" using s'(3,4) s2(4) b(3) by auto
  moreover have "\<forall>x. x \<notin> set (b # bs) \<longrightarrow> sched_state (tasks s' x) = sched_state (tasks s x)" using s'(4) s2(5) by simp
  moreover have "\<forall>k. locked_by (locks s' k) = locked_by (locks s k) \<and> num_locks (locks s' k) = num_locks (locks s k)" using s'(5) s2(6) by simp
  ultimately show ?case by blast
qed

lemma unlockTaskLock_spec:
  assumes inv: "lock_inv s Q ws B" and t: "locked_by (locks s l) = t" "t \<noteq> 0" and cur: "cur \<noteq> 0"
  shows "\<exists>s' Q' ws'. unlockTaskLock d cur l t s = Some s' \<and> num_locks (locks s' l) = num_locks (locks s l) - 1
    \<and> (\<forall>k. k \<noteq> l \<longrightarrow> locked_by (locks s' k) = locked_by (locks s k) \<and> num_locks (locks s' k) = num_locks (locks s k))
    \<and> (if num_locks (locks s l) = 1
       then locked_by (locks s' l) = 0 \<and> lock_inv s' Q' ws' (B(l := [])) \<and> (\<forall>b \<in> set (B l). sched_state (tasks s' b) = READY)
       else locked_by (locks s' l) = t \<and> lock_inv s' Q' ws' B)"
proof (cases "num_locks (locks s l) = 1")
  case True
  let ?v = "(locks s l)\<lparr>num_locks := 0, locked_by := 0\<rparr>"
  have q: "queues_inv (set_lock l ?v s) Q ws B" using inv unfolding lock_inv_def queues_inv_def sched_inv_locks by simp
  obtain s' Q' ws' where s': "wake_queue d cur l (set_lock l ?v s) = Some s'" "queues_inv s' Q' ws' (B(l := []))" "\<forall>b \<in> set (B l). sched_state (tasks s' b) = READY"
    "\<forall>k. locked_by (locks s' k) = locked_by (locks (set_lock l ?v s) k) \<and> num_locks (locks s' k) = num_locks (locks (set_lock l ?v s) k)"
    using wake_queue_spec [OF q refl cur] by blast
  have "unlockTaskLock d cur l t s = Some s'"
    using t True s'(1) by (simp add: unlockTaskLock_def basicUnlockByTask_def set_lock_def)
  moreover have "lock_inv s' Q' ws' (B(l := []))" unfolding lock_inv_def using s'(2,4) lock_invD(6,7) [OF inv] by auto
  ultimately show ?thesis using s'(3,4) True by auto
next
  case False
  let ?v = "(locks s l)\<lparr>num_locks := num_locks (locks s l) - 1\<rparr>"
  have n: "num_locks (locks s l) > 1" using False lock_invD(7) [OF inv, of l] t by auto
  have "unlockTaskLock d cur l t s = Some (set_lock l ?v s)" using t n by (simp add: unlockTaskLock_def)
  moreover have "lock_inv (set_lock l ?v s) Q ws B" using t n by (intro lock_inv_lock [OF inv]) auto
  ultimately show ?thesis using False t by auto
qed

lemma tryLockingTaskLock_spec:
  assumes inv: "lock_inv s Q ws B" and t: "running s t"
  shows "if locked_by (locks s l) \<in> {0, t}
    then \<exists>s'. tryLockingTaskLock l t s = Some (True, s') \<and> lock_inv s' Q ws B \<and> locked_by (locks s' l) = t \<and> num_locks (locks s' l) = num_locks (locks s l) + 1
      \<and> (\<forall>k. k \<noteq> l \<longrightarrow> locks s' k = locks s k)
    else tryLockingTaskLock l t s = Some (False, s)"
proof (cases "locked_by (locks s l) \<in> {0, t}")
  case True
  let ?v = "(locks s l)\<lparr>locked_by := t, num_locks := num_locks (locks s l) + 1\<rparr>"
  have "tryLockingTaskLock l t s = Some (True, set_lock l ?v s)"
    using True t by (auto simp: tryLockingTaskLock_def basicLockByTask_def set_lock_def running_def)
  moreover have "lock_inv (set_lock l ?v s) Q ws B" using t by (intro lock_inv_lock [OF inv]) (auto simp: running_def)
  ultimately show ?thesis using True by auto
qed (use t in \<open>auto simp: tryLockingTaskLock_def running_def\<close>)

lemma lock_inv_untouched:
  assumes "lock_inv s Q ws B" "untouched s s'" "sched_inv s' Q' ws"
  shows "lock_inv s' Q' ws B"
  using assms unfolding lock_inv_def queues_inv_def untouched_def by simp

lemma dispatch_inv:
  assumes inv: "sched_inv s Q ws" and p: "pullTaskFromQueue (hart_queue (harts s h)) (tasks s) = (t, q)" "t \<noteq> 0"
  shows "\<exists>Q'. sched_inv (set_state t RUNNING (s\<lparr>harts := (harts s)(h := (harts s h)\<lparr>hart_queue := q\<rparr>)\<rparr>)) Q' ws"
proof -
  have r: "queue_rel (hart_queue (harts s h)) (tasks s) (Q h)" by (rule sched_invD(1) [OF inv])
  have "Q h \<noteq> []" using r p by (auto simp: queue_rel_def pullTaskFromQueue_def)
  then obtain x xs where x: "Q h = x # xs" by (cases "Q h") auto
  have q: "x = t" "queue_rel q (tasks s) xs" using pull_spec [OF r [unfolded x]] p(1) by auto
  have dx: "distinct (Q h)" using r lseg_distinct unfolding queue_rel_def by blast
  let ?s = "s\<lparr>harts := (harts s)(h := (harts s h)\<lparr>hart_queue := q\<rparr>)\<rparr>"
  have sub: "set ((Q(h := xs)) k) \<subseteq> set (Q k)" for k using x by auto
  have "sched_inv ?s (Q(h := xs)) ws"
    unfolding sched_inv_def
  proof (intro conjI allI impI ballI)
    show "queue_rel (hart_queue (harts ?s k)) (tasks ?s) ((Q(h := xs)) k)" for k using q(2) sched_invD(1) [OF inv, of k] by simp
    show "set ((Q(h := xs)) k) \<inter> set ((Q(h := xs)) k') = {}" if "k \<noteq> k'" for k k' using sched_invD(3) [OF inv that] sub [of k] sub [of k'] by blast
    show "set ((Q(h := xs)) k) \<inter> set ws = {}" for k using sched_invD(4) [OF inv, of k] sub [of k] by blast
    show "sched_state (tasks ?s y) \<in> {READY, STOPPED, TERMINATED}" if "y \<in> set ((Q(h := xs)) k)" for y k
      using sched_invD(6) [OF inv, of y k] sub [of k] that by auto
  qed (use sched_invD(2,5) [OF inv] in simp_all)
  moreover have "t \<notin> set ws" using sched_invD(4) [OF inv, of h] x q(1) by auto
  moreover have "t \<notin> set ((Q(h := xs)) k)" for k
    using dx x q(1) sched_invD(3) [OF inv, of k h] by (cases "k = h") auto
  ultimately have "sched_inv (set_state t RUNNING ?s) (Q(h := xs)) ws" by (intro sched_inv_state) auto
  then show ?thesis by blast
qed

subsection \<open>Runs\<close>

text \<open>
  A run interleaves the operations of tasks on any locks with the scheduler: every operation is one of a running
  task, on any hart; a ready task is dispatched, a running one is preempted. The trace records the
  successful acquisitions and the releases.
\<close>

datatype lock_event = Acquired u64 u64 | Released u64 u64

inductive lock_run :: "(u64 \<Rightarrow> LockSched \<Rightarrow> LockSched option) \<Rightarrow> LockSched \<Rightarrow> lock_event list \<Rightarrow> LockSched \<Rightarrow> bool" for d s0 where
  start: "lock_run d s0 [] s0"
| lock: "\<lbrakk>lock_run d s0 tr s; running s t; hart \<noteq> 0; lockTaskLock d hart l t s = Some (True, s')\<rbrakk> \<Longrightarrow> lock_run d s0 (tr @ [Acquired t l]) s'"
| block: "\<lbrakk>lock_run d s0 tr s; running s t; hart \<noteq> 0; lockTaskLock d hart l t s = Some (False, s')\<rbrakk> \<Longrightarrow> lock_run d s0 tr s'"
| trylock: "\<lbrakk>lock_run d s0 tr s; running s t; tryLockingTaskLock l t s = Some (True, s')\<rbrakk> \<Longrightarrow> lock_run d s0 (tr @ [Acquired t l]) s'"
| tryfail: "\<lbrakk>lock_run d s0 tr s; running s t; tryLockingTaskLock l t s = Some (False, s')\<rbrakk> \<Longrightarrow> lock_run d s0 tr s'"
| unlock: "\<lbrakk>lock_run d s0 tr s; running s t; hart \<noteq> 0; unlockTaskLock d hart l t s = Some s'\<rbrakk> \<Longrightarrow> lock_run d s0 (tr @ [Released t l]) s'"
| dispatch: "\<lbrakk>lock_run d s0 tr s; pullTaskFromQueue (hart_queue (harts s h)) (tasks s) = (t, q); t \<noteq> 0; sched_state (tasks s t) = READY\<rbrakk>
    \<Longrightarrow> lock_run d s0 tr (set_state t RUNNING (s\<lparr>harts := (harts s)(h := (harts s h)\<lparr>hart_queue := q\<rparr>)\<rparr>))"
| preempt: "\<lbrakk>lock_run d s0 tr s; running s t; hart \<noteq> 0; moveTaskToState t ENQUABLE s = Some s1; enqueueTask d hart t s1 = Some s'\<rbrakk>
    \<Longrightarrow> lock_run d s0 tr s'"

text \<open>The trace agrees with the locks.\<close>

definition trace_ok :: "lock_event list \<Rightarrow> LockSched \<Rightarrow> bool" where
  "trace_ok tr s \<longleftrightarrow> (\<forall>t l. t \<noteq> 0 \<longrightarrow> count_list tr (Acquired t l) = count_list tr (Released t l) + (if locked_by (locks s l) = t then num_locks (locks s l) else 0))"

lemma count_list_snoc: "count_list (xs @ [y]) x = count_list xs x + (if y = x then 1 else 0)"
  by (induction xs) auto

lemma trace_ok_same:
  "trace_ok tr s \<Longrightarrow> (\<And>l. locked_by (locks s' l) = locked_by (locks s l) \<and> num_locks (locks s' l) = num_locks (locks s l)) \<Longrightarrow> trace_ok tr s'"
  by (simp add: trace_ok_def)

lemma trace_ok_acquire:
  assumes "trace_ok tr s" "lock_inv s Q ws B" "locked_by (locks s l) \<in> {0, t}" "locked_by (locks s' l) = t" "num_locks (locks s' l) = num_locks (locks s l) + 1"
    "\<And>k. k \<noteq> l \<Longrightarrow> locks s' k = locks s k"
  shows "trace_ok (tr @ [Acquired t l]) s'"
  unfolding trace_ok_def
proof (intro allI impI)
  have n: "(if locked_by (locks s l) = t then num_locks (locks s l) else 0) = num_locks (locks s l)"
    using assms(3) lock_invD(7) [OF assms(2), of l] by auto
  have own: "locked_by (locks s l) = u \<Longrightarrow> u \<noteq> 0 \<Longrightarrow> u = t" for u using assms(3) by auto
  fix u k assume u: "u \<noteq> (0 :: u64)"
  have c: "count_list tr (Acquired u k) = count_list tr (Released u k) + (if locked_by (locks s k) = u then num_locks (locks s k) else 0)"
    using assms(1) u by (simp add: trace_ok_def)
  consider "k \<noteq> l" | "k = l" "u = t" | "k = l" "u \<noteq> t" by blast
  then show "count_list (tr @ [Acquired t l]) (Acquired u k) = count_list (tr @ [Acquired t l]) (Released u k)
      + (if locked_by (locks s' k) = u then num_locks (locks s' k) else 0)"
  proof cases
    case 1
    then have "locks s' k = locks s k" by (rule assms(6))
    then show ?thesis using c 1 by (simp add: count_list_snoc)
  next
    case 2
    then have "count_list tr (Acquired t l) = count_list tr (Released t l) + num_locks (locks s l)" using c n by metis
    then show ?thesis using 2 assms(4,5) by (simp add: count_list_snoc)
  next
    case 3
    then have "locked_by (locks s k) \<noteq> u" using own [of u] u by blast
    then show ?thesis using c 3 assms(4) by (simp add: count_list_snoc)
  qed
qed

lemma trace_ok_release:
  assumes "trace_ok tr s" "lock_inv s Q ws B" "locked_by (locks s l) = t" "t \<noteq> 0" "num_locks (locks s' l) = num_locks (locks s l) - 1"
    "locked_by (locks s' l) = (if num_locks (locks s l) = 1 then 0 else t)"
    "\<And>k. k \<noteq> l \<Longrightarrow> locked_by (locks s' k) = locked_by (locks s k) \<and> num_locks (locks s' k) = num_locks (locks s k)"
  shows "trace_ok (tr @ [Released t l]) s'"
  unfolding trace_ok_def
proof (intro allI impI)
  fix u k assume u: "u \<noteq> (0 :: u64)"
  have "count_list tr (Acquired u k) = count_list tr (Released u k) + (if locked_by (locks s k) = u then num_locks (locks s k) else 0)"
    using assms(1) u by (simp add: trace_ok_def)
  then show "count_list (tr @ [Released t l]) (Acquired u k) = count_list (tr @ [Released t l]) (Released u k)
      + (if locked_by (locks s' k) = u then num_locks (locks s' k) else 0)"
    using assms(3-7) u lock_invD(7) [OF assms(2), of l] by (cases "k = l") (auto simp: count_list_snoc)
qed

lemma lock_run_inv:
  assumes "lock_run d s0 tr s" "lock_inv s0 Q0 ws0 (\<lambda>_. [])" "\<forall>l. locked_by (locks s0 l) = 0"
  shows "(\<exists>Q ws B. lock_inv s Q ws B) \<and> trace_ok tr s"
  using assms(1)
proof induction
  case start
  have "trace_ok [] s0" using assms(3) by (auto simp: trace_ok_def)
  then show ?case using assms(2) by blast
next
  case (lock tr s t hart l s')
  then obtain Q ws B where inv: "lock_inv s Q ws B" and tr: "trace_ok tr s" by blast
  have "locked_by (locks s l) \<in> {0, t}" using lockTaskLock_spec [OF inv lock(2,3), of l d] lock(4) by (auto split: if_splits)
  then show ?case using lockTaskLock_spec [OF inv lock(2,3), of l d] lock(4) trace_ok_acquire [OF tr inv, of l t s'] by auto
next
  case (block tr s t hart l s')
  then obtain Q ws B where inv: "lock_inv s Q ws B" and tr: "trace_ok tr s" by blast
  have "locked_by (locks s l) \<notin> {0, t}" using lockTaskLock_spec [OF inv block(2,3), of l d] block(4) by (auto split: if_splits)
  then show ?case using lockTaskLock_spec [OF inv block(2,3), of l d] block(4) trace_ok_same [OF tr, of s'] by auto
next
  case (trylock tr s t l s')
  then obtain Q ws B where inv: "lock_inv s Q ws B" and tr: "trace_ok tr s" by blast
  have "locked_by (locks s l) \<in> {0, t}" using tryLockingTaskLock_spec [OF inv trylock(2), of l] trylock(3) by (auto split: if_splits)
  then show ?case using tryLockingTaskLock_spec [OF inv trylock(2), of l] trylock(3) trace_ok_acquire [OF tr inv, of l t s'] by auto
next
  case (tryfail tr s t l s')
  then obtain Q ws B where inv: "lock_inv s Q ws B" and tr: "trace_ok tr s" by blast
  then show ?case using tryLockingTaskLock_spec [OF inv tryfail(2), of l] tryfail(3) by (auto split: if_splits)
next
  case (unlock tr s t hart l s')
  then obtain Q ws B where inv: "lock_inv s Q ws B" and tr: "trace_ok tr s" by blast
  have t: "locked_by (locks s l) = t" "t \<noteq> 0" using unlock(4) by (auto simp: unlockTaskLock_def bind_eq_Some_conv)
  note u = unlockTaskLock_spec [OF inv t unlock(3), of d]
  have "trace_ok (tr @ [Released t l]) s'"
    by (rule trace_ok_release [OF tr inv t]) (use u unlock(4) in \<open>auto split: if_splits\<close>)
  then show ?case using u unlock(4) by (auto split: if_splits)
next
  case (dispatch tr s h t q)
  then obtain Q ws B where inv: "lock_inv s Q ws B" and tr: "trace_ok tr s" by blast
  let ?s = "set_state t RUNNING (s\<lparr>harts := (harts s)(h := (harts s h)\<lparr>hart_queue := q\<rparr>)\<rparr>)"
  have u: "untouched s ?s" by (simp add: untouched_def set_state_def)
  then show ?case using lock_inv_untouched [OF inv u] dispatch_inv [OF lock_invD(1) [OF inv] dispatch(2,3)] trace_ok_same [OF tr, of ?s]
    by (auto simp: untouched_def)
next
  case (preempt tr s t hart s1 s')
  then obtain Q ws B where inv: "lock_inv s Q ws B" and tr: "trace_ok tr s" by blast
  note free = running_free [OF lock_invD(1) [OF inv] preempt(2)]
  have s1: "sched_inv s1 Q ws" "s1 = set_state t ENQUABLE s"
    using moveTaskToState_spec [OF lock_invD(1) [OF inv], of t ENQUABLE] preempt(2,4) free by (auto simp: running_def next_state_def)
  have e: "sched_state (tasks s1 t) = ENQUABLE" "harts s1 = harts s" by (simp_all add: s1(2) set_state_def)
  define h where "h = (if task_hart (tasks s1 t) = 0 then hart else task_hart (tasks s1 t))"
  have "t \<noteq> 0" "h \<noteq> 0" "idle_task (harts s1 h) \<noteq> t" using preempt(2,3) e(2) by (auto simp: h_def running_def)
  from enqueueTask_spec [OF s1(1) this(1) h_def this(2,3), of d] e(1) preempt(5) obtain Q' where q: "sched_inv s' Q' ws" by auto
  have u: "untouched s s'" using untouched_trans [OF moveTaskToState_untouched [OF preempt(4)] enqueueTask_untouched [OF preempt(5)]] e(1) by simp
  show ?case using lock_inv_untouched [OF inv u q] trace_ok_same [OF tr, of s'] u by (auto simp: untouched_def)
qed

text \<open>A task holds a lock when it acquired it more often than it released it.\<close>

definition holds :: "lock_event list \<Rightarrow> u64 \<Rightarrow> u64 \<Rightarrow> bool" where
  "holds tr t l \<longleftrightarrow> count_list tr (Released t l) < count_list tr (Acquired t l)"


text \<open>Witness: one task that runs and takes a lock.\<close>

definition lock_start :: LockSched where
  "lock_start = \<lparr>tasks = (\<lambda>t. (example_tasks t)\<lparr>sched_state := RUNNING\<rparr>), harts = (\<lambda>h. \<lparr>hart_queue = empty_queue, idle_task = 0x900, hart_next = h\<rparr>), waiting = 0,
     locks = (\<lambda>_. \<lparr>locked_by = 0, num_locks = 0, wait_queue = 0\<rparr>)\<rparr>"

lemma lock_start_inv: "lock_inv lock_start (\<lambda>_. []) [] (\<lambda>_. [])"
  by (simp add: lock_inv_def queues_inv_def sched_inv_def lock_start_def empty_queue_rel)


subsection \<open>Killed waiters\<close>

text \<open>
  A blocked task that is terminated or stopped leaves the waiting list but stays in the queue of the lock. The
  last unlock then panics in \<open>awakenTask\<close>.
\<close>

lemma unlock_after_kill:
  assumes inv: "lock_inv s Q ws B" and b: "B l = b # bs" and t: "locked_by (locks s l) = t" "num_locks (locks s l) = 1" "t \<noteq> 0"
    and k: "moveTaskToState b st s = Some s1" "st \<in> {TERMINATED, STOPPED}"
  shows "unlockTaskLock d cur l t s1 = None"
proof -
  have w: "b \<in> set ws" "wait_queue (locks s l) = b" "b \<noteq> 0" using lock_invD(3,4) [OF inv, of l] b by auto
  then have "sched_state (tasks s b) = WAITING" using sched_invD(5) [OF lock_invD(1) [OF inv]] by blast
  then have i1: "sched_inv s1 Q (remove1 b ws)"
    using moveTaskToState_waiting [OF lock_invD(1) [OF inv] w(3), of st] w(1) k by auto
  have u: "locks s1 = locks s" using moveTaskToState_untouched [OF k(1)] by (simp add: untouched_def)
  have "b \<notin> set (remove1 b ws)" using sched_inv_nonnull [OF lock_invD(1) [OF inv]] by simp
  then have n: "awakenTask b (set_lock l v s1) = None" for v
    using awakenTask_spec [of "set_lock l v s1" Q "remove1 b ws" b] i1 w(3) by (simp add: sched_inv_locks)
  have "wake_queue d cur l (set_lock l v s1) = None" if "wait_queue v = b" for v
    using that w(3) n by (subst wake_queue.simps) (simp add: set_lock_def)
  then show ?thesis using t u w(2) by (simp add: unlockTaskLock_def basicUnlockByTask_def set_lock_def)
qed

end
