(* ===== verification/Devices.thy ===== *)
theory Devices
  imports Prelude
begin

text \<open>
  Model of the table of devices, kernel/src/devices/devices.c with the structures of devices.h.
  Devices live in a heap; the table is the array of their addresses in the order of registration.
  Strings are lists of bytes without the NUL. The lock is omitted.
\<close>

datatype DeviceType = DEVICE_BLOCK | DEVICE_CHAR | DEVICE_RTC

text \<open>The last two fields are those of \<open>BlockDevice\<close>; other devices do not use them.\<close>

record Device =
  dv_type :: DeviceType
  dv_id :: u32
  dv_name :: "u8 list"
  dv_name_id :: nat
  dv_block_size :: u64
  dv_size :: u64

record Devices =
  next_device_id :: u32
  device_list :: "u64 list"
  device_capacity :: nat
  device_heap :: "u64 \<Rightarrow> Device"

definition no_devices :: "(u64 \<Rightarrow> Device) \<Rightarrow> Devices" where
  "no_devices heap = \<lparr>next_device_id = 1, device_list = [], device_capacity = 0, device_heap = heap\<rparr>"

fun name_id_loop :: "(u64 \<Rightarrow> Device) \<Rightarrow> u8 list \<Rightarrow> u64 list \<Rightarrow> nat \<Rightarrow> nat" where
  "name_id_loop heap name [] n = n"
| "name_id_loop heap name (d # ds) n =
     name_id_loop heap name ds (if name = dv_name (heap d) \<and> dv_name_id (heap d) \<ge> n then dv_name_id (heap d) + 1 else n)"

definition getDeviceNameId :: "u8 list \<Rightarrow> Devices \<Rightarrow> nat" where
  "getDeviceNameId name t = name_id_loop (device_heap t) name (device_list t) 0"

text \<open>A store behind the end of the array is undefined.\<close>

definition registerDevice :: "u64 \<Rightarrow> Devices \<Rightarrow> Devices option" where
  "registerDevice device t =
     (let t = t\<lparr>device_heap := (device_heap t)(device := (device_heap t device)\<lparr>dv_id := next_device_id t\<rparr>)\<rparr>;
          t = t\<lparr>next_device_id := next_device_id t + 1\<rparr>;
          n = getDeviceNameId (dv_name (device_heap t device)) t;
          t = t\<lparr>device_heap := (device_heap t)(device := (device_heap t device)\<lparr>dv_name_id := n\<rparr>)\<rparr>;
          t = (if length (device_list t) = device_capacity t
               then t\<lparr>device_capacity := if device_capacity t = 0 then 8 else device_capacity t * 4 div 3\<rparr> else t)
      in do {
        cassert (length (device_list t) < device_capacity t);
        Some (t\<lparr>device_list := device_list t @ [device]\<rparr>) })"

fun find_device :: "(u64 \<Rightarrow> bool) \<Rightarrow> u64 list \<Rightarrow> u64" where
  "find_device P [] = 0"
| "find_device P (d # ds) = (if P d then d else find_device P ds)"

definition getDeviceWithId :: "u32 \<Rightarrow> Devices \<Rightarrow> u64" where
  "getDeviceWithId id' t = find_device (\<lambda>d. dv_id (device_heap t d) = id') (device_list t)"

definition getDeviceNamed :: "u8 list \<Rightarrow> nat \<Rightarrow> Devices \<Rightarrow> u64" where
  "getDeviceNamed name name_id t =
     find_device (\<lambda>d. name = dv_name (device_heap t d) \<and> name_id = dv_name_id (device_heap t d)) (device_list t)"

text \<open>The device and whether the entry is the first one of the device.\<close>

fun nth_device_loop :: "(u64 \<Rightarrow> Device) \<Rightarrow> u64 list \<Rightarrow> nat \<Rightarrow> (u64 \<times> bool) option" where
  "nth_device_loop heap [] k = None"
| "nth_device_loop heap (d # ds) k =
     (if k = 0 then Some (d, dv_name_id (heap d) = 0)
      else let k = k - 1 in
        if dv_name_id (heap d) = 0 then (if k = 0 then Some (d, False) else nth_device_loop heap ds (k - 1))
        else nth_device_loop heap ds k)"

definition getNthDevice :: "nat \<Rightarrow> Devices \<Rightarrow> (u64 \<times> bool) option" where
  "getNthDevice k t = nth_device_loop (device_heap t) (device_list t) k"

definition getStdoutDevice :: "Devices \<Rightarrow> u64" where
  "getStdoutDevice t = getDeviceNamed [116, 116, 121] 0 t"

subsection \<open>Numbering\<close>

definition same_name :: "Devices \<Rightarrow> u8 list \<Rightarrow> u64 list \<Rightarrow> u64 list" where
  "same_name t name ds = filter (\<lambda>d. dv_name (device_heap t d) = name) ds"

text \<open>
  The table is well formed: identifiers count up from 1, and the number of a device within its
  name counts the earlier devices of that name.
\<close>

definition devices_ok :: "Devices \<Rightarrow> bool" where
  "devices_ok t \<longleftrightarrow> distinct (device_list t) \<and> 0 \<notin> set (device_list t)
     \<and> unat (next_device_id t) = length (device_list t) + 1
     \<and> length (device_list t) \<le> device_capacity t \<and> (device_capacity t = 0 \<or> device_capacity t \<ge> 8)
     \<and> (\<forall>i < length (device_list t). unat (dv_id (device_heap t (device_list t ! i))) = i + 1
          \<and> dv_name_id (device_heap t (device_list t ! i))
            = length (same_name t (dv_name (device_heap t (device_list t ! i))) (take i (device_list t))))"

lemma find_device_nth:
  assumes "i < length ds" "P (ds ! i)" "\<And>j. j < i \<Longrightarrow> \<not> P (ds ! j)"
  shows "find_device P ds = ds ! i"
  using assms
proof (induction ds arbitrary: i)
  case (Cons d ds)
  show ?case
  proof (cases i)
    case (Suc k)
    have "find_device P ds = ds ! k" using Cons.prems Suc by (intro Cons.IH) force+
    then show ?thesis using Cons.prems(3) [of 0] Suc by simp
  qed (use Cons.prems in simp)
qed simp

lemma find_device_append: "find_device P (ds @ es) = (if \<exists>d \<in> set ds. P d then find_device P ds else find_device P es)"
  by (induction ds) auto

lemma find_device_cong: "(\<And>d. d \<in> set ds \<Longrightarrow> P d = Q d) \<Longrightarrow> find_device P ds = find_device Q ds"
  by (induction ds) auto

lemma name_id_append: "name_id_loop heap name (ds @ es) n = name_id_loop heap name es (name_id_loop heap name ds n)"
  by (induction ds arbitrary: n) auto

lemma name_id_cong: "(\<And>d. d \<in> set ds \<Longrightarrow> heap d = heap' d) \<Longrightarrow> name_id_loop heap name ds n = name_id_loop heap' name ds n"
  by (induction ds arbitrary: n) auto

lemma same_name_snoc: "same_name t name (ds @ [d]) = same_name t name ds @ (if dv_name (device_heap t d) = name then [d] else [])"
  by (simp add: same_name_def)

lemma name_id_counts:
  assumes "devices_ok t" "k \<le> length (device_list t)"
  shows "name_id_loop (device_heap t) name (take k (device_list t)) 0 = length (same_name t name (take k (device_list t)))"
  using assms(2)
proof (induction k)
  case (Suc k)
  let ?d = "device_list t ! k"
  have "take (Suc k) (device_list t) = take k (device_list t) @ [?d]" using Suc.prems by (simp add: take_Suc_conv_app_nth)
  moreover have "dv_name_id (device_heap t ?d) = length (same_name t (dv_name (device_heap t ?d)) (take k (device_list t)))"
    using assms(1) Suc.prems by (simp add: devices_ok_def)
  ultimately show ?case using Suc by (auto simp: name_id_append same_name_snoc)
qed (simp add: same_name_def)

lemma getDeviceNameId_counts: "devices_ok t \<Longrightarrow> getDeviceNameId name t = length (same_name t name (device_list t))"
  using name_id_counts [of t "length (device_list t)" name] by (simp add: getDeviceNameId_def)

lemma same_name_less:
  assumes "i < j" "j \<le> length ds" "dv_name (device_heap t (ds ! i)) = name"
  shows "length (same_name t name (take i ds)) < length (same_name t name (take j ds))"
proof -
  have "take (Suc i) ds = take i ds @ [ds ! i]" using assms by (simp add: take_Suc_conv_app_nth)
  then have "length (same_name t name (take (Suc i) ds)) = length (same_name t name (take i ds)) + 1" using assms(3) by (simp add: same_name_snoc)
  moreover have "take j ds = take (Suc i) ds @ drop (Suc i) (take j ds)" using assms(1) append_take_drop_id [of "Suc i" "take j ds"] by (simp add: min_def)
  then have "same_name t name (take j ds) = same_name t name (take (Suc i) ds) @ same_name t name (drop (Suc i) (take j ds))"
    unfolding same_name_def using filter_append by metis
  ultimately show ?thesis by simp
qed

lemma devices_found:
  assumes ok: "devices_ok t" and i: "i < length (device_list t)" and d: "d = device_list t ! i"
  shows "getDeviceWithId (dv_id (device_heap t d)) t = d" "getDeviceNamed (dv_name (device_heap t d)) (dv_name_id (device_heap t d)) t = d"
proof -
  have n: "unat (dv_id (device_heap t (device_list t ! j))) = j + 1"
    "dv_name_id (device_heap t (device_list t ! j)) = length (same_name t (dv_name (device_heap t (device_list t ! j))) (take j (device_list t)))"
    if "j \<le> i" for j using ok i that by (simp_all add: devices_ok_def)
  have "dv_id (device_heap t (device_list t ! j)) \<noteq> dv_id (device_heap t d)" if "j < i" for j using n(1) [of j] n(1) [of i] that d by auto
  then show "getDeviceWithId (dv_id (device_heap t d)) t = d" unfolding getDeviceWithId_def d by (intro find_device_nth i) (auto simp: d)
  have "\<not> (dv_name (device_heap t d) = dv_name (device_heap t (device_list t ! j)) \<and> dv_name_id (device_heap t d) = dv_name_id (device_heap t (device_list t ! j)))"
    if "j < i" for j
    using n(2) [of j] n(2) [of i] same_name_less [OF that, of "device_list t" t "dv_name (device_heap t d)"] that d i by force
  then show "getDeviceNamed (dv_name (device_heap t d)) (dv_name_id (device_heap t d)) t = d"
    unfolding getDeviceNamed_def d by (intro find_device_nth i) (auto simp: d)
qed

lemma registerDevice_ok:
  assumes ok: "devices_ok t" and dev: "dev \<notin> set (device_list t)" "dev \<noteq> 0" and len: "length (device_list t) + 2 < 2 ^ 32"
  shows "\<exists>t'. registerDevice dev t = Some t' \<and> devices_ok t' \<and> device_list t' = device_list t @ [dev] \<and> (\<forall>d. d \<noteq> dev \<longrightarrow> device_heap t' d = device_heap t d)"
proof -
  let ?ds = "device_list t" and ?name = "dv_name (device_heap t dev)"
  let ?k = "length (same_name t ?name ?ds)"
  let ?cap = "if length ?ds = device_capacity t then if device_capacity t = 0 then 8 else device_capacity t * 4 div 3 else device_capacity t"
  let ?heap = "(device_heap t)(dev := (device_heap t dev)\<lparr>dv_id := next_device_id t, dv_name_id := ?k\<rparr>)"
  let ?t = "t\<lparr>next_device_id := next_device_id t + 1, device_list := ?ds @ [dev], device_capacity := ?cap, device_heap := ?heap\<rparr>"
  have cap: "length ?ds < ?cap" "?cap \<ge> 8" using ok by (auto simp: devices_ok_def)
  have "name_id_loop ((device_heap t)(dev := v)) ?name ?ds 0 = ?k" for v
    using getDeviceNameId_counts [OF ok, of ?name] dev(1) by (subst name_id_cong [of ?ds _ "device_heap t"]) (auto simp: getDeviceNameId_def)
  then have r: "registerDevice dev t = Some ?t"
    using cap(1) by (auto simp: registerDevice_def getDeviceNameId_def Let_def split: if_splits)
  have s: "same_name ?t name es = same_name t name es" for name es
    unfolding same_name_def by (intro filter_cong) auto
  have next': "unat (next_device_id t + 1) = length ?ds + 2"
    using ok len unatSuc [of "next_device_id t"] by (auto simp: devices_ok_def unat_word_ariths)
  have "devices_ok ?t"
    unfolding devices_ok_def s using ok dev cap next' by (auto simp: devices_ok_def nth_append less_Suc_eq)
  then show ?thesis using r by auto
qed

text \<open>
  Property C21 (registerDevice_numbers). Registering a device keeps the table well formed and everything in it unchanged;
  identifiers and numbers within a name are unique, and every device of the table, the new one
  included, is found again under its identifier and under its name and number.
\<close>

theorem registerDevice_numbers:
  assumes "devices_ok t" "dev \<notin> set (device_list t)" "dev \<noteq> 0" "length (device_list t) + 2 < 2 ^ 32"
  shows "\<exists>t'. registerDevice dev t = Some t' \<and> devices_ok t' \<and> device_list t' = device_list t @ [dev]
    \<and> (\<forall>d. d \<noteq> dev \<longrightarrow> device_heap t' d = device_heap t d)
    \<and> (\<forall>d \<in> set (device_list t'). getDeviceWithId (dv_id (device_heap t' d)) t' = d
         \<and> getDeviceNamed (dv_name (device_heap t' d)) (dv_name_id (device_heap t' d)) t' = d)"
proof -
  obtain t' where t': "registerDevice dev t = Some t'" "devices_ok t'" "device_list t' = device_list t @ [dev]" "\<forall>d. d \<noteq> dev \<longrightarrow> device_heap t' d = device_heap t d"
    using registerDevice_ok [OF assms] by blast
  then show ?thesis using devices_found [OF t'(2)] by (intro exI [of _ t']) (metis in_set_conv_nth)
qed

definition two_ttys :: "u64 \<Rightarrow> Device" where
  "two_ttys _ = \<lparr>dv_type = DEVICE_CHAR, dv_id = 0, dv_name = [116, 116, 121], dv_name_id = 7, dv_block_size = 0, dv_size = 0\<rparr>"

theorem registerDevice_numbers_witness:
  "\<exists>t. devices_ok t \<and> device_list t = [16] \<and> (\<exists>t'. registerDevice 32 t = Some t' \<and> devices_ok t' \<and> getDeviceNamed [116, 116, 121] 1 t' = 32)"
proof -
  let ?t = "\<lparr>next_device_id = 2, device_list = [16], device_capacity = 8, device_heap = two_ttys(16 := (two_ttys 16)\<lparr>dv_id := 1, dv_name_id := 0\<rparr>)\<rparr>"
  have ok: "devices_ok ?t" by (simp add: devices_ok_def same_name_def)
  obtain t' where t': "registerDevice 32 ?t = Some t'" "devices_ok t'" "device_list t' = [16, 32]"
    "\<forall>d \<in> set (device_list t'). getDeviceNamed (dv_name (device_heap t' d)) (dv_name_id (device_heap t' d)) t' = d"
    using registerDevice_numbers [OF ok, of 32] by auto
  have "dv_name (device_heap t' 32) = [116, 116, 121]" "dv_name_id (device_heap t' 32) = 1"
    using t'(1) by (auto simp: registerDevice_def getDeviceNameId_def two_ttys_def Let_def)
  then have "getDeviceNamed [116, 116, 121] 1 t' = 32" using t'(3,4) by force
  then show ?thesis using ok t'(1,2) by (intro exI [of _ ?t]) auto
qed

end
