(* ===== verification/SpecialFiles.thy ===== *)
theory SpecialFiles
  imports NodeCache StringMap Pipe Devices
begin

text \<open>
  Model of kernel/src/files/special/fifo.c and of the constructors of blkfile.c, chrfile.c and the pipe files
  of pipe.c: nodes that stand in front of a node of a file system (their \<open>real_node\<close>) or of none. Every open FIFO of one name shares the data of one
  pipe, found through a table of names.

  \<open>fresh_addrs\<close> are the addresses that \<open>kalloc\<close> returns; \<open>pipe_heap\<close>, \<open>fifo_nodes\<close>, \<open>pipe_nodes\<close> and
  \<open>device_nodes\<close> hold the pipes and the additional fields of special nodes; \<open>fifo_table\<close>,
  \<open>pipe_table\<close>, \<open>block_table\<close> and \<open>tty_table\<close> are the addresses of the function tables of the files. \<open>raw_memory\<close> is the memory
  of the kernel and \<open>kernel_table\<close> its page table. Paths are buffers with their NUL. Locks are omitted.
\<close>

record FifoNode =
  fifo_data :: u64
  fifo_name :: "u8 list option"
  fifo_for_write :: bool

record FsState = Vfs +
  fresh_addrs :: "u64 list"
  devs :: Devices
  named_data :: StringMap
  pipe_heap :: "u64 \<Rightarrow> Pipe"
  fifo_nodes :: "u64 \<Rightarrow> FifoNode"
  pipe_nodes :: "u64 \<Rightarrow> u64 \<times> bool"
  device_nodes :: "u64 \<Rightarrow> u64"
  fifo_table :: u64
  pipe_table :: u64
  block_table :: u64
  tty_table :: u64
  raw_memory :: memory
  kernel_table :: u64
  new_pipe_buffer :: "u8 list"
  user_spaces :: "u64 \<Rightarrow> memory"
  root_mounted :: u64
  tmp_mounted :: "(u8 list \<times> u64) list"

text \<open>\<open>kalloc\<close> of a structure; the callers do not test for NULL.\<close>

definition new_addr :: "'a FsState_scheme \<Rightarrow> (u64 \<times> 'a FsState_scheme) option" where
  "new_addr s = (case fresh_addrs s of [] \<Rightarrow> None | a # as \<Rightarrow> Some (a, s\<lparr>fresh_addrs := as\<rparr>))"

text \<open>The string in a buffer; without a NUL the reads leave the buffer.\<close>

definition string_in :: "u8 list \<Rightarrow> u8 list option" where
  "string_in buf = (if 0 \<in> set buf then Some (takeWhile (\<lambda>c. c \<noteq> 0) buf) else None)"

subsection \<open>Names of FIFOs\<close>

definition getDataForName :: "u8 list \<Rightarrow> bool \<Rightarrow> 'a FsState_scheme \<Rightarrow> (u64 \<times> u8 list option \<times> 'a FsState_scheme) option" where
  "getDataForName name for_write s = do {
     ret \<leftarrow> getFromStringMap (named_data s) name;
     (ret, s) \<leftarrow>
       (if ret = 0 then do {
          (ret, s) \<leftarrow> new_addr s;
          let s = s\<lparr>pipe_heap := (pipe_heap s)(ret := createPipeSharedData (new_pipe_buffer s) for_write (user_spaces s))\<rparr>;
          if ret \<noteq> 0 then do {
            tab \<leftarrow> putToStringMap (raw_memory s) (named_data s) name ret;
            Some (ret, s\<lparr>named_data := tab\<rparr>) }
          else Some (ret, s) }
        else Some (ret, s\<lparr>pipe_heap := (pipe_heap s)(ret := copyPipeSharedData for_write (pipe_heap s ret))\<rparr>));
     unique_name \<leftarrow> getKeyFromStringMap (named_data s) name;
     Some (ret, unique_name, s) }"

definition decreaseReferenceFor :: "u8 list \<Rightarrow> bool \<Rightarrow> 'a FsState_scheme \<Rightarrow> 'a FsState_scheme option" where
  "decreaseReferenceFor name for_write s = do {
     data \<leftarrow> getFromStringMap (named_data s) name;
     if data \<noteq> 0 then do {
       (freed, p) \<leftarrow> freePipeSharedData for_write (pipe_heap s data);
       let s = s\<lparr>pipe_heap := (pipe_heap s)(data := p)\<rparr>;
       if freed then do {
         tab \<leftarrow> deleteFromStringMap (raw_memory s) (named_data s) name;
         Some (s\<lparr>named_data := tab\<rparr>) }
       else Some s }
     else Some s }"

subsection \<open>Nodes and files\<close>

text \<open>The fields that the constructors of special nodes have in common.\<close>

definition special_node :: "u64 \<Rightarrow> VfsStat \<Rightarrow> u64 \<Rightarrow> VfsNode" where
  "special_node funcs stat real_node = \<lparr>n_functions = funcs, n_super = 0, n_stat = stat, n_ref_count = 1, n_mounted = 0,
     n_real_node = real_node, n_dirty = False\<rparr>"

definition vfsCreateFile :: "u64 \<Rightarrow> u8 list option \<Rightarrow> u64 \<Rightarrow> 'a FsState_scheme \<Rightarrow> (u64 \<times> 'a FsState_scheme) option" where
  "vfsCreateFile node path offset s = do {
     (file, s) \<leftarrow> new_addr s;
     Some (file, s\<lparr>vfiles := (vfiles s)(file := \<lparr>vf_node = node, vf_path = path, vf_ref_count = 1, vf_offset = offset, vf_flags = 0\<rparr>)\<rparr>) }"

definition createFifoNode :: "u8 list \<Rightarrow> u64 \<Rightarrow> bool \<Rightarrow> 'a FsState_scheme \<Rightarrow> (u64 \<times> 'a FsState_scheme) option" where
  "createFifoNode path real_node for_write s = do {
     (node, s) \<leftarrow> new_addr s;
     let stat = (stat_of s real_node)\<lparr>st_size := 0, st_block_size := 0, st_blocks := 0\<rparr>;
     let s = s\<lparr>vnodes := (vnodes s)(node := special_node (fifo_table s) stat real_node)\<rparr>;
     name \<leftarrow> string_in path;
     (data, unique_name, s) \<leftarrow> getDataForName name for_write s;
     Some (node, s\<lparr>fifo_nodes := (fifo_nodes s)(node := \<lparr>fifo_data = data, fifo_name = unique_name, fifo_for_write = for_write\<rparr>)\<rparr>) }"

text \<open>The files are those of \<open>vfsCreateFile\<close>; the structure of the file is allocated before the node.\<close>

definition special_file :: "('a FsState_scheme \<Rightarrow> (u64 \<times> 'a FsState_scheme) option) \<Rightarrow> u8 list option \<Rightarrow> u64 \<Rightarrow> 'a FsState_scheme
    \<Rightarrow> (u64 \<times> 'a FsState_scheme) option" where
  "special_file create_node path offset s = do {
     (file, s) \<leftarrow> new_addr s;
     (node, s) \<leftarrow> create_node s;
     Some (file, s\<lparr>vfiles := (vfiles s)(file := \<lparr>vf_node = node, vf_path = path, vf_ref_count = 1, vf_offset = offset, vf_flags = 0\<rparr>)\<rparr>) }"

definition createFifoFile :: "u64 \<Rightarrow> u8 list \<Rightarrow> bool \<Rightarrow> 'a FsState_scheme \<Rightarrow> (u64 \<times> 'a FsState_scheme) option" where
  "createFifoFile node path for_write s = special_file (createFifoNode path node for_write) (Some path) 0 s"

definition createBlkNode :: "u64 \<Rightarrow> u64 \<Rightarrow> 'a FsState_scheme \<Rightarrow> (u64 \<times> 'a FsState_scheme) option" where
  "createBlkNode device real_node s = do {
     (node, s) \<leftarrow> new_addr s;
     let dev = device_heap (devs s) device;
     let stat = (stat_of s real_node)\<lparr>st_rdev := ucast (dv_id dev), st_size := dv_size dev, st_block_size := dv_block_size dev,
                  st_blocks := dv_size dev div dv_block_size dev\<rparr>;
     Some (node, s\<lparr>vnodes := (vnodes s)(node := special_node (block_table s) stat real_node), device_nodes := (device_nodes s)(node := device)\<rparr>) }"

definition createBlockDeviceFile :: "u64 \<Rightarrow> u64 \<Rightarrow> u8 list option \<Rightarrow> u64 \<Rightarrow> 'a FsState_scheme \<Rightarrow> (u64 \<times> 'a FsState_scheme) option" where
  "createBlockDeviceFile node device path offset s = special_file (createBlkNode device node) path offset s"

definition createTtyNode :: "u64 \<Rightarrow> u64 \<Rightarrow> 'a FsState_scheme \<Rightarrow> (u64 \<times> 'a FsState_scheme) option" where
  "createTtyNode device real_node s = do {
     (node, s) \<leftarrow> new_addr s;
     let stat = (stat_of s real_node)\<lparr>st_rdev := ucast (dv_id (device_heap (devs s) device)), st_size := 0, st_block_size := 0, st_blocks := 0\<rparr>;
     Some (node, s\<lparr>vnodes := (vnodes s)(node := special_node (tty_table s) stat real_node), device_nodes := (device_nodes s)(node := device)\<rparr>) }"

definition createCharDeviceFile :: "u64 \<Rightarrow> u64 \<Rightarrow> u8 list option \<Rightarrow> 'a FsState_scheme \<Rightarrow> (u64 \<times> 'a FsState_scheme) option" where
  "createCharDeviceFile node device path s = special_file (createTtyNode device node) path 0 s"

definition createPipeNode :: "u64 \<Rightarrow> bool \<Rightarrow> 'a FsState_scheme \<Rightarrow> (u64 \<times> 'a FsState_scheme) option" where
  "createPipeNode data for_write s = do {
     (node, s) \<leftarrow> new_addr s;
     let (time, s) = getNanosecondsWithFallback s;
     let stat = \<lparr>st_dev = 0, st_id = 0, st_mode = 0x1FF, st_nlinks = 0, st_uid = 0, st_gid = 0, st_rdev = 0, st_size = 0, st_block_size = 0, st_blocks = 0,
                  st_atime = time, st_mtime = time, st_ctime = time\<rparr>;
     Some (node, s\<lparr>vnodes := (vnodes s)(node := special_node (pipe_table s) stat node), pipe_nodes := (pipe_nodes s)(node := (data, for_write))\<rparr>) }"

definition createPipeFileWithData :: "u64 \<Rightarrow> bool \<Rightarrow> 'a FsState_scheme \<Rightarrow> (u64 \<times> 'a FsState_scheme) option" where
  "createPipeFileWithData data for_write s = special_file (createPipeNode data for_write) None 0 s"

definition createPipeFile :: "bool \<Rightarrow> 'a FsState_scheme \<Rightarrow> (u64 \<times> 'a FsState_scheme) option" where
  "createPipeFile for_write s = do {
     (data, s) \<leftarrow> new_addr s;
     let s = s\<lparr>pipe_heap := (pipe_heap s)(data := createPipeSharedData (new_pipe_buffer s) for_write (user_spaces s))\<rparr>;
     createPipeFileWithData data for_write s }"

definition createPipeFileClone :: "u64 \<Rightarrow> bool \<Rightarrow> 'a FsState_scheme \<Rightarrow> (u64 \<times> 'a FsState_scheme) option" where
  "createPipeFileClone file for_write s =
     (let data = fst (pipe_nodes s (vf_node (vfiles s file)));
          s = s\<lparr>pipe_heap := (pipe_heap s)(data := copyPipeSharedData for_write (pipe_heap s data))\<rparr>
      in createPipeFileWithData data for_write s)"

subsection \<open>Release\<close>

definition pipeNodeFree :: "u64 \<Rightarrow> 'a FsState_scheme \<Rightarrow> 'a FsState_scheme option" where
  "pipeNodeFree node s = do {
     let (data, for_write) = pipe_nodes s node;
     (_, p) \<leftarrow> freePipeSharedData for_write (pipe_heap s data);
     Some (s\<lparr>pipe_heap := (pipe_heap s)(data := p)\<rparr>) }"

definition vfsNodeClose :: "(u64 \<Rightarrow> 'a FsState_scheme VfsNodeFunctions) \<Rightarrow> (u64 \<Rightarrow> 'a FsState_scheme VfsSuperblockFunctions) \<Rightarrow> u64
    \<Rightarrow> 'a FsState_scheme \<Rightarrow> 'a FsState_scheme option" where
  "vfsNodeClose F SF node s = do { (_, s) \<leftarrow> vfsSuperCloseNode F SF node s; Some s }"

definition fifoNodeFree :: "(u64 \<Rightarrow> 'a FsState_scheme VfsNodeFunctions) \<Rightarrow> (u64 \<Rightarrow> 'a FsState_scheme VfsSuperblockFunctions) \<Rightarrow> u64
    \<Rightarrow> 'a FsState_scheme \<Rightarrow> 'a FsState_scheme option" where
  "fifoNodeFree F SF node s = do {
     name \<leftarrow> fifo_name (fifo_nodes s node);
     s \<leftarrow> decreaseReferenceFor name (fifo_for_write (fifo_nodes s node)) s;
     vfsNodeClose F SF (n_real_node (vnodes s node)) s }"

text \<open>\<open>blkNodeFree\<close> and \<open>ttyNodeFree\<close>.\<close>

definition deviceNodeFree :: "(u64 \<Rightarrow> 'a FsState_scheme VfsNodeFunctions) \<Rightarrow> (u64 \<Rightarrow> 'a FsState_scheme VfsSuperblockFunctions) \<Rightarrow> u64
    \<Rightarrow> 'a FsState_scheme \<Rightarrow> 'a FsState_scheme option" where
  "deviceNodeFree F SF node s = vfsNodeClose F SF (n_real_node (vnodes s node)) s"

end
