(* ===== verification/FileSystem.thy ===== *)
theory FileSystem
  imports SpecialFiles Path
begin

text \<open>
  Model of kernel/src/files/vfs/fs.c: lookup of paths across mounts, creation, opening, linking and removal
  of files, mounting. Paths given to the operations are lists of bytes without the NUL; the
  path that a lookup or a creation produces is the whole buffer. A NULL file is 0, a NULL process is \<open>None\<close>. Node
  functions \<open>F\<close>, superblock functions \<open>SF\<close> and drivers are parameters. Locks and the release of
  temporary strings are omitted.
\<close>

unbundle bit_operations_syntax

type_synonym 'a node_tables = "u64 \<Rightarrow> 'a FsState_scheme VfsNodeFunctions"
type_synonym 'a super_tables = "u64 \<Rightarrow> 'a FsState_scheme VfsSuperblockFunctions"
type_synonym ('a, 'r) fs_result = "((Error + 'r) \<times> 'a FsState_scheme) option"

record FsProcess =
  p_user :: ProcessUser
  p_cwd :: "u8 list"
  p_umask :: u16

abbreviation user_of :: "FsProcess option \<Rightarrow> ProcessUser option" where
  "user_of process \<equiv> map_option p_user process"

text \<open>\<open>CHECKED(op, cleanup)\<close>: on an error the cleanup runs and the error is returned.\<close>

definition checked_or :: "('a, 'r) fs_result \<Rightarrow> ('a FsState_scheme \<Rightarrow> 'a FsState_scheme option) \<Rightarrow> ('r \<Rightarrow> 'a FsState_scheme \<Rightarrow> ('a, 'q) fs_result)
    \<Rightarrow> ('a, 'q) fs_result" where
  "checked_or m cleanup k = do {
     (r, s) \<leftarrow> m;
     (case r of Inl e \<Rightarrow> do { s \<leftarrow> cleanup s; Some (Inl e, s) } | Inr x \<Rightarrow> k x s) }"

datatype VfsLookupFlags = VFS_LOOKUP_NORMAL | VFS_LOOKUP_PARENT | VFS_LOOKUP_SKIPLASTMOUNT

subsection \<open>Lookup\<close>

definition vfsNodeLookup :: "'a node_tables \<Rightarrow> 'a super_tables \<Rightarrow> u64 \<Rightarrow> ProcessUser option \<Rightarrow> u8 list \<Rightarrow> 'a FsState_scheme \<Rightarrow> ('a, u64) fs_result" where
  "vfsNodeLookup F SF node process name s =
     checked_or (Some (vfsNodeBasicLookup F node process name s)) Some (\<lambda>node_id s. vfsSuperReadNode SF (n_super (vnodes s node)) node_id s)"

partial_function (option) vfsFollowMounts :: "'a node_tables \<Rightarrow> 'a super_tables \<Rightarrow> u64 \<Rightarrow> bool \<Rightarrow> 'a FsState_scheme
    \<Rightarrow> (u64 \<times> 'a FsState_scheme) option" where
  "vfsFollowMounts F SF cur last_mountpoint s =
     (if n_mounted (vnodes s cur) \<noteq> 0 then do {
        let mounted_root = sb_root_node (vsupers s (n_mounted (vnodes s cur)));
        s \<leftarrow> vfsSuperCopyNode mounted_root s;
        if last_mountpoint then
          (if n_mounted (vnodes s mounted_root) \<noteq> 0 then do {
             s \<leftarrow> vfsNodeClose F SF cur s;
             vfsFollowMounts F SF mounted_root last_mountpoint s }
           else do {
             s \<leftarrow> vfsNodeClose F SF mounted_root s;
             Some (cur, s) })
        else vfsFollowMounts F SF mounted_root last_mountpoint s }
      else Some (cur, s))"

text \<open>The segments that the loop of \<open>vfsLookupNode\<close> cuts off the path one after the other.\<close>

function path_segments :: "u8 list \<Rightarrow> u8 list list" where
  "path_segments segments =
     (if segments = [] then []
      else takeWhile (\<lambda>c. c \<noteq> slash) segments # path_segments (dropWhile (\<lambda>c. c = slash) (dropWhile (\<lambda>c. c \<noteq> slash) segments)))"
  by pat_completeness auto
termination
proof (relation "measure length", simp)
  fix t :: "u8 list" assume "t \<noteq> []"
  then obtain c u where t: "t = c # u" by (meson neq_Nil_conv)
  have "length (dropWhile (\<lambda>c. c = slash) (dropWhile (\<lambda>c. c \<noteq> slash) t)) \<le> length u"
    unfolding t using length_dropWhile_le [of _ "dropWhile (\<lambda>c. c \<noteq> slash) u"] length_dropWhile_le [of _ u]
    by (auto intro: order_trans)
  then show "(dropWhile (\<lambda>c. c = slash) (dropWhile (\<lambda>c. c \<noteq> slash) t), t) \<in> measure length" by (simp add: t)
qed

declare path_segments.simps [simp del]

text \<open>
  The walk: the current node, the stack of directories above it and of the segments that led
  there. The first component says whether the walk stopped with an error.
\<close>

primrec lookup_loop :: "'a node_tables \<Rightarrow> 'a super_tables \<Rightarrow> ProcessUser option \<Rightarrow> u8 list list \<Rightarrow> u64 \<Rightarrow> u64 list \<Rightarrow> u8 list list \<Rightarrow> 'a FsState_scheme
    \<Rightarrow> ((Error + unit) \<times> u64 \<times> u64 list \<times> u8 list list \<times> 'a FsState_scheme) option" where
  "lookup_loop F SF process [] cur dirs segs s = Some (Inr (), cur, dirs, segs, s)"
| "lookup_loop F SF process (segment # rest) cur dirs segs s =
     (if MODE_TYPE (st_mode (stat_of s cur)) \<noteq> VFS_TYPE_DIR then Some (Inl ENOTDIR, cur, dirs, segs, s)
      else if segment = [dot] then lookup_loop F SF process rest cur dirs segs s
      else if segment = [dot, dot] then
        (if length dirs > 1 then do {
           s \<leftarrow> vfsNodeClose F SF cur s;
           lookup_loop F SF process rest (last dirs) (butlast dirs) (butlast segs) s }
         else lookup_loop F SF process rest cur dirs segs s)
      else do {
        s \<leftarrow> vfsSuperCopyNode cur s;
        let dirs = dirs @ [cur];
        let segs = segs @ [segment];
        (cur, s) \<leftarrow> vfsFollowMounts F SF cur False s;
        (r, s) \<leftarrow> vfsNodeLookup F SF cur process segment s;
        (case r of
           Inl e \<Rightarrow> Some (Inl e, cur, dirs, segs, s)
         | Inr next_node \<Rightarrow> do {
             s \<leftarrow> vfsNodeClose F SF cur s;
             lookup_loop F SF process rest next_node dirs segs s }) })"

primrec close_all :: "'a node_tables \<Rightarrow> 'a super_tables \<Rightarrow> u64 list \<Rightarrow> 'a FsState_scheme \<Rightarrow> 'a FsState_scheme option" where
  "close_all F SF [] s = Some s"
| "close_all F SF (n # ns) s = do { s \<leftarrow> vfsNodeClose F SF n s; close_all F SF ns s }"

text \<open>The loops that copy the prefix and the segments to the buffer.\<close>

primrec append_segments :: "u8 list list \<Rightarrow> u8 list \<Rightarrow> u8 list" where
  "append_segments [] path = path"
| "append_segments (seg # segs) path = append_segments segs (path @ slash # seg)"

definition real_path_of :: "u8 list \<Rightarrow> u8 list list \<Rightarrow> u8 list" where
  "real_path_of prefix segs =
     (let path = append_segments segs prefix in (if length path = 0 then [slash] else path) @ [0])"

definition vfsLookupNode :: "'a node_tables \<Rightarrow> 'a super_tables \<Rightarrow> ProcessUser option \<Rightarrow> u64 \<Rightarrow> u8 list \<Rightarrow> VfsLookupFlags \<Rightarrow> u8 list \<Rightarrow> 'a FsState_scheme
    \<Rightarrow> ('a, u64 \<times> u8 list) fs_result" where
  "vfsLookupNode F SF process cur path flags prefix s = do {
     s \<leftarrow> vfsSuperCopyNode cur s;
     s \<leftarrow> vfsSuperCopyNode cur s;
     (err, cur, dirs, segs, s) \<leftarrow> lookup_loop F SF process (path_segments (dropWhile (\<lambda>c. c = slash) path)) cur [cur] [] s;
     s \<leftarrow> close_all F SF dirs s;
     (case err of
        Inl e \<Rightarrow> do { s \<leftarrow> vfsNodeClose F SF cur s; Some (Inl e, s) }
      | Inr _ \<Rightarrow> do {
          (cur, s) \<leftarrow> vfsFollowMounts F SF cur (flags = VFS_LOOKUP_SKIPLASTMOUNT) s;
          Some (Inr (cur, real_path_of prefix segs), s) }) }"

text \<open>
  The search among the temporary mounts. The second condition of the source reads the character of the
  prefix at its length, which is the NUL.
\<close>

primrec find_tmp_mount :: "u8 list \<Rightarrow> (u8 list \<times> u64) list \<Rightarrow> (u8 list \<times> u64) option" where
  "find_tmp_mount path [] = None"
| "find_tmp_mount path (mount # mounts) =
     (let prefix = fst mount; prefix_len = length prefix; c = (prefix @ [0]) ! prefix_len in
      if take prefix_len path = prefix \<and> (c = slash \<or> c = 0) then Some mount else find_tmp_mount path mounts)"

definition vfsLookupNodeAtExactAbs :: "'a node_tables \<Rightarrow> 'a super_tables \<Rightarrow> ProcessUser option \<Rightarrow> u8 list \<Rightarrow> VfsLookupFlags \<Rightarrow> 'a FsState_scheme
    \<Rightarrow> ('a, u64 \<times> u8 list) fs_result" where
  "vfsLookupNodeAtExactAbs F SF process path flags s =
     (if root_mounted s \<noteq> 0 then do {
        let root = sb_root_node (vsupers s (root_mounted s));
        s \<leftarrow> vfsSuperCopyNode root s;
        (err, s) \<leftarrow> vfsLookupNode F SF process root path flags [] s;
        s \<leftarrow> vfsNodeClose F SF root s;
        Some (err, s) }
      else case find_tmp_mount path (tmp_mounted s) of
        None \<Rightarrow> Some (Inl ENOENT, s)
      | Some (prefix, sb) \<Rightarrow> do {
          let root = sb_root_node (vsupers s sb);
          s \<leftarrow> vfsSuperCopyNode root s;
          (err, s) \<leftarrow> vfsLookupNode F SF process root (drop (length prefix) path) flags prefix s;
          s \<leftarrow> vfsNodeClose F SF root s;
          Some (err, s) })"

definition vfsLookupNodeAtAbs :: "'a node_tables \<Rightarrow> 'a super_tables \<Rightarrow> ProcessUser option \<Rightarrow> u8 list \<Rightarrow> VfsLookupFlags \<Rightarrow> 'a FsState_scheme
    \<Rightarrow> ('a, u64 \<times> u8 list) fs_result" where
  "vfsLookupNodeAtAbs F SF process path flags s =
     (if flags = VFS_LOOKUP_PARENT then do {
        parent_path \<leftarrow> getParentPath (path @ [0]);
        vfsLookupNodeAtExactAbs F SF process (c_str parent_path) flags s }
      else vfsLookupNodeAtExactAbs F SF process path flags s)"

definition vfsLookupNodeAt :: "'a node_tables \<Rightarrow> 'a super_tables \<Rightarrow> FsProcess option \<Rightarrow> u64 \<Rightarrow> u8 list \<Rightarrow> VfsLookupFlags \<Rightarrow> 'a FsState_scheme
    \<Rightarrow> ('a, u64 \<times> u8 list) fs_result" where
  "vfsLookupNodeAt F SF process file path flags s =
     (if path \<noteq> [] \<and> hd path = slash then vfsLookupNodeAtAbs F SF (user_of process) path flags s
      else if file = 0 then do {
        p \<leftarrow> process;
        vfsLookupNodeAtAbs F SF (user_of process) (p_cwd p @ slash # path) flags s }
      else case vf_path (vfiles s file) of
        None \<Rightarrow> Some (Inl EINVAL, s)
      | Some file_path \<Rightarrow> do {
          dir \<leftarrow> string_in file_path;
          vfsLookupNodeAtAbs F SF (user_of process) (dir @ slash # path) flags s })"

subsection \<open>Creation and opening\<close>

definition vfsCreateDirectoryDotAndDotDot :: "'a node_tables \<Rightarrow> u64 \<Rightarrow> u64 \<Rightarrow> 'a FsState_scheme \<Rightarrow> (Error + unit) \<times> 'a FsState_scheme" where
  "vfsCreateDirectoryDotAndDotDot F dir_node parent s =
     checked (vfsNodeLink F dir_node None [dot] dir_node s) (\<lambda>_ s.
     checked (vfsNodeLink F dir_node None [dot, dot] parent s) (\<lambda>_ s. (Inr (), s)))"

text \<open>The fields of a new node; the remaining ones are initialised by the file system.\<close>

definition new_stat :: "FsProcess option \<Rightarrow> u16 \<Rightarrow> u64 \<Rightarrow> u64 \<Rightarrow> VfsStat \<Rightarrow> VfsStat" where
  "new_stat process mode device time st =
     (let st = st\<lparr>st_mode := mode, st_nlinks := 0\<rparr>;
          st = (case process of
                  Some p \<Rightarrow> st\<lparr>st_uid := euid (p_user p), st_gid := egid (p_user p), st_mode := mode AND NOT (p_umask p)\<rparr>
                | None \<Rightarrow> st\<lparr>st_uid := 0, st_gid := 0\<rparr>)
      in st\<lparr>st_rdev := device, st_size := 0, st_atime := time, st_mtime := time, st_ctime := time\<rparr>)"

text \<open>The buffer for the path of the new node, filled by \<open>memcpy\<close>; \<open>junk\<close> is what the memory held before.\<close>

definition created_path :: "u8 list \<Rightarrow> u8 list \<Rightarrow> u8 \<Rightarrow> u8 list" where
  "created_path parent_path filename junk =
     (if length parent_path = 1 then parent_path @ filename @ [junk] else parent_path @ slash # filename)"

definition vfsCreateNewNode :: "'a node_tables \<Rightarrow> 'a super_tables \<Rightarrow> FsProcess option \<Rightarrow> u64 \<Rightarrow> u8 list \<Rightarrow> u16 \<Rightarrow> u64 \<Rightarrow> u8 \<Rightarrow> 'a FsState_scheme
    \<Rightarrow> ('a, u64 \<times> u8 list) fs_result" where
  "vfsCreateNewNode F SF process file path mode device junk s =
     checked_or (vfsLookupNodeAt F SF process file path VFS_LOOKUP_PARENT s) Some (\<lambda>(parent, real_parent_path) s.
     checked_or (vfsSuperNewNode SF (n_super (vnodes s parent)) s) (vfsNodeClose F SF parent) (\<lambda>new s.
       let (time, s) = getNanosecondsWithFallback s;
           s = upd_stat new (new_stat process mode device time) s
       in do {
         name_buf \<leftarrow> getBaseFilename (path @ [0]);
         let filename = c_str name_buf;
         let close_both = (\<lambda>s. do { s \<leftarrow> vfsNodeClose F SF parent s; vfsNodeClose F SF new s });
         checked_or (Some (vfsNodeLink F parent (user_of process) filename new s)) close_both (\<lambda>_ s.
         checked_or (Some (if MODE_TYPE mode = VFS_TYPE_DIR then vfsCreateDirectoryDotAndDotDot F new parent s else (Inr (), s))) close_both (\<lambda>_ s. do {
           s \<leftarrow> vfsNodeClose F SF parent s;
           Some (Inr (new, created_path (c_str real_parent_path) filename junk), s) })) }))"

definition vfsOpenNode :: "'a node_tables \<Rightarrow> 'a super_tables \<Rightarrow> ProcessUser option \<Rightarrow> u64 \<Rightarrow> u8 list \<Rightarrow> u64 \<Rightarrow> 'a FsState_scheme \<Rightarrow> ('a, u64) fs_result" where
  "vfsOpenNode F SF process node path flags s =
     checked_or (Some (canAccess s node process (OPEN_ACCESS flags), s)) (vfsNodeClose F SF node) (\<lambda>_ s.
       let type = MODE_TYPE (st_mode (stat_of s node)); real_node = n_real_node (vnodes s node) in
       if type = VFS_TYPE_FIFO then do {
         (file, s) \<leftarrow> createFifoFile real_node path (flags AND VFS_OPEN_WRITE \<noteq> 0) s;
         Some (Inr file, s) }
       else if type = VFS_TYPE_CHAR \<or> type = VFS_TYPE_BLOCK then
         (let device = getDeviceWithId (ucast (st_rdev (stat_of s node))) (devs s); dev = device_heap (devs s) device in
          if device \<noteq> 0 \<and> dv_type dev = DEVICE_BLOCK \<and> type = VFS_TYPE_BLOCK then do {
            (file, s) \<leftarrow> createBlockDeviceFile real_node device (Some path) (if flags AND VFS_OPEN_APPEND \<noteq> 0 then dv_size dev else 0) s;
            Some (Inr file, s) }
          else if device \<noteq> 0 \<and> dv_type dev = DEVICE_CHAR \<and> type = VFS_TYPE_CHAR then do {
            (file, s) \<leftarrow> createCharDeviceFile real_node device (Some path) s;
            Some (Inr file, s) }
          else do { s \<leftarrow> vfsNodeClose F SF node s; Some (Inl ENXIO, s) })
       else
         checked_or (Some (if flags AND VFS_OPEN_TRUNC \<noteq> 0 \<and> flags AND VFS_OPEN_WRITE \<noteq> 0 then vfsNodeTrunc F node process 0 s else (Inr (), s)))
           (vfsNodeClose F SF node) (\<lambda>_ s. do {
             (file, s) \<leftarrow> vfsCreateFile node (Some path) (if flags AND VFS_OPEN_APPEND \<noteq> 0 then st_size (stat_of s node) else 0) s;
             Some (Inr file, s) }))"

definition vfsOpenAt :: "'a node_tables \<Rightarrow> 'a super_tables \<Rightarrow> FsProcess option \<Rightarrow> u64 \<Rightarrow> u8 list \<Rightarrow> u64 \<Rightarrow> u16 \<Rightarrow> u8 \<Rightarrow> 'a FsState_scheme \<Rightarrow> ('a, u64) fs_result" where
  "vfsOpenAt F SF process file path flags mode junk s = do {
     (err, s) \<leftarrow> vfsLookupNodeAt F SF process file path VFS_LOOKUP_NORMAL s;
     (case err of
        Inl e \<Rightarrow>
          if e = ENOENT \<and> flags AND VFS_OPEN_CREAT \<noteq> 0 then
            (let file_mode = (mode AND NOT VFS_MODE_TYPE) OR TYPE_MODE VFS_TYPE_REG in
             checked_or (vfsCreateNewNode F SF process file path file_mode 0 junk s) Some (\<lambda>(node, real_path) s.
               vfsOpenNode F SF (user_of process) node real_path flags s))
          else Some (Inl e, s)
      | Inr (node, real_path) \<Rightarrow>
          if flags AND VFS_OPEN_EXCL \<noteq> 0 then do { s \<leftarrow> vfsNodeClose F SF node s; Some (Inl EEXIST, s) }
          else vfsOpenNode F SF (user_of process) node real_path flags s) }"

definition vfsMknodAt :: "'a node_tables \<Rightarrow> 'a super_tables \<Rightarrow> FsProcess option \<Rightarrow> u64 \<Rightarrow> u8 list \<Rightarrow> u16 \<Rightarrow> u64 \<Rightarrow> u8 \<Rightarrow> 'a FsState_scheme \<Rightarrow> ('a, unit) fs_result" where
  "vfsMknodAt F SF process file path mode device junk s =
     (if MODE_TYPE mode \<noteq> VFS_TYPE_REG \<and> MODE_TYPE mode \<noteq> VFS_TYPE_DIR \<and> MODE_TYPE mode \<noteq> VFS_TYPE_FIFO then Some (Inl EINVAL, s)
      else do {
        (err, s) \<leftarrow> vfsLookupNodeAt F SF process file path VFS_LOOKUP_NORMAL s;
        (case err of
           Inl e \<Rightarrow>
             if e = ENOENT then
               checked_or (vfsCreateNewNode F SF process file path mode device junk s) Some (\<lambda>(node, _) s. do {
                 s \<leftarrow> vfsNodeClose F SF node s; Some (Inr (), s) })
             else Some (Inl e, s)
         | Inr (node, _) \<Rightarrow> do { s \<leftarrow> vfsNodeClose F SF node s; Some (Inl EEXIST, s) }) })"

subsection \<open>Removal and links\<close>

definition ENOTEMPTY :: Error where "ENOTEMPTY = OtherError 90"

text \<open>The string at an address is \<open>w\<close>.\<close>

definition string_at :: "memory \<Rightarrow> u64 \<Rightarrow> u8 list \<Rightarrow> bool" where
  "string_at m a w \<longleftrightarrow> map (\<lambda>i. m (a + of_nat i)) [0..<length w + 1] = w @ [0]"

text \<open>\<open>sizeof(VfsDirectoryEntry)\<close> is 32; \<open>len\<close> is at offset 16, \<open>name\<close> at 28.\<close>

partial_function (option) check_empty_loop :: "'a node_tables \<Rightarrow> ProcessUser option \<Rightarrow> u64 \<Rightarrow> u64 \<Rightarrow> u64 \<Rightarrow> 'a FsState_scheme \<Rightarrow> ('a, unit) fs_result" where
  "check_empty_loop F process dir entry offset s =
     (case vfsNodeReaddirAt F dir process (virtPtrForKernel (kernel_table s) entry) offset 35 s of
        (Inl e, s) \<Rightarrow> Some (Inl e, s)
      | (Inr (tmp_size, vfs_size), s) \<Rightarrow>
          (let m = raw_memory s in
           if load64 m (entry + 16) > 35 \<or> \<not> string_at m (entry + 28) [dot] \<and> \<not> string_at m (entry + 28) [dot, dot] then Some (Inl ENOTEMPTY, s)
           else if tmp_size \<noteq> 0 then check_empty_loop F process dir entry (offset + tmp_size) s
           else Some (Inr (), s)))"

definition vfsCheckDirectoryIsEmpty :: "'a node_tables \<Rightarrow> ProcessUser option \<Rightarrow> u64 \<Rightarrow> 'a FsState_scheme \<Rightarrow> ('a, unit) fs_result" where
  "vfsCheckDirectoryIsEmpty F process dir s = do { (entry, s) \<leftarrow> new_addr s; check_empty_loop F process dir entry 0 s }"

definition vfsRemoveDirectoryDotAndDotDot :: "'a node_tables \<Rightarrow> ProcessUser option \<Rightarrow> u64 \<Rightarrow> u64 \<Rightarrow> 'a FsState_scheme \<Rightarrow> (Error + unit) \<times> 'a FsState_scheme" where
  "vfsRemoveDirectoryDotAndDotDot F process parent dir s =
     (if st_nlinks (stat_of s dir) = 1 then
        checked (vfsNodeUnlink F dir process [dot] dir s) (\<lambda>_ s.
        checked (vfsNodeUnlink F dir process [dot, dot] parent s) (\<lambda>_ s. (Inr (), s)))
      else (Inr (), s))"

definition vfsUnlinkFrom :: "'a node_tables \<Rightarrow> ProcessUser option \<Rightarrow> u64 \<Rightarrow> u8 list \<Rightarrow> u64 \<Rightarrow> 'a FsState_scheme \<Rightarrow> ('a, unit) fs_result" where
  "vfsUnlinkFrom F process parent filename node s =
     (if MODE_TYPE (st_mode (stat_of s node)) = VFS_TYPE_DIR \<and> st_nlinks (stat_of s node) = 2 then
        checked_or (vfsCheckDirectoryIsEmpty F process node s) Some (\<lambda>_ s.
        checked_or (Some (vfsNodeUnlink F parent process filename node s)) Some (\<lambda>_ s.
          Some (vfsRemoveDirectoryDotAndDotDot F process parent node s)))
      else Some (vfsNodeUnlink F parent process filename node s))"

definition vfsUnlinkAt :: "'a node_tables \<Rightarrow> 'a super_tables \<Rightarrow> FsProcess option \<Rightarrow> u64 \<Rightarrow> u8 list \<Rightarrow> 'a FsState_scheme \<Rightarrow> ('a, unit) fs_result" where
  "vfsUnlinkAt F SF process file path s =
     checked_or (vfsLookupNodeAt F SF process file path VFS_LOOKUP_PARENT s) Some (\<lambda>(parent, _) s. do {
       name_buf \<leftarrow> getBaseFilename (path @ [0]);
       let filename = c_str name_buf;
       checked_or (vfsNodeLookup F SF parent (user_of process) filename s) (vfsNodeClose F SF parent) (\<lambda>node s. do {
         (err, s) \<leftarrow> vfsUnlinkFrom F (user_of process) parent filename node s;
         s \<leftarrow> vfsNodeClose F SF node s;
         s \<leftarrow> vfsNodeClose F SF parent s;
         Some (err, s) }) })"

definition vfsMoveDirectoryDotDot :: "'a node_tables \<Rightarrow> 'a super_tables \<Rightarrow> FsProcess option \<Rightarrow> u64 \<Rightarrow> u8 list \<Rightarrow> u64 \<Rightarrow> u64 \<Rightarrow> 'a FsState_scheme \<Rightarrow> ('a, unit) fs_result" where
  "vfsMoveDirectoryDotDot F SF process old_file old parent child s =
     checked_or (vfsLookupNodeAt F SF process old_file old VFS_LOOKUP_PARENT s) Some (\<lambda>(old_parent, _) s.
     checked_or (Some (vfsNodeUnlink F child (user_of process) [dot, dot] old_parent s)) Some (\<lambda>_ s.
     checked_or (Some (vfsNodeLink F child (user_of process) [dot, dot] parent s)) Some (\<lambda>_ s. Some (Inr (), s))))"

definition vfsLinkAt :: "'a node_tables \<Rightarrow> 'a super_tables \<Rightarrow> FsProcess option \<Rightarrow> u64 \<Rightarrow> u8 list \<Rightarrow> u64 \<Rightarrow> u8 list \<Rightarrow> 'a FsState_scheme \<Rightarrow> ('a, unit) fs_result" where
  "vfsLinkAt F SF process old_file old new_file new s =
     checked_or (vfsLookupNodeAt F SF process new_file new VFS_LOOKUP_PARENT s) Some (\<lambda>(parent, _) s. do {
       name_buf \<leftarrow> getBaseFilename (new @ [0]);
       let filename = c_str name_buf;
       (err, s) \<leftarrow> vfsNodeLookup F SF parent (user_of process) filename s;
       (case err of
          Inl e \<Rightarrow>
            if e = ENOENT then
              checked_or (vfsLookupNodeAt F SF process old_file old VFS_LOOKUP_NORMAL s) (vfsNodeClose F SF parent) (\<lambda>(old_node, _) s. do {
                let (err, s) = vfsNodeLink F parent (user_of process) filename old_node s;
                (err, s) \<leftarrow>
                  (if \<not> isl err \<and> MODE_TYPE (st_mode (stat_of s old_node)) = VFS_TYPE_DIR
                   then vfsMoveDirectoryDotDot F SF process old_file old parent old_node s else Some (err, s));
                s \<leftarrow> vfsNodeClose F SF old_node s;
                s \<leftarrow> vfsNodeClose F SF parent s;
                Some (err, s) })
            else do { s \<leftarrow> vfsNodeClose F SF parent s; Some (Inl e, s) }
        | Inr new_node \<Rightarrow> do {
            s \<leftarrow> vfsNodeClose F SF parent s;
            s \<leftarrow> vfsNodeClose F SF new_node s;
            Some (Inl EEXIST, s) }) })"

subsection \<open>Mounts\<close>

text \<open>\<open>vfsMount\<close> when a root file system is mounted.\<close>

definition mount_on_node :: "'a node_tables \<Rightarrow> 'a super_tables \<Rightarrow> FsProcess option \<Rightarrow> u8 list \<Rightarrow> u64 \<Rightarrow> 'a FsState_scheme \<Rightarrow> ('a, unit) fs_result" where
  "mount_on_node F SF process path sb s =
     checked_or (vfsLookupNodeAt F SF process 0 path VFS_LOOKUP_NORMAL s) Some (\<lambda>(node, _) s.
       if n_mounted (vnodes s node) \<noteq> 0 then do { s \<leftarrow> vfsNodeClose F SF node s; Some (Inl EINVAL, s) }
       else if MODE_TYPE (st_mode (stat_of s node)) \<noteq> VFS_TYPE_DIR then do { s \<leftarrow> vfsNodeClose F SF node s; Some (Inl ENOTDIR, s) }
       else Some (Inr (), upd_node node (\<lambda>v. v\<lparr>n_mounted := sb\<rparr>) s))"

text \<open>
  The temporary mounts are mounted again in the root file system, first to last in the list. The
  recursive call of the source is \<open>mount_on_node\<close>, because a root is mounted by then.
\<close>

primrec mount_tmp :: "'a node_tables \<Rightarrow> 'a super_tables \<Rightarrow> (u8 list \<times> u64) list \<Rightarrow> 'a FsState_scheme \<Rightarrow> 'a FsState_scheme option" where
  "mount_tmp F SF [] s = Some s"
| "mount_tmp F SF (mount # mounts) s = do {
     let s = s\<lparr>tmp_mounted := mounts\<rparr>;
     cassert (snd mount \<noteq> 0);
     (err, s) \<leftarrow> mount_on_node F SF None (fst mount) (snd mount) s;
     s \<leftarrow> (if isl err then vfsSuperClose F SF (snd mount) s else Some s);
     mount_tmp F SF mounts s }"

definition vfsMount :: "'a node_tables \<Rightarrow> 'a super_tables \<Rightarrow> FsProcess option \<Rightarrow> u8 list \<Rightarrow> u64 \<Rightarrow> 'a FsState_scheme \<Rightarrow> ('a, unit) fs_result" where
  "vfsMount F SF process path sb s = do {
     cassert (sb \<noteq> 0);
     if root_mounted s = 0 then do {
       path_copy \<leftarrow> inlineReducePath (path @ [0]);
       if c_str path_copy = [slash] then do {
         s \<leftarrow> mount_tmp F SF (tmp_mounted s) (s\<lparr>root_mounted := sb\<rparr>);
         Some (Inr (), s) }
       else Some (Inr (), s\<lparr>tmp_mounted := (c_str path_copy, sb) # tmp_mounted s\<rparr>) }
     else mount_on_node F SF process path sb s }"

primrec remove_mount :: "u8 list \<Rightarrow> (u8 list \<times> u64) list \<Rightarrow> (u64 \<times> (u8 list \<times> u64) list) option" where
  "remove_mount path [] = None"
| "remove_mount path (mount # mounts) =
     (if path = fst mount then Some (snd mount, mounts)
      else map_option (\<lambda>(sb, ms). (sb, mount # ms)) (remove_mount path mounts))"

definition vfsUmount :: "'a node_tables \<Rightarrow> 'a super_tables \<Rightarrow> FsProcess option \<Rightarrow> u8 list \<Rightarrow> 'a FsState_scheme \<Rightarrow> ('a, unit) fs_result" where
  "vfsUmount F SF process path s =
     (if root_mounted s = 0 then do {
        path_copy \<leftarrow> inlineReducePath (path @ [0]);
        (case remove_mount (c_str path_copy) (tmp_mounted s) of
           None \<Rightarrow> Some (Inl ENOENT, s)
         | Some (sb, mounts) \<Rightarrow> do {
             s \<leftarrow> vfsSuperClose F SF sb (s\<lparr>tmp_mounted := mounts\<rparr>);
             Some (Inr (), s) }) }
      else if path = [slash] \<and> n_mounted (vnodes s (sb_root_node (vsupers s (root_mounted s)))) = 0 then do {
        s \<leftarrow> vfsSuperClose F SF (root_mounted s) (s\<lparr>root_mounted := 0\<rparr>);
        Some (Inr (), s) }
      else
        checked_or (vfsLookupNodeAt F SF process 0 path VFS_LOOKUP_SKIPLASTMOUNT s) Some (\<lambda>(node, _) s.
          if n_mounted (vnodes s node) = 0 then do { s \<leftarrow> vfsNodeClose F SF node s; Some (Inl EINVAL, s) }
          else do {
            s \<leftarrow> vfsSuperClose F SF (n_mounted (vnodes s node)) s;
            let s = upd_node node (\<lambda>v. v\<lparr>n_mounted := 0\<rparr>) s;
            s \<leftarrow> vfsNodeClose F SF node s;
            s \<leftarrow> vfsNodeClose F SF node s;
            Some (Inr (), s) }))"

subsection \<open>Drivers\<close>

record 's VfsFilesystemDriver =
  drv_name :: "u8 list"
  drv_nofile :: bool
  drv_create_superblock :: "u64 \<Rightarrow> VirtPtr \<Rightarrow> 's \<Rightarrow> (Error + u64) \<times> 's"

text \<open>The last reference to a file closes its node, the structure is freed.\<close>

definition close_file :: "'a node_tables \<Rightarrow> 'a super_tables \<Rightarrow> u64 \<Rightarrow> 'a FsState_scheme \<Rightarrow> 'a FsState_scheme option" where
  "close_file F SF file s =
     (let s = upd_file file (\<lambda>f. f\<lparr>vf_ref_count := vf_ref_count f - 1\<rparr>) s in
      if vf_ref_count (vfiles s file) = 0 then vfsNodeClose F SF (vf_node (vfiles s file)) s else Some s)"

primrec vfsCreateSuperblock :: "'a node_tables \<Rightarrow> 'a super_tables \<Rightarrow> 'a FsState_scheme VfsFilesystemDriver list \<Rightarrow> FsProcess option \<Rightarrow> u8 list \<Rightarrow> u8 list \<Rightarrow> VirtPtr \<Rightarrow> 'a FsState_scheme
    \<Rightarrow> ('a, u64) fs_result" where
  "vfsCreateSuperblock F SF [] process path type data s = Some (Inl EINVAL, s)"
| "vfsCreateSuperblock F SF (driver # drivers) process path type data s =
     (if type = drv_name driver then
        checked_or (if drv_nofile driver then Some (Inr 0, s) else vfsOpenAt F SF process 0 path VFS_OPEN_READ 0 0 s) Some (\<lambda>file s. do {
          let (err, s) = drv_create_superblock driver file data s;
          s \<leftarrow> (if file \<noteq> 0 then close_file F SF file s else Some s);
          Some (err, s) })
      else vfsCreateSuperblock F SF drivers process path type data s)"

definition vfsInit :: "'a FsState_scheme \<Rightarrow> 'a FsState_scheme" where
  "vfsInit s = s\<lparr>root_mounted := 0, tmp_mounted := []\<rparr>"

end
