(* ===== verification/Lookup.thy ===== *)
theory Lookup
  imports FileSystem
begin

text \<open>
  Properties of the path lookup of kernel/src/files/vfs/fs.c (theory \<open>FileSystem\<close>): the path that a lookup
  reports is the reduced path of theory \<open>Path\<close>, and three defects of mounts and created files.
\<close>

subsection \<open>Segments\<close>

lemma path_segments_components: "path_segments (dropWhile (\<lambda>c. c = slash) p) = components p"
proof (induction p rule: components.induct)
  case (1 p)
  let ?q = "dropWhile (\<lambda>c. c = slash) p"
  show ?case
  proof (cases "?q = []")
    case False
    then show ?thesis using 1 [OF refl] by (subst path_segments.simps, subst components.simps) (simp add: Let_def)
  qed (simp add: path_segments.simps components.simps)
qed

lemma case_sum_Inr: "(case r of Inl e \<Rightarrow> Some (Inl e, x) | Inr y \<Rightarrow> k y) = Some (Inr z, w) \<longleftrightarrow> (\<exists>y. r = Inr y \<and> k y = Some (Inr z, w))"
  by (cases r) auto

lemma checked_or_Inr: "checked_or m c k = Some (Inr z, w) \<longleftrightarrow> (\<exists>y s. m = Some (Inr y, s) \<and> k y s = Some (Inr z, w))"
proof (cases m)
  case (Some x)
  then show ?thesis by (cases x; cases "fst x") (auto simp: checked_or_def bind_eq_Some_conv)
qed (simp add: checked_or_def)

lemma lookup_loop_segs:
  assumes "lookup_loop F SF u cs cur dirs segs s = Some (Inr r, cur', dirs', segs', s')" "length dirs = length segs + 1" "[dot, dot] \<notin> set segs"
  shows "segs' = foldl (reduce_comp True) segs cs"
  using assms
proof (induction cs arbitrary: cur dirs segs s)
  case (Cons c cs)
  note loop = Cons.prems(1)
  have dir: "MODE_TYPE (st_mode (stat_of s cur)) = VFS_TYPE_DIR" using loop by (auto split: if_splits)
  consider "c = [dot]" | "c = [dot, dot]" "segs = []" | "c = [dot, dot]" "segs \<noteq> []" | "c \<noteq> [dot]" "c \<noteq> [dot, dot]" by blast
  then show ?case
  proof cases
    case 1
    then show ?thesis using Cons.IH [of cur dirs segs s] Cons.prems dir by (simp add: reduce_comp_def)
  next
    case 2
    then show ?thesis using Cons.IH [of cur dirs segs s] Cons.prems dir by (simp add: reduce_comp_def)
  next
    case 3
    then obtain s1 where "lookup_loop F SF u cs (last dirs) (butlast dirs) (butlast segs) s1 = Some (Inr r, cur', dirs', segs', s')"
      using loop dir Cons.prems(2) by (auto simp: bind_eq_Some_conv)
    moreover have "[dot, dot] \<notin> set (butlast segs)" "last segs \<noteq> [dot, dot]" using Cons.prems(3) 3(2) in_set_butlastD last_in_set by fastforce+
    moreover have "length (butlast dirs) = length (butlast segs) + 1" using Cons.prems(2) 3(2) by (cases segs) auto
    ultimately show ?thesis using Cons.IH 3 by (simp add: reduce_comp_def)
  next
    case 4
    then obtain n s1 where "lookup_loop F SF u cs n (dirs @ [cur]) (segs @ [c]) s1 = Some (Inr r, cur', dirs', segs', s')"
      using loop dir by (auto simp: bind_eq_Some_conv Let_def case_sum_Inr)
    then show ?thesis using Cons.IH [of n "dirs @ [cur]" "segs @ [c]" s1] Cons.prems(2,3) 4 by (auto simp: reduce_comp_def)
  qed
qed simp

lemma append_segments_eq: "append_segments segs path = path @ concat (map (\<lambda>seg. slash # seg) segs)"
  by (induction segs arbitrary: path) auto

lemma concat_join: "segs \<noteq> [] \<Longrightarrow> concat (map (\<lambda>seg. slash # seg) segs) = slash # join_path segs"
  by (induction segs rule: join_path.induct) auto

lemma real_path_root: "real_path_of [] segs = slash # join_path segs @ [0]"
  by (cases "segs = []") (simp_all add: real_path_of_def append_segments_eq concat_join)

lemma join_path_set: "set (join_path segs) \<subseteq> insert slash (\<Union> (set ` set segs))"
  by (induction segs rule: join_path.induct) auto

lemma lookup_segments:
  assumes "vfsLookupNode F SF u cur path flags prefix s = Some (Inr (node, rp), s')"
  shows "rp = real_path_of prefix (foldl (reduce_comp True) [] (components path))"
proof -
  obtain s1 a cur' dirs segs s2 s3 where l: "lookup_loop F SF u (components path) cur [cur] [] s1 = Some (a, cur', dirs, segs, s2)" "close_all F SF dirs s2 = Some s3"
    "(case a of Inl e \<Rightarrow> vfsNodeClose F SF cur' s3 \<bind> (\<lambda>s. Some (Inl e, s))
      | Inr _ \<Rightarrow> vfsFollowMounts F SF cur' (flags = VFS_LOOKUP_SKIPLASTMOUNT) s3 \<bind> (\<lambda>(n, s). Some (Inr (n, real_path_of prefix segs), s)))
     = Some (Inr (node, rp), s')"
    using assms by (auto simp: vfsLookupNode_def path_segments_components bind_eq_Some_conv)
  then obtain r where "a = Inr r" by (cases a) (auto simp: bind_eq_Some_conv)
  then show ?thesis using l lookup_loop_segs [of F SF u "components path" cur "[cur]" "[]" s1] by (auto simp: bind_eq_Some_conv)
qed

lemma c_str_nul: "0 \<notin> set x \<Longrightarrow> c_str (x @ [0]) = x"
  by (induction x) (auto simp: c_str_def)

lemma comps_no_nul: "0 \<notin> set path \<Longrightarrow> 0 \<notin> set (join_path (foldl (reduce_comp True) [] (components path)))"
  using join_path_set [of "foldl (reduce_comp True) [] (components path)"] reduce_comps_ok [of "[]" "components path" True] components_ok [of path]
  by (fastforce simp: comp_ok_def)

lemma lookup_real_path:
  assumes "vfsLookupNode F SF u cur path flags [] s = Some (Inr (node, rp), s')" "0 \<notin> set path"
  shows "c_str rp = reduced_path (slash # path)"
proof -
  let ?st = "foldl (reduce_comp True) [] (components path)"
  have "c_str (slash # join_path ?st @ [0]) = slash # join_path ?st"
    using c_str_nul [of "slash # join_path ?st"] comps_no_nul [OF assms(2)] by simp
  then show ?thesis using lookup_segments [OF assms(1)] by (simp add: real_path_root reduced_path_def components_Cons_slash)
qed


text \<open>
  Property C20 (lookup_path_reduced). When a lookup in the mounted file systems succeeds, the path it reports for
  the node is the absolute path asked for, with the working directory in front of a relative one,
  reduced as \<open>inlineReducePath\<close> reduces it, whatever mounts it crossed and whatever the file systems answered.
\<close>

theorem lookup_path_reduced:
  assumes "vfsLookupNodeAt F SF (Some p) 0 path VFS_LOOKUP_NORMAL s = Some (Inr (node, rp), s')" "root_mounted s \<noteq> 0"
    and "0 \<notin> set path" "0 \<notin> set (p_cwd p)" "p_cwd p \<noteq> []" "hd (p_cwd p) = slash"
  shows "c_str rp = reduced_path (if path \<noteq> [] \<and> hd path = slash then path else p_cwd p @ slash # path)"
proof -
  let ?abs = "if path \<noteq> [] \<and> hd path = slash then path else p_cwd p @ slash # path"
  have abs: "0 \<notin> set ?abs" "?abs \<noteq> []" "hd ?abs = slash" using assms by auto
  have "vfsLookupNodeAtExactAbs F SF (Some (p_user p)) ?abs VFS_LOOKUP_NORMAL s = Some (Inr (node, rp), s')"
    using assms(1) by (auto simp: vfsLookupNodeAt_def vfsLookupNodeAtAbs_def split: if_splits)
  then obtain cur s1 s2 where "vfsLookupNode F SF (Some (p_user p)) cur ?abs VFS_LOOKUP_NORMAL [] s1 = Some (Inr (node, rp), s2)"
    using assms(2) by (auto simp: vfsLookupNodeAtExactAbs_def bind_eq_Some_conv Let_def)
  then have "c_str rp = reduced_path (slash # ?abs)" using lookup_real_path abs(1) by blast
  also have "\<dots> = reduced_path ?abs" using abs(2,3) by (simp add: reduced_path_def components_Cons_slash)
  finally show ?thesis .
qed

text \<open>A directory in which every name leads back to it.\<close>

definition loop_functions :: "unit node_tables" where
  "loop_functions _ = \<lparr>fn_free = (\<lambda>_ s. s), fn_read_at = None, fn_write_at = None, fn_trunc = None, fn_readdir_at = None,
     fn_lookup = Some (\<lambda>_ _ s. (Inr 1, s)), fn_unlink = None, fn_link = None, fn_ioctl = None, fn_is_ready = None\<rparr>"

definition loop_supers :: "unit super_tables" where
  "loop_supers _ = \<lparr>sf_free = (\<lambda>_ s. s), sf_read_node = (\<lambda>_ _ s. (Inl EIO, s)), sf_write_node = (\<lambda>_ _ s. (Inr (), s)),
     sf_new_node = (\<lambda>_ s. (Inl EIO, s)), sf_free_node = (\<lambda>_ _ s. (Inr (), s))\<rparr>"

definition root_dir :: VfsNode where
  "root_dir = \<lparr>n_functions = 0, n_super = 0, n_stat = \<lparr>st_dev = 0, st_id = 1, st_mode = 0x41FF, st_nlinks = 1, st_uid = 0, st_gid = 0, st_rdev = 0,
     st_size = 0, st_block_size = 0, st_blocks = 0, st_atime = 0, st_mtime = 0, st_ctime = 0\<rparr>, n_ref_count = 5, n_mounted = 0, n_real_node = 16, n_dirty = False\<rparr>"

definition loop_fs :: FsState where
  "loop_fs = \<lparr>vnodes = (\<lambda>_. root_dir), vsupers = (\<lambda>_. \<lparr>sb_root_node = 16, sb_id = 1, sb_ref_count = 1, sb_nodes = vfsCacheInit\<rparr>),
     vfiles = (\<lambda>_. \<lparr>vf_node = 16, vf_path = None, vf_ref_count = 1, vf_offset = 0, vf_flags = 0\<rparr>), clock = (\<lambda>n. of_nat n), ticks = 0,
     fresh_addrs = [], devs = no_devices (\<lambda>_. \<lparr>dv_type = DEVICE_CHAR, dv_id = 0, dv_name = [], dv_name_id = 0, dv_block_size = 0, dv_size = 0\<rparr>),
     named_data = STRING_MAP_INITIALIZER, pipe_heap = (\<lambda>_. createPipeSharedData [] False (\<lambda>_ _. 0)),
     fifo_nodes = (\<lambda>_. \<lparr>fifo_data = 0, fifo_name = None, fifo_for_write = False\<rparr>), pipe_nodes = (\<lambda>_. (0, False)), device_nodes = (\<lambda>_. 0),
     fifo_table = 1, pipe_table = 2, block_table = 3, tty_table = 4, raw_memory = (\<lambda>_. 0), kernel_table = 0, new_pipe_buffer = [], user_spaces = (\<lambda>_ _. 0),
     root_mounted = 8, tmp_mounted = []\<rparr>"

definition root_process :: FsProcess where
  "root_process = \<lparr>p_user = \<lparr>euid = 0, egid = 0\<rparr>, p_cwd = [slash, 97], p_umask = 0\<rparr>"

lemmas loop_defs = loop_fs_def loop_functions_def loop_supers_def root_dir_def root_process_def vfsLookupNodeAt_def vfsLookupNodeAtAbs_def
  vfsLookupNodeAtExactAbs_def vfsLookupNode_def path_segments_components components.simps vfsSuperCopyNode_def set_refs_def upd_node_def
  vfsNodeLookup_def vfsNodeBasicLookup_def delegate_def canAccess_def basicCanAccess_def checked_or_def checked_def vfsSuperReadNode_def vfsNodeClose_def vfsSuperCloseNode_def
  vfsFollowMounts.simps getNanosecondsWithFallback_def upd_stat_def vfsSuperWriteNode_def MODE_TYPE_def VFS_TYPE_DIR_def VFS_TYPE_REG_def
  VFS_ACCESS_X_def VFS_ACCESS_DIR_def VFS_ACCESS_REG_def VFS_ACCESS_W_def real_path_root Let_def

lemma loop_lookup:
  "\<exists>s'. vfsLookupNodeAt loop_functions loop_supers (Some root_process) 0 [dot, dot, slash, 98] VFS_LOOKUP_NORMAL loop_fs = Some (Inr (16, [slash, 98, 0]), s')"
  by (simp add: loop_defs)

theorem lookup_path_reduced_witness:
  "\<exists>rp s'. vfsLookupNodeAt loop_functions loop_supers (Some root_process) 0 [dot, dot, slash, 98] VFS_LOOKUP_NORMAL loop_fs = Some (Inr (16, rp), s')
     \<and> c_str rp = reduced_path [slash, 97, slash, dot, dot, slash, 98]"
proof -
  obtain s' where l: "vfsLookupNodeAt loop_functions loop_supers (Some root_process) 0 [dot, dot, slash, 98] VFS_LOOKUP_NORMAL loop_fs = Some (Inr (16, [slash, 98, 0]), s')"
    using loop_lookup by blast
  have "c_str [slash, 98, 0] = reduced_path (if [dot, dot, slash, 98] \<noteq> [] \<and> hd [dot, dot, slash, 98] = slash then [dot, dot, slash, 98] else p_cwd root_process @ slash # [dot, dot, slash, 98])"
    by (rule lookup_path_reduced [OF l]) (simp_all add: loop_fs_def root_process_def)
  then show ?thesis using l by (intro exI [of _ "[slash, 98, 0]"]) (simp add: root_process_def)
qed

subsection \<open>Defects\<close>

text \<open>
  Before a root is mounted, the mount for a path is chosen by its prefix without a look at the
  character behind the prefix: a longer name that starts like the mount point is looked up inside of the mount.
\<close>

lemma tmp_mount_prefix:
  assumes "root_mounted s = 0" "tmp_mounted s = (prefix, sb) # mounts"
  shows "vfsLookupNodeAtExactAbs F SF u (prefix @ rest) flags s = vfsLookupNodeAtExactAbs F SF u (prefix @ slash # rest) flags s"
  using assms by (simp add: vfsLookupNodeAtExactAbs_def vfsLookupNode_def path_segments_components components_Cons_slash Let_def nth_append)

text \<open>
  Following a mount replaces the current node by the root of the mounted file system without closing it: the
  reference of the caller is neither handed on nor dropped, and the node stays in use for good.
\<close>

lemma mount_reference_leak:
  assumes "n_mounted (vnodes s cur) \<noteq> 0" "root = sb_root_node (vsupers s (n_mounted (vnodes s cur)))" "n_mounted (vnodes s root) = 0" "root \<noteq> cur"
    and "vfsFollowMounts F SF cur False s = Some (n, s')"
  shows "n = root \<and> n_ref_count (vnodes s' cur) = n_ref_count (vnodes s cur)"
proof -
  obtain s1 where c: "vfsSuperCopyNode root s = Some s1" "vfsFollowMounts F SF root False s1 = Some (n, s')"
    using assms(1,2,5) by (subst (asm) vfsFollowMounts.simps) (auto simp: bind_eq_Some_conv Let_def)
  have v: "n_mounted (vnodes s1 root) = n_mounted (vnodes s root)" "n_ref_count (vnodes s1 cur) = n_ref_count (vnodes s cur)"
    using c(1) assms(4) by (auto simp: vfsSuperCopyNode_def vfsCacheCopyNode_def set_refs_def upd_node_def set_cache_def upd_super_def vfsSuperCopy_def Let_def
        bind_eq_Some_conv split: if_splits)
  then show ?thesis using c(2) assms(3) by (simp add: vfsFollowMounts.simps)
qed

text \<open>
  The path of a created file is copied to a buffer without a NUL at its end (unless the memory held one before): nothing can
  read it as a string again.
\<close>

lemma created_path_unterminated:
  assumes "vfsCreateNewNode F SF process file path mode device junk s = Some (Inr (node, rp), s')" "junk \<noteq> 0"
  shows "string_in rp = None"
proof -
  obtain parent_path name_buf where "rp = created_path (c_str parent_path) (c_str name_buf) junk"
    using assms(1) by (auto simp: vfsCreateNewNode_def checked_or_Inr bind_eq_Some_conv Let_def getNanosecondsWithFallback_def)
  moreover have "0 \<notin> set (c_str x)" for x using set_takeWhileD by (fastforce simp: c_str_def)
  ultimately show ?thesis using assms(2) by (auto simp: created_path_def string_in_def)
qed

end
