(* ===== verification/Timer.thy ===== *)
theory Timer
  imports Schedule
begin

text \<open>
  Model of kernel/src/interrupt/timer.c: timeouts in a linked list, newest first. The functions of the timeouts
  are called through \<open>call\<close>, after the expired entries have left the list; they may set and clear timeouts
  themselves. \<open>timer_fresh\<close> are the addresses \<open>kalloc\<close> returns, \<open>timer_freed\<close> those given to \<open>dealloc\<close>,
  \<open>now\<close> is the reading of the clock and \<open>time_cmp\<close> the register that raises the next timer
  interrupt. The lock is omitted.
\<close>

definition MAX_TIME :: u64 where "MAX_TIME = push_bit 10 CLOCKS_PER_SEC"
definition MAX_IDLE_TIME :: u64 where "MAX_IDLE_TIME = CLOCKS_PER_SEC"

record TimeoutEntry =
  te_next :: u64
  te_id :: u64
  te_time :: u64
  te_function :: u64
  te_udata :: u64

record Timers =
  next_id :: u64
  timeouts :: u64
  entries :: "u64 \<Rightarrow> TimeoutEntry"
  timer_fresh :: "u64 list"
  timer_freed :: "u64 list"
  now :: u64
  time_cmp :: u64

text \<open>\<open>*current = v\<close>: the link of the previous entry, or the head of the list.\<close>

definition set_entry_link :: "u64 \<Rightarrow> u64 \<Rightarrow> 'a Timers_scheme \<Rightarrow> 'a Timers_scheme" where
  "set_entry_link prev v s =
     (if prev = 0 then s\<lparr>timeouts := v\<rparr> else s\<lparr>entries := (entries s)(prev := (entries s prev)\<lparr>te_next := v\<rparr>)\<rparr>)"

definition entry_link :: "u64 \<Rightarrow> 'a Timers_scheme \<Rightarrow> u64" where
  "entry_link prev s = (if prev = 0 then timeouts s else te_next (entries s prev))"

definition free_entry :: "u64 \<Rightarrow> 'a Timers_scheme \<Rightarrow> 'a Timers_scheme" where
  "free_entry e s = s\<lparr>timer_freed := e # timer_freed s\<rparr>"

definition setTimeoutTime :: "u64 \<Rightarrow> u64 \<Rightarrow> u64 \<Rightarrow> 'a Timers_scheme \<Rightarrow> (u64 \<times> 'a Timers_scheme) option" where
  "setTimeoutTime time function udata s =
     (let id' = next_id s; s = s\<lparr>next_id := next_id s + 1\<rparr> in
      case timer_fresh s of [] \<Rightarrow> None
      | entry # rest \<Rightarrow>
          (let s = s\<lparr>timer_fresh := rest\<rparr>;
               s = s\<lparr>entries := (entries s)(entry := \<lparr>te_next = timeouts s, te_id = id', te_time = time, te_function = function, te_udata = udata\<rparr>)\<rparr>
           in Some (id', s\<lparr>timeouts := entry\<rparr>)))"

definition setTimeout :: "u64 \<Rightarrow> u64 \<Rightarrow> u64 \<Rightarrow> 'a Timers_scheme \<Rightarrow> (u64 \<times> 'a Timers_scheme) option" where
  "setTimeout delay function udata s = setTimeoutTime (now s + delay) function udata s"

partial_function (option) clearTimeout_loop :: "u64 \<Rightarrow> u64 \<Rightarrow> 'a Timers_scheme \<Rightarrow> 'a Timers_scheme option" where
  "clearTimeout_loop timeout prev s =
     (let cur = entry_link prev s in
      if cur \<noteq> 0 then
        (if te_id (entries s cur) = timeout
         then clearTimeout_loop timeout prev (free_entry cur (set_entry_link prev (te_next (entries s cur)) s))
         else clearTimeout_loop timeout cur s)
      else Some s)"

definition clearTimeout :: "u64 \<Rightarrow> 'a Timers_scheme \<Rightarrow> 'a Timers_scheme option" where
  "clearTimeout timeout s = clearTimeout_loop timeout 0 s"

partial_function (option) expire_loop :: "u64 \<Rightarrow> u64 \<Rightarrow> u64 \<Rightarrow> 'a Timers_scheme \<Rightarrow> (u64 \<times> 'a Timers_scheme) option" where
  "expire_loop time prev to_call s =
     (let cur = entry_link prev s in
      if cur \<noteq> 0 then
        (if te_time (entries s cur) \<le> time
         then (let s = set_entry_link prev (te_next (entries s cur)) s;
                   s = s\<lparr>entries := (entries s)(cur := (entries s cur)\<lparr>te_next := to_call\<rparr>)\<rparr>
               in expire_loop time prev cur s)
         else expire_loop time cur to_call s)
      else Some (to_call, s))"

partial_function (option) call_loop :: "(u64 \<Rightarrow> u64 \<Rightarrow> u64 \<Rightarrow> 'a Timers_scheme \<Rightarrow> 'a Timers_scheme option) \<Rightarrow> u64 \<Rightarrow> u64 \<Rightarrow> 'a Timers_scheme \<Rightarrow> 'a Timers_scheme option" where
  "call_loop call time to_call s =
     (if to_call \<noteq> 0 then do {
        let entry = to_call;
        let to_call = te_next (entries s entry);
        s \<leftarrow> (if te_function (entries s entry) \<noteq> 0 then call (te_function (entries s entry)) time (te_udata (entries s entry)) s else Some s);
        call_loop call time to_call (free_entry entry s) }
      else Some s)"

definition handleTimerInterrupt :: "(u64 \<Rightarrow> u64 \<Rightarrow> u64 \<Rightarrow> 'a Timers_scheme \<Rightarrow> 'a Timers_scheme option) \<Rightarrow> 'a Timers_scheme \<Rightarrow> 'a Timers_scheme option" where
  "handleTimerInterrupt call s = do {
     let time = now s;
     (to_call, s) \<leftarrow> expire_loop time 0 0 s;
     call_loop call time to_call s }"

partial_function (option) earliest_loop :: "(u64 \<Rightarrow> TimeoutEntry) \<Rightarrow> u64 \<Rightarrow> u64 \<Rightarrow> u64 option" where
  "earliest_loop es cur nxt =
     (if cur \<noteq> 0 then earliest_loop es (te_next (es cur)) (if te_time (es cur) < nxt then te_time (es cur) else nxt)
      else Some nxt)"

text \<open>The argument says whether the task is the idle task of its hart.\<close>

definition setPreemptionTimer :: "bool \<Rightarrow> 'a Timers_scheme \<Rightarrow> (u64 \<times> 'a Timers_scheme) option" where
  "setPreemptionTimer idle s = do {
     let time = now s;
     nxt \<leftarrow> earliest_loop (entries s) (timeouts s) (- 1);
     let max = (if idle then MAX_IDLE_TIME else MAX_TIME);
     Some (time, s\<lparr>time_cmp := if nxt < time + max then nxt else time + max\<rparr>) }"

subsection \<open>The list\<close>

abbreviation entry_next :: "'a Timers_scheme \<Rightarrow> u64 \<Rightarrow> u64" where
  "entry_next s e \<equiv> te_next (entries s e)"

text \<open>The list of timeouts, and an entry that agrees except for its link.\<close>

definition timer_list :: "'a Timers_scheme \<Rightarrow> u64 list \<Rightarrow> bool" where
  "timer_list s es \<longleftrightarrow> linked (entry_next s) (timeouts s) es"

definition same_entries :: "'a Timers_scheme \<Rightarrow> 'a Timers_scheme \<Rightarrow> bool" where
  "same_entries s s' \<longleftrightarrow> (\<forall>e. te_id (entries s' e) = te_id (entries s e) \<and> te_time (entries s' e) = te_time (entries s e)
     \<and> te_function (entries s' e) = te_function (entries s e) \<and> te_udata (entries s' e) = te_udata (entries s e)) \<and> now s' = now s"

lemma same_entries_trans: "same_entries s s' \<Longrightarrow> same_entries s' s'' \<Longrightarrow> same_entries s s''"
  by (simp add: same_entries_def)

abbreviation link_at :: "u64 list \<Rightarrow> u64" where
  "link_at ks \<equiv> (if ks = [] then 0 else last ks)"

lemma link_at_next:
  assumes "linked (entry_next s) (timeouts s) (ks @ xs)"
  shows "entry_link (link_at ks) s = (if xs = [] then 0 else hd xs)"
proof (cases ks rule: rev_cases)
  case Nil
  then show ?thesis using assms by (cases xs) (auto simp: entry_link_def)
next
  case (snoc js k)
  then have "k \<noteq> 0" using lseg_nonnull [OF assms] by auto
  then show ?thesis using assms snoc by (cases xs) (auto simp: entry_link_def)
qed

lemma unlink_entry:
  assumes "linked (entry_next s) (timeouts s) (ks @ x # xs)"
  shows "linked (entry_next (set_entry_link (link_at ks) (entry_next s x) s)) (timeouts (set_entry_link (link_at ks) (entry_next s x) s)) (ks @ xs)"
proof (cases ks rule: rev_cases)
  case Nil
  then show ?thesis using assms by (simp add: set_entry_link_def)
next
  case (snoc js k)
  then have "k \<noteq> 0" using lseg_nonnull [OF assms] by auto
  moreover have "entry_next (s\<lparr>entries := (entries s)(k := (entries s k)\<lparr>te_next := entry_next s x\<rparr>)\<rparr>) = (entry_next s)(k := entry_next s x)" by auto
  moreover have "linked ((entry_next s)(k := entry_next s x)) (timeouts s) (js @ k # xs)"
    using linked_remove_after [of "entry_next s" "timeouts s" js k x xs] assms snoc by simp
  ultimately show ?thesis using snoc by (simp add: set_entry_link_def del: lseg_append)
qed

lemma set_entry_link_same: "same_entries s (set_entry_link p v s)" "timer_freed (set_entry_link p v s) = timer_freed s"
  by (auto simp: same_entries_def set_entry_link_def)

lemma free_entry_list: "linked (entry_next (free_entry e s)) p es = linked (entry_next s) p es" "timeouts (free_entry e s) = timeouts s"
  "same_entries s (free_entry e s)"
  by (simp_all add: free_entry_def same_entries_def)

lemma clearTimeout_loop_spec:
  assumes "timer_list s (ks @ xs)"
  shows "\<exists>s'. clearTimeout_loop t (link_at ks) s = Some s' \<and> timer_list s' (ks @ filter (\<lambda>e. te_id (entries s e) \<noteq> t) xs) \<and> same_entries s s'
    \<and> timer_freed s' = rev (filter (\<lambda>e. te_id (entries s e) = t) xs) @ timer_freed s"
  using assms
proof (induction xs arbitrary: ks s)
  case Nil
  then have "clearTimeout_loop t (link_at ks) s = Some s"
    using link_at_next [of s ks "[]"] by (subst clearTimeout_loop.simps) (simp add: timer_list_def Let_def)
  then show ?case using Nil by (auto simp: same_entries_def)
next
  case (Cons x xs)
  have l: "linked (entry_next s) (timeouts s) (ks @ x # xs)" using Cons.prems by (simp add: timer_list_def)
  have x: "entry_link (link_at ks) s = x" "x \<noteq> 0" using link_at_next [OF l] lseg_nonnull [OF l] by auto
  show ?case
  proof (cases "te_id (entries s x) = t")
    case True
    let ?s = "free_entry x (set_entry_link (link_at ks) (entry_next s x) s)"
    have step: "clearTimeout_loop t (link_at ks) s = clearTimeout_loop t (link_at ks) ?s"
      using x True by (subst clearTimeout_loop.simps) (simp add: Let_def)
    have tl: "timer_list ?s (ks @ xs)" using unlink_entry [OF l] by (simp add: timer_list_def free_entry_list)
    have se: "same_entries s ?s" using same_entries_trans [OF set_entry_link_same(1) free_entry_list(3)] .
    have f: "timer_freed ?s = x # timer_freed s" by (simp add: free_entry_def set_entry_link_same)
    have i: "te_id (entries ?s e) = te_id (entries s e)" for e using se by (simp add: same_entries_def)
    show ?thesis using Cons.IH [OF tl] step se f True same_entries_trans unfolding i by fastforce
  next
    case False
    have "clearTimeout_loop t (link_at ks) s = clearTimeout_loop t (link_at (ks @ [x])) s"
      using x False by (subst clearTimeout_loop.simps) (simp add: Let_def)
    then show ?thesis using Cons.IH [of s "ks @ [x]"] Cons.prems False by simp
  qed
qed

lemma expire_loop_spec:
  assumes "timer_list s (ks @ xs)" "linked (entry_next s) tc cs" "set cs \<inter> set (ks @ xs) = {}"
  shows "\<exists>tc' s'. expire_loop t (link_at ks) tc s = Some (tc', s') \<and> timer_list s' (ks @ filter (\<lambda>e. \<not> te_time (entries s e) \<le> t) xs)
    \<and> linked (entry_next s') tc' (rev (filter (\<lambda>e. te_time (entries s e) \<le> t) xs) @ cs) \<and> same_entries s s' \<and> timer_freed s' = timer_freed s"
  using assms
proof (induction xs arbitrary: ks s tc cs)
  case Nil
  then have "expire_loop t (link_at ks) tc s = Some (tc, s)"
    using link_at_next [of s ks "[]"] by (subst expire_loop.simps) (simp add: timer_list_def Let_def)
  then show ?case using Nil by (auto simp: same_entries_def)
next
  case (Cons x xs)
  have l: "linked (entry_next s) (timeouts s) (ks @ x # xs)" using Cons.prems by (simp add: timer_list_def)
  have x: "entry_link (link_at ks) s = x" "x \<noteq> 0" "x \<notin> set (ks @ xs)" using link_at_next [OF l] lseg_nonnull [OF l] lseg_distinct [OF l] by auto
  show ?case
  proof (cases "te_time (entries s x) \<le> t")
    case True
    let ?s1 = "set_entry_link (link_at ks) (entry_next s x) s"
    let ?s = "?s1\<lparr>entries := (entries ?s1)(x := (entries ?s1 x)\<lparr>te_next := tc\<rparr>)\<rparr>"
    have step: "expire_loop t (link_at ks) tc s = expire_loop t (link_at ks) x ?s"
      using x(1,2) True by (subst expire_loop.simps) (simp add: Let_def)
    have n: "entry_next ?s = (entry_next ?s1)(x := tc)" by auto
    have tl: "timer_list ?s (ks @ xs)"
      unfolding timer_list_def n using unlink_entry [OF l] x(3) lseg_frame [OF x(3)] by (simp del: lseg_append)
    have p: "link_at ks \<notin> set cs" using Cons.prems(3) lseg_nonnull [OF Cons.prems(2)] by (auto simp: disjoint_iff)
    then have "entry_next ?s1 e = entry_next s e" if "e \<in> set cs" for e using that by (auto simp: set_entry_link_def)
    then have c1: "linked (entry_next ?s1) tc cs" using lseg_cong [of cs "entry_next ?s1" "entry_next s" tc 0] Cons.prems(2) by blast
    have xc: "x \<notin> set cs" using Cons.prems(3) by auto
    then have c: "linked (entry_next ?s) x (x # cs)" unfolding n using c1 x(2) by simp
    have d: "set (x # cs) \<inter> set (ks @ xs) = {}" using Cons.prems(3) x(3) by auto
    have se: "same_entries s ?s" by (auto simp: same_entries_def set_entry_link_def)
    have f: "timer_freed ?s = timer_freed s" by (simp add: set_entry_link_same)
    have i: "te_time (entries ?s e) = te_time (entries s e)" for e using se by (simp add: same_entries_def)
    obtain tc' s' where ih: "expire_loop t (link_at ks) x ?s = Some (tc', s')" "timer_list s' (ks @ filter (\<lambda>e. \<not> te_time (entries s e) \<le> t) xs)"
      "linked (entry_next s') tc' (rev (filter (\<lambda>e. te_time (entries s e) \<le> t) xs) @ x # cs)" "same_entries ?s s'" "timer_freed s' = timer_freed ?s"
      using Cons.IH [OF tl c d] unfolding i by blast
    have "linked (entry_next s') tc' (rev (filter (\<lambda>e. te_time (entries s e) \<le> t) (x # xs)) @ cs)"
      "timer_list s' (ks @ filter (\<lambda>e. \<not> te_time (entries s e) \<le> t) (x # xs))" using ih(2,3) True by simp_all
    then show ?thesis using ih(1,5) step f same_entries_trans [OF se ih(4)] by metis
  next
    case False
    have "expire_loop t (link_at ks) tc s = expire_loop t (link_at (ks @ [x])) tc s"
      using x False by (subst expire_loop.simps) (simp add: Let_def)
    then show ?thesis using Cons.IH [of s "ks @ [x]" tc cs] Cons.prems False by simp
  qed
qed

subsection \<open>Interrupts\<close>

text \<open>The calls for a list of entries with their functions and arguments.\<close>

primrec run_calls :: "(u64 \<Rightarrow> u64 \<Rightarrow> u64 \<Rightarrow> 'a Timers_scheme \<Rightarrow> 'a Timers_scheme option) \<Rightarrow> u64 \<Rightarrow> (u64 \<times> u64 \<times> u64) list \<Rightarrow> 'a Timers_scheme \<Rightarrow> 'a Timers_scheme option" where
  "run_calls call time [] s = Some s"
| "run_calls call time (x # xs) s = do {
     s \<leftarrow> (if fst (snd x) \<noteq> 0 then call (fst (snd x)) time (snd (snd x)) s else Some s);
     run_calls call time xs (free_entry (fst x) s) }"

abbreviation call_of :: "'a Timers_scheme \<Rightarrow> u64 \<Rightarrow> u64 \<times> u64 \<times> u64" where
  "call_of s e \<equiv> (e, te_function (entries s e), te_udata (entries s e))"

lemma call_loop_spec:
  assumes "linked (entry_next s) p es" "\<And>f u s s' e. call f time u s = Some s' \<Longrightarrow> e \<in> set es \<Longrightarrow> entries s' e = entries s e"
  shows "call_loop call time p s = run_calls call time (map (call_of s) es) s"
  using assms
proof (induction es arbitrary: p s)
  case Nil
  then show ?case by (simp add: call_loop.simps)
next
  case (Cons e es)
  have p: "p = e" "e \<noteq> 0" "linked (entry_next s) (entry_next s e) es" using Cons.prems(1) by auto
  let ?c = "if te_function (entries s e) \<noteq> 0 then call (te_function (entries s e)) time (te_udata (entries s e)) s else Some s"
  show ?case
  proof (cases ?c)
    case None
    then show ?thesis using p by (subst call_loop.simps) (simp add: Let_def split: if_splits)
  next
    case (Some s1)
    have same: "entries (free_entry e s1) x = entries s x" if "x \<in> set es" for x
      using Some Cons.prems(2) [of _ _ s s1 x] that by (auto simp: free_entry_def split: if_splits)
    then have "linked (entry_next (free_entry e s1)) (entry_next s e) es"
      using lseg_cong [of es "entry_next (free_entry e s1)" "entry_next s" "entry_next s e" 0] p(3) by simp
    then have "call_loop call time (entry_next s e) (free_entry e s1) = run_calls call time (map (call_of (free_entry e s1)) es) (free_entry e s1)"
      using Cons.prems(2) by (intro Cons.IH) auto
    also have "map (call_of (free_entry e s1)) es = map (call_of s) es" using same by simp
    finally show ?thesis using p Some by (subst call_loop.simps) (simp add: Let_def split: if_splits)
  qed
qed

lemma earliest_loop_spec:
  "linked (\<lambda>e. te_next (es e)) p xs \<Longrightarrow> \<exists>m. earliest_loop es p n = Some m \<and> m \<le> n \<and> (\<forall>e \<in> set xs. m \<le> te_time (es e)) \<and> (m = n \<or> (\<exists>e \<in> set xs. m = te_time (es e)))"
proof (induction xs arbitrary: p n)
  case Nil
  then show ?case by (simp add: earliest_loop.simps)
next
  case (Cons x xs)
  let ?n = "if te_time (es x) < n then te_time (es x) else n"
  obtain m where m: "earliest_loop es (te_next (es x)) ?n = Some m" "m \<le> ?n" "\<forall>e \<in> set xs. m \<le> te_time (es e)" "m = ?n \<or> (\<exists>e \<in> set xs. m = te_time (es e))"
    using Cons.IH [of "te_next (es x)" ?n] Cons.prems by auto
  have "earliest_loop es p n = Some m" using Cons.prems m(1) by (subst earliest_loop.simps) auto
  moreover have "m \<le> n \<and> m \<le> te_time (es x)" using m(2) by (auto split: if_splits)
  ultimately show ?case using m(3,4) by (auto split: if_splits)
qed

text \<open>
  Property C24 (timers_fire). A timer interrupt returns with exactly the timeouts in the list that are still to come, in
  their order, and before that calls the function of every expired one once, the oldest first,
  and frees its entry. Arming the timer sets the next interrupt to the earliest timeout or the end of the time slice, whichever comes first, so that no timeout
  is passed over.
\<close>

theorem timers_fire:
  assumes "timer_list s es" "\<And>f u r r' e. call f (now s) u r = Some r' \<Longrightarrow> e \<in> set es \<Longrightarrow> entries r' e = entries r e"
  shows "(\<exists>s1. handleTimerInterrupt call s = run_calls call (now s) (map (call_of s) (rev (filter (\<lambda>e. te_time (entries s e) \<le> now s) es))) s1
        \<and> timer_list s1 (filter (\<lambda>e. \<not> te_time (entries s e) \<le> now s) es) \<and> same_entries s s1 \<and> timer_freed s1 = timer_freed s)
    \<and> (\<exists>s'. setPreemptionTimer idle s = Some (now s, s') \<and> time_cmp s' \<le> now s + (if idle then MAX_IDLE_TIME else MAX_TIME)
        \<and> (\<forall>e \<in> set es. time_cmp s' \<le> te_time (entries s e))
        \<and> (time_cmp s' = now s + (if idle then MAX_IDLE_TIME else MAX_TIME) \<or> (\<exists>e \<in> set es. time_cmp s' = te_time (entries s e))))"
proof
  obtain tc s1 where e: "expire_loop (now s) 0 0 s = Some (tc, s1)" "timer_list s1 (filter (\<lambda>e. \<not> te_time (entries s e) \<le> now s) es)"
    "linked (entry_next s1) tc (rev (filter (\<lambda>e. te_time (entries s e) \<le> now s) es))" "same_entries s s1" "timer_freed s1 = timer_freed s"
    using expire_loop_spec [of s "[]" es 0 "[]" "now s"] assms(1) by auto
  have "call_loop call (now s) tc s1 = run_calls call (now s) (map (call_of s1) (rev (filter (\<lambda>e. te_time (entries s e) \<le> now s) es))) s1"
    by (rule call_loop_spec [OF e(3)]) (use assms(2) in auto)
  moreover have "call_of s1 = call_of s" using e(4) by (auto simp: same_entries_def)
  ultimately have "handleTimerInterrupt call s = run_calls call (now s) (map (call_of s) (rev (filter (\<lambda>e. te_time (entries s e) \<le> now s) es))) s1"
    using e(1) by (simp add: handleTimerInterrupt_def Let_def)
  then show "\<exists>s1. handleTimerInterrupt call s = run_calls call (now s) (map (call_of s) (rev (filter (\<lambda>e. te_time (entries s e) \<le> now s) es))) s1
      \<and> timer_list s1 (filter (\<lambda>e. \<not> te_time (entries s e) \<le> now s) es) \<and> same_entries s s1 \<and> timer_freed s1 = timer_freed s" using e by blast
next
  obtain m where "earliest_loop (entries s) (timeouts s) (- 1) = Some m" "\<forall>e \<in> set es. m \<le> te_time (entries s e)" "m = - 1 \<or> (\<exists>e \<in> set es. m = te_time (entries s e))"
    using earliest_loop_spec [of "entries s" "timeouts s" es "- 1"] assms(1) by (auto simp: timer_list_def)
  moreover have "\<not> (- 1 :: u64) < x" for x using word_n1_ge [of x] by (simp add: not_less)
  ultimately show "\<exists>s'. setPreemptionTimer idle s = Some (now s, s') \<and> time_cmp s' \<le> now s + (if idle then MAX_IDLE_TIME else MAX_TIME)
      \<and> (\<forall>e \<in> set es. time_cmp s' \<le> te_time (entries s e))
      \<and> (time_cmp s' = now s + (if idle then MAX_IDLE_TIME else MAX_TIME) \<or> (\<exists>e \<in> set es. time_cmp s' = te_time (entries s e)))"
    by (cases "m < now s + (if idle then MAX_IDLE_TIME else MAX_TIME)") (auto simp: setPreemptionTimer_def Let_def not_less intro: order_trans [OF word_n1_ge])
qed

text \<open>Witness: of two timeouts one has expired; the functions do nothing.\<close>

definition two_timeouts :: Timers where
  "two_timeouts = \<lparr>next_id = 2, timeouts = 0x100, entries = (\<lambda>e. if e = 0x100 then \<lparr>te_next = 0x200, te_id = 1, te_time = 90, te_function = 0x80, te_udata = 0\<rparr>
     else \<lparr>te_next = 0, te_id = 0, te_time = 40, te_function = 0x80, te_udata = 7\<rparr>), timer_fresh = [0x300], timer_freed = [], now = 50, time_cmp = 0\<rparr>"

theorem timers_fire_witness:
  "timer_list two_timeouts [0x100, 0x200] \<and> (\<exists>s'. handleTimerInterrupt (\<lambda>_ _ _. Some) two_timeouts = Some s' \<and> timer_list s' [0x100] \<and> timer_freed s' = [0x200])
     \<and> (\<exists>s'. setPreemptionTimer True two_timeouts = Some (50, s') \<and> time_cmp s' \<le> 40)"
proof -
  have t: "timer_list two_timeouts [0x100, 0x200]" by (simp add: timer_list_def two_timeouts_def)
  note f = timers_fire [OF t, of "\<lambda>_ _ _. Some" True]
  have x: "rev (filter (\<lambda>e. te_time (entries two_timeouts e) \<le> now two_timeouts) [0x100, 0x200]) = [0x200]"
    "filter (\<lambda>e. \<not> te_time (entries two_timeouts e) \<le> now two_timeouts) [0x100, 0x200] = [0x100]" by (simp_all add: two_timeouts_def)
  have v: "now two_timeouts = 50" "te_time (entries two_timeouts 0x200) = 40" "te_function (entries two_timeouts 0x200) \<noteq> 0" "timer_freed two_timeouts = []"
    by (simp_all add: two_timeouts_def)
  from f have "\<exists>s1. handleTimerInterrupt (\<lambda>_ _ _. Some) two_timeouts = run_calls (\<lambda>_ _ _. Some) (now two_timeouts) (map (call_of two_timeouts) [0x200]) s1
      \<and> timer_list s1 [0x100] \<and> same_entries two_timeouts s1 \<and> timer_freed s1 = timer_freed two_timeouts" unfolding x by auto
  then have "\<exists>s'. handleTimerInterrupt (\<lambda>_ _ _. Some) two_timeouts = Some s' \<and> timer_list s' [0x100] \<and> timer_freed s' = [0x200]"
    using v by (auto simp: free_entry_def timer_list_def)
  moreover have "\<exists>s'. setPreemptionTimer True two_timeouts = Some (50, s') \<and> time_cmp s' \<le> 40" using f v by force
  ultimately show ?thesis using t by blast
qed

end
