(* ===== verification/BlockTable.thy ===== *)
theory BlockTable
  imports Util
begin

text \<open>
  Model of the hash table of kernel/src/devices/blockcache.c: open addressing in which an entry far from its home
  displaces one that is nearer to its own (Robin Hood hashing), with removal by shifting back. A slot holds NULL (\<open>None\<close>) or a
  pointer to a block, which only the table owns; the block itself is in the slot. The bytes of a
  block are the contents of its memory. Sizes and indices are natural numbers.
\<close>

record CachedBlock =
  cb_offset :: u64
  cb_priority :: u8
  cb_bytes :: "u8 list"

record CachedBlockTable =
  tb_blocks :: "CachedBlock option list"
  tb_count :: nat
  tb_capacity :: nat

definition MIN_BLOCK_TABLE_CAPACITY :: nat where "MIN_BLOCK_TABLE_CAPACITY = 32"
definition DEFAULT_PRIORITY :: u8 where "DEFAULT_PRIORITY = 20"

definition home_slot :: "nat \<Rightarrow> u64 \<Rightarrow> nat" where
  "home_slot size' offset = unat (hashInt64 offset) mod size'"

definition oth_pl :: "nat \<Rightarrow> nat \<Rightarrow> u64 \<Rightarrow> nat" where
  "oth_pl size' idx offset = (size' + idx - home_slot size' offset) mod size'"

subsection \<open>Operations\<close>

text \<open>The result is the index of the slot that the source returns the contents of.\<close>

partial_function (option) block_lookup_loop :: "CachedBlock option list \<Rightarrow> u64 \<Rightarrow> nat \<Rightarrow> nat \<Rightarrow> nat option option" where
  "block_lookup_loop blocks offset pl idx =
     (case blocks ! idx of
        None \<Rightarrow> Some None
      | Some b \<Rightarrow>
          if cb_offset b = offset then Some (Some idx)
          else if oth_pl (length blocks) idx (cb_offset b) < pl then Some None
          else block_lookup_loop blocks offset (pl + 1) ((idx + 1) mod length blocks))"

definition lookupCachedBlock :: "CachedBlock option list \<Rightarrow> u64 \<Rightarrow> nat option option" where
  "lookupCachedBlock blocks offset = block_lookup_loop blocks offset 0 (home_slot (length blocks) offset)"

partial_function (option) block_insert_loop :: "CachedBlock option list \<Rightarrow> CachedBlock \<Rightarrow> nat \<Rightarrow> nat \<Rightarrow> CachedBlock option list option" where
  "block_insert_loop blocks block pl idx =
     (case blocks ! idx of
        None \<Rightarrow> Some (blocks[idx := Some block])
      | Some oth \<Rightarrow>
          if cb_offset oth = cb_offset block then Some (blocks[idx := Some block])
          else
            (let op = oth_pl (length blocks) idx (cb_offset oth) in
             if op < pl then block_insert_loop (blocks[idx := Some block]) oth (op + 1) ((idx + 1) mod length blocks)
             else block_insert_loop blocks block (pl + 1) ((idx + 1) mod length blocks)))"

definition insertCachedBlock :: "CachedBlock option list \<Rightarrow> CachedBlock \<Rightarrow> CachedBlock option list option" where
  "insertCachedBlock blocks block = block_insert_loop blocks block 0 (home_slot (length blocks) (cb_offset block))"

partial_function (option) shift_loop :: "CachedBlock option list \<Rightarrow> nat \<Rightarrow> CachedBlock option list option" where
  "shift_loop blocks idx =
     (let nxt_idx = (idx + 1) mod length blocks in
      case blocks ! nxt_idx of
        None \<Rightarrow> Some (blocks[idx := None])
      | Some b \<Rightarrow>
          if oth_pl (length blocks) nxt_idx (cb_offset b) = 0 then Some (blocks[idx := None])
          else shift_loop (blocks[idx := blocks ! nxt_idx]) nxt_idx)"

definition removeCachedBlock :: "CachedBlock option list \<Rightarrow> u64 \<Rightarrow> (CachedBlock option \<times> CachedBlock option list) option" where
  "removeCachedBlock blocks offset = do {
     r \<leftarrow> block_lookup_loop blocks offset 0 (home_slot (length blocks) offset);
     (case r of
        None \<Rightarrow> Some (None, blocks)
      | Some idx \<Rightarrow> do { bs \<leftarrow> shift_loop blocks idx; Some (blocks ! idx, bs) }) }"

fun rebuild_loop :: "CachedBlock option list \<Rightarrow> CachedBlock option list \<Rightarrow> CachedBlock option list option" where
  "rebuild_loop [] new_blocks = Some new_blocks"
| "rebuild_loop (None # bs) new_blocks = rebuild_loop bs new_blocks"
| "rebuild_loop (Some b # bs) new_blocks = do { nb \<leftarrow> insertCachedBlock new_blocks b; rebuild_loop bs nb }"

definition rebuildTable :: "nat \<Rightarrow> CachedBlockTable \<Rightarrow> CachedBlockTable option" where
  "rebuildTable new_size tab = do {
     nb \<leftarrow> rebuild_loop (take (tb_capacity tab) (tb_blocks tab)) (replicate new_size None);
     Some (tab\<lparr>tb_blocks := nb, tb_capacity := new_size\<rparr>) }"

function shrink_size :: "nat \<Rightarrow> nat \<Rightarrow> nat" where
  "shrink_size n new_size = (if new_size > MIN_BLOCK_TABLE_CAPACITY \<and> n * 4 < new_size then shrink_size n (new_size div 2) else new_size)"
  by pat_completeness auto
termination by (relation "measure snd") auto

function grow_size :: "nat \<Rightarrow> nat \<Rightarrow> nat" where
  "grow_size n new_size = (if new_size \<ge> 2 \<and> n * 3 > new_size * 2 then grow_size n (new_size * 3 div 2) else new_size)"
  by pat_completeness auto
termination by (relation "measure (\<lambda>(n, m). n * 3 - m * 2)") auto

declare shrink_size.simps [simp del] grow_size.simps [simp del]

text \<open>The loop that grows starts at the minimum capacity or above; below 2 it would not make progress.\<close>

definition testForResizeBlocks :: "CachedBlockTable \<Rightarrow> CachedBlockTable option" where
  "testForResizeBlocks tab =
     (let new_size = shrink_size (tb_count tab) (tb_capacity tab);
          new_size = (if new_size < MIN_BLOCK_TABLE_CAPACITY then MIN_BLOCK_TABLE_CAPACITY else new_size);
          new_size = grow_size (tb_count tab) new_size
      in if new_size \<noteq> tb_capacity tab then rebuildTable new_size tab else Some tab)"

definition insertIntoTable :: "u64 \<Rightarrow> u8 list \<Rightarrow> CachedBlockTable \<Rightarrow> CachedBlockTable option" where
  "insertIntoTable offset bytes tab = do {
     tab \<leftarrow> testForResizeBlocks tab;
     bs \<leftarrow> insertCachedBlock (tb_blocks tab) \<lparr>cb_offset = offset, cb_priority = DEFAULT_PRIORITY, cb_bytes = bytes\<rparr>;
     Some (tab\<lparr>tb_blocks := bs, tb_count := tb_count tab + 1\<rparr>) }"

definition getFromTable :: "u64 \<Rightarrow> CachedBlockTable \<Rightarrow> nat option option" where
  "getFromTable offset tab = (if tb_count tab = 0 then Some None else lookupCachedBlock (tb_blocks tab) offset)"

subsection \<open>Distances\<close>

lemma home_slot_less: "0 < n \<Longrightarrow> home_slot n k < n"
  by (simp add: home_slot_def)

lemma oth_pl_cases:
  assumes "i < n"
  shows "oth_pl n i k = (if home_slot n k \<le> i then i - home_slot n k else n + i - home_slot n k)"
proof (cases "home_slot n k \<le> i")
  case True
  then have "(n + i - home_slot n k) mod n = (n + (i - home_slot n k)) mod n" by (simp only: add_diff_assoc)
  also have "\<dots> = i - home_slot n k" using assms by simp
  finally show ?thesis using True by (simp add: oth_pl_def)
next
  case False
  then show ?thesis using assms home_slot_less [of n k] by (simp add: oth_pl_def)
qed

lemma oth_pl_less: "i < n \<Longrightarrow> oth_pl n i k < n"
  by (simp add: oth_pl_def)

lemma oth_pl_home: "0 < n \<Longrightarrow> oth_pl n (home_slot n k) k = 0"
  by (simp add: oth_pl_def)

lemma slot_at_pl: "i < n \<Longrightarrow> i = (home_slot n k + oth_pl n i k) mod n"
  using home_slot_less [of n k] by (auto simp: oth_pl_cases)

lemma oth_pl_at: "p < n \<Longrightarrow> oth_pl n ((home_slot n k + p) mod n) k = p"
  using home_slot_less [of n k] by (cases "home_slot n k + p < n") (auto simp: oth_pl_cases mod_if)

lemma oth_pl_next:
  assumes "i < n" "oth_pl n i k + 1 < n"
  shows "oth_pl n ((i + 1) mod n) k = oth_pl n i k + 1"
proof -
  have "(i + 1) mod n = (home_slot n k + (oth_pl n i k + 1)) mod n" using slot_at_pl [OF assms(1), of k] mod_Suc_eq [of "home_slot n k + oth_pl n i k" n] by simp
  then show ?thesis using oth_pl_at [OF assms(2), of k] by simp
qed

definition prev_slot :: "nat \<Rightarrow> nat \<Rightarrow> nat" where
  "prev_slot n i = (i + n - 1) mod n"

lemma prev_slot_less: "i < n \<Longrightarrow> prev_slot n i < n"
  by (simp add: prev_slot_def)

lemma prev_next [simp]: "i < n \<Longrightarrow> prev_slot n ((i + 1) mod n) = i"
  by (auto simp: prev_slot_def mod_if)

lemma prev_next_Suc [simp]: "i < n \<Longrightarrow> prev_slot n (Suc i mod n) = i"
  using prev_next by simp

lemma next_prev [simp]: "i < n \<Longrightarrow> (prev_slot n i + 1) mod n = i" "i < n \<Longrightarrow> Suc (prev_slot n i) mod n = i"
  by (auto simp: prev_slot_def mod_if)

lemma prev_slot_eq: "i < n \<Longrightarrow> j < n \<Longrightarrow> prev_slot n j = i \<longleftrightarrow> j = (i + 1) mod n"
  using next_prev(1) [of j n] by auto

subsection \<open>The invariant of the table\<close>

text \<open>
  \<open>reach bs i\<close> is the largest distance an entry in the slot after \<open>i\<close> may have from its home. The table keeps
  every entry within reach of the slot before it, and no two entries have the same offset.
\<close>

definition reach :: "CachedBlock option list \<Rightarrow> nat \<Rightarrow> nat" where
  "reach bs i = (case bs ! i of None \<Rightarrow> 0 | Some b \<Rightarrow> oth_pl (length bs) i (cb_offset b) + 1)"

definition robin_hood :: "CachedBlock option list \<Rightarrow> bool" where
  "robin_hood bs \<longleftrightarrow> (\<forall>i < length bs. \<forall>b. bs ! i = Some b \<longrightarrow> oth_pl (length bs) i (cb_offset b) \<le> reach bs (prev_slot (length bs) i))"

definition distinct_offsets :: "CachedBlock option list \<Rightarrow> bool" where
  "distinct_offsets bs \<longleftrightarrow> (\<forall>i < length bs. \<forall>j < length bs. \<forall>a b. bs ! i = Some a \<longrightarrow> bs ! j = Some b \<longrightarrow> cb_offset a = cb_offset b \<longrightarrow> i = j)"

definition block_set :: "CachedBlock option list \<Rightarrow> CachedBlock set" where
  "block_set bs = {b. \<exists>i < length bs. bs ! i = Some b}"

definition blocks_ok :: "CachedBlock option list \<Rightarrow> bool" where
  "blocks_ok bs \<longleftrightarrow> robin_hood bs \<and> distinct_offsets bs"

lemma robin_hoodD:
  "robin_hood bs \<Longrightarrow> i < length bs \<Longrightarrow> bs ! i = Some b \<Longrightarrow> oth_pl (length bs) i (cb_offset b) \<le> reach bs (prev_slot (length bs) i)"
  by (simp add: robin_hood_def)

lemma block_set_finite [simp]: "finite (block_set bs)"
proof -
  have "block_set bs \<subseteq> the ` set bs" by (auto simp: block_set_def intro!: image_eqI [of _ the "Some _"] dest: nth_mem)
  then show ?thesis using finite_subset by blast
qed

lemma empty_slot:
  assumes "distinct_offsets bs" "card (block_set bs) < length bs"
  shows "\<exists>e < length bs. bs ! e = None"
proof (rule ccontr)
  assume "\<not> ?thesis"
  then have all: "\<exists>b. bs ! i = Some b" if "i < length bs" for i using that by auto
  have "inj_on (\<lambda>i. the (bs ! i)) {..<length bs}"
  proof (rule inj_onI)
    fix i j assume ij: "i \<in> {..<length bs}" "j \<in> {..<length bs}" "the (bs ! i) = the (bs ! j)"
    then obtain a b where "bs ! i = Some a" "bs ! j = Some b" using all [of i] all [of j] by auto
    then show "i = j" using assms(1) ij unfolding distinct_offsets_def by auto
  qed
  moreover have "(\<lambda>i. the (bs ! i)) ` {..<length bs} \<subseteq> block_set bs" using all by (force simp: block_set_def)
  ultimately have "length bs \<le> card (block_set bs)" using card_inj_on_le [of _ "{..<length bs}" "block_set bs"] by simp
  then show False using assms(2) by simp
qed

text \<open>Between the home of an entry and its slot all slots are occupied by entries at least as far from their home.\<close>

lemma chain_occupied:
  assumes "robin_hood bs" "i < length bs" "bs ! i = Some b" "p \<le> oth_pl (length bs) i (cb_offset b)"
  shows "\<exists>a. bs ! ((home_slot (length bs) (cb_offset b) + p) mod length bs) = Some a
    \<and> p \<le> oth_pl (length bs) ((home_slot (length bs) (cb_offset b) + p) mod length bs) (cb_offset a)"
  using assms(4)
proof (induction "oth_pl (length bs) i (cb_offset b) - p" arbitrary: p)
  case 0
  then have "p = oth_pl (length bs) i (cb_offset b)" by simp
  then show ?case using slot_at_pl [OF assms(2), of "cb_offset b"] assms(3) by auto
next
  case (Suc d)
  let ?n = "length bs" and ?h = "home_slot (length bs) (cb_offset b)"
  let ?j = "(?h + (p + 1)) mod ?n"
  have n: "0 < ?n" using assms(2) by (cases ?n) auto
  obtain a where a: "bs ! ?j = Some a" "p + 1 \<le> oth_pl ?n ?j (cb_offset a)"
    using Suc.hyps(1) [of "p + 1"] Suc.hyps(2) by (metis One_nat_def Suc_eq_plus1 Suc_leI diff_Suc_1 diff_diff_left zero_less_Suc zero_less_diff)
  have j: "?j < ?n" using n by simp
  have "?j = ((?h + p) mod ?n + 1) mod ?n" by (simp add: mod_Suc_eq)
  then have pj: "prev_slot ?n ?j = (?h + p) mod ?n" using prev_next [of "(?h + p) mod ?n" ?n] n by simp
  have "p + 1 \<le> reach bs ((?h + p) mod ?n)" using robin_hoodD [OF assms(1) j a(1)] a(2) pj by simp
  then show ?case by (auto simp: reach_def split: option.splits)
qed

lemma chain_short:
  assumes "robin_hood bs" "i < length bs" "bs ! i = Some b" "e < length bs" "bs ! e = None"
  shows "oth_pl (length bs) i (cb_offset b) + 1 < length bs"
proof (rule ccontr)
  assume "\<not> ?thesis"
  then have "oth_pl (length bs) e (cb_offset b) \<le> oth_pl (length bs) i (cb_offset b)" using oth_pl_less [OF assms(4), of "cb_offset b"] by simp
  from chain_occupied [OF assms(1,2,3) this] show False using slot_at_pl [OF assms(4), of "cb_offset b"] assms(5) by simp
qed

subsection \<open>Lookup\<close>

lemma lookup_present:
  assumes "blocks_ok bs" "i < length bs" "bs ! i = Some b" "p \<le> oth_pl (length bs) i (cb_offset b)"
  shows "block_lookup_loop bs (cb_offset b) p ((home_slot (length bs) (cb_offset b) + p) mod length bs) = Some (Some i)"
  using assms(4)
proof (induction "oth_pl (length bs) i (cb_offset b) - p" arbitrary: p)
  case 0
  then have "p = oth_pl (length bs) i (cb_offset b)" by simp
  then show ?case using slot_at_pl [OF assms(2), of "cb_offset b"] assms(3) by (subst block_lookup_loop.simps) simp
next
  case (Suc d)
  let ?n = "length bs" and ?h = "home_slot (length bs) (cb_offset b)"
  let ?j = "(?h + p) mod ?n"
  have n: "0 < ?n" using assms(2) by (cases ?n) auto
  obtain a where a: "bs ! ?j = Some a" "p \<le> oth_pl ?n ?j (cb_offset a)"
    using chain_occupied [of bs i b p] assms Suc by (auto simp: blocks_ok_def)
  have p: "p < ?n" using Suc.hyps(2) oth_pl_less [OF assms(2), of "cb_offset b"] by simp
  have "oth_pl ?n ?j (cb_offset b) = p" using oth_pl_at [OF p] .
  then have "?j \<noteq> i" using Suc.hyps(2) by auto
  then have "cb_offset a \<noteq> cb_offset b" using assms(1,2,3) a(1) n unfolding blocks_ok_def distinct_offsets_def by (meson mod_less_divisor)
  then have "block_lookup_loop bs (cb_offset b) p ?j = block_lookup_loop bs (cb_offset b) (p + 1) ((?j + 1) mod ?n)"
    using a by (subst block_lookup_loop.simps) simp
  moreover have "(?j + 1) mod ?n = (?h + (p + 1)) mod ?n" by (simp add: mod_Suc_eq)
  ultimately show ?case using Suc.hyps(1) [of "p + 1"] Suc.hyps(2) by simp
qed

lemma lookup_absent:
  assumes "\<forall>b \<in> block_set bs. cb_offset b \<noteq> k" "e < length bs" "bs ! e = None" "p \<le> oth_pl (length bs) e k"
  shows "block_lookup_loop bs k p ((home_slot (length bs) k + p) mod length bs) = Some None"
  using assms(4)
proof (induction "oth_pl (length bs) e k - p" arbitrary: p)
  case 0
  then have "p = oth_pl (length bs) e k" by simp
  then show ?case using slot_at_pl [OF assms(2), of k] assms(3) by (subst block_lookup_loop.simps) simp
next
  case (Suc d)
  let ?n = "length bs"
  let ?j = "(home_slot ?n k + p) mod ?n"
  have "(?j + 1) mod ?n = (home_slot ?n k + (p + 1)) mod ?n" by (simp add: mod_Suc_eq)
  then have step: "block_lookup_loop bs k (p + 1) ((?j + 1) mod ?n) = Some None" using Suc.hyps(1) [of "p + 1"] Suc.hyps(2) by simp
  have "?j < ?n" using assms(2) by (cases ?n) auto
  then have "cb_offset a \<noteq> k" if "bs ! ?j = Some a" for a using assms(1) that unfolding block_set_def by blast
  then show ?case using step by (subst block_lookup_loop.simps) (simp split: option.split)
qed

lemma lookupCachedBlock_correct:
  assumes "blocks_ok bs" "card (block_set bs) < length bs"
  shows "\<exists>r. lookupCachedBlock bs k = Some r \<and> (case r of None \<Rightarrow> (\<forall>b \<in> block_set bs. cb_offset b \<noteq> k)
    | Some i \<Rightarrow> i < length bs \<and> (\<exists>b. bs ! i = Some b \<and> cb_offset b = k))"
proof (cases "\<exists>b \<in> block_set bs. cb_offset b = k")
  case True
  then obtain b i where b: "cb_offset b = k" "i < length bs" "bs ! i = Some b" by (auto simp: block_set_def)
  then have "home_slot (length bs) k < length bs" by (cases "length bs") (auto simp: home_slot_less)
  then show ?thesis using lookup_present [OF assms(1) b(2,3), of 0] b by (simp add: lookupCachedBlock_def)
next
  case False
  obtain e where e: "e < length bs" "bs ! e = None" using empty_slot assms by (auto simp: blocks_ok_def)
  then have "home_slot (length bs) k < length bs" by (cases "length bs") (auto simp: home_slot_less)
  then show ?thesis using lookup_absent [of bs k e 0] e False by (auto simp: lookupCachedBlock_def)
qed

subsection \<open>Insertion\<close>

text \<open>Replacing the contents of one slot.\<close>

lemma reach_update:
  "i < length bs \<Longrightarrow> reach (bs[i := x]) j = (if i = j then (case x of None \<Rightarrow> 0 | Some b \<Rightarrow> oth_pl (length bs) i (cb_offset b) + 1) else reach bs j)"
  by (cases "i = j") (simp_all add: reach_def split: option.split)

lemma prev_slot_self: "i < n \<Longrightarrow> prev_slot n i = i \<Longrightarrow> n = 1"
  by (auto simp: prev_slot_def mod_if split: if_splits)

lemma robin_hood_put:
  assumes "robin_hood bs" "i < length bs" "oth_pl (length bs) i (cb_offset b) \<le> reach bs (prev_slot (length bs) i)"
    "reach bs i \<le> oth_pl (length bs) i (cb_offset b) + 1"
  shows "robin_hood (bs[i := Some b])"
  unfolding robin_hood_def
proof (intro allI impI)
  fix j c assume j: "j < length (bs[i := Some b])" "bs[i := Some b] ! j = Some c"
  let ?n = "length bs"
  show "oth_pl (length (bs[i := Some b])) j (cb_offset c) \<le> reach (bs[i := Some b]) (prev_slot (length (bs[i := Some b])) j)"
  proof (cases "j = i")
    case True
    then have "c = b" using j assms(2) by simp
    moreover have "oth_pl ?n i (cb_offset b) \<le> reach (bs[i := Some b]) (prev_slot ?n i)"
      using assms(2,3) by (simp add: reach_update)
    ultimately show ?thesis using True by simp
  next
    case False
    then have "oth_pl ?n j (cb_offset c) \<le> reach bs (prev_slot ?n j)" using robin_hoodD [OF assms(1), of j c] j by simp
    also have "\<dots> \<le> reach (bs[i := Some b]) (prev_slot ?n j)" using assms(2,4) by (auto simp: reach_update)
    finally show ?thesis by simp
  qed
qed

lemma distinct_offsets_put:
  assumes "distinct_offsets bs" "i < length bs" "\<forall>a \<in> block_set bs. cb_offset a \<noteq> cb_offset b"
  shows "distinct_offsets (bs[i := Some b])"
proof -
  have new: "cb_offset a \<noteq> cb_offset b" if "bs ! j = Some a" "j < length bs" for j a using assms(3) that unfolding block_set_def by blast
  show ?thesis unfolding distinct_offsets_def
  proof (intro allI impI)
    fix j k a c assume a: "j < length (bs[i := Some b])" "k < length (bs[i := Some b])" "bs[i := Some b] ! j = Some a" "bs[i := Some b] ! k = Some c" "cb_offset a = cb_offset c"
    consider "j = i" "k = i" | "j \<noteq> i" "k \<noteq> i" | "j = i" "k \<noteq> i" | "j \<noteq> i" "k = i" by blast
    then show "j = k"
    proof cases
      case 2
      then have "bs ! j = Some a" "bs ! k = Some c" "j < length bs" "k < length bs" using a by simp_all
      then show ?thesis using assms(1) a(5) unfolding distinct_offsets_def by blast
    next
      case 3
      then have "a = b" "bs ! k = Some c" "k < length bs" using a assms(2) by simp_all
      then show ?thesis using new [of k c] a(5) by simp
    next
      case 4
      then have "c = b" "bs ! j = Some a" "j < length bs" using a assms(2) by simp_all
      then show ?thesis using new [of j a] a(5) by simp
    qed simp
  qed
qed

lemma block_set_put_empty: "i < length bs \<Longrightarrow> bs ! i = None \<Longrightarrow> block_set (bs[i := Some b]) = insert b (block_set bs)"
  by (auto simp: block_set_def nth_list_update) (metis option.distinct(1))

lemma block_set_unique:
  assumes "distinct_offsets bs" "i < length bs" "bs ! i = Some a" "c \<in> block_set bs" "cb_offset c = cb_offset a"
  shows "c = a"
proof -
  obtain j where "j < length bs" "bs ! j = Some c" using assms(4) unfolding block_set_def by blast
  moreover from this have "j = i" using assms unfolding distinct_offsets_def by blast
  ultimately show ?thesis using assms(3) by simp
qed

lemma block_set_put:
  assumes "distinct_offsets bs" "i < length bs" "bs ! i = Some a"
  shows "block_set (bs[i := Some b]) = insert b (block_set bs - {a})"
proof -
  have u: "j = i" if "j < length bs" "bs ! j = Some a" for j using assms that unfolding distinct_offsets_def by blast
  show ?thesis
  proof (rule set_eqI)
    fix c
    have "c \<in> block_set (bs[i := Some b]) \<longleftrightarrow> c = b \<or> (\<exists>j < length bs. j \<noteq> i \<and> bs ! j = Some c)"
      using assms(2) unfolding block_set_def by (auto simp: nth_list_update)
    also have "(\<exists>j < length bs. j \<noteq> i \<and> bs ! j = Some c) \<longleftrightarrow> c \<in> block_set bs - {a}"
    proof (cases "c = a")
      case True
      then show ?thesis using u by auto
    next
      case False
      then have "j \<noteq> i" if "bs ! j = Some c" for j using that assms(3) by auto
      then show ?thesis using False unfolding block_set_def by blast
    qed
    also have "c = b \<or> c \<in> block_set bs - {a} \<longleftrightarrow> c \<in> insert b (block_set bs - {a})" by simp
    finally show "c \<in> block_set (bs[i := Some b]) \<longleftrightarrow> c \<in> insert b (block_set bs - {a})" .
  qed
qed

lemma put_empty_correct:
  assumes "blocks_ok bs" "i < length bs" "oth_pl (length bs) i (cb_offset b) = pl" "pl \<le> reach bs (prev_slot (length bs) i)"
    "\<forall>a \<in> block_set bs. cb_offset a \<noteq> cb_offset b" "bs ! i = None"
  shows "\<exists>bs'. block_insert_loop bs b pl i = Some bs' \<and> blocks_ok bs' \<and> length bs' = length bs \<and> block_set bs' = insert b (block_set bs)"
proof -
  have "block_insert_loop bs b pl i = Some (bs[i := Some b])" using assms(6) by (subst block_insert_loop.simps) simp
  moreover have "reach bs i = 0" using assms(6) by (simp add: reach_def)
  then have "robin_hood (bs[i := Some b])" using assms(1-4) by (intro robin_hood_put) (simp_all add: blocks_ok_def)
  moreover have "distinct_offsets (bs[i := Some b])" using assms by (intro distinct_offsets_put) (simp_all add: blocks_ok_def)
  ultimately show ?thesis using block_set_put_empty [OF assms(2,6), of b] by (simp add: blocks_ok_def)
qed

lemma insert_loop_correct:
  assumes "blocks_ok bs" "i < length bs" "oth_pl (length bs) i (cb_offset b) = pl" "pl \<le> reach bs (prev_slot (length bs) i)"
    "\<forall>a \<in> block_set bs. cb_offset a \<noteq> cb_offset b" "bs ! ((i + d) mod length bs) = None" "d < length bs"
  shows "\<exists>bs'. block_insert_loop bs b pl i = Some bs' \<and> blocks_ok bs' \<and> length bs' = length bs \<and> block_set bs' = insert b (block_set bs)"
  using assms
proof (induction d arbitrary: bs b pl i)
  case 0
  then have "bs ! i = None" by simp
  then show ?case using put_empty_correct "0.prems"(1-5) by blast
next
  case (Suc d)
  let ?n = "length bs" and ?j = "(i + 1) mod length bs"
  have rh: "robin_hood bs" "distinct_offsets bs" using Suc.prems(1) by (simp_all add: blocks_ok_def)
  have j: "?j < ?n" using Suc.prems(2) by (cases ?n) auto
  have jd: "(?j + d) mod ?n = (i + Suc d) mod ?n" by (simp add: mod_simps)
  show ?case
  proof (cases "bs ! i")
    case None
    then show ?thesis using put_empty_correct Suc.prems(1-5) by blast
  next
    case (Some a)
    let ?op = "oth_pl ?n i (cb_offset a)"
    have ab: "cb_offset a \<noteq> cb_offset b" using Suc.prems(2,5) Some unfolding block_set_def by blast
    have "(i + Suc d) mod ?n < ?n" using j by (intro mod_less_divisor) (cases ?n; simp)
    then have short: "?op + 1 < ?n" using chain_short [OF rh(1) Suc.prems(2) Some] Suc.prems(6) by blast
    show ?thesis
    proof (cases "?op < pl")
      case True
      let ?bs = "bs[i := Some b]"
      have ra: "reach bs i = ?op + 1" using Some by (simp add: reach_def)
      have step: "block_insert_loop bs b pl i = block_insert_loop ?bs a (?op + 1) ?j"
        using Some ab True by (subst block_insert_loop.simps) (simp add: Let_def)
      have ok: "blocks_ok ?bs" unfolding blocks_ok_def
        using robin_hood_put [OF rh(1) Suc.prems(2), of b] distinct_offsets_put [OF rh(2) Suc.prems(2,5)] Suc.prems(3,4) True ra by simp
      have bset: "block_set ?bs = insert b (block_set bs - {a})" using block_set_put [OF rh(2) Suc.prems(2) Some] .
      have ain: "a \<in> block_set bs" using Some Suc.prems(2) unfolding block_set_def by blast
      have uniq: "\<forall>c \<in> block_set bs - {a}. cb_offset c \<noteq> cb_offset a" using block_set_unique [OF rh(2) Suc.prems(2) Some] by blast
      then have uniq': "\<forall>c \<in> block_set ?bs. cb_offset c \<noteq> cb_offset a" using ab bset by auto
      have "i \<noteq> (?j + d) mod ?n" using Suc.prems(6) Some jd by auto
      then have e: "?bs ! ((?j + d) mod length ?bs) = None" using Suc.prems(6) jd by simp
      have "?op + 1 \<le> reach ?bs (prev_slot (length ?bs) ?j)" using Suc.prems(2,3) True by (simp add: reach_update)
      then obtain bs' where "block_insert_loop ?bs a (?op + 1) ?j = Some bs'" "blocks_ok bs'" "length bs' = length ?bs" "block_set bs' = insert a (block_set ?bs)"
        using Suc.IH [of ?bs ?j a "?op + 1"] ok j oth_pl_next [OF Suc.prems(2) short] e uniq' Suc.prems(7) by simp metis
      moreover have "insert a (block_set ?bs) = insert b (block_set bs)" using bset ain by auto
      ultimately show ?thesis using step by simp
    next
      case False
      have step: "block_insert_loop bs b pl i = block_insert_loop bs b (pl + 1) ?j"
        using Some ab False by (subst block_insert_loop.simps) (simp add: Let_def)
      have "oth_pl ?n ?j (cb_offset b) = pl + 1" using oth_pl_next [of i ?n "cb_offset b"] Suc.prems(2,3) False short by simp
      moreover have "pl + 1 \<le> reach bs (prev_slot ?n ?j)" using Suc.prems(2) Some False by (simp add: reach_def)
      moreover have "bs ! ((?j + d) mod ?n) = None" using Suc.prems(6) jd by simp
      ultimately show ?thesis using Suc.IH [of bs ?j b "pl + 1"] Suc.prems(1,5,7) j step by simp
    qed
  qed
qed

lemma slot_ahead: "i < n \<Longrightarrow> e < n \<Longrightarrow> \<exists>d < n. (i + d) mod n = (e :: nat)"
  by (rule exI [of _ "(n + e - i) mod n"]) (auto simp: mod_simps)

lemma insertCachedBlock_correct:
  assumes "blocks_ok bs" "card (block_set bs) < length bs" "\<forall>a \<in> block_set bs. cb_offset a \<noteq> cb_offset b"
  shows "\<exists>bs'. insertCachedBlock bs b = Some bs' \<and> blocks_ok bs' \<and> length bs' = length bs \<and> block_set bs' = insert b (block_set bs)"
proof -
  let ?n = "length bs" and ?h = "home_slot (length bs) (cb_offset b)"
  obtain e where e: "e < ?n" "bs ! e = None" using empty_slot assms by (auto simp: blocks_ok_def)
  then have h: "?h < ?n" by (intro home_slot_less) (cases ?n; simp)
  obtain d where "d < ?n" "(?h + d) mod ?n = e" using slot_ahead [OF h e(1)] by auto
  moreover have "oth_pl ?n ?h (cb_offset b) = 0" using h by (intro oth_pl_home) (cases ?n; simp)
  ultimately show ?thesis using insert_loop_correct [OF assms(1) h, of b 0 d] assms(3) e by (simp add: insertCachedBlock_def)
qed

subsection \<open>Removal\<close>

text \<open>
  While entries are shifted back, the slot \<open>h\<close> is the hole: its contents no longer count, and the entry after
  it may be one further from its home than the slot before the hole allows.
\<close>

definition hole_ok :: "CachedBlock option list \<Rightarrow> nat \<Rightarrow> bool" where
  "hole_ok bs h \<longleftrightarrow> (\<forall>i < length bs. \<forall>b. i \<noteq> h \<longrightarrow> bs ! i = Some b \<longrightarrow>
     oth_pl (length bs) i (cb_offset b) \<le> (if prev_slot (length bs) i = h then reach bs (prev_slot (length bs) h) + 1 else reach bs (prev_slot (length bs) i)))"

lemma hole_okD:
  "hole_ok bs h \<Longrightarrow> i < length bs \<Longrightarrow> i \<noteq> h \<Longrightarrow> bs ! i = Some b \<Longrightarrow>
     oth_pl (length bs) i (cb_offset b) \<le> (if prev_slot (length bs) i = h then reach bs (prev_slot (length bs) h) + 1 else reach bs (prev_slot (length bs) i))"
  by (simp add: hole_ok_def)

lemma hole_start:
  assumes "robin_hood bs" "h < length bs" "bs ! h = Some b"
  shows "hole_ok bs h"
  unfolding hole_ok_def
proof (intro allI impI)
  fix i c assume i: "i < length bs" "i \<noteq> h" "bs ! i = Some c"
  let ?n = "length bs"
  have le: "oth_pl ?n i (cb_offset c) \<le> reach bs (prev_slot ?n i)" using robin_hoodD [OF assms(1) i(1,3)] .
  have "reach bs h \<le> reach bs (prev_slot ?n h) + 1" using robin_hoodD [OF assms] assms(3) by (simp add: reach_def)
  then show "oth_pl ?n i (cb_offset c) \<le> (if prev_slot ?n i = h then reach bs (prev_slot ?n h) + 1 else reach bs (prev_slot ?n i))"
    using le by auto
qed

lemma hole_stop:
  assumes "hole_ok bs h" "h < length bs"
    "\<And>b. bs ! ((h + 1) mod length bs) = Some b \<Longrightarrow> oth_pl (length bs) ((h + 1) mod length bs) (cb_offset b) = 0"
  shows "robin_hood (bs[h := None])"
  unfolding robin_hood_def
proof (intro allI impI)
  fix i c assume i: "i < length (bs[h := None])" "bs[h := None] ! i = Some c"
  let ?n = "length bs"
  have c: "i \<noteq> h" "i < ?n" "bs ! i = Some c" using i assms(2) by (auto simp: nth_list_update split: if_splits)
  have "oth_pl ?n i (cb_offset c) \<le> reach (bs[h := None]) (prev_slot ?n i)"
  proof (cases "prev_slot ?n i = h")
    case True
    then have "i = (h + 1) mod ?n" using prev_slot_eq assms(2) c(2) by blast
    then show ?thesis using assms(3) c(3) by simp
  next
    case False
    then show ?thesis using hole_okD [OF assms(1) c(2,1,3)] assms(2) by (simp add: reach_update)
  qed
  then show "oth_pl (length (bs[h := None])) i (cb_offset c) \<le> reach (bs[h := None]) (prev_slot (length (bs[h := None])) i)" by simp
qed

lemma oth_pl_prev:
  assumes "i < n" "0 < oth_pl n ((i + 1) mod n) k"
  shows "oth_pl n i k + 1 = oth_pl n ((i + 1) mod n) k"
proof (cases "oth_pl n i k + 1 < n")
  case True
  then show ?thesis using oth_pl_next [OF assms(1) True] by simp
next
  case False
  then have "oth_pl n i k + 1 = n" using oth_pl_less [OF assms(1), of k] by simp
  then have "(i + 1) mod n = (home_slot n k + n) mod n" using slot_at_pl [OF assms(1), of k] mod_Suc_eq [of "home_slot n k + oth_pl n i k" n] by (metis Suc_eq_plus1 add_Suc_right)
  then have "(i + 1) mod n = home_slot n k" using home_slot_less [of n k] assms(1) by simp
  then show ?thesis using assms oth_pl_home [of n k] by simp
qed

lemma hole_step:
  assumes "hole_ok bs h" "h < length bs" "bs ! ((h + 1) mod length bs) = Some b" "0 < oth_pl (length bs) ((h + 1) mod length bs) (cb_offset b)"
  shows "hole_ok (bs[h := Some b]) ((h + 1) mod length bs)"
  unfolding hole_ok_def
proof (intro allI impI)
  let ?n = "length bs" and ?bs = "bs[h := Some b]" and ?j = "(h + 1) mod length bs"
  fix i c assume i: "i < length ?bs" "i \<noteq> ?j" "?bs ! i = Some c"
  have j: "?j < ?n" "prev_slot ?n ?j = h" using assms(2) by (cases ?n; simp)+
  have d: "oth_pl ?n h (cb_offset b) + 1 = oth_pl ?n ?j (cb_offset b)" using oth_pl_prev [OF assms(2,4)] .
  have jh: "?j \<noteq> h"
  proof
    assume "?j = h"
    then have "?n = 1" using prev_slot_self [of h ?n] j assms(2) by simp
    then show False using assms(4) oth_pl_less [of ?j ?n "cb_offset b"] j by simp
  qed
  have rj: "reach bs ?j = oth_pl ?n ?j (cb_offset b) + 1" "reach ?bs h = oth_pl ?n ?j (cb_offset b)" "reach ?bs x = reach bs x" if "x \<noteq> h" for x
    using assms(2,3) d that reach_update [OF assms(2), of "Some b"] by (simp_all add: reach_def [of bs "Suc h mod length bs"])
  have "oth_pl ?n i (cb_offset c) \<le> (if prev_slot ?n i = ?j then reach ?bs h + 1 else reach ?bs (prev_slot ?n i))"
  proof (cases "i = h")
    case True
    then have c: "c = b" using i assms(2) by simp
    have le: "oth_pl ?n ?j (cb_offset b) \<le> reach bs (prev_slot ?n h) + 1" using hole_okD [OF assms(1) j(1) jh assms(3)] j(2) by simp
    have "prev_slot ?n h \<noteq> h" using prev_slot_self [of h ?n] jh assms(2) by (metis next_prev(1))
    then show ?thesis using True c le d assms(2) rj jh by (auto simp: reach_update)
  next
    case False
    then have c: "i < ?n" "bs ! i = Some c" using i by simp_all
    have ph: "prev_slot ?n i \<noteq> h" using prev_slot_eq [of h ?n i] assms(2) c(1) i(2) by simp
    then have "oth_pl ?n i (cb_offset c) \<le> reach bs (prev_slot ?n i)" using hole_okD [OF assms(1) c(1) False c(2)] by simp
    then show ?thesis using ph rj jh assms(2) by (auto simp: reach_update)
  qed
  then show "oth_pl (length ?bs) i (cb_offset c) \<le> (if prev_slot (length ?bs) i = ?j then reach ?bs (prev_slot (length ?bs) ?j) + 1 else reach ?bs (prev_slot (length ?bs) i))"
    unfolding length_list_update j(2) .
qed

text \<open>What remains in the table when the contents of the hole are left out.\<close>

lemma block_set_hole: "h < length bs \<Longrightarrow> block_set (bs[h := None]) = {b. \<exists>i < length bs. i \<noteq> h \<and> bs ! i = Some b}"
  by (auto simp: block_set_def nth_list_update)

lemma distinct_hole: "h < length bs \<Longrightarrow> distinct_offsets (bs[h := None]) \<longleftrightarrow>
    (\<forall>i < length bs. \<forall>j < length bs. \<forall>a b. i \<noteq> h \<longrightarrow> j \<noteq> h \<longrightarrow> bs ! i = Some a \<longrightarrow> bs ! j = Some b \<longrightarrow> cb_offset a = cb_offset b \<longrightarrow> i = j)"
  by (auto simp: distinct_offsets_def nth_list_update split: if_splits)

lemma hole_moves:
  assumes "h < length bs" "j < length bs" "j \<noteq> h" "distinct_offsets (bs[h := None])"
  shows "distinct_offsets ((bs[h := bs ! j])[j := None])" "block_set ((bs[h := bs ! j])[j := None]) = block_set (bs[h := None])"
proof -
  define f where "f i = (if i = h then j else i)" for i
  have same: "bs[h := bs ! j] ! i = bs ! f i" if "i < length bs" for i using that assms(1) by (simp add: f_def)
  have f: "f i \<noteq> h" "f i < length bs" if "i < length bs" for i using that assms(2,3) by (auto simp: f_def)
  have inj: "f i = f k \<Longrightarrow> i \<noteq> j \<Longrightarrow> k \<noteq> j \<Longrightarrow> i = k" for i k by (auto simp: f_def split: if_splits)
  show "distinct_offsets ((bs[h := bs ! j])[j := None])"
    unfolding distinct_hole [of j "bs[h := bs ! j]", simplified, OF assms(2)]
  proof (intro allI impI)
    fix i k a b assume "i < length bs" "k < length bs" "i \<noteq> j" "k \<noteq> j" "bs[h := bs ! j] ! i = Some a" "bs[h := bs ! j] ! k = Some b" "cb_offset a = cb_offset b"
    then show "i = k" using assms(4) f inj same unfolding distinct_hole [OF assms(1)] by metis
  qed
  show "block_set ((bs[h := bs ! j])[j := None]) = block_set (bs[h := None])"
    unfolding block_set_hole [OF assms(1)] block_set_hole [of j "bs[h := bs ! j]", simplified, OF assms(2)]
  proof (intro set_eqI iffI; clarsimp)
    fix b i assume i: "i < length bs" "i \<noteq> j" "bs[h := bs ! j] ! i = Some b"
    then show "\<exists>i < length bs. i \<noteq> h \<and> bs ! i = Some b" using same f by metis
  next
    fix b i assume i: "i < length bs" "i \<noteq> h" "bs ! i = Some b"
    show "\<exists>i < length bs. i \<noteq> j \<and> bs[h := bs ! j] ! i = Some b"
      by (rule exI [of _ "if i = j then h else i"]) (use i assms in auto)
  qed
qed

lemma shift_loop_correct:
  assumes "hole_ok bs h" "h < length bs" "distinct_offsets (bs[h := None])" "bs ! h \<noteq> None" "bs ! ((h + d) mod length bs) = None"
  shows "\<exists>bs'. shift_loop bs h = Some bs' \<and> blocks_ok bs' \<and> length bs' = length bs \<and> block_set bs' = block_set (bs[h := None])"
  using assms
proof (induction d arbitrary: bs h)
  case 0
  then show ?case by simp
next
  case (Suc d)
  let ?n = "length bs" and ?j = "(h + 1) mod length bs"
  have jd: "(?j + d) mod ?n = (h + Suc d) mod ?n" by (simp add: mod_simps)
  have j: "?j < ?n" "prev_slot ?n ?j = h" using Suc.prems(2) by (cases ?n; simp)+
  show ?case
  proof (cases "\<exists>b. bs ! ?j = Some b \<and> 0 < oth_pl ?n ?j (cb_offset b)")
    case True
    then obtain b where b: "bs ! ?j = Some b" "0 < oth_pl ?n ?j (cb_offset b)" by blast
    let ?bs = "bs[h := bs ! ?j]"
    have step: "shift_loop bs h = shift_loop ?bs ?j" using b by (subst shift_loop.simps) (simp add: Let_def)
    have ok: "hole_ok ?bs ?j" using hole_step [OF Suc.prems(1,2) b] b(1) by simp
    have jh: "?j \<noteq> h"
    proof
      assume "?j = h"
      then have "?n = 1" using prev_slot_self [of h ?n] j Suc.prems(2) by simp
      then show False using b(2) oth_pl_less [OF j(1), of "cb_offset b"] by simp
    qed
    have "h \<noteq> (?j + d) mod ?n" using Suc.prems(4,5) jd by auto
    then have e: "?bs ! ((?j + d) mod length ?bs) = None" using Suc.prems(5) jd by simp
    have "?bs ! ?j \<noteq> None" using b jh by simp
    then show ?thesis
      using Suc.IH [of ?bs ?j] ok j hole_moves [OF Suc.prems(2) j(1) jh Suc.prems(3)] e step by simp
  next
    case False
    then have "shift_loop bs h = Some (bs[h := None])" by (subst shift_loop.simps) (auto simp: Let_def split: option.split)
    moreover have "robin_hood (bs[h := None])" using False by (intro hole_stop [OF Suc.prems(1,2)]) auto
    ultimately show ?thesis using Suc.prems(3) by (simp add: blocks_ok_def)
  qed
qed

lemma removeCachedBlock_correct:
  assumes "blocks_ok bs" "card (block_set bs) < length bs" "b \<in> block_set bs"
  shows "\<exists>bs'. removeCachedBlock bs (cb_offset b) = Some (Some b, bs') \<and> blocks_ok bs' \<and> length bs' = length bs \<and> block_set bs' = block_set bs - {b}"
proof -
  let ?n = "length bs" and ?k = "cb_offset b"
  have ok: "robin_hood bs" "distinct_offsets bs" using assms(1) by (simp_all add: blocks_ok_def)
  obtain i where i: "i < ?n" "bs ! i = Some b" using assms(3) by (auto simp: block_set_def)
  then have "home_slot ?n ?k < ?n" by (cases ?n) (auto simp: home_slot_less)
  then have l: "block_lookup_loop bs ?k 0 (home_slot ?n ?k) = Some (Some i)" using lookup_present [OF assms(1) i, of 0] by simp
  obtain e where e: "e < ?n" "bs ! e = None" using empty_slot [OF ok(2) assms(2)] by blast
  obtain d where d: "(i + d) mod ?n = e" using slot_ahead [OF i(1) e(1)] by blast
  have dh: "distinct_offsets (bs[i := None])" unfolding distinct_hole [OF i(1)] using ok(2) [unfolded distinct_offsets_def] by blast
  obtain bs' where bs': "shift_loop bs i = Some bs'" "blocks_ok bs'" "length bs' = ?n" "block_set bs' = block_set (bs[i := None])"
    using shift_loop_correct [OF hole_start [OF ok(1) i] i(1) dh, of d] i e d by auto
  have "j = i" if "j < ?n" "bs ! j = Some b" for j using ok(2) that i unfolding distinct_offsets_def by blast
  moreover have "j \<noteq> i" if "bs ! j = Some c" "c \<noteq> b" for j c using that i(2) by auto
  ultimately have "{c. \<exists>j < ?n. j \<noteq> i \<and> bs ! j = Some c} = block_set bs - {b}" unfolding block_set_def by blast
  then have "block_set (bs[i := None]) = block_set bs - {b}" by (simp add: block_set_hole [OF i(1)])
  then show ?thesis using l i bs' by (simp add: removeCachedBlock_def)
qed

lemma removeCachedBlock_absent:
  assumes "blocks_ok bs" "card (block_set bs) < length bs" "\<forall>b \<in> block_set bs. cb_offset b \<noteq> k"
  shows "removeCachedBlock bs k = Some (None, bs)"
proof -
  obtain r where "lookupCachedBlock bs k = Some r" "case r of None \<Rightarrow> True | Some i \<Rightarrow> i < length bs \<and> (\<exists>b. bs ! i = Some b \<and> cb_offset b = k)"
    using lookupCachedBlock_correct [OF assms(1,2), of k] by (auto split: option.splits)
  moreover from this assms(3) have "r = None" by (cases r) (auto simp: block_set_def)
  ultimately show ?thesis by (simp add: removeCachedBlock_def lookupCachedBlock_def)
qed

subsection \<open>Resizing\<close>

lemma block_set_Cons: "block_set (x # bs) = (case x of None \<Rightarrow> block_set bs | Some b \<Rightarrow> insert b (block_set bs))"
  unfolding block_set_def by (cases x) (auto simp: less_Suc_eq_0_disj)

lemma distinct_offsets_Cons:
  assumes "distinct_offsets (x # bs)"
  shows "distinct_offsets bs" "x = Some b \<Longrightarrow> c \<in> block_set bs \<Longrightarrow> cb_offset c \<noteq> cb_offset b"
proof -
  show "distinct_offsets bs" unfolding distinct_offsets_def
  proof (intro allI impI)
    fix i j a c assume "i < length bs" "j < length bs" "bs ! i = Some a" "bs ! j = Some c" "cb_offset a = cb_offset c"
    then show "i = j" using assms [unfolded distinct_offsets_def, rule_format, of "Suc i" "Suc j" a c] by simp
  qed
  assume "x = Some b" "c \<in> block_set bs"
  then show "cb_offset c \<noteq> cb_offset b"
    using assms [unfolded distinct_offsets_def, rule_format, of 0 "Suc _" b c] by (auto simp: block_set_def)
qed

lemma rebuild_loop_correct:
  assumes "distinct_offsets bs" "blocks_ok nb" "\<forall>a \<in> block_set nb. \<forall>b \<in> block_set bs. cb_offset a \<noteq> cb_offset b" "card (block_set nb \<union> block_set bs) < length nb"
  shows "\<exists>nb'. rebuild_loop bs nb = Some nb' \<and> blocks_ok nb' \<and> length nb' = length nb \<and> block_set nb' = block_set nb \<union> block_set bs"
  using assms
proof (induction bs nb rule: rebuild_loop.induct)
  case (1 nb)
  then show ?case by (simp add: block_set_def)
next
  case (2 bs nb)
  then show ?case using distinct_offsets_Cons(1) by (simp add: block_set_Cons)
next
  case (3 b bs nb)
  have "card (block_set nb) \<le> card (block_set nb \<union> block_set (Some b # bs))" by (intro card_mono) auto
  then obtain nb' where nb': "insertCachedBlock nb b = Some nb'" "blocks_ok nb'" "length nb' = length nb" "block_set nb' = insert b (block_set nb)"
    using insertCachedBlock_correct [of nb b] "3.prems" by (auto simp: block_set_Cons)
  have "block_set nb' \<union> block_set bs = block_set nb \<union> block_set (Some b # bs)" using nb'(4) by (auto simp: block_set_Cons)
  moreover have "\<forall>a \<in> block_set nb'. \<forall>c \<in> block_set bs. cb_offset a \<noteq> cb_offset c"
    using nb'(4) "3.prems"(3) distinct_offsets_Cons(2) [OF "3.prems"(1) refl] by (auto simp: block_set_Cons dest: sym)
  ultimately show ?case using "3.IH" [of nb'] nb' distinct_offsets_Cons(1) [OF "3.prems"(1)] "3.prems"(4) by simp
qed

text \<open>The table of a cache: room for another entry, or no memory at all as long as it is empty.\<close>

definition block_table_ok :: "CachedBlockTable \<Rightarrow> bool" where
  "block_table_ok tab \<longleftrightarrow> tb_capacity tab = length (tb_blocks tab) \<and> blocks_ok (tb_blocks tab) \<and> tb_count tab = card (block_set (tb_blocks tab))
     \<and> (tb_capacity tab = 0 \<or> tb_count tab < tb_capacity tab)"

abbreviation cached :: "CachedBlockTable \<Rightarrow> CachedBlock set" where
  "cached tab \<equiv> block_set (tb_blocks tab)"

lemma empty_blocks: "blocks_ok (replicate n None)" "block_set (replicate n None) = {}"
  by (auto simp: blocks_ok_def robin_hood_def distinct_offsets_def block_set_def)

lemma grow_size_bound: "2 \<le> m \<Longrightarrow> c * 3 \<le> grow_size c m * 2 \<and> m \<le> grow_size c m"
proof (induction c m rule: grow_size.induct)
  case (1 c m)
  show ?case
  proof (cases "m \<ge> 2 \<and> c * 3 > m * 2")
    case True
    then have "grow_size c m = grow_size c (m * 3 div 2)" by (subst grow_size.simps) simp
    moreover have "2 \<le> m * 3 div 2" "m \<le> m * 3 div 2" using True by auto
    ultimately show ?thesis using "1.IH" [OF True] by simp
  next
    case False
    then show ?thesis using "1.prems" by (simp add: grow_size.simps)
  qed
qed

lemma testForResizeBlocks_correct:
  assumes "block_table_ok tab"
  shows "\<exists>tab'. testForResizeBlocks tab = Some tab' \<and> block_table_ok tab' \<and> cached tab' = cached tab \<and> MIN_BLOCK_TABLE_CAPACITY \<le> tb_capacity tab'
    \<and> tb_count tab' = tb_count tab \<and> tb_count tab' + 1 < tb_capacity tab'"
proof -
  let ?m = "max (shrink_size (tb_count tab) (tb_capacity tab)) MIN_BLOCK_TABLE_CAPACITY"
  let ?new = "grow_size (tb_count tab) ?m"
  have b: "tb_count tab * 3 \<le> ?new * 2" "MIN_BLOCK_TABLE_CAPACITY \<le> ?new"
    using grow_size_bound [of ?m "tb_count tab"] by (auto simp: MIN_BLOCK_TABLE_CAPACITY_def)
  then have room: "tb_count tab + 1 < ?new" by (simp add: MIN_BLOCK_TABLE_CAPACITY_def)
  have unf: "testForResizeBlocks tab = (if ?new \<noteq> tb_capacity tab then rebuildTable ?new tab else Some tab)"
    by (simp add: testForResizeBlocks_def Let_def max_def)
  obtain nb where "rebuild_loop (tb_blocks tab) (replicate ?new None) = Some nb" "blocks_ok nb" "length nb = ?new" "block_set nb = cached tab"
    using rebuild_loop_correct [of "tb_blocks tab" "replicate ?new None"] assms room by (auto simp: block_table_ok_def blocks_ok_def [of "tb_blocks tab"] empty_blocks)
  then have r: "rebuildTable ?new tab = Some (tab\<lparr>tb_blocks := nb, tb_capacity := ?new\<rparr>)" "block_table_ok (tab\<lparr>tb_blocks := nb, tb_capacity := ?new\<rparr>)" "block_set nb = cached tab"
    using assms room by (simp_all add: rebuildTable_def block_table_ok_def)
  show ?thesis
  proof (cases "?new = tb_capacity tab")
    case True
    then show ?thesis using unf assms b room by simp
  next
    case False
    then show ?thesis using unf r b room by simp
  qed
qed

lemma insertIntoTable_correct:
  assumes "block_table_ok tab" "\<forall>b \<in> cached tab. cb_offset b \<noteq> offset"
  shows "\<exists>tab'. insertIntoTable offset bytes tab = Some tab' \<and> block_table_ok tab'
    \<and> cached tab' = insert \<lparr>cb_offset = offset, cb_priority = DEFAULT_PRIORITY, cb_bytes = bytes\<rparr> (cached tab)"
proof -
  let ?b = "\<lparr>cb_offset = offset, cb_priority = DEFAULT_PRIORITY, cb_bytes = bytes\<rparr>"
  obtain t1 where t1: "testForResizeBlocks tab = Some t1" "block_table_ok t1" "cached t1 = cached tab" "tb_count t1 + 1 < tb_capacity t1"
    using testForResizeBlocks_correct [OF assms(1)] by blast
  then obtain bs where bs: "insertCachedBlock (tb_blocks t1) ?b = Some bs" "blocks_ok bs" "length bs = length (tb_blocks t1)" "block_set bs = insert ?b (cached tab)"
    using insertCachedBlock_correct [of "tb_blocks t1" ?b] assms(2) by (auto simp: block_table_ok_def)
  have "?b \<notin> cached tab" using assms(2) by auto
  then have "block_table_ok (t1\<lparr>tb_blocks := bs, tb_count := tb_count t1 + 1\<rparr>)" using t1 bs by (simp add: block_table_ok_def)
  then show ?thesis using t1(1) bs(1,4) by (simp add: insertIntoTable_def)
qed

lemma getFromTable_correct:
  assumes "block_table_ok tab"
  shows "\<exists>r. getFromTable offset tab = Some r \<and> (case r of None \<Rightarrow> (\<forall>b \<in> cached tab. cb_offset b \<noteq> offset)
    | Some i \<Rightarrow> i < length (tb_blocks tab) \<and> (\<exists>b. tb_blocks tab ! i = Some b \<and> cb_offset b = offset))"
proof (cases "tb_count tab = 0")
  case True
  then have "cached tab = {}" using assms by (simp add: block_table_ok_def)
  then show ?thesis using True by (simp add: getFromTable_def)
next
  case False
  then have "tb_count tab < length (tb_blocks tab)" using assms by (auto simp: block_table_ok_def block_set_def)
  then show ?thesis using lookupCachedBlock_correct [of "tb_blocks tab" offset] assms False by (simp add: getFromTable_def block_table_ok_def)
qed

text \<open>A block may change in place as long as it keeps its offset.\<close>

lemma replace_block:
  assumes "blocks_ok bs" "i < length bs" "bs ! i = Some b" "cb_offset b' = cb_offset b"
  shows "blocks_ok (bs[i := Some b'])" "block_set (bs[i := Some b']) = insert b' (block_set bs - {b})"
    "card (block_set (bs[i := Some b'])) = card (block_set bs)"
proof -
  have ok: "robin_hood bs" "distinct_offsets bs" using assms(1) by (simp_all add: blocks_ok_def)
  have "robin_hood (bs[i := Some b'])"
    using robin_hoodD [OF ok(1) assms(2,3)] assms by (intro robin_hood_put [OF ok(1)]) (simp_all add: reach_def [of bs i])
  moreover have "distinct_offsets (bs[i := Some b'])" unfolding distinct_offsets_def
  proof (intro allI impI)
    fix j k a c assume a: "j < length (bs[i := Some b'])" "k < length (bs[i := Some b'])" "bs[i := Some b'] ! j = Some a" "bs[i := Some b'] ! k = Some c" "cb_offset a = cb_offset c"
    have old: "\<exists>x. bs ! l = Some x \<and> cb_offset x = cb_offset y" if "bs[i := Some b'] ! l = Some y" "l < length bs" for l y
      using that assms by (cases "l = i") auto
    obtain x y where "bs ! j = Some x" "bs ! k = Some y" "cb_offset x = cb_offset y" using old [OF a(3)] old [OF a(4)] a(1,2,5) by auto
    moreover have "j < length bs" "k < length bs" using a(1,2) by simp_all
    ultimately show "j = k" using ok(2) unfolding distinct_offsets_def by blast
  qed
  ultimately show "blocks_ok (bs[i := Some b'])" by (simp add: blocks_ok_def)
  show s: "block_set (bs[i := Some b']) = insert b' (block_set bs - {b})" using block_set_put [OF ok(2) assms(2,3)] .
  have b: "b \<in> block_set bs" using assms(2,3) by (auto simp: block_set_def)
  have "b' \<notin> block_set bs - {b}" using block_set_unique [OF ok(2) assms(2,3)] assms(4) by blast
  then have "card (insert b' (block_set bs - {b})) = Suc (card (block_set bs - {b}))" by simp
  also have "\<dots> = card (block_set bs)" using b by (rule card_Suc_Diff1 [OF block_set_finite])
  finally show "card (block_set (bs[i := Some b'])) = card (block_set bs)" using s by simp
qed

end
