(* ===== verification/BlockCache.thy ===== *)
theory BlockCache
  imports BlockTable VfsTypes
begin

text \<open>
  Model of the read cache in front of a block device, kernel/src/devices/blockcache.c with the structures of devices.h. A device is a pair of
  functions over a state of its own: \<open>bd_read dev offset buff\<close> fills the buffer, \<open>bd_write dev offset buff\<close> stores it, both return an error or \<open>None\<close> for SUCCESS;
  the whole result is \<open>None\<close> for a failed assertion. A buffer is the bytes a virtual pointer shows. The cached device is again such a device.

  \<open>cd_allocated\<close> counts the bytes taken from the allocator of the cache and \<open>junk\<close> are the bytes of fresh
  memory. The lock of the cache is released during the read of the device: \<open>other\<close> is what other tasks do to the cache at that time.
  The registration of \<open>reclaimFunction\<close> belongs to the reclaim component.
\<close>

record 'd BlockDevice =
  bd_read :: "u64 \<Rightarrow> u8 list \<Rightarrow> 'd \<Rightarrow> (Error option \<times> u8 list \<times> 'd) option"
  bd_write :: "u64 \<Rightarrow> u8 list \<Rightarrow> 'd \<Rightarrow> (Error option \<times> 'd) option"
  bd_block_size :: nat
  bd_size :: nat

record 'd CachedBlockDevice =
  cd_uncached :: 'd
  cd_table :: CachedBlockTable
  cd_allocated :: nat

text \<open>The bytes of the buffer from \<open>pos\<close> on are replaced.\<close>

definition copy_to :: "nat \<Rightarrow> u8 list \<Rightarrow> u8 list \<Rightarrow> u8 list" where
  "copy_to pos data buff = take pos buff @ data @ drop (pos + length data) buff"

definition set_block :: "nat \<Rightarrow> (CachedBlock \<Rightarrow> CachedBlock) \<Rightarrow> CachedBlockTable \<Rightarrow> CachedBlockTable" where
  "set_block i f tab = tab\<lparr>tb_blocks := (tb_blocks tab)[i := map_option f (tb_blocks tab ! i)]\<rparr>"

definition lower_block_priority :: "CachedBlock \<Rightarrow> CachedBlock" where
  "lower_block_priority b = (if cb_priority b > 0 then b\<lparr>cb_priority := cb_priority b - 1\<rparr> else b)"

partial_function (option) keep_loop :: "nat \<Rightarrow> u64 \<Rightarrow> u8 list \<Rightarrow> 'd CachedBlockDevice \<Rightarrow> 'd CachedBlockDevice option" where
  "keep_loop bsize offset data c =
     (if data \<noteq> [] then do {
        r \<leftarrow> getFromTable offset (cd_table c);
        c \<leftarrow> (case r of
                None \<Rightarrow> do { tab \<leftarrow> insertIntoTable offset (take bsize data) (cd_table c); Some (c\<lparr>cd_table := tab\<rparr>) }
              | Some i \<Rightarrow> Some (c\<lparr>cd_allocated := cd_allocated c - bsize, cd_table := set_block i lower_block_priority (cd_table c)\<rparr>));
        keep_loop bsize (offset + of_nat bsize) (drop bsize data) c }
      else Some c)"

definition readUncached :: "'d BlockDevice \<Rightarrow> (nat \<Rightarrow> u8) \<Rightarrow> ('d CachedBlockDevice \<Rightarrow> 'd CachedBlockDevice) \<Rightarrow>
    nat \<Rightarrow> u64 \<Rightarrow> nat \<Rightarrow> u8 list \<Rightarrow> 'd CachedBlockDevice \<Rightarrow> (Error option \<times> u8 list \<times> 'd CachedBlockDevice) option" where
  "readUncached dev junk other pos offset size' buff c = do {
     let c = c\<lparr>cd_allocated := cd_allocated c + size'\<rparr>;
     let c = other c;
     (e, data, d) \<leftarrow> bd_read dev offset (map junk [0..<size']) (cd_uncached c);
     let c = other (c\<lparr>cd_uncached := d\<rparr>);
     (case e of
        Some e \<Rightarrow> Some (Some e, buff, c\<lparr>cd_allocated := cd_allocated c - size'\<rparr>)
      | None \<Rightarrow> do {
          c' \<leftarrow> keep_loop (bd_block_size dev) offset data c;
          Some (None, copy_to pos data buff, c') }) }"

partial_function (option) read_loop :: "'d BlockDevice \<Rightarrow> (nat \<Rightarrow> u8) \<Rightarrow> ('d CachedBlockDevice \<Rightarrow> 'd CachedBlockDevice) \<Rightarrow>
    nat \<Rightarrow> u64 \<Rightarrow> nat \<Rightarrow> nat \<Rightarrow> u8 list \<Rightarrow> 'd CachedBlockDevice \<Rightarrow> (Error option \<times> u8 list \<times> 'd CachedBlockDevice) option" where
  "read_loop dev junk other pos offset uncached size' buff c =
     (if size' > 0 then do {
        r \<leftarrow> getFromTable (offset + of_nat uncached) (cd_table c);
        (case r of
           Some i \<Rightarrow> do {
             let data = (case tb_blocks (cd_table c) ! i of None \<Rightarrow> [] | Some b \<Rightarrow> cb_bytes b);
             let c = c\<lparr>cd_table := set_block i lower_block_priority (cd_table c)\<rparr>;
             let buff = copy_to (pos + uncached) (take (bd_block_size dev) data) buff;
             (e, buff, c) \<leftarrow> (if uncached \<noteq> 0 then readUncached dev junk other pos offset uncached buff c else Some (None, buff, c));
             (case e of
                Some e \<Rightarrow> Some (Some e, buff, c)
              | None \<Rightarrow> read_loop dev junk other (pos + uncached + bd_block_size dev) (offset + of_nat (uncached + bd_block_size dev)) 0
                          (size' - bd_block_size dev) buff c) }
         | None \<Rightarrow> read_loop dev junk other pos offset (uncached + bd_block_size dev) (size' - bd_block_size dev) buff c) }
      else if uncached \<noteq> 0 then readUncached dev junk other pos offset uncached buff c
      else Some (None, buff, c))"

definition readFunction :: "'d BlockDevice \<Rightarrow> (nat \<Rightarrow> u8) \<Rightarrow> ('d CachedBlockDevice \<Rightarrow> 'd CachedBlockDevice) \<Rightarrow>
    u64 \<Rightarrow> u8 list \<Rightarrow> 'd CachedBlockDevice \<Rightarrow> (Error option \<times> u8 list \<times> 'd CachedBlockDevice) option" where
  "readFunction dev junk other offset buff c = do {
     cassert (length buff mod bd_block_size dev = 0 \<and> unat offset mod bd_block_size dev = 0);
     read_loop dev junk other 0 offset 0 (length buff) buff c }"

partial_function (option) store_loop :: "nat \<Rightarrow> u64 \<Rightarrow> u8 list \<Rightarrow> 'd CachedBlockDevice \<Rightarrow> 'd CachedBlockDevice option" where
  "store_loop bsize offset buff c =
     (if buff \<noteq> [] then do {
        r \<leftarrow> getFromTable offset (cd_table c);
        c \<leftarrow> (case r of
                None \<Rightarrow> do {
                  let c = c\<lparr>cd_allocated := cd_allocated c + bsize\<rparr>;
                  tab \<leftarrow> insertIntoTable offset (take bsize buff) (cd_table c);
                  Some (c\<lparr>cd_table := tab\<rparr>) }
              | Some i \<Rightarrow> Some (c\<lparr>cd_table := set_block i (\<lambda>b. b\<lparr>cb_bytes := take bsize buff\<rparr>) (cd_table c)\<rparr>));
        store_loop bsize (offset + of_nat bsize) (drop bsize buff) c }
      else Some c)"

definition writeFunction :: "'d BlockDevice \<Rightarrow> u64 \<Rightarrow> u8 list \<Rightarrow> 'd CachedBlockDevice \<Rightarrow> (Error option \<times> 'd CachedBlockDevice) option" where
  "writeFunction dev offset buff c = do {
     cassert (length buff mod bd_block_size dev = 0 \<and> unat offset mod bd_block_size dev = 0);
     (e, d) \<leftarrow> bd_write dev offset buff (cd_uncached c);
     let c = c\<lparr>cd_uncached := d\<rparr>;
     (case e of
        Some e \<Rightarrow> Some (Some e, c)
      | None \<Rightarrow> do {
          c' \<leftarrow> store_loop (bd_block_size dev) offset buff c;
          Some (None, c') }) }"

partial_function (option) reclaim_loop :: "nat \<Rightarrow> u8 \<Rightarrow> nat \<Rightarrow> nat \<Rightarrow> 'd CachedBlockDevice \<Rightarrow> (nat \<times> 'd CachedBlockDevice) option" where
  "reclaim_loop bsize priority i cnt c =
     (if i < tb_capacity (cd_table c) then
        (case tb_blocks (cd_table c) ! i of
           Some block \<Rightarrow>
             if cb_priority block \<ge> priority then do {
               (_, bs) \<leftarrow> removeCachedBlock (tb_blocks (cd_table c)) (cb_offset block);
               let tab = (cd_table c)\<lparr>tb_blocks := bs, tb_count := tb_count (cd_table c) - 1\<rparr>;
               reclaim_loop bsize priority i (cnt + 1) (c\<lparr>cd_table := tab, cd_allocated := cd_allocated c - bsize\<rparr>) }
             else reclaim_loop bsize priority (i + 1) cnt (c\<lparr>cd_table := set_block i (\<lambda>b. b\<lparr>cb_priority := cb_priority b + 1\<rparr>) (cd_table c)\<rparr>)
         | None \<Rightarrow> reclaim_loop bsize priority (i + 1) cnt c)
      else Some (cnt, c))"

definition reclaimFunction :: "nat \<Rightarrow> u8 \<Rightarrow> 'd CachedBlockDevice \<Rightarrow> (bool \<times> 'd CachedBlockDevice) option" where
  "reclaimFunction bsize priority c = do {
     (cnt, c) \<leftarrow> reclaim_loop bsize priority 0 0 c;
     tab \<leftarrow> testForResizeBlocks (cd_table c);
     Some (cnt \<noteq> 0, c\<lparr>cd_table := tab\<rparr>) }"

definition wrapBlockDeviceWithCache :: "(nat \<Rightarrow> u8) \<Rightarrow> ('d CachedBlockDevice \<Rightarrow> 'd CachedBlockDevice) \<Rightarrow> 'd BlockDevice \<Rightarrow> 'd
    \<Rightarrow> 'd CachedBlockDevice BlockDevice \<times> 'd CachedBlockDevice" where
  "wrapBlockDeviceWithCache junk other uncached d =
     (\<lparr>bd_read = readFunction uncached junk other, bd_write = writeFunction uncached, bd_block_size = bd_block_size uncached, bd_size = bd_size uncached\<rparr>,
      \<lparr>cd_uncached = d, cd_table = \<lparr>tb_blocks = [], tb_count = 0, tb_capacity = 0\<rparr>, cd_allocated = 0\<rparr>)"

subsection \<open>Block devices\<close>

text \<open>
  What a block device promises, for accesses of whole blocks: a read that succeeds returns the contents, a write that succeeds
  changes exactly the bytes written and one that fails changes nothing. \<open>ok\<close> is the invariant of its state.
\<close>

definition view :: "(nat \<Rightarrow> u8) \<Rightarrow> nat \<Rightarrow> nat \<Rightarrow> u8 list" where
  "view f a n = map f [a..<a + n]"

definition overlay :: "nat \<Rightarrow> u8 list \<Rightarrow> (nat \<Rightarrow> u8) \<Rightarrow> nat \<Rightarrow> u8" where
  "overlay a xs f i = (if a \<le> i \<and> i < a + length xs then xs ! (i - a) else f i)"

definition whole_blocks :: "nat \<Rightarrow> u64 \<Rightarrow> nat \<Rightarrow> bool" where
  "whole_blocks bsize offset n \<longleftrightarrow> n mod bsize = 0 \<and> unat offset mod bsize = 0 \<and> unat offset + n \<le> 2 ^ 64"

locale block_device =
  fixes dev :: "'d BlockDevice" and ok :: "'d \<Rightarrow> bool" and contents :: "'d \<Rightarrow> nat \<Rightarrow> u8"
  assumes block_size_pos: "0 < bd_block_size dev"
    and read_law: "ok d \<Longrightarrow> whole_blocks (bd_block_size dev) offset (length buff) \<Longrightarrow>
      \<exists>e buff' d'. bd_read dev offset buff d = Some (e, buff', d') \<and> ok d' \<and> contents d' = contents d \<and> length buff' = length buff
        \<and> (e = None \<longrightarrow> buff' = view (contents d) (unat offset) (length buff))"
    and write_law: "ok d \<Longrightarrow> whole_blocks (bd_block_size dev) offset (length buff) \<Longrightarrow>
      \<exists>e d'. bd_write dev offset buff d = Some (e, d') \<and> ok d' \<and> contents d' = (if e = None then overlay (unat offset) buff (contents d) else contents d)"

lemma view_length [simp]: "length (view f a n) = n"
  by (simp add: view_def)

lemma view_0 [simp]: "view f a 0 = []"
  by (simp add: view_def)

lemma view_add: "view f a (m + n) = view f a m @ view f (a + m) n"
  using upt_add_eq_append [of a "a + m" n] by (simp add: view_def add.assoc)

lemma view_take_drop: "m \<le> n \<Longrightarrow> take m (view f a n) = view f a m" "m \<le> n \<Longrightarrow> drop m (view f a n) = view f (a + m) (n - m)"
  using view_add [of f a m "n - m"] by simp_all

lemma view_overlay: "view (overlay a xs f) a (length xs) = xs"
  by (rule nth_equalityI) (simp_all add: view_def overlay_def)

lemma view_overlay_other: "b + n \<le> a \<or> a + length xs \<le> b \<Longrightarrow> view (overlay a xs f) b n = view f b n"
  by (auto simp: view_def overlay_def)

lemma copy_to_length [simp]: "pos + length xs \<le> length ys \<Longrightarrow> length (copy_to pos xs ys) = length ys"
  by (simp add: copy_to_def)

lemma whole_blocks_next:
  assumes "whole_blocks n offset m" "0 < m" "0 < n"
  shows "n \<le> m" "whole_blocks n offset n" "whole_blocks n (offset + of_nat n) (m - n) \<or> m = n" "unat offset + m < 2 ^ 64 \<or> n < m \<Longrightarrow> unat (offset + of_nat n) = unat offset + n"
proof -
  show le: "n \<le> m" using assms mod_less [of m n] by (cases "m < n") (auto simp: whole_blocks_def)
  then show "whole_blocks n offset n" using assms(1) by (simp add: whole_blocks_def)
  have u: "unat (offset + of_nat n) = unat offset + n" if "unat offset + n < 2 ^ 64"
    using that by (simp add: unat_word_ariths unat_of_nat)
  show "unat offset + m < 2 ^ 64 \<or> n < m \<Longrightarrow> unat (offset + of_nat n) = unat offset + n"
    by (rule u) (use le assms(1) in \<open>auto simp: whole_blocks_def\<close>)
  show "whole_blocks n (offset + of_nat n) (m - n) \<or> m = n"
  proof (cases "m = n")
    case False
    then have "unat offset + n < 2 ^ 64" using le assms(1) by (simp add: whole_blocks_def)
    then show ?thesis using u assms(1) le by (simp add: whole_blocks_def mod_simps le_mod_geq)
  qed simp
qed

subsection \<open>The invariant of the cache\<close>

text \<open>
  Every cached block agrees with the device, and the memory of the cache is that of its blocks and of \<open>x\<close>
  bytes an operation is working with.
\<close>

definition block_good :: "nat \<Rightarrow> (nat \<Rightarrow> u8) \<Rightarrow> CachedBlock \<Rightarrow> bool" where
  "block_good n f b \<longleftrightarrow> whole_blocks n (cb_offset b) n \<and> cb_bytes b = view f (unat (cb_offset b)) n"

definition cache_good :: "nat \<Rightarrow> nat \<Rightarrow> (nat \<Rightarrow> u8) \<Rightarrow> 'd CachedBlockDevice \<Rightarrow> bool" where
  "cache_good n x f c \<longleftrightarrow> block_table_ok (cd_table c) \<and> (\<forall>b \<in> cached (cd_table c). block_good n f b) \<and> cd_allocated c = n * tb_count (cd_table c) + x"

lemma set_block_correct:
  assumes "block_table_ok tab" "i < length (tb_blocks tab)" "tb_blocks tab ! i = Some b" "cb_offset (g b) = cb_offset b"
  shows "block_table_ok (set_block i g tab)" "cached (set_block i g tab) = insert (g b) (cached tab - {b})" "tb_count (set_block i g tab) = tb_count tab"
  using replace_block [of "tb_blocks tab" i b "g b"] assms by (auto simp: set_block_def block_table_ok_def)

lemma lower_block_priority_same [simp]: "cb_offset (lower_block_priority b) = cb_offset b" "cb_bytes (lower_block_priority b) = cb_bytes b"
  by (simp_all add: lower_block_priority_def)

lemma lower_good [simp]: "block_good n f (lower_block_priority b) = block_good n f b"
  by (simp add: block_good_def)

lemma cache_get:
  assumes "block_table_ok (cd_table c)"
  obtains "getFromTable k (cd_table c) = Some None" "\<forall>b \<in> cached (cd_table c). cb_offset b \<noteq> k"
  | i b where "getFromTable k (cd_table c) = Some (Some i)" "i < length (tb_blocks (cd_table c))" "tb_blocks (cd_table c) ! i = Some b" "cb_offset b = k" "b \<in> cached (cd_table c)"
proof -
  obtain r where r: "getFromTable k (cd_table c) = Some r" "case r of None \<Rightarrow> (\<forall>b \<in> cached (cd_table c). cb_offset b \<noteq> k)
      | Some i \<Rightarrow> i < length (tb_blocks (cd_table c)) \<and> (\<exists>b. tb_blocks (cd_table c) ! i = Some b \<and> cb_offset b = k)"
    using getFromTable_correct [OF assms] by blast
  then show ?thesis
  proof (cases r)
    case None
    then show ?thesis using r that(1) by simp
  next
    case (Some i)
    then obtain b where "i < length (tb_blocks (cd_table c))" "tb_blocks (cd_table c) ! i = Some b" "cb_offset b = k" using r by auto
    moreover from this have "b \<in> cached (cd_table c)" by (auto simp: block_set_def)
    ultimately show ?thesis using r Some that(2) by blast
  qed
qed

lemma cache_touch:
  assumes "cache_good n x f c" "i < length (tb_blocks (cd_table c))" "tb_blocks (cd_table c) ! i = Some b"
  shows "cache_good n x f (c\<lparr>cd_table := set_block i lower_block_priority (cd_table c)\<rparr>)"
proof -
  have "b \<in> cached (cd_table c)" using assms(2,3) by (auto simp: block_set_def)
  then show ?thesis using set_block_correct [of "cd_table c" i b lower_block_priority] assms by (auto simp: cache_good_def)
qed

lemma cache_add_block:
  assumes "cache_good n (n + x) f c" "\<forall>b \<in> cached (cd_table c). cb_offset b \<noteq> k" "whole_blocks n k n" "data = view f (unat k) n"
  shows "\<exists>tab. insertIntoTable k data (cd_table c) = Some tab \<and> cache_good n x f (c\<lparr>cd_table := tab\<rparr>)"
proof -
  let ?b = "\<lparr>cb_offset = k, cb_priority = DEFAULT_PRIORITY, cb_bytes = data\<rparr>"
  obtain tab where t: "insertIntoTable k data (cd_table c) = Some tab" "block_table_ok tab" "cached tab = insert ?b (cached (cd_table c))"
    using insertIntoTable_correct [of "cd_table c" k data] assms(1,2) by (auto simp: cache_good_def)
  moreover have "?b \<notin> cached (cd_table c)" using assms(2) by auto
  then have "tb_count tab = tb_count (cd_table c) + 1" using t(2,3) assms(1) by (simp add: block_table_ok_def cache_good_def)
  ultimately show ?thesis using assms by (auto simp: cache_good_def block_good_def)
qed

lemma keep_loop_correct:
  assumes "cache_good n (x + length data) f c" "whole_blocks n k (length data)" "data = view f (unat k) (length data)" "0 < n"
  shows "\<exists>c'. keep_loop n k data c = Some c' \<and> cache_good n x f c' \<and> cd_uncached c' = cd_uncached c"
  using assms
proof (induction "length data" arbitrary: k data c rule: less_induct)
  case less
  show ?case
  proof (cases "data = []")
    case True
    then show ?thesis using less.prems(1) by (simp add: keep_loop.simps)
  next
    case False
    note nx = whole_blocks_next [OF less.prems(2)]
    have tok: "block_table_ok (cd_table c)" using less.prems(1) by (simp add: cache_good_def)
    have ne: "0 < length data" using False by simp
    have le: "n \<le> length data" using nx(1) False less.prems(4) by simp
    have tk: "take n data = view f (unat k) n" using less.prems(3) view_take_drop(1) [OF le, of f "unat k"] by simp
    have nw: "whole_blocks n k n" using nx(2) False less.prems(4) by simp
    obtain c1 where c1: "cache_good n (x + (length data - n)) f c1" "cd_uncached c1 = cd_uncached c"
      "keep_loop n k data c = keep_loop n (k + of_nat n) (drop n data) c1"
    proof (cases rule: cache_get [OF tok, of k])
      case 1
      obtain tab where "insertIntoTable k (take n data) (cd_table c) = Some tab" "cache_good n (x + (length data - n)) f (c\<lparr>cd_table := tab\<rparr>)"
        using cache_add_block [of n "x + (length data - n)" f c k] less.prems(1) 1(2) nw tk le by (auto simp: ac_simps)
      then show ?thesis using that [of "c\<lparr>cd_table := tab\<rparr>"] 1(1) False by (simp add: keep_loop.simps [of n k])
    next
      case (2 i b)
      let ?c = "c\<lparr>cd_allocated := cd_allocated c - n, cd_table := set_block i lower_block_priority (cd_table c)\<rparr>"
      have "cache_good n (x + (length data - n)) f ?c"
        using cache_touch [OF less.prems(1) 2(2,3)] le by (simp add: cache_good_def)
      then show ?thesis using that [of ?c] 2(1) False by (simp add: keep_loop.simps [of n k])
    qed
    show ?thesis
    proof (cases "length data = n")
      case True
      then show ?thesis using c1 by (simp add: keep_loop.simps)
    next
      case False
      then have w: "whole_blocks n (k + of_nat n) (length (drop n data))" "unat (k + of_nat n) = unat k + n"
        using nx(3,4) [OF ne less.prems(4)] le by auto
      have "drop n data = view f (unat (k + of_nat n)) (length (drop n data))"
        using view_take_drop(2) [OF le, of f "unat k"] less.prems(3) w(2) by simp
      moreover have "length (drop n data) < length data" using less.prems(4) le by simp
      ultimately show ?thesis using less.hyps [of "drop n data" c1 "k + of_nat n"] c1 w less.prems(4) by simp
    qed
  qed
qed

text \<open>While the blocks from \<open>lo\<close> to \<open>hi\<close> are brought up to date, those of them that are cached may be out of date.\<close>

definition cache_part :: "nat \<Rightarrow> (nat \<Rightarrow> u8) \<Rightarrow> nat \<Rightarrow> nat \<Rightarrow> 'd CachedBlockDevice \<Rightarrow> bool" where
  "cache_part n f lo hi c \<longleftrightarrow> block_table_ok (cd_table c) \<and> cd_allocated c = n * tb_count (cd_table c)
     \<and> (\<forall>b \<in> cached (cd_table c). whole_blocks n (cb_offset b) n \<and> (block_good n f b \<or> lo \<le> unat (cb_offset b) \<and> unat (cb_offset b) < hi))"

lemma cache_part_end: "cache_part n f lo lo c = cache_good n 0 f c"
  by (auto simp: cache_part_def cache_good_def block_good_def)

lemma next_block:
  assumes "lo \<le> a" "a mod n = 0" "lo mod n = 0" "a \<noteq> lo"
  shows "lo + n \<le> (a :: nat)"
proof -
  obtain i j where "a = n * i" "lo = n * j" using assms(2,3) by (auto simp: mod_eq_0_iff_dvd elim!: dvdE)
  moreover from this assms(1,4) have "j < i" by (cases "i \<le> j") (auto dest: mult_le_mono2 [of i j n])
  ultimately show ?thesis using mult_le_mono2 [of "Suc j" i n] by simp
qed

lemma cache_part_step:
  assumes "cache_part n f lo hi c" "block_table_ok tab" "al = n * tb_count tab" "whole_blocks n k n" "unat k = lo"
    "cached tab \<subseteq> insert b (cached (cd_table c) - {a. cb_offset a = k})" "cb_offset b = k" "cb_bytes b = view f lo n"
  shows "cache_part n f (lo + n) hi (c\<lparr>cd_allocated := al, cd_table := tab\<rparr>)"
proof -
  have "whole_blocks n (cb_offset a) n \<and> (block_good n f a \<or> lo + n \<le> unat (cb_offset a) \<and> unat (cb_offset a) < hi)" if "a \<in> cached tab" for a
  proof (cases "a = b")
    case True
    then show ?thesis using assms(4,5,7,8) by (simp add: block_good_def)
  next
    case False
    then have a: "whole_blocks n (cb_offset a) n" "cb_offset a \<noteq> k" "block_good n f a \<or> lo \<le> unat (cb_offset a) \<and> unat (cb_offset a) < hi"
      using assms(1,6) that by (auto simp: cache_part_def)
    have "unat (cb_offset a) \<noteq> lo" using a(2) assms(5) by (auto simp: word_unat_eq_iff)
    then show ?thesis using a next_block [of lo "unat (cb_offset a)" n] assms(4,5) by (auto simp: whole_blocks_def)
  qed
  then show ?thesis using assms(2,3) by (simp add: cache_part_def)
qed

lemma store_loop_correct:
  assumes "cache_part n f (unat k) (unat k + length data) c" "whole_blocks n k (length data)" "data = view f (unat k) (length data)" "0 < n"
  shows "\<exists>c'. store_loop n k data c = Some c' \<and> cache_good n 0 f c' \<and> cd_uncached c' = cd_uncached c"
  using assms
proof (induction "length data" arbitrary: k data c rule: less_induct)
  case less
  show ?case
  proof (cases "data = []")
    case True
    then show ?thesis using less.prems(1) by (simp add: store_loop.simps cache_part_end)
  next
    case False
    then have ne: "0 < length data" by simp
    note nx = whole_blocks_next [OF less.prems(2) ne less.prems(4)]
    have tok: "block_table_ok (cd_table c)" and al: "cd_allocated c = n * tb_count (cd_table c)" using less.prems(1) by (simp_all add: cache_part_def)
    have tk: "take n data = view f (unat k) n" using less.prems(3) view_take_drop(1) [OF nx(1), of f "unat k"] by simp
    obtain c1 where c1: "cache_part n f (unat k + n) (unat k + length data) c1" "cd_uncached c1 = cd_uncached c"
      "store_loop n k data c = store_loop n (k + of_nat n) (drop n data) c1"
    proof (cases rule: cache_get [OF tok, of k])
      case 1
      let ?b = "\<lparr>cb_offset = k, cb_priority = DEFAULT_PRIORITY, cb_bytes = take n data\<rparr>"
      obtain tab where t: "insertIntoTable k (take n data) (cd_table c) = Some tab" "block_table_ok tab" "cached tab = insert ?b (cached (cd_table c))"
        using insertIntoTable_correct [OF tok 1(2)] by blast
      have "?b \<notin> cached (cd_table c)" using 1(2) by auto
      then have "tb_count tab = tb_count (cd_table c) + 1" using t(2,3) tok by (simp add: block_table_ok_def)
      then have "cache_part n f (unat k + n) (unat k + length data) (c\<lparr>cd_allocated := cd_allocated c + n, cd_table := tab\<rparr>)"
        using t 1(2) tk al by (intro cache_part_step [OF less.prems(1) t(2) _ nx(2) refl, of _ ?b]) auto
      then show ?thesis using that t(1) 1(1) False by (simp add: store_loop.simps [of n k] Let_def)
    next
      case (2 i b)
      let ?g = "\<lambda>b. b\<lparr>cb_bytes := take n data\<rparr>"
      note sb = set_block_correct [OF tok 2(2,3), of ?g]
      have "a = b" if "a \<in> cached (cd_table c)" "cb_offset a = k" for a
        using block_set_unique [OF _ 2(2,3) that(1)] tok 2(4) that(2) by (simp add: block_table_ok_def blocks_ok_def)
      then have "cache_part n f (unat k + n) (unat k + length data) (c\<lparr>cd_allocated := cd_allocated c, cd_table := set_block i ?g (cd_table c)\<rparr>)"
        using sb tk al 2(4) by (intro cache_part_step [OF less.prems(1) _ _ nx(2) refl, of _ _ "?g b"]) auto
      then show ?thesis using that [of "c\<lparr>cd_table := set_block i ?g (cd_table c)\<rparr>"] 2(1) False by (simp add: store_loop.simps [of n k])
    qed
    show ?thesis
    proof (cases "length data = n")
      case True
      then show ?thesis using c1 by (simp add: store_loop.simps cache_part_end)
    next
      case False
      then have w: "whole_blocks n (k + of_nat n) (length (drop n data))" "unat (k + of_nat n) = unat k + n" using nx by auto
      have "drop n data = view f (unat (k + of_nat n)) (length (drop n data))"
        using view_take_drop(2) [OF nx(1), of f "unat k"] less.prems(3) w(2) by simp
      moreover have "cache_part n f (unat (k + of_nat n)) (unat (k + of_nat n) + length (drop n data)) c1" using c1(1) w(2) nx(1) by simp
      moreover have "length (drop n data) < length data" using less.prems(4) nx(1) by simp
      ultimately show ?thesis using less.hyps [of "drop n data" "k + of_nat n" c1] c1 w less.prems(4) by simp
    qed
  qed
qed

lemma overlay_part:
  assumes "cache_good n 0 f c" "whole_blocks n k (length data)"
  shows "cache_part n (overlay (unat k) data f) (unat k) (unat k + length data) c"
proof -
  have "block_good n (overlay (unat k) data f) b" if b: "b \<in> cached (cd_table c)" "\<not> (unat k \<le> unat (cb_offset b) \<and> unat (cb_offset b) < unat k + length data)" for b
  proof -
    have g: "block_good n f b" using assms(1) b(1) by (simp add: cache_good_def)
    have m: "unat k mod n = 0" "unat (cb_offset b) mod n = 0" using assms(2) g by (simp_all add: whole_blocks_def block_good_def)
    have "unat (cb_offset b) + n \<le> unat k \<or> unat k + length data \<le> unat (cb_offset b)"
      using b(2) next_block [of "unat (cb_offset b)" "unat k" n] m by linarith
    then show ?thesis using g by (simp add: block_good_def view_overlay_other)
  qed
  then show ?thesis using assms(1) by (auto simp: cache_part_def cache_good_def block_good_def)
qed

subsection \<open>The cached device\<close>

text \<open>The state of the cached device: the cache is good and the device itself is well formed.\<close>

definition cached_ok :: "nat \<Rightarrow> ('d \<Rightarrow> bool) \<Rightarrow> ('d \<Rightarrow> nat \<Rightarrow> u8) \<Rightarrow> nat \<Rightarrow> 'd CachedBlockDevice \<Rightarrow> bool" where
  "cached_ok n ok contents x c \<longleftrightarrow> ok (cd_uncached c) \<and> cache_good n x (contents (cd_uncached c)) c"

definition quiet :: "nat \<Rightarrow> ('d \<Rightarrow> bool) \<Rightarrow> ('d \<Rightarrow> nat \<Rightarrow> u8) \<Rightarrow> ('d CachedBlockDevice \<Rightarrow> 'd CachedBlockDevice) \<Rightarrow> bool" where
  "quiet n ok contents other \<longleftrightarrow> (\<forall>x c. cached_ok n ok contents x c \<longrightarrow> cached_ok n ok contents x (other c) \<and> contents (cd_uncached (other c)) = contents (cd_uncached c))"

lemma quietD:
  assumes "quiet n ok contents other" "cached_ok n ok contents x c"
  shows "cached_ok n ok contents x (other c)" "contents (cd_uncached (other c)) = contents (cd_uncached c)"
  using assms by (auto simp: quiet_def)

lemma copy_to_parts:
  assumes "pos + length xs \<le> length ys"
  shows "take pos (copy_to pos xs ys) = take pos ys" "take (pos + length xs) (copy_to pos xs ys) = take pos ys @ xs"
    "drop (pos + length xs) (copy_to pos xs ys) = drop (pos + length xs) ys"
  using assms by (simp_all add: copy_to_def)

lemma copy_to_nil: "copy_to pos [] ys = ys"
  by (simp add: copy_to_def)

locale cached_device = block_device dev ok contents
  for dev :: "'d BlockDevice" and ok :: "'d \<Rightarrow> bool" and contents :: "'d \<Rightarrow> nat \<Rightarrow> u8" +
  fixes junk :: "nat \<Rightarrow> u8" and other :: "'d CachedBlockDevice \<Rightarrow> 'd CachedBlockDevice"
  assumes others_quiet: "quiet (bd_block_size dev) ok contents other"
begin

abbreviation "n \<equiv> bd_block_size dev"

abbreviation "good \<equiv> cached_ok (bd_block_size dev) ok contents"

lemma readUncached_correct:
  assumes "good 0 c" "whole_blocks n k m" "pos + m \<le> length buff"
  shows "\<exists>e buff' c'. readUncached dev junk other pos k m buff c = Some (e, buff', c') \<and> good 0 c' \<and> contents (cd_uncached c') = contents (cd_uncached c)
    \<and> length buff' = length buff \<and> (e = None \<longrightarrow> buff' = copy_to pos (view (contents (cd_uncached c)) (unat k) m) buff)"
proof -
  let ?c1 = "other (c\<lparr>cd_allocated := cd_allocated c + m\<rparr>)"
  have "good m (c\<lparr>cd_allocated := cd_allocated c + m\<rparr>)" using assms(1) by (simp add: cached_ok_def cache_good_def)
  note c1 = quietD [OF others_quiet this]
  obtain e data d where r: "bd_read dev k (map junk [0..<m]) (cd_uncached ?c1) = Some (e, data, d)" "ok d" "contents d = contents (cd_uncached ?c1)"
    "length data = m" "e = None \<longrightarrow> data = view (contents (cd_uncached ?c1)) (unat k) m"
    using read_law [of "cd_uncached ?c1" k "map junk [0..<m]"] c1(1) assms(2) by (auto simp: cached_ok_def)
  have g2: "good m (?c1\<lparr>cd_uncached := d\<rparr>)" using c1(1) r(2,3) by (simp add: cached_ok_def cache_good_def)
  let ?c2 = "other (?c1\<lparr>cd_uncached := d\<rparr>)"
  note c2 = quietD [OF others_quiet g2]
  have same: "contents (cd_uncached ?c2) = contents (cd_uncached c)" using c1(2) c2(2) r(3) by simp
  show ?thesis
  proof (cases e)
    case None
    have "data = view (contents (cd_uncached ?c2)) (unat k) (length data)" using r(4,5) None c1(2) same by simp
    then obtain c' where c': "keep_loop n k data ?c2 = Some c'" "cache_good n 0 (contents (cd_uncached ?c2)) c'" "cd_uncached c' = cd_uncached ?c2"
      using keep_loop_correct [of n 0 data "contents (cd_uncached ?c2)" ?c2 k] c2(1) r(4) assms(2) block_size_pos by (auto simp: cached_ok_def)
    have "good 0 c'" using c'(2,3) c2(1) by (simp add: cached_ok_def)
    then show ?thesis using r None c' same c1(2) assms(3) by (simp add: readUncached_def Let_def)
  next
    case (Some x)
    have "good 0 (?c2\<lparr>cd_allocated := cd_allocated ?c2 - m\<rparr>)" using c2(1) by (simp add: cached_ok_def cache_good_def)
    then show ?thesis using r(1) Some same by (simp add: readUncached_def Let_def)
  qed
qed

lemma read_loop_correct:
  assumes "good 0 c" "whole_blocks n k (u + m)" "u mod n = 0" "m mod n = 0" "pos + u + m = length buff"
  shows "\<exists>e buff' c'. read_loop dev junk other pos k u m buff c = Some (e, buff', c') \<and> good 0 c' \<and> contents (cd_uncached c') = contents (cd_uncached c)
    \<and> length buff' = length buff \<and> (e = None \<longrightarrow> buff' = take pos buff @ view (contents (cd_uncached c)) (unat k) (u + m))"
  using assms
proof (induction m arbitrary: c k u pos buff rule: less_induct)
  case (less m)
  let ?f = "contents (cd_uncached c)"
  have u: "whole_blocks n k u" using less.prems(2,3) by (simp add: whole_blocks_def)
  show ?case
  proof (cases "m = 0")
    case True
    show ?thesis
    proof (cases "u = 0")
      case True
      then show ?thesis using \<open>m = 0\<close> less.prems by (simp add: read_loop.simps)
    next
      case False
      have "copy_to pos (view ?f (unat k) u) buff = take pos buff @ view ?f (unat k) u"
        using less.prems(5) \<open>m = 0\<close> by (simp add: copy_to_def)
      then show ?thesis using readUncached_correct [OF less.prems(1) u, of pos buff] less.prems(5) \<open>m = 0\<close> False by (simp add: read_loop.simps)
    qed
  next
    case False
    then have le: "n \<le> m" using less.prems(4) mod_less [of m n] by (cases "m < n") auto
    have lt: "m - n < m" "(m - n) mod n = 0" using False block_size_pos less.prems(4) le by (simp_all add: le_mod_geq)
    have cg: "cache_good n 0 ?f c" using less.prems(1) by (simp add: cached_ok_def)
    have tok: "block_table_ok (cd_table c)" using cg by (simp add: cache_good_def)
    have ku: "unat (k + of_nat u) = unat k + u" using less.prems(2) False by (simp add: whole_blocks_def unat_word_ariths unat_of_nat)
    show ?thesis
    proof (cases rule: cache_get [OF tok, of "k + of_nat u"])
      case 1
      have "read_loop dev junk other pos k u m buff c = read_loop dev junk other pos k (u + n) (m - n) buff c"
        using 1 False by (simp add: read_loop.simps [of dev junk other pos k u m])
      moreover have "u + n + (m - n) = u + m" using le by simp
      ultimately show ?thesis using less.IH [OF lt(1) less.prems(1), of k "u + n" pos buff] less.prems(2,3,5) lt by simp
    next
      case (2 i b)
      have b: "cb_bytes b = view ?f (unat k + u) n" using cg 2(4,5) ku by (auto simp: cache_good_def block_good_def)
      let ?c = "c\<lparr>cd_table := set_block i lower_block_priority (cd_table c)\<rparr>" and ?b = "copy_to (pos + u) (view ?f (unat k + u) n) buff"
      have gc: "good 0 ?c" using cache_touch [OF cg 2(2,3)] less.prems(1) by (simp add: cached_ok_def)
      have lb: "length ?b = length buff" "pos + u \<le> length ?b" using less.prems(5) le by simp_all
      obtain e b1 c1 where r: "(if u \<noteq> 0 then readUncached dev junk other pos k u ?b ?c else Some (None, ?b, ?c)) = Some (e, b1, c1)" "good 0 c1"
        "contents (cd_uncached c1) = ?f" "length b1 = length buff" "e = None \<longrightarrow> b1 = copy_to pos (view ?f (unat k) u) ?b"
      proof (cases "u = 0")
        case True
        then show ?thesis using that [of None ?b ?c] gc lb(1) by (simp add: copy_to_nil)
      next
        case u0: False
        obtain e b1 c1 where "readUncached dev junk other pos k u ?b ?c = Some (e, b1, c1)" "good 0 c1"
          "contents (cd_uncached c1) = contents (cd_uncached ?c)" "length b1 = length ?b" "e = None \<longrightarrow> b1 = copy_to pos (view (contents (cd_uncached ?c)) (unat k) u) ?b"
          using readUncached_correct [OF gc u lb(2)] by blast
        then show ?thesis using that [of e b1 c1] u0 lb(1) by simp
      qed
      have step: "read_loop dev junk other pos k u m buff c = (case e of Some e \<Rightarrow> Some (Some e, b1, c1)
          | None \<Rightarrow> read_loop dev junk other (pos + u + n) (k + of_nat (u + n)) 0 (m - n) b1 c1)"
        using 2 False b r(1) by (simp add: read_loop.simps [of dev junk other pos k u m] Let_def split: if_splits)
      show ?thesis
      proof (cases e)
        case (Some x)
        then show ?thesis using step r by simp
      next
        case None
        have tk: "take (pos + u + n) b1 = take pos buff @ view ?f (unat k) (u + n)"
          using r(5) None less.prems(5) le by (simp add: copy_to_def view_add)
        show ?thesis
        proof (cases "m = n")
          case True
          then show ?thesis using step None r tk less.prems(5) by (simp add: read_loop.simps)
        next
          case False
          then have kn: "unat (k + of_nat (u + n)) = unat k + (u + n)"
            using less.prems(2) le by (simp add: whole_blocks_def unat_word_ariths unat_of_nat del: of_nat_add)
          then have w: "whole_blocks n (k + of_nat (u + n)) (0 + (m - n))"
            using less.prems(2,3) lt(2) le by (simp only: whole_blocks_def) (auto simp: mod_eq_0_iff_dvd)
          have "pos + u + n + 0 + (m - n) = length b1" using less.prems(5) r(4) le by simp
          then show ?thesis using less.IH [OF lt(1) r(2) w _ lt(2), of "pos + u + n" b1] step None r(3,4) tk kn le
            view_add [of ?f "unat k" "u + n" "m - n"] by simp
        qed
      qed
    qed
  qed
qed

lemma readFunction_correct:
  assumes "good 0 c" "whole_blocks n k (length buff)"
  shows "\<exists>e buff' c'. readFunction dev junk other k buff c = Some (e, buff', c') \<and> good 0 c' \<and> contents (cd_uncached c') = contents (cd_uncached c)
    \<and> length buff' = length buff \<and> (e = None \<longrightarrow> buff' = view (contents (cd_uncached c)) (unat k) (length buff))"
proof -
  have "length buff mod n = 0" "unat k mod n = 0" using assms(2) by (simp_all add: whole_blocks_def)
  then show ?thesis using read_loop_correct [OF assms(1), of k 0 "length buff" 0 buff] assms(2) by (simp add: readFunction_def)
qed

lemma writeFunction_correct:
  assumes "good 0 c" "whole_blocks n k (length buff)"
  shows "\<exists>e c'. writeFunction dev k buff c = Some (e, c') \<and> good 0 c'
    \<and> contents (cd_uncached c') = (if e = None then overlay (unat k) buff (contents (cd_uncached c)) else contents (cd_uncached c))"
proof -
  have al: "length buff mod n = 0" "unat k mod n = 0" using assms(2) by (simp_all add: whole_blocks_def)
  let ?f = "contents (cd_uncached c)"
  obtain e d where w: "bd_write dev k buff (cd_uncached c) = Some (e, d)" "ok d" "contents d = (if e = None then overlay (unat k) buff ?f else ?f)"
    using write_law [of "cd_uncached c" k buff] assms by (auto simp: cached_ok_def)
  let ?c = "c\<lparr>cd_uncached := d\<rparr>"
  show ?thesis
  proof (cases e)
    case (Some x)
    then have "good 0 ?c" using assms(1) w by (simp add: cached_ok_def cache_good_def)
    then show ?thesis using Some w al by (simp add: writeFunction_def Let_def)
  next
    case None
    have "cache_good n 0 ?f c" using assms(1) by (simp add: cached_ok_def)
    from overlay_part [OF this assms(2)] have "cache_part n (contents d) (unat k) (unat k + length buff) ?c"
      using w(3) None by (simp add: cache_part_def)
    moreover have "buff = view (contents d) (unat k) (length buff)" using w(3) None by (simp add: view_overlay)
    ultimately obtain c' where c': "store_loop n k buff ?c = Some c'" "cache_good n 0 (contents d) c'" "cd_uncached c' = d"
      using store_loop_correct [OF _ assms(2) _ block_size_pos] by fastforce
    then have "good 0 c'" using w(2) by (simp add: cached_ok_def)
    then show ?thesis using None w al c' by (simp add: writeFunction_def Let_def)
  qed
qed

end

text \<open>The cached device keeps the promises of a block device.\<close>

abbreviation cached_bd :: "(nat \<Rightarrow> u8) \<Rightarrow> ('d CachedBlockDevice \<Rightarrow> 'd CachedBlockDevice) \<Rightarrow> 'd BlockDevice \<Rightarrow> 'd \<Rightarrow> 'd CachedBlockDevice BlockDevice" where
  "cached_bd junk other dev d \<equiv> fst (wrapBlockDeviceWithCache junk other dev d)"

sublocale cached_device \<subseteq> through: block_device "cached_bd junk other dev d" "cached_ok (bd_block_size dev) ok contents 0" "\<lambda>c. contents (cd_uncached c)"
  for d
  by unfold_locales (use block_size_pos readFunction_correct writeFunction_correct in \<open>simp_all add: wrapBlockDeviceWithCache_def\<close>)

subsection \<open>Reclaim\<close>

lemma cache_age:
  assumes "cache_good n x f c" "i < length (tb_blocks (cd_table c))" "tb_blocks (cd_table c) ! i = Some b"
  shows "cache_good n x f (c\<lparr>cd_table := set_block i (\<lambda>b. b\<lparr>cb_priority := cb_priority b + 1\<rparr>) (cd_table c)\<rparr>)"
proof -
  have "b \<in> cached (cd_table c)" using assms(2,3) by (auto simp: block_set_def)
  then have "block_good n f (b\<lparr>cb_priority := cb_priority b + 1\<rparr>)" using assms(1) by (auto simp: cache_good_def block_good_def)
  then show ?thesis using set_block_correct [of "cd_table c" i b "\<lambda>b. b\<lparr>cb_priority := cb_priority b + 1\<rparr>"] assms by (auto simp: cache_good_def)
qed

lemma cache_drop_block:
  assumes "cache_good n x f c" "i < length (tb_blocks (cd_table c))" "tb_blocks (cd_table c) ! i = Some b"
  shows "\<exists>bs. removeCachedBlock (tb_blocks (cd_table c)) (cb_offset b) = Some (Some b, bs) \<and> length bs = length (tb_blocks (cd_table c)) \<and> 0 < tb_count (cd_table c)
    \<and> cache_good n x f (c\<lparr>cd_table := (cd_table c)\<lparr>tb_blocks := bs, tb_count := tb_count (cd_table c) - 1\<rparr>, cd_allocated := cd_allocated c - n\<rparr>)"
proof -
  let ?t = "cd_table c"
  have t: "blocks_ok (tb_blocks ?t)" "tb_count ?t = card (cached ?t)" "tb_capacity ?t = length (tb_blocks ?t)" "card (cached ?t) < length (tb_blocks ?t)"
    using assms(1,2) by (auto simp: cache_good_def block_table_ok_def)
  have b: "b \<in> cached ?t" using assms(2,3) by (auto simp: block_set_def)
  then obtain bs where bs: "removeCachedBlock (tb_blocks ?t) (cb_offset b) = Some (Some b, bs)" "blocks_ok bs" "length bs = length (tb_blocks ?t)" "block_set bs = cached ?t - {b}"
    using removeCachedBlock_correct [OF t(1,4)] by blast
  have p: "0 < tb_count ?t" using b t(2) by (auto simp: card_gt_0_iff)
  have "card (cached ?t - {b}) = card (cached ?t) - 1" using b by simp
  then have "block_table_ok (?t\<lparr>tb_blocks := bs, tb_count := tb_count ?t - 1\<rparr>)"
    using t(2,3,4) p bs(2,3,4) unfolding block_table_ok_def by (simp, linarith)
  moreover have "cd_allocated c - n = n * (tb_count ?t - 1) + x" using assms(1) p by (cases "tb_count ?t") (auto simp: cache_good_def)
  moreover have "\<forall>a \<in> block_set bs. block_good n f a" using assms(1) bs(4) by (simp add: cache_good_def)
  ultimately show ?thesis using bs(1,3) p by (simp add: cache_good_def)
qed

lemma reclaim_loop_correct:
  assumes "cache_good n x f c"
  shows "\<exists>m c'. reclaim_loop n p i r c = Some (m, c') \<and> cache_good n x f c' \<and> cd_uncached c' = cd_uncached c \<and> m + tb_count (cd_table c') = r + tb_count (cd_table c)"
  using assms
proof (induction "tb_count (cd_table c) + (length (tb_blocks (cd_table c)) - i)" arbitrary: i r c rule: less_induct)
  case less
  let ?t = "cd_table c"
  have cap: "tb_capacity ?t = length (tb_blocks ?t)" using less.prems by (simp add: cache_good_def block_table_ok_def)
  consider "\<not> i < length (tb_blocks ?t)" | "i < length (tb_blocks ?t)" "tb_blocks ?t ! i = None"
    | b where "i < length (tb_blocks ?t)" "tb_blocks ?t ! i = Some b" "cb_priority b \<ge> p"
    | b where "i < length (tb_blocks ?t)" "tb_blocks ?t ! i = Some b" "\<not> cb_priority b \<ge> p" by (cases "tb_blocks ?t ! i") auto
  then show ?case
  proof cases
    case 1
    then show ?thesis using less.prems cap by (simp add: reclaim_loop.simps)
  next
    case 2
    then have "reclaim_loop n p i r c = reclaim_loop n p (i + 1) r c" using cap by (simp add: reclaim_loop.simps [of n p i])
    then show ?thesis using less.hyps [of c "i + 1" r] less.prems 2(1) by simp
  next
    case (3 b)
    then obtain bs where bs: "removeCachedBlock (tb_blocks ?t) (cb_offset b) = Some (Some b, bs)" "length bs = length (tb_blocks ?t)" "0 < tb_count ?t"
      "cache_good n x f (c\<lparr>cd_table := ?t\<lparr>tb_blocks := bs, tb_count := tb_count ?t - 1\<rparr>, cd_allocated := cd_allocated c - n\<rparr>)"
      using cache_drop_block [OF less.prems 3(1,2)] by blast
    let ?c = "c\<lparr>cd_table := ?t\<lparr>tb_blocks := bs, tb_count := tb_count ?t - 1\<rparr>, cd_allocated := cd_allocated c - n\<rparr>"
    have step: "reclaim_loop n p i r c = reclaim_loop n p i (r + 1) ?c" using 3 cap bs(1) by (simp add: reclaim_loop.simps [of n p i] Let_def)
    have "\<exists>m c'. reclaim_loop n p i (r + 1) ?c = Some (m, c') \<and> cache_good n x f c' \<and> cd_uncached c' = cd_uncached ?c \<and> m + tb_count (cd_table c') = r + 1 + tb_count (cd_table ?c)"
      by (rule less.hyps) (use bs in simp_all)
    then show ?thesis using step bs(3) by auto
  next
    case (4 b)
    let ?c = "c\<lparr>cd_table := set_block i (\<lambda>b. b\<lparr>cb_priority := cb_priority b + 1\<rparr>) ?t\<rparr>"
    have step: "reclaim_loop n p i r c = reclaim_loop n p (i + 1) r ?c" using 4 cap by (simp add: reclaim_loop.simps [of n p i])
    have same: "tb_count (cd_table ?c) = tb_count ?t" "length (tb_blocks (cd_table ?c)) = length (tb_blocks ?t)" by (simp_all add: set_block_def)
    have "\<exists>m c'. reclaim_loop n p (i + 1) r ?c = Some (m, c') \<and> cache_good n x f c' \<and> cd_uncached c' = cd_uncached ?c \<and> m + tb_count (cd_table c') = r + tb_count (cd_table ?c)"
      by (rule less.hyps) (use same 4(1) cache_age [OF less.prems 4(1,2)] in simp_all)
    then show ?thesis using step same(1) by simp
  qed
qed

lemma reclaimFunction_correct:
  assumes "cached_ok n ok contents x c"
  shows "\<exists>b c'. reclaimFunction n p c = Some (b, c') \<and> cached_ok n ok contents x c' \<and> cd_uncached c' = cd_uncached c
    \<and> (b \<longleftrightarrow> tb_count (cd_table c') < tb_count (cd_table c)) \<and> tb_count (cd_table c') \<le> tb_count (cd_table c)"
proof -
  obtain m c1 where c1: "reclaim_loop n p 0 0 c = Some (m, c1)" "cache_good n x (contents (cd_uncached c)) c1" "cd_uncached c1 = cd_uncached c"
    "m + tb_count (cd_table c1) = tb_count (cd_table c)"
    using reclaim_loop_correct [of n x "contents (cd_uncached c)" c p 0 0] assms by (auto simp: cached_ok_def)
  obtain tab where "testForResizeBlocks (cd_table c1) = Some tab" "block_table_ok tab" "cached tab = cached (cd_table c1)" "tb_count tab = tb_count (cd_table c1)"
    using testForResizeBlocks_correct [of "cd_table c1"] c1(2) by (auto simp: cache_good_def)
  then show ?thesis using c1 assms by (auto simp: reclaimFunction_def cached_ok_def cache_good_def)
qed

subsection \<open>Correctness of the cache\<close>

lemma wrapped_ok: "ok d \<Longrightarrow> cached_ok n ok contents 0 (snd (wrapBlockDeviceWithCache junk other dev d))"
  by (simp add: wrapBlockDeviceWithCache_def cached_ok_def cache_good_def block_table_ok_def blocks_ok_def robin_hood_def distinct_offsets_def block_set_def)

text \<open>Any run of reads, writes and reclaims, each with its result.\<close>

datatype cache_op = Read u64 nat | Write u64 "u8 list" | Reclaim u8

definition op_ok :: "nat \<Rightarrow> cache_op \<Rightarrow> bool" where
  "op_ok n x = (case x of Read k m \<Rightarrow> whole_blocks n k m | Write k data \<Rightarrow> whole_blocks n k (length data) | Reclaim p \<Rightarrow> True)"

definition cache_step :: "'d CachedBlockDevice BlockDevice \<Rightarrow> cache_op \<Rightarrow> 'd CachedBlockDevice \<Rightarrow> ((Error option \<times> u8 list) \<times> 'd CachedBlockDevice) option" where
  "cache_step dev x c = (case x of
     Read k m \<Rightarrow> (case bd_read dev k (replicate m 0) c of None \<Rightarrow> None | Some (e, data, c') \<Rightarrow> Some ((e, if e = None then data else []), c'))
   | Write k data \<Rightarrow> (case bd_write dev k data c of None \<Rightarrow> None | Some (e, c') \<Rightarrow> Some ((e, []), c'))
   | Reclaim p \<Rightarrow> (case reclaimFunction (bd_block_size dev) p c of None \<Rightarrow> None | Some (b, c') \<Rightarrow> Some ((None, []), c')))"

fun cache_run :: "'d CachedBlockDevice BlockDevice \<Rightarrow> cache_op list \<Rightarrow> 'd CachedBlockDevice \<Rightarrow> ((Error option \<times> u8 list) list \<times> 'd CachedBlockDevice) option" where
  "cache_run dev [] c = Some ([], c)"
| "cache_run dev (x # xs) c = do { (r, c) \<leftarrow> cache_step dev x c; (rs, c) \<leftarrow> cache_run dev xs c; Some (r # rs, c) }"

text \<open>The disk as a plain array of bytes, given which operations failed.\<close>

fun disk_run :: "cache_op list \<Rightarrow> Error option list \<Rightarrow> (nat \<Rightarrow> u8) \<Rightarrow> u8 list list \<times> (nat \<Rightarrow> u8)" where
  "disk_run (Read k m # xs) (e # es) f = (let (rs, g) = disk_run xs es f in ((if e = None then view f (unat k) m else []) # rs, g))"
| "disk_run (Write k data # xs) (e # es) f = (let (rs, g) = disk_run xs es (if e = None then overlay (unat k) data f else f) in ([] # rs, g))"
| "disk_run (Reclaim p # xs) (e # es) f = (let (rs, g) = disk_run xs es f in ([] # rs, g))"
| "disk_run _ _ f = ([], f)"

context cached_device
begin

lemma step_refines:
  assumes "good 0 c" "op_ok n x"
  shows "\<exists>e data c'. cache_step (cached_bd junk other dev d) x c = Some ((e, data), c') \<and> good 0 c'
    \<and> (\<forall>xs es. disk_run (x # xs) (e # es) (contents (cd_uncached c)) = (let (rs, g) = disk_run xs es (contents (cd_uncached c')) in (data # rs, g)))"
proof (cases x)
  case (Read k m)
  then show ?thesis using readFunction_correct [OF assms(1), of k "replicate m 0"] assms(2)
    by (auto simp: op_ok_def cache_step_def wrapBlockDeviceWithCache_def)
next
  case (Write k data)
  then show ?thesis using writeFunction_correct [OF assms(1), of k data] assms(2)
    by (auto simp: op_ok_def cache_step_def wrapBlockDeviceWithCache_def)
next
  case (Reclaim p)
  then show ?thesis using reclaimFunction_correct [OF assms(1), of p] by (auto simp: cache_step_def wrapBlockDeviceWithCache_def)
qed

lemma run_refines:
  "good 0 c \<Longrightarrow> \<forall>x \<in> set xs. op_ok n x \<Longrightarrow>
    \<exists>rs c'. cache_run (cached_bd junk other dev d) xs c = Some (rs, c') \<and> good 0 c' \<and> disk_run xs (map fst rs) (contents (cd_uncached c)) = (map snd rs, contents (cd_uncached c'))"
proof (induction xs arbitrary: c)
  case Nil
  then show ?case by simp
next
  case (Cons x xs)
  obtain e data c1 where s: "cache_step (cached_bd junk other dev d) x c = Some ((e, data), c1)" "good 0 c1"
    "\<forall>xs es. disk_run (x # xs) (e # es) (contents (cd_uncached c)) = (let (rs, g) = disk_run xs es (contents (cd_uncached c1)) in (data # rs, g))"
    using step_refines [OF Cons.prems(1), of x d] Cons.prems(2) by auto
  then show ?case using Cons.IH [OF s(2)] Cons.prems(2) by auto
qed

end

text \<open>The cache fails only where the device does.\<close>

definition never_fails :: "'d BlockDevice \<Rightarrow> bool" where
  "never_fails dev \<longleftrightarrow> (\<forall>k buff d e buff' d'. bd_read dev k buff d = Some (e, buff', d') \<longrightarrow> e = None) \<and> (\<forall>k buff d e d'. bd_write dev k buff d = Some (e, d') \<longrightarrow> e = None)"

lemma never_failsD: "never_fails dev \<Longrightarrow> bd_read dev k buff d = Some (Some e, x) \<Longrightarrow> False" "never_fails dev \<Longrightarrow> bd_write dev k buff d = Some (Some e, d') \<Longrightarrow> False"
  unfolding never_fails_def by (cases x, blast) blast

lemma readUncached_succeeds: "never_fails dev \<Longrightarrow> readUncached dev junk other pos k m buff c = Some (Some e, x) \<Longrightarrow> False"
  by (auto simp: readUncached_def Let_def split: Option.bind_splits option.splits dest: never_failsD)

lemma read_loop_succeeds: "read_loop dev junk other pos k u m buff c = Some r \<Longrightarrow> never_fails dev \<longrightarrow> fst r = None"
proof (induction rule: read_loop.raw_induct [rotated, consumes 1])
  case (1 read_loop dev junk other pos k u m buff c r)
  show ?case
  proof
    assume nf: "never_fails dev"
    have ih: "read_loop dev junk other pos k u m buff c = Some r \<Longrightarrow> fst r = None" for pos k u m buff c r using 1(1) nf by blast
    have ru: "readUncached dev junk other pos k m buff c = Some r \<Longrightarrow> fst r = None" for pos k m buff c r
      using readUncached_succeeds [OF nf, of junk other pos k m buff c] by (cases r; cases "fst r") auto
    show "fst r = None" using 1(2)
      by (auto simp: Let_def split: if_splits Option.bind_splits option.splits dest: ih ru)
  qed
qed

lemma cached_never_fails:
  assumes "never_fails dev"
  shows "never_fails (cached_bd junk other dev d)"
proof -
  have "e = None" if "readFunction dev junk other k buff c = Some (e, buff', c')" for e k buff buff' c c'
    using that read_loop_succeeds [of dev junk other 0 k 0 "length buff" buff c] assms by (auto simp: readFunction_def split: Option.bind_splits)
  moreover have "e = None" if "writeFunction dev k buff c = Some (e, c')" for e k buff c c'
    using that never_failsD(2) [OF assms] by (auto simp: writeFunction_def Let_def split: Option.bind_splits option.splits)
  ultimately show ?thesis unfolding never_fails_def by (auto simp: wrapBlockDeviceWithCache_def)
qed

lemma run_succeeds: "never_fails dev \<Longrightarrow> cache_run dev xs c = Some (rs, c') \<Longrightarrow> \<forall>r \<in> set rs. fst r = None"
proof (induction xs arbitrary: c rs c')
  case Nil
  then show ?case by simp
next
  case (Cons x xs)
  then obtain r c1 rs1 where s: "cache_step dev x c = Some (r, c1)" "cache_run dev xs c1 = Some (rs1, c')" "rs = r # rs1"
    by (auto split: Option.bind_splits)
  have "fst r = None" using s(1) never_failsD [OF Cons.prems(1)]
    by (cases x; cases "fst r") (auto simp: cache_step_def split: option.splits)
  then show ?case using Cons.IH [OF Cons.prems(1) s(2)] s(3) by simp
qed


text \<open>Witness: a disk in memory with blocks of two bytes, of which one is written, read, evicted and read again.\<close>

definition ram_disk :: "(nat \<Rightarrow> u8) BlockDevice" where
  "ram_disk = \<lparr>bd_read = (\<lambda>k buff f. Some (None, view f (unat k) (length buff), f)), bd_write = (\<lambda>k buff f. Some (None, overlay (unat k) buff f)), bd_block_size = 2, bd_size = 8\<rparr>"

interpretation ram: cached_device ram_disk "\<lambda>f. True" "\<lambda>f. f" "\<lambda>_. 0" "\<lambda>c. c"
  by unfold_locales (auto simp: ram_disk_def quiet_def)


text \<open>
  The cache relies on the promise that a write that fails changes nothing: if the device stores the block and still
  reports an error, the cached block is out of date, and later reads return it.
\<close>

lemma failed_write_stale:
  assumes "length buff mod bd_block_size dev = 0" "unat k mod bd_block_size dev = 0" "bd_write dev k buff (cd_uncached c) = Some (Some e, d)"
  shows "\<exists>c'. writeFunction dev k buff c = Some (Some e, c') \<and> cd_uncached c' = d \<and> cd_table c' = cd_table c"
  using assms by (simp add: writeFunction_def Let_def)

end
