(* ===== verification/BlkFile.thy ===== *)
theory BlkFile
  imports BlockCache
begin

text \<open>
  Model of the access to block devices as files, kernel/src/files/special/blkfile.c: an access at any offset and of
  any length, made from accesses of whole blocks through a temporary block. The buffer is the bytes a virtual pointer shows, \<open>pos\<close> is
  how far its address has advanced; \<open>junk\<close> are the bytes of fresh memory. The results are an error (\<open>Inl\<close>) or the number of bytes (\<open>Inr\<close>). The node and the
  file around it are in the theory of special files.
\<close>

definition blockOperation :: "'d BlockDevice \<Rightarrow> bool \<Rightarrow> u64 \<Rightarrow> u8 list \<Rightarrow> 'd \<Rightarrow> (Error option \<times> u8 list \<times> 'd) option" where
  "blockOperation device wr offset buff d =
     (if wr then do { (e, d) \<leftarrow> bd_write device offset buff d; Some (e, buff, d) }
      else bd_read device offset buff d)"

text \<open>One round of the loop of \<open>genericBlockFileFunction\<close>; the result has the number of bytes \<open>size_diff\<close>.\<close>

definition block_file_step :: "'d BlockDevice \<Rightarrow> bool \<Rightarrow> u64 \<Rightarrow> u64 \<Rightarrow> nat \<Rightarrow> u8 list \<Rightarrow> u8 list \<Rightarrow> 'd
    \<Rightarrow> (Error option \<times> nat \<times> u8 list \<times> u8 list \<times> 'd) option" where
  "block_file_step device wr offset left pos tmp buff d =
     (let bsize = bd_block_size device in
      if unat offset mod bsize = 0 \<and> unat left > bsize then do {
        let size_diff = unat (left AND - of_nat bsize);
        (e, part, d) \<leftarrow> blockOperation device wr offset (take size_diff (drop pos buff)) d;
        Some (e, size_diff, tmp, copy_to pos part buff, d) }
      else do {
        let size_diff = min (unat left) (bsize - unat offset mod bsize);
        let tmp_start = offset AND - of_nat bsize;
        (e, tmp, d) \<leftarrow> blockOperation device False tmp_start tmp d;
        (if e \<noteq> None then Some (e, size_diff, tmp, buff, d)
         else if wr then do {
           let tmp = copy_to (unat offset mod bsize) (take size_diff (drop pos buff)) tmp;
           (e, tmp, d) \<leftarrow> blockOperation device True tmp_start tmp d;
           Some (e, size_diff, tmp, buff, d) }
         else Some (None, size_diff, tmp, copy_to pos (take size_diff (drop (unat offset mod bsize) tmp)) buff, d)) })"

partial_function (option) block_file_loop :: "'d BlockDevice \<Rightarrow> bool \<Rightarrow> u64 \<Rightarrow> u64 \<Rightarrow> nat \<Rightarrow> u8 list \<Rightarrow> u8 list \<Rightarrow> 'd
    \<Rightarrow> ((Error + u64) \<times> u8 list \<times> 'd) option" where
  "block_file_loop device wr offset left pos tmp buff d =
     (if left > 0 then do {
        (e, size_diff, tmp, buff, d) \<leftarrow> block_file_step device wr offset left pos tmp buff d;
        (case e of
           Some e \<Rightarrow> Some (Inl e, buff, d)
         | None \<Rightarrow> block_file_loop device wr (offset + of_nat size_diff) (left - of_nat size_diff) (pos + size_diff) tmp buff d) }
      else Some (Inr left, buff, d))"

definition genericBlockFileFunction :: "'d BlockDevice \<Rightarrow> (nat \<Rightarrow> u8) \<Rightarrow> bool \<Rightarrow> u64 \<Rightarrow> u8 list \<Rightarrow> 'd \<Rightarrow> ((Error + u64) \<times> u8 list \<times> 'd) option" where
  "genericBlockFileFunction device junk wr offset buff d = do {
     let tmp_buffer = map junk [0..<bd_block_size device];
     let size' = of_nat (length buff);
     (r, buff, d) \<leftarrow> block_file_loop device wr offset size' 0 tmp_buffer buff d;
     (case r of
        Inl e \<Rightarrow> Some (Inl e, buff, d)
      | Inr left \<Rightarrow> Some (Inr (size' - left), buff, d)) }"

definition blkNodeReadAt :: "'d BlockDevice \<Rightarrow> (nat \<Rightarrow> u8) \<Rightarrow> u64 \<Rightarrow> u8 list \<Rightarrow> 'd \<Rightarrow> ((Error + u64) \<times> u8 list \<times> 'd) option" where
  "blkNodeReadAt device junk offset buff d = genericBlockFileFunction device junk False offset buff d"

definition blkNodeWriteAt :: "'d BlockDevice \<Rightarrow> (nat \<Rightarrow> u8) \<Rightarrow> u64 \<Rightarrow> u8 list \<Rightarrow> 'd \<Rightarrow> ((Error + u64) \<times> u8 list \<times> 'd) option" where
  "blkNodeWriteAt device junk offset buff d = genericBlockFileFunction device junk True offset buff d"

subsection \<open>Parts of the disk\<close>

lemma overlay_nil [simp]: "overlay a [] f = f"
  by (rule ext) (auto simp: overlay_def)

lemma overlay_append: "overlay (a + length xs) ys (overlay a xs f) = overlay a (xs @ ys) f"
  by (auto simp: overlay_def nth_append fun_eq_iff)

lemma overlay_copy: "p + length xs \<le> n \<Longrightarrow> overlay t (copy_to p xs (view f t n)) f = overlay (t + p) xs f"
  by (auto simp: overlay_def copy_to_def view_def fun_eq_iff nth_append min_def)

lemma copy_same: "copy_to pos (take n (drop pos buff)) buff = buff"
proof (cases "pos \<le> length buff")
  case True
  have "drop (pos + length (take n (drop pos buff))) buff = drop n (drop pos buff)"
    by (cases "n \<le> length buff - pos") (auto simp: add.commute)
  then have "copy_to pos (take n (drop pos buff)) buff = take pos buff @ take n (drop pos buff) @ drop n (drop pos buff)" by (simp only: copy_to_def)
  then show ?thesis by (simp only: append_take_drop_id)
qed (simp add: copy_to_def)

lemma view_part: "p + m \<le> n \<Longrightarrow> take m (drop p (view f t n)) = view f (t + p) m"
  by (simp add: view_take_drop)

lemma copy_to_next:
  "pos + length xs \<le> length buff \<Longrightarrow> take (pos + length xs) (copy_to pos xs buff) = take pos buff @ xs"
  by (rule copy_to_parts(2))

lemma block_start:
  assumes "bd_block_size dev = 2 ^ k" "k < 64"
  shows "whole_blocks (bd_block_size dev) (offset AND - of_nat (bd_block_size dev)) (bd_block_size dev)"
    "unat (offset AND - of_nat (bd_block_size dev)) + unat offset mod bd_block_size dev = unat offset"
proof -
  let ?n = "2 ^ k :: nat"
  have e: "unat (offset AND - of_nat (bd_block_size dev)) = unat offset div ?n * ?n"
    using unat_and_minus_exp [of offset k] assms(1) by simp
  then show "unat (offset AND - of_nat (bd_block_size dev)) + unat offset mod bd_block_size dev = unat offset" using assms(1) by (simp only: div_mult_mod_eq)
  have "unat offset div ?n < 2 ^ (64 - k)" using unsigned_less [of offset] assms(2)
    by (simp add: less_mult_imp_div_less power_add [symmetric])
  then have "(unat offset div ?n + 1) * ?n \<le> 2 ^ (64 - k) * ?n" by (intro mult_le_mono1) simp
  then have "unat offset div ?n * ?n + ?n \<le> 2 ^ 64" using assms(2) by (simp add: power_add [symmetric])
  then show "whole_blocks (bd_block_size dev) (offset AND - of_nat (bd_block_size dev)) (bd_block_size dev)"
    using e assms(1) by (simp add: whole_blocks_def)
qed

context block_device
begin

lemma step_correct:
  assumes "bd_block_size dev = 2 ^ k" "k < 64" "ok d" "0 < left" "unat offset + unat left \<le> 2 ^ 64" "pos + unat left = length buff" "length tmp = bd_block_size dev"
  shows "\<exists>e n tmp' buff' d'. block_file_step dev wr offset left pos tmp buff d = Some (e, n, tmp', buff', d') \<and> ok d' \<and> length tmp' = length tmp \<and> length buff' = length buff
    \<and> 0 < n \<and> n \<le> unat left \<and> (wr \<longrightarrow> buff' = buff) \<and> (e = None \<longrightarrow> \<not> wr \<longrightarrow> buff' = copy_to pos (view (contents d) (unat offset) n) buff)
    \<and> contents d' = (if wr \<and> e = None then overlay (unat offset) (take n (drop pos buff)) (contents d) else contents d)"
proof (cases "unat offset mod bd_block_size dev = 0 \<and> unat left > bd_block_size dev")
  case True
  let ?n = "unat (left AND - of_nat (bd_block_size dev))"
  have n: "?n = unat left div 2 ^ k * 2 ^ k" using unat_and_minus_exp [of left k] assms(1) by simp
  have le: "?n \<le> unat left" using n by simp
  have "0 < unat left div 2 ^ k" using True assms(1) by (simp add: div_greater_zero_iff)
  then have pos: "0 < ?n" using n by simp
  let ?part = "take ?n (drop pos buff)"
  have lp: "length ?part = ?n" using le assms(6) by simp
  have sm: "unat offset + ?n \<le> 2 ^ 64" using le assms(5) by linarith
  have w: "whole_blocks (bd_block_size dev) offset (length ?part)" unfolding whole_blocks_def lp
    using True n sm assms(1) by (intro conjI) simp_all
  show ?thesis
  proof (cases wr)
    case w1: True
    obtain e d' where o: "bd_write dev offset ?part d = Some (e, d')" "ok d'" "contents d' = (if e = None then overlay (unat offset) ?part (contents d) else contents d)"
      using write_law [OF assms(3) w] by blast
    moreover have "block_file_step dev wr offset left pos tmp buff d = Some (e, ?n, tmp, copy_to pos ?part buff, d')"
      using True w1 o(1) by (simp add: block_file_step_def blockOperation_def Let_def)
    ultimately show ?thesis using w1 pos le copy_same [of pos ?n buff] by simp
  next
    case rd: False
    obtain e part d' where o: "bd_read dev offset ?part d = Some (e, part, d')" "ok d'" "contents d' = contents d" "length part = length ?part"
      "e = None \<longrightarrow> part = view (contents d) (unat offset) (length ?part)"
      using read_law [OF assms(3) w] by blast
    moreover have "block_file_step dev wr offset left pos tmp buff d = Some (e, ?n, tmp, copy_to pos part buff, d')"
      using True rd o(1) by (simp add: block_file_step_def blockOperation_def Let_def)
    ultimately show ?thesis using rd pos le lp assms(6) by simp
  qed
next
  case False
  let ?b = "bd_block_size dev"
  let ?p = "unat offset mod ?b" and ?t = "offset AND - of_nat ?b"
  let ?n = "min (unat left) (?b - ?p)"
  have unf: "block_file_step dev wr offset left pos tmp buff d = do {
      (e, tmp, d) \<leftarrow> blockOperation dev False ?t tmp d;
      (if e \<noteq> None then Some (e, ?n, tmp, buff, d)
       else if wr then do { (e, tmp, d) \<leftarrow> blockOperation dev True ?t (copy_to ?p (take ?n (drop pos buff)) tmp) d; Some (e, ?n, tmp, buff, d) }
       else Some (None, ?n, tmp, copy_to pos (take ?n (drop ?p tmp)) buff, d)) }"
    unfolding block_file_step_def Let_def if_not_P [OF False] ..
  note bs = block_start [OF assms(1,2), of offset]
  have p: "?p < ?b" using assms(1) by simp
  have l0: "0 < unat left" using assms(4) by (simp add: word_greater_zero_iff unat_gt_0)
  have n: "0 < ?n" "?n \<le> unat left" "?p + ?n \<le> ?b" using p l0 by auto
  let ?part = "take ?n (drop pos buff)"
  have lp: "length ?part = ?n" using n assms(6) by simp
  obtain e tmp1 d1 where r: "bd_read dev ?t tmp d = Some (e, tmp1, d1)" "ok d1" "contents d1 = contents d" "length tmp1 = length tmp"
    "e = None \<longrightarrow> tmp1 = view (contents d) (unat ?t) ?b"
    using read_law [OF assms(3), of ?t tmp] bs(1) assms(7) by auto
  show ?thesis
  proof (cases e)
    case (Some x)
    then have "block_file_step dev wr offset left pos tmp buff d = Some (e, ?n, tmp1, buff, d1)" unfolding unf using r(1) by (simp add: blockOperation_def)
    then show ?thesis using Some r n by simp
  next
    case None
    then have t1: "tmp1 = view (contents d) (unat ?t) ?b" using r(5) by simp
    show ?thesis
    proof (cases wr)
      case w1: True
      let ?tmp = "copy_to ?p ?part tmp1"
      have lt: "length ?tmp = ?b" using t1 lp n(3) by simp
      obtain e2 d2 where o: "bd_write dev ?t ?tmp d1 = Some (e2, d2)" "ok d2" "contents d2 = (if e2 = None then overlay (unat ?t) ?tmp (contents d1) else contents d1)"
        using write_law [OF r(2), of ?t ?tmp] bs(1) lt by auto
      moreover have "overlay (unat ?t) ?tmp (contents d) = overlay (unat offset) ?part (contents d)"
        using overlay_copy [of ?p ?part ?b "unat ?t" "contents d"] lp n(3) bs(2) t1 by simp
      moreover have "block_file_step dev wr offset left pos tmp buff d = Some (e2, ?n, ?tmp, buff, d2)"
        unfolding unf using w1 None r(1) o(1) by (simp add: blockOperation_def)
      ultimately show ?thesis using w1 r(3) n lt assms(7) by simp
    next
      case rd: False
      have "take ?n (drop ?p tmp1) = view (contents d) (unat offset) ?n" using t1 view_part [OF n(3), of "contents d" "unat ?t"] bs(2) by simp
      moreover have "block_file_step dev wr offset left pos tmp buff d = Some (None, ?n, tmp1, copy_to pos (take ?n (drop ?p tmp1)) buff, d1)"
        unfolding unf using rd None r(1) by (simp add: blockOperation_def)
      ultimately show ?thesis using rd r n assms(6) by simp
    qed
  qed
qed

lemma loop_correct:
  assumes "bd_block_size dev = 2 ^ k" "k < 64" "ok d" "unat offset + unat left \<le> 2 ^ 64" "pos + unat left = length buff" "length tmp = bd_block_size dev"
  shows "\<exists>r buff' d'. block_file_loop dev wr offset left pos tmp buff d = Some (r, buff', d') \<and> ok d' \<and> length buff' = length buff \<and> (wr \<longrightarrow> buff' = buff)
    \<and> (\<exists>m \<le> unat left. contents d' = (if wr then overlay (unat offset) (take m (drop pos buff)) (contents d) else contents d)
      \<and> (\<forall>x. r = Inr x \<longrightarrow> x = 0 \<and> m = unat left \<and> (\<not> wr \<longrightarrow> buff' = take pos buff @ view (contents d) (unat offset) m)))"
  using assms(3-)
proof (induction "unat left" arbitrary: offset left pos tmp buff d rule: less_induct)
  case less
  let ?f = "contents d"
  show ?case
  proof (cases "left = 0")
    case True
    then show ?thesis using less.prems by (simp add: block_file_loop.simps)
  next
    case False
    then have l0: "0 < left" by (simp add: word_gt_0)
    obtain e n tmp1 b1 d1 where s: "block_file_step dev wr offset left pos tmp buff d = Some (e, n, tmp1, b1, d1)" "ok d1" "length tmp1 = length tmp" "length b1 = length buff"
      "0 < n" "n \<le> unat left" "wr \<longrightarrow> b1 = buff" "e = None \<longrightarrow> \<not> wr \<longrightarrow> b1 = copy_to pos (view ?f (unat offset) n) buff"
      "contents d1 = (if wr \<and> e = None then overlay (unat offset) (take n (drop pos buff)) ?f else ?f)"
      using step_correct [OF assms(1,2) less.prems(1) l0 less.prems(2-4), of wr] by blast
    show ?thesis
    proof (cases e)
      case (Some x)
      then have "block_file_loop dev wr offset left pos tmp buff d = Some (Inl x, b1, d1)" using s(1) l0 by (simp add: block_file_loop.simps [of dev wr offset left])
      moreover have "contents d1 = (if wr then overlay (unat offset) (take 0 (drop pos buff)) ?f else ?f)" using s(9) Some by simp
      ultimately show ?thesis using s by blast
    next
      case None
      let ?o = "offset + of_nat n" and ?l = "left - of_nat n"
      have step: "block_file_loop dev wr offset left pos tmp buff d = block_file_loop dev wr ?o ?l (pos + n) tmp1 b1 d1"
        using s(1) l0 None by (simp add: block_file_loop.simps [of dev wr offset left])
      have un: "unat (of_nat n :: u64) = n" by (rule unat_of_nat_64, rule le_less_trans [OF s(6)]) (rule unat_less_2p64)
      then have ul: "unat ?l = unat left - n" using s(6) by (simp add: unat_sub word_le_nat_alt)
      have uo: "unat ?o = unat offset + n \<or> n = unat left"
        using less.prems(2) s(6) un unat_add_lem [of offset "of_nat n"] by (cases "n = unat left") auto
      have pre: "unat ?o + unat ?l \<le> 2 ^ 64" "pos + n + unat ?l = length b1" "length tmp1 = bd_block_size dev" "unat ?l < unat left"
        using uo ul less.prems(2,3,4) s(3-6) less_imp_le [OF unat_less_2p64 [of ?o]] by auto
      obtain r b' d' m where ih: "block_file_loop dev wr ?o ?l (pos + n) tmp1 b1 d1 = Some (r, b', d')" "ok d'" "length b' = length b1" "wr \<longrightarrow> b' = b1" "m \<le> unat ?l"
        "contents d' = (if wr then overlay (unat ?o) (take m (drop (pos + n) b1)) (contents d1) else contents d1)"
        "\<forall>x. r = Inr x \<longrightarrow> x = 0 \<and> m = unat ?l \<and> (\<not> wr \<longrightarrow> b' = take (pos + n) b1 @ view (contents d1) (unat ?o) m)"
        using less.hyps [OF pre(4) s(2) pre(1-3)] by blast
      have m0: "m = 0" if "n = unat left" using ih(5) ul that by simp
      have le: "pos + n \<le> length buff" using s(6) less.prems(3) by simp
      have w: "contents d' = overlay (unat offset) (take (n + m) (drop pos buff)) ?f" if wr
      proof -
        have "contents d' = overlay (unat offset + n) (take m (drop (pos + n) buff)) (overlay (unat offset) (take n (drop pos buff)) ?f)"
          using ih(6) s(7,9) None uo m0 that by (cases "n = unat left") auto
        also have "\<dots> = overlay (unat offset) (take n (drop pos buff) @ take m (drop (pos + n) buff)) ?f"
          using overlay_append [of "unat offset" "take n (drop pos buff)"] le by simp
        also have "take n (drop pos buff) @ take m (drop (pos + n) buff) = take (n + m) (drop pos buff)" using take_add [of n m "drop pos buff"] by (simp add: add.commute [of n pos])
        finally show ?thesis .
      qed
      have rd: "b' = take pos buff @ view ?f (unat offset) (n + m)" if "\<not> wr" "r = Inr x" for x
      proof -
        have "b1 = copy_to pos (view ?f (unat offset) n) buff" using s(8) None that(1) by simp
        then have "take (pos + n) b1 = take pos buff @ view ?f (unat offset) n" using copy_to_next [of pos "view ?f (unat offset) n" buff] le by simp
        then show ?thesis using ih(7) s(9) that uo m0 by (cases "n = unat left") (auto simp: view_add)
      qed
      have "n + m \<le> unat left" "\<forall>x. r = Inr x \<longrightarrow> n + m = unat left" using ih(5,7) ul s(6) by auto
      moreover have "contents d' = (if wr then overlay (unat offset) (take (n + m) (drop pos buff)) ?f else ?f)" using w ih(6) s(9) by auto
      ultimately show ?thesis using step ih(1,2,3,4,7) s(4,7) rd by (intro exI [of _ r] exI [of _ b'] exI [of _ d']) auto
    qed
  qed
qed

lemma block_file_access:
  assumes "bd_block_size dev = 2 ^ k" "k < 64" "ok d" "unat offset + length buff \<le> 2 ^ 64" "length buff < 2 ^ 64"
  shows "\<exists>r buff' d'. genericBlockFileFunction dev junk wr offset buff d = Some (r, buff', d') \<and> ok d' \<and> length buff' = length buff \<and> (wr \<longrightarrow> buff' = buff)
    \<and> (\<exists>m \<le> length buff. contents d' = (if wr then overlay (unat offset) (take m buff) (contents d) else contents d)
      \<and> (\<forall>x. r = Inr x \<longrightarrow> unat x = length buff \<and> m = length buff \<and> (\<not> wr \<longrightarrow> buff' = view (contents d) (unat offset) m)))"
proof -
  have u: "unat (of_nat (length buff) :: u64) = length buff" using assms(5) by (simp add: unat_of_nat)
  obtain r b' d' m where l: "block_file_loop dev wr offset (of_nat (length buff)) 0 (map junk [0..<bd_block_size dev]) buff d = Some (r, b', d')" "ok d'" "length b' = length buff"
    "wr \<longrightarrow> b' = buff" "m \<le> length buff" "contents d' = (if wr then overlay (unat offset) (take m buff) (contents d) else contents d)"
    "\<forall>x. r = Inr x \<longrightarrow> x = 0 \<and> m = length buff \<and> (\<not> wr \<longrightarrow> b' = view (contents d) (unat offset) m)"
    using loop_correct [OF assms(1-3), of offset "of_nat (length buff)" 0 buff "map junk [0..<bd_block_size dev]" wr, unfolded u drop_0 take_0 append_Nil add_0 length_map, OF assms(4) refl] by auto
  show ?thesis
  proof (cases r)
    case (Inl e)
    then show ?thesis using l by (auto simp: genericBlockFileFunction_def Let_def)
  next
    case (Inr x)
    then have "genericBlockFileFunction dev junk wr offset buff d = Some (Inr (of_nat (length buff)), b', d')" using l by (simp add: genericBlockFileFunction_def Let_def)
    then show ?thesis using l Inr u by auto
  qed
qed

end

text \<open>The access fails only where the device does.\<close>

lemma step_succeeds: "never_fails dev \<Longrightarrow> block_file_step dev wr offset left pos tmp buff d = Some (e, x) \<Longrightarrow> e = None"
  by (cases e) (auto simp: block_file_step_def blockOperation_def Let_def split: if_splits Option.bind_splits dest: never_failsD)

lemma loop_succeeds: "block_file_loop dev wr offset left pos tmp buff d = Some y \<Longrightarrow> never_fails dev \<longrightarrow> \<not> isl (fst y)"
proof (induction rule: block_file_loop.raw_induct [rotated, consumes 1])
  case (1 block_file_loop dev wr offset left pos tmp buff d y)
  show ?case
  proof
    assume nf: "never_fails dev"
    have ih: "block_file_loop dev wr offset left pos tmp buff d = Some y \<Longrightarrow> \<not> isl (fst y)" for offset left pos tmp buff d y using 1(1) nf by blast
    show "\<not> isl (fst y)" using 1(2)
      by (auto split: if_splits Option.bind_splits option.splits dest: ih step_succeeds [OF nf])
  qed
qed

text \<open>
  Property C23 (block_file_flat). A block device opened as a file behaves as a flat array of bytes: a read at any offset and of any length returns
  the bytes of the disk, a write changes exactly the bytes it covers and keeps the rest of the blocks at both ends, and both end and report the full length.
  When the device fails in the middle, a read changes nothing on the disk and a write
  has stored a prefix of the buffer. The statement is for any device that keeps the promises of a block device, with or without the cache
  in front of it, with a block size that is a power of two.
\<close>

theorem block_file_flat:
  assumes "block_device dev ok contents" "bd_block_size dev = 2 ^ k" "k < 64" "ok d" "unat offset + length buff \<le> 2 ^ 64" "length buff < 2 ^ 64"
  shows "(\<exists>r buff' d'. blkNodeReadAt dev junk offset buff d = Some (r, buff', d') \<and> ok d' \<and> contents d' = contents d
      \<and> (\<forall>x. r = Inr x \<longrightarrow> unat x = length buff \<and> buff' = view (contents d) (unat offset) (length buff)) \<and> (never_fails dev \<longrightarrow> \<not> isl r))
    \<and> (\<exists>r d'. blkNodeWriteAt dev junk offset buff d = Some (r, buff, d') \<and> ok d'
      \<and> (\<forall>x. r = Inr x \<longrightarrow> unat x = length buff \<and> contents d' = overlay (unat offset) buff (contents d))
      \<and> (\<exists>m \<le> length buff. contents d' = overlay (unat offset) (take m buff) (contents d)) \<and> (never_fails dev \<longrightarrow> \<not> isl r))"
proof -
  have nf: "\<not> isl r" if "genericBlockFileFunction dev junk wr offset buff d = Some (r, x)" "never_fails dev" for wr r x
    using that loop_succeeds [of dev wr offset "of_nat (length buff)" 0 "map junk [0..<bd_block_size dev]" buff d]
    by (auto simp: genericBlockFileFunction_def Let_def split: Option.bind_splits sum.splits)
  note acc = block_device.block_file_access [OF assms, of junk]
  obtain r1 b1 d1 m1 where r: "genericBlockFileFunction dev junk False offset buff d = Some (r1, b1, d1)" "ok d1" "contents d1 = contents d"
    "\<forall>x. r1 = Inr x \<longrightarrow> unat x = length buff \<and> m1 = length buff \<and> b1 = view (contents d) (unat offset) m1"
    using acc [of False] by auto
  obtain r2 d2 m2 where w: "genericBlockFileFunction dev junk True offset buff d = Some (r2, buff, d2)" "ok d2" "m2 \<le> length buff" "contents d2 = overlay (unat offset) (take m2 buff) (contents d)"
    "\<forall>x. r2 = Inr x \<longrightarrow> unat x = length buff \<and> m2 = length buff"
    using acc [of True] by auto
  have "\<forall>x. r2 = Inr x \<longrightarrow> unat x = length buff \<and> contents d2 = overlay (unat offset) buff (contents d)" using w(4,5) by simp
  then show ?thesis unfolding blkNodeReadAt_def blkNodeWriteAt_def using r w(1-4) nf [OF r(1)] nf [OF w(1)] by blast
qed

text \<open>Witness: three bytes across two blocks of the disk in memory, read and written through the cache.\<close>

abbreviation cached_ram :: "(nat \<Rightarrow> u8) CachedBlockDevice BlockDevice" where
  "cached_ram \<equiv> cached_bd (\<lambda>_. 0) (\<lambda>c. c) ram_disk (\<lambda>_. 0)"

theorem block_file_flat_witness:
  "(\<exists>x d'. blkNodeReadAt cached_ram (\<lambda>_. 0) 1 [9, 9, 9] (snd (wrapBlockDeviceWithCache (\<lambda>_. 0) (\<lambda>c. c) ram_disk (\<lambda>i. of_nat i))) = Some (Inr x, [1, 2, 3], d'))
   \<and> (\<exists>x d'. blkNodeWriteAt cached_ram (\<lambda>_. 0) 1 [9, 9, 9] (snd (wrapBlockDeviceWithCache (\<lambda>_. 0) (\<lambda>c. c) ram_disk (\<lambda>i. of_nat i))) = Some (Inr x, [9, 9, 9], d')
      \<and> map (cd_uncached d') [0, 1, 2, 3, 4] = [0, 9, 9, 9, 4])"
proof -
  let ?c = "snd (wrapBlockDeviceWithCache (\<lambda>_. 0) (\<lambda>c. c) ram_disk (\<lambda>i. of_nat i))"
  have u: "cd_uncached ?c = (\<lambda>i. of_nat i)" by (simp add: wrapBlockDeviceWithCache_def)
  have b: "bd_block_size cached_ram = 2 ^ 1" by (simp add: wrapBlockDeviceWithCache_def ram_disk_def)
  have ok: "cached_ok (bd_block_size ram_disk) (\<lambda>f. True) (\<lambda>f. f) 0 ?c" by (rule wrapped_ok) simp
  have nf: "never_fails cached_ram" by (rule cached_never_fails) (simp add: never_fails_def ram_disk_def)
  have v: "view (\<lambda>i. of_nat i) 1 3 = [1, 2, 3 :: u8]" by (simp add: view_def upt_rec)
  have l: "length [9, 9, 9 :: u8] = 3" by simp
  note flat = block_file_flat [OF ram.through.block_device_axioms b _ ok, of 1 "[9, 9, 9]" "\<lambda>_. 0", unfolded l u, simplified nf]
  have f1: "\<exists>r buff' d'. blkNodeReadAt cached_ram (\<lambda>_. 0) 1 [9, 9, 9] ?c = Some (r, buff', d') \<and> (\<forall>x. r = Inr x \<longrightarrow> buff' = view (\<lambda>i. of_nat i) 1 3) \<and> \<not> isl r"
    using conjunct1 [OF flat] by auto
  then obtain r buff d1 where r: "blkNodeReadAt cached_ram (\<lambda>_. 0) 1 [9, 9, 9] ?c = Some (r, buff, d1)" "\<forall>x. r = Inr x \<longrightarrow> buff = view (\<lambda>i. of_nat i) 1 3" "\<not> isl r" by blast
  have f2: "\<exists>r d'. blkNodeWriteAt cached_ram (\<lambda>_. 0) 1 [9, 9, 9] ?c = Some (r, [9, 9, 9], d') \<and> (\<forall>x. r = Inr x \<longrightarrow> cd_uncached d' = overlay 1 [9, 9, 9] (\<lambda>i. of_nat i)) \<and> \<not> isl r"
    using conjunct2 [OF flat] by auto
  then obtain r2 d2 where w: "blkNodeWriteAt cached_ram (\<lambda>_. 0) 1 [9, 9, 9] ?c = Some (r2, [9, 9, 9], d2)" "\<forall>x. r2 = Inr x \<longrightarrow> cd_uncached d2 = overlay 1 [9, 9, 9] (\<lambda>i. of_nat i)" "\<not> isl r2" by blast
  obtain x y where xy: "r = Inr x" "r2 = Inr y" using r(3) w(3) by (cases r; cases r2) auto
  have "buff = [1, 2, 3]" using r(2) xy(1) v by blast
  moreover have "cd_uncached d2 = overlay 1 [9, 9, 9] (\<lambda>i. of_nat i)" using w(2) xy(2) by blast
  then have "map (cd_uncached d2) [0, 1, 2, 3, 4] = [0, 9, 9, 9, 4]" by (simp add: overlay_def)
  ultimately show ?thesis using r(1) w(1) xy by (intro conjI exI) simp_all
qed

end
