(* ===== verification/MinixMaps.thy ===== *)
theory MinixMaps
  imports BlkFile Bytes
begin

text \<open>
  Model of kernel/src/files/minix/maps.c with the structures of types.h: the bit maps in which a Minix file system keeps the inodes and zones in use.
  The disk is the file of a block device; \<open>md_read D offset buff\<close> and \<open>md_write D offset buff\<close> stand for \<open>vfsFileReadAt\<close> and \<open>vfsFileWriteAt\<close> of that
  file by the kernel (no process) with a kernel buffer, and return the number of bytes or an error. \<open>junk\<close> are the bytes of fresh memory. The locks are omitted.
\<close>

unbundle bit_operations_syntax

record 'd MinixDisk =
  md_read :: "u64 \<Rightarrow> u8 list \<Rightarrow> 'd \<Rightarrow> ((Error + u64) \<times> u8 list \<times> 'd) option"
  md_write :: "u64 \<Rightarrow> u8 list \<Rightarrow> 'd \<Rightarrow> ((Error + u64) \<times> u8 list \<times> 'd) option"

definition MINIX_BLOCK_SIZE :: nat where "MINIX_BLOCK_SIZE = 1024"
definition MAX_MAPS_READ_SIZE :: nat where "MAX_MAPS_READ_SIZE = 2 ^ 16"
definition MINIX3_MAGIC :: u16 where "MINIX3_MAGIC = 0x4d5a"

text \<open>The fields of the superblock without the padding.\<close>

record Minix3Superblock =
  sb_ninodes :: u32
  sb_imap_blocks :: u16
  sb_zmap_blocks :: u16
  sb_first_data_zone :: u16
  sb_log_zone_size :: u16
  sb_max_size :: u32
  sb_zones :: u32
  sb_magic :: u16
  sb_block_size :: u16
  sb_disk_version :: u8

subsection \<open>Operations\<close>

text \<open>The search of one byte: the bit and its position, or the bits left and the position reached.\<close>

function map_bit_loop :: "u8 \<Rightarrow> nat \<Rightarrow> nat \<Rightarrow> nat \<Rightarrow> (nat \<times> nat) + (nat \<times> nat)" where
  "map_bit_loop b j size' position =
     (if size' > 0 \<and> j < 8 then
        (if drop_bit j b AND 1 = 0 then Inl (j, position) else map_bit_loop b (j + 1) (size' - 1) (position + 1))
      else Inr (size', position))"
  by pat_completeness auto
termination by (relation "measure (\<lambda>(b, j, s, p). s)") auto

function map_byte_loop :: "u8 list \<Rightarrow> nat \<Rightarrow> nat \<Rightarrow> nat \<Rightarrow> nat \<Rightarrow> (nat \<times> nat \<times> nat) + (nat \<times> nat)" where
  "map_byte_loop tmp i tmp_size size' position =
     (if size' > 0 \<and> i < tmp_size then
        (case map_bit_loop (tmp ! i) 0 size' position of
           Inl (j, pos) \<Rightarrow> Inl (i, j, pos)
         | Inr (size', position) \<Rightarrow> map_byte_loop tmp (i + 1) tmp_size size' position)
      else Inr (size', position))"
  by pat_completeness auto
termination by (relation "measure (\<lambda>(t, i, n, s, p). n - i)") auto

declare map_bit_loop.simps [simp del] map_byte_loop.simps [simp del]

partial_function (option) map_chunk_loop :: "'d MinixDisk \<Rightarrow> u64 \<Rightarrow> nat \<Rightarrow> nat \<Rightarrow> nat \<Rightarrow> u8 list \<Rightarrow> 'd \<Rightarrow> ((Error + u64) \<times> 'd) option" where
  "map_chunk_loop D offset len size' position tmp d =
     (if len > 0 then do {
        (r, tmp, d) \<leftarrow> md_read D offset (take (min MAX_MAPS_READ_SIZE len) tmp) d;
        (case r of
           Inl e \<Rightarrow> Some (Inl e, d)
         | Inr tmp_size \<Rightarrow>
             if tmp_size = 0 then Some (Inl EIO, d)
             else (case map_byte_loop tmp 0 (unat tmp_size) size' position of
                Inl (i, j, pos) \<Rightarrow> do {
                  (r, _, d) \<leftarrow> md_write D (offset + of_nat i) [tmp ! i OR push_bit j 1] d;
                  (case r of
                     Inl e \<Rightarrow> Some (Inl e, d)
                   | Inr n \<Rightarrow> if n = 0 then Some (Inl EIO, d) else Some (Inr (of_nat pos), d)) }
              | Inr (size', position) \<Rightarrow> map_chunk_loop D (offset + tmp_size) (len - unat tmp_size) size' position tmp d)) }
      else Some (Inl ENOSPC, d))"

definition genericMinixGetBitMap :: "'d MinixDisk \<Rightarrow> (nat \<Rightarrow> u8) \<Rightarrow> u64 \<Rightarrow> nat \<Rightarrow> 'd \<Rightarrow> ((Error + u64) \<times> 'd) option" where
  "genericMinixGetBitMap D junk offset size' d =
     (let len = (size' + 7) div 8;
          tmp_buffer = map junk [0..<min MAX_MAPS_READ_SIZE len]
      in map_chunk_loop D offset len size' 0 tmp_buffer d)"

definition imap_offset :: u64 where
  "imap_offset = of_nat (2 * MINIX_BLOCK_SIZE)"

definition zmap_offset :: "Minix3Superblock \<Rightarrow> u64" where
  "zmap_offset sb = of_nat ((2 + unat (sb_imap_blocks sb)) * MINIX_BLOCK_SIZE)"

text \<open>The number of an inode has 32 bits.\<close>

definition getFreeMinixInode :: "'d MinixDisk \<Rightarrow> (nat \<Rightarrow> u8) \<Rightarrow> Minix3Superblock \<Rightarrow> 'd \<Rightarrow> ((Error + u32) \<times> 'd) option" where
  "getFreeMinixInode D junk sb d = do {
     (r, d) \<leftarrow> genericMinixGetBitMap D junk imap_offset (unat (sb_ninodes sb)) d;
     Some (map_sum id ucast r, d) }"

definition getFreeMinixZone :: "'d MinixDisk \<Rightarrow> (nat \<Rightarrow> u8) \<Rightarrow> Minix3Superblock \<Rightarrow> 'd \<Rightarrow> ((Error + u64) \<times> 'd) option" where
  "getFreeMinixZone D junk sb d = genericMinixGetBitMap D junk (zmap_offset sb) (unat (sb_zones sb)) d"

definition genericMinixClearBitMap :: "'d MinixDisk \<Rightarrow> u8 \<Rightarrow> u64 \<Rightarrow> u64 \<Rightarrow> 'd \<Rightarrow> ((Error + unit) \<times> 'd) option" where
  "genericMinixClearBitMap D junk offset position d = do {
     (r, tmp, d) \<leftarrow> md_read D (offset + position div 8) [junk] d;
     (case r of
        Inl e \<Rightarrow> Some (Inl e, d)
      | Inr n \<Rightarrow>
          if n = 0 then Some (Inl EIO, d)
          else do {
            (r, _, d) \<leftarrow> md_write D (offset + position div 8) [hd tmp AND NOT (push_bit (unat (position mod 8)) 1)] d;
            (case r of
               Inl e \<Rightarrow> Some (Inl e, d)
             | Inr n \<Rightarrow> if n = 0 then Some (Inl EIO, d) else Some (Inr (), d)) }) }"

definition freeMinixInode :: "'d MinixDisk \<Rightarrow> u8 \<Rightarrow> u32 \<Rightarrow> 'd \<Rightarrow> ((Error + unit) \<times> 'd) option" where
  "freeMinixInode D junk inode d = genericMinixClearBitMap D junk imap_offset (ucast inode) d"

definition freeMinixZone :: "'d MinixDisk \<Rightarrow> u8 \<Rightarrow> Minix3Superblock \<Rightarrow> u64 \<Rightarrow> 'd \<Rightarrow> ((Error + unit) \<times> 'd) option" where
  "freeMinixZone D junk sb zone d = genericMinixClearBitMap D junk (zmap_offset sb) zone d"

subsection \<open>The disk\<close>

text \<open>What the file of a block device promises: the contents are a flat array of bytes. A write that fails may have stored a prefix.\<close>

locale flat_disk =
  fixes D :: "'d MinixDisk" and ok :: "'d \<Rightarrow> bool" and contents :: "'d \<Rightarrow> nat \<Rightarrow> u8"
  assumes disk_read: "ok d \<Longrightarrow> unat offset + length buff < 2 ^ 64 \<Longrightarrow>
      \<exists>r buff' d'. md_read D offset buff d = Some (r, buff', d') \<and> ok d' \<and> contents d' = contents d
        \<and> (\<forall>x. r = Inr x \<longrightarrow> unat x = length buff \<and> buff' = view (contents d) (unat offset) (length buff))"
    and disk_write: "ok d \<Longrightarrow> unat offset + length buff < 2 ^ 64 \<Longrightarrow>
      \<exists>r d'. md_write D offset buff d = Some (r, buff, d') \<and> ok d' \<and> (\<exists>m \<le> length buff. contents d' = overlay (unat offset) (take m buff) (contents d)
        \<and> (\<forall>x. r = Inr x \<longrightarrow> unat x = length buff \<and> m = length buff))"

definition block_file_disk :: "'d BlockDevice \<Rightarrow> (nat \<Rightarrow> u8) \<Rightarrow> 'd MinixDisk" where
  "block_file_disk dev junk = \<lparr>md_read = blkNodeReadAt dev junk, md_write = blkNodeWriteAt dev junk\<rparr>"

locale block_file = block_device dev ok contents
  for dev :: "'d BlockDevice" and ok :: "'d \<Rightarrow> bool" and contents :: "'d \<Rightarrow> nat \<Rightarrow> u8" +
  fixes k :: nat and junk :: "nat \<Rightarrow> u8"
  assumes block_power: "bd_block_size dev = 2 ^ k" "k < 64"

sublocale block_file \<subseteq> flat: flat_disk "block_file_disk dev junk" ok contents
proof unfold_locales
  fix d and offset :: u64 and buff :: "u8 list" assume "ok d" "unat offset + length buff < 2 ^ 64"
  note acc = block_file_access [OF block_power this(1), of offset buff junk]
  then show "\<exists>r buff' d'. md_read (block_file_disk dev junk) offset buff d = Some (r, buff', d') \<and> ok d' \<and> contents d' = contents d
      \<and> (\<forall>x. r = Inr x \<longrightarrow> unat x = length buff \<and> buff' = view (contents d) (unat offset) (length buff))"
    using acc [of False] \<open>unat offset + length buff < 2 ^ 64\<close> by (auto simp: block_file_disk_def blkNodeReadAt_def)
  show "\<exists>r d'. md_write (block_file_disk dev junk) offset buff d = Some (r, buff, d') \<and> ok d' \<and> (\<exists>m \<le> length buff. contents d' = overlay (unat offset) (take m buff) (contents d)
      \<and> (\<forall>x. r = Inr x \<longrightarrow> unat x = length buff \<and> m = length buff))"
    using acc [of True] \<open>unat offset + length buff < 2 ^ 64\<close> by (auto simp: block_file_disk_def blkNodeWriteAt_def)
qed

text \<open>The cached disk in memory, as a file.\<close>

interpretation ram_file: block_file cached_ram "cached_ok (bd_block_size ram_disk) (\<lambda>f. True) (\<lambda>f. f) 0" cd_uncached 1 "\<lambda>_. 0"
  by unfold_locales (simp_all add: wrapBlockDeviceWithCache_def ram_disk_def)

subsection \<open>The search\<close>

text \<open>Bit \<open>q\<close> of the map that starts at byte \<open>a\<close>.\<close>

definition used :: "(nat \<Rightarrow> u8) \<Rightarrow> nat \<Rightarrow> nat \<Rightarrow> bool" where
  "used f a q = bit (f (a + q div 8)) (q mod 8)"

definition mark_used :: "nat \<Rightarrow> nat \<Rightarrow> (nat \<Rightarrow> u8) \<Rightarrow> nat \<Rightarrow> u8" where
  "mark_used a q f = overlay (a + q div 8) [f (a + q div 8) OR push_bit (q mod 8) 1] f"

lemma overlay_one: "overlay a [x] f = f(a := x)"
  by (auto simp: overlay_def fun_eq_iff)

lemma used_mark: "used (mark_used a q f) a p \<longleftrightarrow> used f a p \<or> p = q"
proof (cases "p div 8 = q div 8")
  case True
  then have "p = q \<longleftrightarrow> p mod 8 = q mod 8" using div_mult_mod_eq [of p 8] div_mult_mod_eq [of q 8] by metis
  moreover have "p mod 8 < 8" "q mod 8 < 8" by simp_all
  ultimately show ?thesis using True by (auto simp: used_def mark_used_def overlay_one bit_simps)
next
  case False
  then show ?thesis by (auto simp: used_def mark_used_def overlay_one)
qed

lemma and_one_bit: "drop_bit j b AND 1 = 0 \<longleftrightarrow> \<not> bit b j" for b :: u8
  by (simp add: and_one_eq bit_iff_odd_drop_bit even_iff_mod_2_eq_zero)

lemma map_bit_loop_spec:
  assumes "\<And>j. j < 8 \<Longrightarrow> bit b j = B (Q + j)" "j \<le> 8"
  shows "case map_bit_loop b j s (Q + j) of
      Inl (j', pos) \<Rightarrow> j' < 8 \<and> pos = Q + j' \<and> pos < Q + j + s \<and> \<not> B pos \<and> (\<forall>q. Q + j \<le> q \<and> q < pos \<longrightarrow> B q)
    | Inr (s', p') \<Rightarrow> p' = min (Q + 8) (Q + j + s) \<and> s' = Q + j + s - p' \<and> (\<forall>q. Q + j \<le> q \<and> q < p' \<longrightarrow> B q)"
  using assms(2)
proof (induction s arbitrary: j)
  case 0
  then show ?case by (auto simp: map_bit_loop.simps)
next
  case (Suc s)
  show ?case
  proof (cases "j < 8 \<and> B (Q + j)")
    case True
    then have step: "map_bit_loop b j (Suc s) (Q + j) = map_bit_loop b (j + 1) s (Q + (j + 1))"
      using assms(1) [of j] by (simp add: map_bit_loop.simps [of b j] and_one_bit)
    have B: "B q" if "Q + j \<le> q" "Q + (j + 1) \<le> q \<longrightarrow> B q" for q using that True by (cases "q = Q + j") auto
    show ?thesis using Suc.IH [of "j + 1"] True B unfolding step by (auto split: sum.splits)
  next
    case False
    then show ?thesis using assms(1) [of j] Suc.prems by (cases "j < 8") (auto simp: map_bit_loop.simps [of b] and_one_bit)
  qed
qed

lemma map_byte_loop_spec:
  assumes "\<And>i j. i < n \<Longrightarrow> j < 8 \<Longrightarrow> bit (tmp ! i) j = B (P + 8 * i + j)" "i \<le> n" "0 < s"
  shows "case map_byte_loop tmp i n s (P + 8 * i) of
      Inl (i', j, pos) \<Rightarrow> i' < n \<and> j < 8 \<and> pos = P + 8 * i' + j \<and> pos < P + 8 * i + s \<and> \<not> B pos \<and> (\<forall>q. P + 8 * i \<le> q \<and> q < pos \<longrightarrow> B q)
    | Inr (s', p') \<Rightarrow> p' = min (P + 8 * i + s) (P + 8 * n) \<and> s' = P + 8 * i + s - p' \<and> (\<forall>q. P + 8 * i \<le> q \<and> q < p' \<longrightarrow> B q)"
  using assms(2,3)
proof (induction "n - i" arbitrary: i s)
  case 0
  then show ?case by (auto simp: map_byte_loop.simps)
next
  case (Suc k)
  then have i: "i < n" by simp
  note bl = map_bit_loop_spec [of "tmp ! i" B "P + 8 * i" 0 s, unfolded add_0_right]
  have bits: "case map_bit_loop (tmp ! i) 0 s (P + 8 * i) of
      Inl (j', pos) \<Rightarrow> j' < 8 \<and> pos = P + 8 * i + j' \<and> pos < P + 8 * i + s \<and> \<not> B pos \<and> (\<forall>q. P + 8 * i \<le> q \<and> q < pos \<longrightarrow> B q)
    | Inr (s', p') \<Rightarrow> p' = min (P + 8 * i + 8) (P + 8 * i + s) \<and> s' = P + 8 * i + s - p' \<and> (\<forall>q. P + 8 * i \<le> q \<and> q < p' \<longrightarrow> B q)"
    using bl assms(1) [OF i] by simp
  show ?case
  proof (cases "map_bit_loop (tmp ! i) 0 s (P + 8 * i)")
    case (Inl x)
    then show ?thesis using bits i Suc.prems(2) by (cases x) (simp add: map_byte_loop.simps [of tmp i])
  next
    case (Inr x)
    obtain s' p' where x: "x = (s', p')" by (cases x)
    then have p: "p' = min (P + 8 * i + 8) (P + 8 * i + s)" "s' = P + 8 * i + s - p'" "\<forall>q. P + 8 * i \<le> q \<and> q < p' \<longrightarrow> B q" using bits Inr by auto
    have step: "map_byte_loop tmp i n s (P + 8 * i) = map_byte_loop tmp (i + 1) n s' p'" using Inr x i Suc.prems(2) by (simp add: map_byte_loop.simps [of tmp i])
    show ?thesis
    proof (cases "s' = 0")
      case True
      then have "map_byte_loop tmp (i + 1) n s' p' = Inr (0, p')" by (simp add: map_byte_loop.simps)
      then show ?thesis unfolding step using p True i by auto
    next
      case False
      then have p': "p' = P + 8 * (i + 1)" "P + 8 * (i + 1) + s' = P + 8 * i + s" using p(1,2) by auto
      have B: "B q" if "P + 8 * i \<le> q" "P + 8 * (i + 1) \<le> q \<longrightarrow> B q" for q using that p(3) p'(1) by (cases "q < p'") auto
      have "case map_byte_loop tmp (i + 1) n s' (P + 8 * (i + 1)) of
          Inl (i', j, pos) \<Rightarrow> i' < n \<and> j < 8 \<and> pos = P + 8 * i' + j \<and> pos < P + 8 * (i + 1) + s' \<and> \<not> B pos \<and> (\<forall>q. P + 8 * (i + 1) \<le> q \<and> q < pos \<longrightarrow> B q)
        | Inr (s2, p2) \<Rightarrow> p2 = min (P + 8 * (i + 1) + s') (P + 8 * n) \<and> s2 = P + 8 * (i + 1) + s' - p2 \<and> (\<forall>q. P + 8 * (i + 1) \<le> q \<and> q < p2 \<longrightarrow> B q)"
        using Suc.hyps(1) [of "i + 1" s'] Suc.hyps(2) i False by simp
      then show ?thesis unfolding step p'(1) p'(2) using B by (auto split: sum.splits)
    qed
  qed
qed

definition disk_never_fails :: "'d MinixDisk \<Rightarrow> bool" where
  "disk_never_fails D \<longleftrightarrow> (\<forall>k buff d r x. md_read D k buff d = Some (r, x) \<longrightarrow> \<not> isl r) \<and> (\<forall>k buff d r x. md_write D k buff d = Some (r, x) \<longrightarrow> \<not> isl r)"

lemma disk_failsI: "md_read D k buff d = Some (Inl e, x) \<Longrightarrow> \<not> disk_never_fails D" "md_write D k buff d = Some (Inl e, x) \<Longrightarrow> \<not> disk_never_fails D"
  unfolding disk_never_fails_def by (metis sum.disc(1))+

text \<open>The result of the search for a free bit from \<open>P\<close> to \<open>S\<close>.\<close>

definition map_found :: "'d MinixDisk \<Rightarrow> (nat \<Rightarrow> u8) \<Rightarrow> nat \<Rightarrow> nat \<Rightarrow> nat \<Rightarrow> Error + u64 \<Rightarrow> (nat \<Rightarrow> u8) \<Rightarrow> bool" where
  "map_found D f a P S r g \<longleftrightarrow> (case r of
     Inr x \<Rightarrow> P \<le> unat x \<and> unat x < S \<and> \<not> used f a (unat x) \<and> (\<forall>q. P \<le> q \<and> q < unat x \<longrightarrow> used f a q) \<and> g = mark_used a (unat x) f
   | Inl e \<Rightarrow> (g = f \<or> (\<exists>q. P \<le> q \<and> q < S \<and> \<not> used f a q \<and> g = mark_used a q f))
       \<and> (disk_never_fails D \<longrightarrow> e = ENOSPC \<and> g = f \<and> (\<forall>q. P \<le> q \<and> q < S \<longrightarrow> used f a q)))"

lemma map_found_extend:
  assumes "map_found D f a P' S r g" "P \<le> P'" "\<forall>q. P \<le> q \<and> q < P' \<longrightarrow> used f a q"
  shows "map_found D f a P S r g"
proof (cases r)
  case (Inl e)
  have "used f a q" if "P \<le> q" "P' \<le> q \<longrightarrow> used f a q" for q using that assms(3) by (cases "q < P'") auto
  then show ?thesis using assms(1,2) Inl unfolding map_found_def by (auto intro: order_trans)
next
  case (Inr x)
  have "used f a q" if "P \<le> q" "P' \<le> q \<longrightarrow> used f a q" for q using that assms(3) by (cases "q < P'") auto
  then show ?thesis using assms(1,2) Inr unfolding map_found_def by auto
qed

lemma map_position:
  assumes "P mod 8 = 0" "j < (8 :: nat)"
  shows "(P + 8 * i + j) div 8 = P div 8 + i" "(P + 8 * i + j) mod 8 = j"
proof -
  obtain p where "P = 8 * p" using assms(1) by (auto simp: mod_eq_0_iff_dvd)
  then have e: "P + 8 * i + j = j + (p + i) * 8" and p: "P div 8 = p" by simp_all
  show "(P + 8 * i + j) div 8 = P div 8 + i" "(P + 8 * i + j) mod 8 = j" unfolding e p mod_mult_self1 using assms(2) by simp_all
qed

lemma unat_offset_add: "unat offset + i < 2 ^ 64 \<Longrightarrow> unat (offset + of_nat i :: u64) = unat offset + i"
  by (simp add: unat_word_ariths unat_of_nat)

context flat_disk
begin

lemma map_chunk_loop_correct:
  assumes "ok d" "contents d = f" "P mod 8 = 0" "unat offset = a + P div 8" "len = (S - P + 7) div 8" "min MAX_MAPS_READ_SIZE len \<le> length tmp"
    "a + (S + 7) div 8 < 2 ^ 64" "S < 2 ^ 64"
  shows "\<exists>r d'. map_chunk_loop D offset len (S - P) P tmp d = Some (r, d') \<and> ok d' \<and> map_found D f a P S r (contents d')"
  using assms
proof (induction len arbitrary: d P offset tmp rule: less_induct)
  case (less len)
  show ?case
  proof (cases "len = 0")
    case True
    then have "S \<le> P" using less.prems(5) by simp
    then show ?thesis using True less.prems(1,2) by (auto simp: map_chunk_loop.simps map_found_def)
  next
    case False
    let ?n = "min MAX_MAPS_READ_SIZE len" and ?s = "S - P"
    have SP: "P < S" using False less.prems(5) by (cases "P < S") auto
    have n0: "0 < ?n" using False by (simp add: MAX_MAPS_READ_SIZE_def)
    have "S + 7 = (S - P + 7) + P div 8 * 8" using less.prems(3) SP by (simp add: mod_eq_0_iff_dvd)
    then have fit: "P div 8 + len \<le> (S + 7) div 8" using less.prems(5) by simp
    have lt: "length (take ?n tmp) = ?n" using less.prems(6) by simp
    have bound: "unat offset + ?n < 2 ^ 64" using fit less.prems(4,7) by linarith
    obtain r tmp1 d1 where rd: "md_read D offset (take ?n tmp) d = Some (r, tmp1, d1)" "ok d1" "contents d1 = f"
      "\<forall>x. r = Inr x \<longrightarrow> unat x = ?n \<and> tmp1 = view f (unat offset) ?n"
      using disk_read [OF less.prems(1), of offset "take ?n tmp"] lt bound less.prems(2) by auto
    show ?thesis
    proof (cases r)
      case (Inl e)
      then have "map_chunk_loop D offset len ?s P tmp d = Some (Inl e, d1)" using rd(1) False by (simp add: map_chunk_loop.simps [of D offset])
      moreover have "\<not> disk_never_fails D" using disk_failsI(1) [of D offset] rd(1) Inl by simp
      ultimately show ?thesis using rd(2,3) by (simp add: map_found_def)
    next
      case (Inr x)
      then have x: "unat x = ?n" "tmp1 = view f (unat offset) ?n" using rd(4) by auto
      then have x0: "x \<noteq> 0" using n0 by auto
      have tmp1: "tmp1 ! i = f (a + P div 8 + i)" if "i < ?n" for i using that x(2) less.prems(4) by (simp add: view_def)
      have B: "bit (tmp1 ! i) j = used f a (P + 8 * i + j)" if "i < ?n" "j < 8" for i j
      proof -
        note pd = map_position [OF less.prems(3) that(2), of i]
        show ?thesis using tmp1 [OF that(1)] pd by (simp add: used_def add.assoc)
      qed
      note bl = map_byte_loop_spec [of ?n tmp1 "used f a" P 0 ?s, OF B, simplified]
      have unf: "map_chunk_loop D offset len ?s P tmp d = (case map_byte_loop tmp1 0 ?n ?s P of
          Inl (i, j, pos) \<Rightarrow> do { (r, _, d) \<leftarrow> md_write D (offset + of_nat i) [tmp1 ! i OR push_bit j 1] d1;
            (case r of Inl e \<Rightarrow> Some (Inl e, d) | Inr n \<Rightarrow> if n = 0 then Some (Inl EIO, d) else Some (Inr (of_nat pos), d)) }
        | Inr (size', position) \<Rightarrow> map_chunk_loop D (offset + x) (len - unat x) size' position tmp1 d1)"
        using rd(1) Inr x(1) x0 False by (simp add: map_chunk_loop.simps [of D offset])
      show ?thesis
      proof (cases "map_byte_loop tmp1 0 ?n ?s P")
        case (Inl y)
        obtain i j pos where y: "y = (i, j, pos)" by (cases y)
        have b: "i < ?n" "j < 8" "pos = P + 8 * i + j" "pos < S" "\<not> used f a pos" "\<forall>q. P \<le> q \<and> q < pos \<longrightarrow> used f a q"
          using bl Inl y SP by auto
        have pos: "pos div 8 = P div 8 + i" "pos mod 8 = j" using map_position [OF less.prems(3) b(2), of i] b(3) by simp_all
        have uo: "unat (offset + of_nat i) = a + pos div 8" using unat_offset_add [OF less_trans [OF add_strict_left_mono [OF b(1)] bound]] pos(1) less.prems(4) by simp
        let ?w = "[tmp1 ! i OR push_bit j 1]"
        have mk: "overlay (a + pos div 8) ?w f = mark_used a pos f" using tmp1 [OF b(1)] pos by (simp add: mark_used_def add.assoc)
        have "unat offset + i + 1 < 2 ^ 64" using Suc_leI [OF b(1)] bound by linarith
        then have "unat (offset + of_nat i) + length ?w < 2 ^ 64" using uo pos(1) less.prems(4) by simp
        then obtain r2 d2 m where w: "md_write D (offset + of_nat i) ?w d1 = Some (r2, ?w, d2)" "ok d2" "m \<le> 1" "contents d2 = overlay (a + pos div 8) (take m ?w) f"
          "\<forall>x. r2 = Inr x \<longrightarrow> unat x = 1 \<and> m = 1"
          using disk_write [OF rd(2), of "offset + of_nat i" ?w] rd(3) uo by auto
        have g: "contents d2 = f \<or> contents d2 = mark_used a pos f" using w(3,4) mk by (cases m) auto
        show ?thesis
        proof (cases r2)
          case (Inl e)
          then have "\<not> disk_never_fails D" using disk_failsI(2) [of D "offset + of_nat i"] w(1) Inl by simp
          moreover have "P \<le> pos" using b(3) by simp
          ultimately have "map_found D f a P S (Inl e) (contents d2)" using g b(4,5) unfolding map_found_def sum.case by blast
          then show ?thesis using unf \<open>map_byte_loop tmp1 0 ?n ?s P = Inl y\<close> y w(1,2) Inl by simp
        next
          case (Inr z)
          then have z: "unat z = 1" "contents d2 = mark_used a pos f" using w(4,5) mk by auto
          then have "z \<noteq> 0" by auto
          moreover have "unat (of_nat pos :: u64) = pos" using b(4) less.prems(8) by (intro unat_of_nat_64) simp
          ultimately show ?thesis using unf \<open>map_byte_loop tmp1 0 ?n ?s P = Inl y\<close> y w(1,2) Inr z b(3-6) by (simp add: map_found_def)
        qed
      next
        case (Inr y)
        obtain s' p' where y: "y = (s', p')" by (cases y)
        have p: "p' = min S (P + 8 * ?n)" "s' = S - p'" "\<forall>q. P \<le> q \<and> q < p' \<longrightarrow> used f a q" using bl Inr y SP by auto
        have step: "map_chunk_loop D offset len ?s P tmp d = map_chunk_loop D (offset + x) (len - ?n) (S - p') p' tmp1 d1" using unf Inr y p(2) x(1) by simp
        show ?thesis
        proof (cases "len \<le> MAX_MAPS_READ_SIZE")
          case True
          then have n: "?n = len" by simp
          then have pS: "p' = S" using p(1) less.prems(5) by simp
          have "map_chunk_loop D (offset + x) (len - ?n) (S - p') p' tmp1 d1 = Some (Inl ENOSPC, d1)" unfolding n by (simp add: map_chunk_loop.simps)
          then show ?thesis using step rd(2,3) p(3) pS by (simp add: map_found_def)
        next
          case False
          then have n: "?n = MAX_MAPS_READ_SIZE" by simp
          have pP: "p' = P + 8 * MAX_MAPS_READ_SIZE" using p(1) n False less.prems(5) by simp
          have "p' \<le> S" unfolding p(1) by (rule min.cobounded1)
          then have "S - P + 7 = (S - p' + 7) + MAX_MAPS_READ_SIZE * 8" unfolding pP by linarith
          then have l: "len - ?n = (S - p' + 7) div 8" using less.prems(5) n by simp
          have uo: "unat (offset + x) = a + p' div 8"
            using bound x(1) n pP less.prems(3,4) by (simp add: unat_word_ariths)
          have "length tmp1 = MAX_MAPS_READ_SIZE" using x(2) n by simp
          then have "\<exists>r d'. map_chunk_loop D (offset + x) (len - ?n) (S - p') p' tmp1 d1 = Some (r, d') \<and> ok d' \<and> map_found D f a p' S r (contents d')"
            using less.prems(3,7,8) rd(2,3) l uo pP n0 \<open>len \<noteq> 0\<close> by (intro less.IH) auto
          then show ?thesis using step map_found_extend [OF _ _ p(3)] pP by auto
        qed
      qed
    qed
  qed
qed

lemma getBitMap_correct:
  assumes "ok d" "unat offset + (S + 7) div 8 < 2 ^ 64" "S < 2 ^ 64"
  shows "\<exists>r d'. genericMinixGetBitMap D junk offset S d = Some (r, d') \<and> ok d' \<and> map_found D (contents d) (unat offset) 0 S r (contents d')"
  using map_chunk_loop_correct [OF assms(1) refl, of 0 offset "unat offset" "(S + 7) div 8" S "map junk [0..<min MAX_MAPS_READ_SIZE ((S + 7) div 8)]"] assms(2,3)
  by (simp add: genericMinixGetBitMap_def Let_def)

lemma clearBitMap_correct:
  assumes "ok d" "unat offset + unat q div 8 + 1 < 2 ^ 64"
  shows "\<exists>r d'. genericMinixClearBitMap D junk offset q d = Some (r, d') \<and> ok d' \<and> (r = Inr () \<longrightarrow> contents d' = (contents d)(unat offset + unat q div 8 :=
      contents d (unat offset + unat q div 8) AND NOT (push_bit (unat q mod 8) 1))) \<and> (disk_never_fails D \<longrightarrow> r = Inr ())"
proof -
  let ?f = "contents d" and ?a = "unat offset + unat q div 8" and ?o = "offset + q div 8"
  have "unat (q div 8) = unat q div 8" by (simp add: unat_div)
  then have uo: "unat ?o = ?a" using assms(2) by (simp add: unat_word_ariths)
  have um: "unat (q mod 8) = unat q mod 8" by (simp add: unat_mod)
  obtain r tmp d1 where rd: "md_read D ?o [junk] d = Some (r, tmp, d1)" "ok d1" "contents d1 = ?f" "\<forall>x. r = Inr x \<longrightarrow> unat x = 1 \<and> tmp = view ?f ?a 1"
    using disk_read [OF assms(1), of ?o "[junk]"] assms(2) uo by auto
  show ?thesis
  proof (cases r)
    case (Inl e)
    then show ?thesis using rd disk_failsI(1) [of D ?o "[junk]" d] by (simp add: genericMinixClearBitMap_def)
  next
    case (Inr x)
    then have x: "unat x = 1" "hd tmp = ?f ?a" using rd(4) by (auto simp: view_def)
    then have x0: "x \<noteq> 0" by auto
    let ?w = "[?f ?a AND NOT (push_bit (unat q mod 8) 1)]"
    obtain r2 d2 m where w: "md_write D ?o ?w d1 = Some (r2, ?w, d2)" "ok d2" "contents d2 = overlay ?a (take m ?w) ?f" "\<forall>x. r2 = Inr x \<longrightarrow> unat x = 1 \<and> m = 1"
      using disk_write [OF rd(2), of ?o ?w] rd(3) assms(2) uo by auto
    show ?thesis
    proof (cases r2)
      case (Inl e)
      then show ?thesis using rd Inr x x0 w um disk_failsI(2) [of D ?o ?w d1] by (simp add: genericMinixClearBitMap_def)
    next
      case (Inr y)
      then have "y \<noteq> 0" "contents d2 = ?f(?a := hd ?w)" using w(3,4) by (auto simp: overlay_one)
      then show ?thesis using rd \<open>r = Inr x\<close> x x0 w(1,2) um Inr by (simp add: genericMinixClearBitMap_def)
    qed
  qed
qed

end

lemma clear_mark:
  assumes "\<not> used f a q"
  shows "(mark_used a q f)(a + q div 8 := mark_used a q f (a + q div 8) AND NOT (push_bit (q mod 8) 1)) = f"
proof -
  have "(f (a + q div 8) OR push_bit (q mod 8) 1) AND NOT (push_bit (q mod 8) 1) = f (a + q div 8)"
    using assms by (intro bit_word_eqI) (auto simp: bit_simps used_def)
  then show ?thesis by (auto simp: mark_used_def overlay_one)
qed

text \<open>
  Property C0 (minix_zone_map). Allocating a zone ends and returns the lowest bit of the zone map that is clear, sets this bit on the disk and changes no other byte;
  without a free bit it reports ENOSPC and changes nothing, and on a disk that never fails that is the only error. Freeing
  the zone afterwards restores the disk. The maps may be of any length, read in pieces of 64 KiB.
\<close>

theorem minix_zone_map:
  assumes "flat_disk D ok contents" "ok d"
  shows "\<exists>r d'. getFreeMinixZone D junk sb d = Some (r, d') \<and> ok d' \<and> (case r of
      Inr zone \<Rightarrow> unat zone < unat (sb_zones sb) \<and> \<not> used (contents d) (unat (zmap_offset sb)) (unat zone)
        \<and> (\<forall>q < unat zone. used (contents d) (unat (zmap_offset sb)) q)
        \<and> (\<forall>q. used (contents d') (unat (zmap_offset sb)) q \<longleftrightarrow> used (contents d) (unat (zmap_offset sb)) q \<or> q = unat zone)
        \<and> (\<forall>i. i \<noteq> unat (zmap_offset sb) + unat zone div 8 \<longrightarrow> contents d' i = contents d i)
        \<and> (\<exists>r2 d2. freeMinixZone D j sb zone d' = Some (r2, d2) \<and> ok d2 \<and> (r2 = Inr () \<longrightarrow> contents d2 = contents d) \<and> (disk_never_fails D \<longrightarrow> r2 = Inr ()))
    | Inl e \<Rightarrow> disk_never_fails D \<longrightarrow> e = ENOSPC \<and> contents d' = contents d \<and> (\<forall>q < unat (sb_zones sb). used (contents d) (unat (zmap_offset sb)) q))"
proof -
  let ?S = "unat (sb_zones sb)" and ?a = "unat (zmap_offset sb)"
  have S: "?S < 2 ^ 32" using unsigned_less [of "sb_zones sb", where 'a = nat] by simp
  have i: "unat (sb_imap_blocks sb) < 2 ^ 16" using unsigned_less [of "sb_imap_blocks sb", where 'a = nat] by simp
  have "?a = (2 + unat (sb_imap_blocks sb)) * 1024" unfolding zmap_offset_def MINIX_BLOCK_SIZE_def by (rule unat_of_nat_64) (use i in simp)
  then have a: "?a < 2 ^ 30" using i by simp
  have b1: "?a + (?S + 7) div 8 < 2 ^ 64" by (rule le_less_trans [OF add_left_mono [OF div_le_dividend]]) (use a S in simp)
  have b2: "?S < 2 ^ 64" using S by simp
  obtain r d' where r: "getFreeMinixZone D junk sb d = Some (r, d')" "ok d'" "map_found D (contents d) ?a 0 ?S r (contents d')"
    using flat_disk.getBitMap_correct [OF assms b1 b2, of junk] by (auto simp: getFreeMinixZone_def)
  show ?thesis
  proof (cases r)
    case (Inl e)
    then show ?thesis using r by (simp add: map_found_def)
  next
    case (Inr zone)
    then have z: "unat zone < ?S" "\<not> used (contents d) ?a (unat zone)" "\<forall>q < unat zone. used (contents d) ?a q" "contents d' = mark_used ?a (unat zone) (contents d)"
      using r(3) by (auto simp: map_found_def)
    have "?a + unat zone div 8 + 1 < 2 ^ 64" using a z(1) S by simp
    then obtain r2 d2 where f: "freeMinixZone D j sb zone d' = Some (r2, d2)" "ok d2" "r2 = Inr () \<longrightarrow> contents d2 = contents d" "disk_never_fails D \<longrightarrow> r2 = Inr ()"
      using flat_disk.clearBitMap_correct [OF assms(1) r(2), of "zmap_offset sb" zone j] clear_mark [OF z(2)] z(4) by (auto simp: freeMinixZone_def)
    have "\<forall>i. i \<noteq> ?a + unat zone div 8 \<longrightarrow> contents d' i = contents d i" using z(4) by (simp add: mark_used_def overlay_one)
    then show ?thesis using r(1,2) Inr z f by (auto simp: used_mark)
  qed
qed

text \<open>Witness: a map of four zones at byte 2048 of the cached disk in memory, of which the first two are in use.\<close>

definition small_super :: Minix3Superblock where
  "small_super = \<lparr>sb_ninodes = 8, sb_imap_blocks = 0, sb_zmap_blocks = 1, sb_first_data_zone = 6, sb_log_zone_size = 0, sb_max_size = 0, sb_zones = 4,
     sb_magic = MINIX3_MAGIC, sb_block_size = 1024, sb_disk_version = 0\<rparr>"

definition small_disk :: "(nat \<Rightarrow> u8) CachedBlockDevice" where
  "small_disk = snd (wrapBlockDeviceWithCache (\<lambda>_. 0) (\<lambda>c. c) ram_disk (\<lambda>i. if i = 2048 then 3 else 0))"

lemma ram_never_fails: "disk_never_fails (block_file_disk cached_ram (\<lambda>_. 0))"
proof -
  have "never_fails cached_ram" by (rule cached_never_fails) (simp add: never_fails_def ram_disk_def)
  then show ?thesis unfolding disk_never_fails_def
    using loop_succeeds [of cached_ram] by (fastforce simp: block_file_disk_def blkNodeReadAt_def blkNodeWriteAt_def genericBlockFileFunction_def Let_def split: Option.bind_splits sum.splits)
qed

theorem minix_zone_map_witness:
  "flat_disk (block_file_disk cached_ram (\<lambda>_. 0)) (cached_ok (bd_block_size ram_disk) (\<lambda>f. True) (\<lambda>f. f) 0) cd_uncached
   \<and> (\<exists>d'. getFreeMinixZone (block_file_disk cached_ram (\<lambda>_. 0)) (\<lambda>_. 0) small_super small_disk = Some (Inr 2, d') \<and> cd_uncached d' 2048 = 7)"
proof -
  have ok: "cached_ok (bd_block_size ram_disk) (\<lambda>f. True) (\<lambda>f. f) 0 small_disk" unfolding small_disk_def by (rule wrapped_ok) simp
  have z: "unat (zmap_offset small_super) = 2048" by (simp add: zmap_offset_def small_super_def MINIX_BLOCK_SIZE_def)
  have S: "unat (sb_zones small_super) = 4" by (simp add: small_super_def)
  have f: "cd_uncached small_disk = (\<lambda>i. if i = 2048 then 3 else 0)" by (simp add: small_disk_def wrapBlockDeviceWithCache_def)
  have u: "used (cd_uncached small_disk) 2048 q \<longleftrightarrow> q < 2" if "q < 8" for q
  proof -
    have "q \<in> {0, 1, 2, 3, 4, 5, 6, 7}" using that by auto
    then show ?thesis by (auto simp: used_def f bit_iff_odd drop_bit_eq_div)
  qed
  note m = minix_zone_map [OF ram_file.flat.flat_disk_axioms ok, of "\<lambda>_. 0" small_super 0, unfolded z S]
  obtain r d' where r: "getFreeMinixZone (block_file_disk cached_ram (\<lambda>_. 0)) (\<lambda>_. 0) small_super small_disk = Some (r, d')" using m by blast
  have "\<not> (\<forall>q < 4. used (cd_uncached small_disk) 2048 q)" using u [of 2] by (auto intro!: exI [of _ 2])
  then obtain zone where zone: "r = Inr zone" using m ram_never_fails unfolding r by (cases r) auto
  have zu: "unat zone < 4" "\<not> used (cd_uncached small_disk) 2048 (unat zone)" "\<forall>q < unat zone. used (cd_uncached small_disk) 2048 q"
    "\<forall>q. used (cd_uncached d') 2048 q \<longleftrightarrow> used (cd_uncached small_disk) 2048 q \<or> q = unat zone" using m unfolding r zone by auto
  have "\<not> unat zone < 2" using zu(1,2) u [of "unat zone"] by auto
  moreover have "\<not> 2 < unat zone" using zu(3) u [of 2] by auto
  ultimately have z2: "unat zone = 2" by simp
  have "bit (cd_uncached d' 2048) q = bit (7 :: u8) q" if "q < 8" for q
  proof -
    have "q \<in> {0, 1, 2, 3, 4, 5, 6, 7}" using that by auto
    moreover have "bit (cd_uncached d' 2048) q \<longleftrightarrow> q < 2 \<or> q = 2" using zu(4) [rule_format, of q] z2 u [OF that] that by (simp add: used_def)
    ultimately show ?thesis by (auto simp: bit_iff_odd drop_bit_eq_div)
  qed
  then have "cd_uncached d' 2048 = 7" by (intro bit_word_eqI) simp
  moreover have "zone = 2" using z2 by (simp add: word_unat_eq_iff)
  ultimately show ?thesis using r(1) zone ram_file.flat.flat_disk_axioms by blast
qed

end
