(* ===== verification/MinixNode.thy ===== *)
theory MinixNode
  imports MinixMaps
begin

text \<open>
  Model of kernel/src/files/minix/super.c and node.c: inodes on the disk, the walk along the zones of a file with its tables of one, two and three levels of
  indirection, reading and writing, truncation and directories. A node is passed along and returned with its changes. A result is an error (\<open>Inl\<close>) or a value (\<open>Inr\<close>);
  \<open>None\<close> is undefined behaviour or a failed assertion. \<open>junk\<close> are the bytes of fresh memory. A callback of the walk returns the zone and the flag \<open>changed\<close>
  that it received through pointers. The locks are omitted; they are reentrant.
\<close>

unbundle bit_operations_syntax

definition SUCCESS_EXIT :: Error where "SUCCESS_EXIT = OtherError 1024"

record MinixVfsNode =
  mn_stat :: VfsStat
  mn_zones :: "u32 list"

subsection \<open>Inodes\<close>

definition sizeof_MinixInode :: nat where "sizeof_MinixInode = 64"

definition offsetForINode :: "Minix3Superblock \<Rightarrow> u32 \<Rightarrow> u64" where
  "offsetForINode sb inode =
     of_nat ((2 + unat (sb_imap_blocks sb) + unat (sb_zmap_blocks sb)) * MINIX_BLOCK_SIZE) + ucast (inode - 1) * of_nat sizeof_MinixInode"

definition offsetForZone :: "u64 \<Rightarrow> u64" where
  "offsetForZone zone = zone * of_nat MINIX_BLOCK_SIZE"

definition createMinixVfsNode :: "u64 \<Rightarrow> u32 \<Rightarrow> MinixVfsNode \<Rightarrow> MinixVfsNode" where
  "createMinixVfsNode dev inode raw =
     raw\<lparr>mn_stat := (mn_stat raw)\<lparr>st_dev := dev, st_id := ucast inode, st_rdev := 0, st_block_size := of_nat MINIX_BLOCK_SIZE\<rparr>\<rparr>"

text \<open>\<open>MinixInode\<close> in memory: mode, nlinks, uid and gid of 16 bits, size and times of 32 bits, ten zones.\<close>

definition inode_bytes :: "MinixVfsNode \<Rightarrow> u8 list" where
  "inode_bytes node = (let st = mn_stat node in
     enc 2 (ucast (st_mode st)) @ enc 2 (st_nlinks st) @ enc 2 (of_int (st_uid st)) @ enc 2 (of_int (st_gid st)) @ enc 4 (st_size st)
     @ enc 4 (st_atime st div 1000000000) @ enc 4 (st_mtime st div 1000000000) @ enc 4 (st_ctime st div 1000000000)
     @ concat (map (\<lambda>z. enc 4 (ucast z)) (mn_zones node)))"

definition field :: "nat \<Rightarrow> nat \<Rightarrow> u8 list \<Rightarrow> u64" where
  "field pos n bs = dec (take n (drop pos bs))"

definition parse_zones :: "nat \<Rightarrow> u8 list \<Rightarrow> u32 list" where
  "parse_zones n bs = map (\<lambda>i. ucast (field (4 * i) 4 bs)) [0..<n]"

definition minixReadNode :: "'d MinixDisk \<Rightarrow> (nat \<Rightarrow> u8) \<Rightarrow> MinixVfsNode \<Rightarrow> u64 \<Rightarrow> Minix3Superblock \<Rightarrow> u64 \<Rightarrow> 'd \<Rightarrow> ((Error + MinixVfsNode) \<times> 'd) option" where
  "minixReadNode D junk raw dev sb id' d = do {
     let node = createMinixVfsNode dev (ucast id') raw;
     (r, inode, d) \<leftarrow> md_read D (offsetForINode sb (ucast id')) (map junk [0..<sizeof_MinixInode]) d;
     (case r of
        Inl e \<Rightarrow> Some (Inl e, d)
      | Inr tmp_size \<Rightarrow>
          if unat tmp_size \<noteq> sizeof_MinixInode then Some (Inl EIO, d)
          else (let st = (mn_stat node)\<lparr>st_mode := ucast (field 0 2 inode), st_nlinks := field 2 2 inode, st_uid := uint (field 4 2 inode), st_gid := uint (field 6 2 inode),
                       st_size := field 8 4 inode, st_atime := field 12 4 inode * 1000000000, st_mtime := field 16 4 inode * 1000000000,
                       st_ctime := field 20 4 inode * 1000000000, st_blocks := 0\<rparr>
                in Some (Inr (node\<lparr>mn_stat := st, mn_zones := parse_zones 10 (drop 24 inode)\<rparr>), d))) }"

definition minixWriteNode :: "'d MinixDisk \<Rightarrow> Minix3Superblock \<Rightarrow> MinixVfsNode \<Rightarrow> 'd \<Rightarrow> ((Error + unit) \<times> 'd) option" where
  "minixWriteNode D sb node d = do {
     (r, _, d) \<leftarrow> md_write D (offsetForINode sb (ucast (st_id (mn_stat node)))) (inode_bytes node) d;
     (case r of
        Inl e \<Rightarrow> Some (Inl e, d)
      | Inr tmp_size \<Rightarrow> Some (if unat tmp_size \<noteq> sizeof_MinixInode then Inl EIO else Inr (), d)) }"

definition minixNewNode :: "'d MinixDisk \<Rightarrow> (nat \<Rightarrow> u8) \<Rightarrow> Minix3Superblock \<Rightarrow> 'd \<Rightarrow> ((Error + u64) \<times> 'd) option" where
  "minixNewNode D junk sb d = do {
     (r, d) \<leftarrow> getFreeMinixInode D junk sb d;
     Some (map_sum id ucast r, d) }"

definition minixFreeNode :: "'d MinixDisk \<Rightarrow> u8 \<Rightarrow> MinixVfsNode \<Rightarrow> 'd \<Rightarrow> ((Error + unit) \<times> 'd) option" where
  "minixFreeNode D junk node d = do {
     cassert (\<forall>z \<in> set (mn_zones node). z = 0);
     freeMinixInode D junk (ucast (st_id (mn_stat node))) d }"

definition sizeof_Minix3Superblock :: nat where "sizeof_Minix3Superblock = 32"

definition parse_super :: "u8 list \<Rightarrow> Minix3Superblock" where
  "parse_super bs = \<lparr>sb_ninodes = ucast (field 0 4 bs), sb_imap_blocks = ucast (field 6 2 bs), sb_zmap_blocks = ucast (field 8 2 bs), sb_first_data_zone = ucast (field 10 2 bs),
     sb_log_zone_size = ucast (field 12 2 bs), sb_max_size = ucast (field 16 4 bs), sb_zones = ucast (field 20 4 bs), sb_magic = ucast (field 24 2 bs),
     sb_block_size = ucast (field 28 2 bs), sb_disk_version = ucast (field 30 1 bs)\<rparr>"

text \<open>The superblock with its root node; \<open>dev\<close> is the number of the device.\<close>

definition createMinixVfsSuperblock :: "'d MinixDisk \<Rightarrow> (nat \<Rightarrow> u8) \<Rightarrow> MinixVfsNode \<Rightarrow> u64 \<Rightarrow> 'd \<Rightarrow> ((Error + Minix3Superblock \<times> MinixVfsNode) \<times> 'd) option" where
  "createMinixVfsSuperblock D junk raw dev d = do {
     (r, bs, d) \<leftarrow> md_read D (of_nat MINIX_BLOCK_SIZE) (map junk [0..<sizeof_Minix3Superblock]) d;
     (case r of
        Inl e \<Rightarrow> Some (Inl e, d)
      | Inr tmp_size \<Rightarrow>
          if unat tmp_size \<noteq> sizeof_Minix3Superblock then Some (Inl EIO, d)
          else let sb = parse_super bs in
            if sb_magic sb \<noteq> MINIX3_MAGIC then Some (Inl EINVAL, d)
            else do {
              (r, d) \<leftarrow> minixReadNode D junk raw dev sb 1 d;
              (case r of Inl e \<Rightarrow> Some (Inl e, d) | Inr root \<Rightarrow> Some (Inr (sb, root), d)) }) }"

subsection \<open>The walk along the zones\<close>

type_synonym 's zone_callback = "u32 \<Rightarrow> bool \<Rightarrow> u64 \<Rightarrow> u64 \<Rightarrow> bool \<Rightarrow> bool \<Rightarrow> 's \<Rightarrow> ((Error + unit) \<times> u32 \<times> bool \<times> 's) option"

definition MINIX_NUM_IPTRS_LOG2 :: nat where "MINIX_NUM_IPTRS_LOG2 = 8"
definition MINIX_NUM_IPTRS :: nat where "MINIX_NUM_IPTRS = MINIX_BLOCK_SIZE div 4"

text \<open>The shift is one of an \<open>int\<close>: at depth 3 the result does not fit in its 32 bits.\<close>

definition zone_size :: "nat \<Rightarrow> u64" where
  "zone_size depth = scast (push_bit (MINIX_NUM_IPTRS_LOG2 * depth) (of_nat MINIX_BLOCK_SIZE) :: u32)"

text \<open>
  \<open>minixZoneWalkRecScan\<close> over the rest of a table; \<open>rec\<close> is \<open>minixZoneWalkRec\<close> one level below. The result has the table with its
  changes, the position and the flag.
\<close>

primrec minixZoneWalkRecScan :: "(u32 \<Rightarrow> u64 \<Rightarrow> 's \<Rightarrow> ((Error + unit) \<times> u64 \<times> 's) option) \<Rightarrow> 's zone_callback \<Rightarrow> u64 \<Rightarrow> nat \<Rightarrow> u32 list \<Rightarrow> u64 \<Rightarrow> bool \<Rightarrow> 's
    \<Rightarrow> ((Error + unit) \<times> u32 list \<times> u64 \<times> bool \<times> 's) option" where
  "minixZoneWalkRecScan rec cb offset depth [] position changed s = Some (Inr (), [], position, changed, s)"
| "minixZoneWalkRecScan rec cb offset depth (z # zs) position changed s = do {
     let sz = zone_size depth;
     (r, z, position, changed, s) \<leftarrow>
       (if offset < position + sz then do {
          (r, z, changed, s) \<leftarrow> cb z changed position sz True False s;
          (case r of
             Inl e \<Rightarrow> Some (Inl e, z, position, changed, s)
           | Inr _ \<Rightarrow> do {
               (r, z, position, changed, s) \<leftarrow>
                 (if depth = 0 \<or> z = 0
                  then do { (r, z, changed, s) \<leftarrow> cb z changed position sz False False s; Some (r, z, position, changed, s) }
                  else do { (r, position, s) \<leftarrow> rec z position s; Some (r, z, position, changed, s) });
               (case r of
                  Inl e \<Rightarrow> Some (Inl e, z, position, changed, s)
                | Inr _ \<Rightarrow> do {
                    (r, z, changed, s) \<leftarrow> cb z changed position sz False True s;
                    Some (r, z, position, changed, s) }) }) }
        else Some (Inr (), z, position, changed, s));
     (case r of
        Inl e \<Rightarrow> Some (Inl e, z # zs, position, changed, s)
      | Inr _ \<Rightarrow> do {
          (r, zs, position, changed, s) \<leftarrow> minixZoneWalkRecScan rec cb offset depth zs (position + sz) changed s;
          Some (r, z # zs, position, changed, s) }) }"

text \<open>The state of a walk contains the disk; \<open>get\<close> and \<open>put\<close> access it.\<close>

definition walk_table :: "'d MinixDisk \<Rightarrow> (nat \<Rightarrow> u8) \<Rightarrow> ('s \<Rightarrow> 'd) \<Rightarrow> ('d \<Rightarrow> 's \<Rightarrow> 's) \<Rightarrow> u32
    \<Rightarrow> (u32 list \<Rightarrow> u64 \<Rightarrow> 's \<Rightarrow> ((Error + unit) \<times> u32 list \<times> u64 \<times> bool \<times> 's) option) \<Rightarrow> u64 \<Rightarrow> 's \<Rightarrow> ((Error + unit) \<times> u64 \<times> 's) option" where
  "walk_table D junk get put indirect_table scan position s = do {
     (r, table, d) \<leftarrow> md_read D (offsetForZone (ucast indirect_table)) (map junk [0..<MINIX_BLOCK_SIZE]) (get s);
     let s = put d s;
     (case r of
        Inl e \<Rightarrow> Some (Inl e, position, s)
      | Inr tmp_size \<Rightarrow>
          if unat tmp_size \<noteq> MINIX_BLOCK_SIZE then Some (Inl EIO, position, s)
          else do {
            (err, zones, position, changed, s) \<leftarrow> scan (parse_zones MINIX_NUM_IPTRS table) position s;
            (if changed then do {
               (e, _, d) \<leftarrow> md_write D (offsetForZone (ucast indirect_table)) (concat (map (\<lambda>z. enc 4 (ucast z)) zones)) (get s);
               Some (case err of Inl e \<Rightarrow> Inl e | Inr _ \<Rightarrow> map_sum id (\<lambda>_. ()) e, position, put d s) }
             else Some (err, position, s)) }) }"

primrec minixZoneWalkRec :: "'d MinixDisk \<Rightarrow> (nat \<Rightarrow> u8) \<Rightarrow> ('s \<Rightarrow> 'd) \<Rightarrow> ('d \<Rightarrow> 's \<Rightarrow> 's) \<Rightarrow> 's zone_callback \<Rightarrow> u64 \<Rightarrow> nat \<Rightarrow> u32 \<Rightarrow> u64 \<Rightarrow> 's
    \<Rightarrow> ((Error + unit) \<times> u64 \<times> 's) option" where
  "minixZoneWalkRec D junk get put cb offset 0 indirect_table position s =
     walk_table D junk get put indirect_table (\<lambda>table position. minixZoneWalkRecScan (\<lambda>_ _ _. None) cb offset 0 table position False) position s"
| "minixZoneWalkRec D junk get put cb offset (Suc depth) indirect_table position s =
     walk_table D junk get put indirect_table
       (\<lambda>table position. minixZoneWalkRecScan (minixZoneWalkRec D junk get put cb offset depth) cb offset (Suc depth) table position False) position s"

text \<open>The rest of a walk after an error is skipped.\<close>

definition walk_part :: "'d MinixDisk \<Rightarrow> (nat \<Rightarrow> u8) \<Rightarrow> ('s \<Rightarrow> 'd) \<Rightarrow> ('d \<Rightarrow> 's \<Rightarrow> 's) \<Rightarrow> 's zone_callback \<Rightarrow> u64 \<Rightarrow> nat \<Rightarrow> u32 list
    \<Rightarrow> (Error + unit) \<times> u32 list \<times> u64 \<times> bool \<times> 's \<Rightarrow> ((Error + unit) \<times> u32 list \<times> u64 \<times> bool \<times> 's) option" where
  "walk_part D junk get put cb offset depth table st = (case st of (err, done, position, changed, s) \<Rightarrow>
     (case err of
        Inl e \<Rightarrow> Some (Inl e, done @ table, position, changed, s)
      | Inr _ \<Rightarrow> do {
          (err, table, position, changed, s) \<leftarrow> minixZoneWalkRecScan (if depth = 0 then (\<lambda>_ _ _. None) else minixZoneWalkRec D junk get put cb offset (depth - 1))
             cb offset depth table position changed s;
          Some (err, done @ table, position, changed, s) }))"

definition minixZoneWalk :: "'d MinixDisk \<Rightarrow> (nat \<Rightarrow> u8) \<Rightarrow> Minix3Superblock \<Rightarrow> ('s \<Rightarrow> 'd) \<Rightarrow> ('d \<Rightarrow> 's \<Rightarrow> 's) \<Rightarrow> 's zone_callback \<Rightarrow> u64 \<Rightarrow> MinixVfsNode \<Rightarrow> 's
    \<Rightarrow> ((Error + unit) \<times> MinixVfsNode \<times> 's) option" where
  "minixZoneWalk D junk sb get put cb offset node s = do {
     let zones = mn_zones node;
     st \<leftarrow> walk_part D junk get put cb offset 0 (take 7 zones) (Inr (), [], 0, False, s);
     st \<leftarrow> walk_part D junk get put cb offset 1 (take 1 (drop 7 zones)) st;
     st \<leftarrow> walk_part D junk get put cb offset 2 (take 1 (drop 8 zones)) st;
     (err, zones, _, changed, s) \<leftarrow> walk_part D junk get put cb offset 3 (take 1 (drop 9 zones)) st;
     let node = node\<lparr>mn_zones := zones\<rparr>;
     (if changed then do {
        (e, d) \<leftarrow> minixWriteNode D sb node (get s);
        Some (case err of Inl e \<Rightarrow> Inl e | Inr _ \<Rightarrow> e, node, put d s) }
      else Some (err, node, s)) }"

subsection \<open>Reading and writing\<close>

text \<open>\<open>rq_pos\<close> is how far the address of the buffer has advanced.\<close>

record 'd MinixReadWriteRequest =
  rq_disk :: 'd
  rq_buffer :: "u8 list"
  rq_pos :: nat
  rq_offset :: u64
  rq_left :: u64

definition new_zone_for :: "'d MinixDisk \<Rightarrow> (nat \<Rightarrow> u8) \<Rightarrow> Minix3Superblock \<Rightarrow> u32 \<Rightarrow> bool \<Rightarrow> 'd MinixReadWriteRequest
    \<Rightarrow> ((Error + unit) \<times> u32 \<times> bool \<times> 'd MinixReadWriteRequest) option" where
  "new_zone_for D junk sb zone changed rq = do {
     (r, d) \<leftarrow> getFreeMinixZone D junk sb (rq_disk rq);
     (case r of
        Inl e \<Rightarrow> Some (Inl e, zone, changed, rq\<lparr>rq_disk := d\<rparr>)
      | Inr new_zone \<Rightarrow> do {
          (r, _, d) \<leftarrow> md_write D (offsetForZone new_zone) (replicate MINIX_BLOCK_SIZE 0) d;
          (case r of
             Inl e \<Rightarrow> Some (Inl e, zone, changed, rq\<lparr>rq_disk := d\<rparr>)
           | Inr tmp_size \<Rightarrow>
               if unat tmp_size \<noteq> MINIX_BLOCK_SIZE then Some (Inl EIO, zone, changed, rq\<lparr>rq_disk := d\<rparr>)
               else Some (Inr (), ucast new_zone, True, rq\<lparr>rq_disk := d\<rparr>)) }) }"

text \<open>The transfer of one zone: an error or the number of bytes.\<close>

definition zone_transfer :: "'d MinixDisk \<Rightarrow> bool \<Rightarrow> u32 \<Rightarrow> u64 \<Rightarrow> u64 \<Rightarrow> 'd MinixReadWriteRequest \<Rightarrow> ((Error + u64) \<times> 'd MinixReadWriteRequest) option" where
  "zone_transfer D wr zone position sz rq = do {
     let file_offset = (if rq_offset rq > position then rq_offset rq else position);
     let block_offset = file_offset mod of_nat MINIX_BLOCK_SIZE;
     let tmp_size = umin (rq_left rq) (position + sz - file_offset);
     let part = take (unat tmp_size) (drop (rq_pos rq) (rq_buffer rq));
     (if wr then do {
        (r, _, d) \<leftarrow> md_write D (offsetForZone (ucast zone) + block_offset) part (rq_disk rq);
        Some (r, rq\<lparr>rq_disk := d\<rparr>) }
      else if zone = 0 then Some (Inr tmp_size, rq\<lparr>rq_buffer := copy_to (rq_pos rq) (replicate (unat tmp_size) 0) (rq_buffer rq)\<rparr>)
      else do {
        (r, part, d) \<leftarrow> md_read D (offsetForZone (ucast zone) + block_offset) part (rq_disk rq);
        Some (r, rq\<lparr>rq_disk := d, rq_buffer := copy_to (rq_pos rq) part (rq_buffer rq)\<rparr>) }) }"

definition rw_result :: "'d MinixReadWriteRequest \<Rightarrow> Error + unit" where
  "rw_result rq = (if rq_left rq = 0 then Inl SUCCESS_EXIT else Inr ())"

definition minixRWZoneWalkCallback :: "'d MinixDisk \<Rightarrow> (nat \<Rightarrow> u8) \<Rightarrow> Minix3Superblock \<Rightarrow> bool \<Rightarrow> 'd MinixReadWriteRequest zone_callback" where
  "minixRWZoneWalkCallback D junk sb wr zone changed position sz pre post rq = do {
     (r, zone, changed, rq) \<leftarrow> (if wr \<and> pre \<and> zone = 0 \<and> rq_left rq > 0 then new_zone_for D junk sb zone changed rq else Some (Inr (), zone, changed, rq));
     (case r of
        Inl e \<Rightarrow> Some (Inl e, zone, changed, rq)
      | Inr _ \<Rightarrow>
          if \<not> pre \<and> \<not> post \<and> rq_left rq > 0 then do {
            (r, rq) \<leftarrow> zone_transfer D wr zone position sz rq;
            (case r of
               Inl e \<Rightarrow> Some (Inl e, zone, changed, rq)
             | Inr tmp_size \<Rightarrow>
                 if tmp_size = 0 then Some (Inl EIO, zone, changed, rq)
                 else (let rq = rq\<lparr>rq_pos := rq_pos rq + unat tmp_size, rq_left := rq_left rq - tmp_size\<rparr>
                       in Some (rw_result rq, zone, changed, rq))) }
          else Some (rw_result rq, zone, changed, rq)) }"

text \<open>The number of bytes, with the buffer, the node and the disk.\<close>

definition minixReadWrite :: "'d MinixDisk \<Rightarrow> (nat \<Rightarrow> u8) \<Rightarrow> Minix3Superblock \<Rightarrow> bool \<Rightarrow> MinixVfsNode \<Rightarrow> u8 list \<Rightarrow> u64 \<Rightarrow> u64 \<Rightarrow> 'd
    \<Rightarrow> ((Error + u64) \<times> u8 list \<times> MinixVfsNode \<times> 'd) option" where
  "minixReadWrite D junk sb wr node buffer offset len d =
     (let st_size' = st_size (mn_stat node);
          len = (if \<not> wr then (if st_size' < offset then 0 else umin len (st_size' - offset)) else len)
      in if len = 0 then Some (Inr 0, buffer, node, d)
         else do {
           (err, node, rq) \<leftarrow> minixZoneWalk D junk sb rq_disk (\<lambda>d rq. rq\<lparr>rq_disk := d\<rparr>) (minixRWZoneWalkCallback D junk sb wr) offset node
              \<lparr>rq_disk = d, rq_buffer = buffer, rq_pos = 0, rq_offset = offset, rq_left = len\<rparr>;
           (if err \<noteq> Inl SUCCESS_EXIT \<and> isl err then Some (Inl (projl err), rq_buffer rq, node, rq_disk rq)
            else (let len = len - rq_left rq in
              if wr \<and> offset + len > st_size (mn_stat node) then do {
                let node = node\<lparr>mn_stat := (mn_stat node)\<lparr>st_size := offset + len\<rparr>\<rparr>;
                (_, d) \<leftarrow> minixWriteNode D sb node (rq_disk rq);
                Some (Inr len, rq_buffer rq, node, d) }
              else Some (Inr len, rq_buffer rq, node, rq_disk rq))) })"

definition minixReadAt :: "'d MinixDisk \<Rightarrow> (nat \<Rightarrow> u8) \<Rightarrow> Minix3Superblock \<Rightarrow> MinixVfsNode \<Rightarrow> u8 list \<Rightarrow> u64 \<Rightarrow> u64 \<Rightarrow> 'd \<Rightarrow> ((Error + u64) \<times> u8 list \<times> MinixVfsNode \<times> 'd) option" where
  "minixReadAt D junk sb node buff offset len d = minixReadWrite D junk sb False node buff offset len d"

definition minixWriteAt :: "'d MinixDisk \<Rightarrow> (nat \<Rightarrow> u8) \<Rightarrow> Minix3Superblock \<Rightarrow> MinixVfsNode \<Rightarrow> u8 list \<Rightarrow> u64 \<Rightarrow> u64 \<Rightarrow> 'd \<Rightarrow> ((Error + u64) \<times> u8 list \<times> MinixVfsNode \<times> 'd) option" where
  "minixWriteAt D junk sb node buff offset len d = minixReadWrite D junk sb True node buff offset len d"

subsection \<open>Truncation\<close>

record 'd MinixTruncRequest =
  tr_disk :: 'd
  tr_length :: u64

text \<open>The remainder by a position of zero is undefined.\<close>

definition minixTruncZoneWalkCallback :: "'d MinixDisk \<Rightarrow> u8 \<Rightarrow> Minix3Superblock \<Rightarrow> 'd MinixTruncRequest zone_callback" where
  "minixTruncZoneWalkCallback D junk sb zone changed position sz pre post rq =
     (if zone \<noteq> 0 then
        (if tr_length rq \<le> position then
           (if post then do {
              (r, d) \<leftarrow> freeMinixZone D junk sb (ucast zone) (tr_disk rq);
              (case r of
                 Inl e \<Rightarrow> Some (Inl e, zone, changed, rq\<lparr>tr_disk := d\<rparr>)
               | Inr _ \<Rightarrow> Some (Inr (), 0, True, rq\<lparr>tr_disk := d\<rparr>)) }
            else Some (Inr (), zone, changed, rq))
         else if \<not> pre \<and> \<not> post then do {
           cassert (position \<noteq> 0);
           let block_offset = tr_length rq mod position;
           let tmp_size = of_nat MINIX_BLOCK_SIZE - block_offset;
           (r, _, d) \<leftarrow> md_write D (offsetForZone (ucast zone) + block_offset) (replicate (unat tmp_size) 0) (tr_disk rq);
           (case r of
              Inl e \<Rightarrow> Some (Inl e, zone, changed, rq\<lparr>tr_disk := d\<rparr>)
            | Inr _ \<Rightarrow> Some (Inr (), zone, changed, rq\<lparr>tr_disk := d\<rparr>)) }
         else Some (Inr (), zone, changed, rq))
      else Some (Inr (), zone, changed, rq))"

definition minixTrunc :: "'d MinixDisk \<Rightarrow> (nat \<Rightarrow> u8) \<Rightarrow> Minix3Superblock \<Rightarrow> MinixVfsNode \<Rightarrow> u64 \<Rightarrow> 'd \<Rightarrow> ((Error + unit) \<times> MinixVfsNode \<times> 'd) option" where
  "minixTrunc D junk sb node len d = do {
     (err, node, rq) \<leftarrow> minixZoneWalk D junk sb tr_disk (\<lambda>d rq. rq\<lparr>tr_disk := d\<rparr>) (minixTruncZoneWalkCallback D (junk 0) sb) len node
        \<lparr>tr_disk = d, tr_length = len\<rparr>;
     (if err \<noteq> Inl SUCCESS_EXIT \<and> isl err then Some (err, node, tr_disk rq)
      else do {
        let node = node\<lparr>mn_stat := (mn_stat node)\<lparr>st_size := len\<rparr>\<rparr>;
        (_, d) \<leftarrow> minixWriteNode D sb node (tr_disk rq);
        Some (Inr (), node, d) }) }"

subsection \<open>Directories\<close>

definition sizeof_MinixDirEntry :: nat where "sizeof_MinixDirEntry = 64"
definition MAX_LOOKUP_READ_SIZE :: nat where "MAX_LOOKUP_READ_SIZE = 2 ^ 16"

text \<open>
  \<open>strcmp\<close> of the name in an entry and a name, up to the first difference; the comparison leaves the buffer when the name in it has no NUL. The name
  is given without its NUL.
\<close>

fun name_equal :: "u8 list \<Rightarrow> u8 list \<Rightarrow> bool option" where
  "name_equal [] name = None"
| "name_equal (b # bs) [] = Some (b = 0)"
| "name_equal (b # bs) (c # cs) = (if b = c then name_equal bs cs else Some False)"

text \<open>The search in the entries that were read: the inode and the offset, or the offset reached.\<close>

fun entry_loop :: "u8 list \<Rightarrow> nat \<Rightarrow> u8 list \<Rightarrow> u64 \<Rightarrow> ((u32 \<times> u64) + u64) option" where
  "entry_loop bs 0 name offset = Some (Inr offset)"
| "entry_loop bs (Suc n) name offset = do {
     let inode = ucast (field 0 4 bs);
     eq \<leftarrow> (if inode \<noteq> 0 then name_equal (drop 4 bs) name else Some False);
     if eq then Some (Inl (inode, offset)) else entry_loop (drop sizeof_MinixDirEntry bs) n name (offset + of_nat sizeof_MinixDirEntry) }"

partial_function (option) lookup_chunks :: "'d MinixDisk \<Rightarrow> (nat \<Rightarrow> u8) \<Rightarrow> Minix3Superblock \<Rightarrow> u8 list \<Rightarrow> u64 \<Rightarrow> u64 \<Rightarrow> u8 list \<Rightarrow> MinixVfsNode \<Rightarrow> 'd
    \<Rightarrow> ((Error + u32 \<times> u64) \<times> MinixVfsNode \<times> 'd) option" where
  "lookup_chunks D junk sb name offset left tmp node d =
     (if left > 0 then do {
        let tmp_size = umin (of_nat MAX_LOOKUP_READ_SIZE) left;
        (r, tmp, node, d) \<leftarrow> minixReadAt D junk sb node tmp offset tmp_size d;
        (case r of
           Inl e \<Rightarrow> Some (Inl e, node, d)
         | Inr tmp_size \<Rightarrow>
             if tmp_size = 0 then Some (Inl EIO, node, d)
             else do {
               f \<leftarrow> entry_loop tmp (unat tmp_size div sizeof_MinixDirEntry) name offset;
               (case f of
                  Inl (inode, off) \<Rightarrow> Some (Inr (inode, off), node, d)
                | Inr offset \<Rightarrow> lookup_chunks D junk sb name offset (left - tmp_size) tmp node d) }) }
      else Some (Inl ENOENT, node, d))"

definition minixInternalLookup :: "'d MinixDisk \<Rightarrow> (nat \<Rightarrow> u8) \<Rightarrow> Minix3Superblock \<Rightarrow> u8 list \<Rightarrow> MinixVfsNode \<Rightarrow> 'd \<Rightarrow> ((Error + u32 \<times> u64) \<times> MinixVfsNode \<times> 'd) option" where
  "minixInternalLookup D junk sb name node d =
     (let left = st_size (mn_stat node)
      in lookup_chunks D junk sb name 0 left (map junk [0..<min MAX_LOOKUP_READ_SIZE (unat left)]) node d)"

definition minixLookup :: "'d MinixDisk \<Rightarrow> (nat \<Rightarrow> u8) \<Rightarrow> Minix3Superblock \<Rightarrow> u8 list \<Rightarrow> MinixVfsNode \<Rightarrow> 'd \<Rightarrow> ((Error + u64) \<times> MinixVfsNode \<times> 'd) option" where
  "minixLookup D junk sb name node d = do {
     (r, node, d) \<leftarrow> minixInternalLookup D junk sb name node d;
     Some (map_sum id (\<lambda>(inode, off). ucast inode) r, node, d) }"

definition minixUnlink :: "'d MinixDisk \<Rightarrow> (nat \<Rightarrow> u8) \<Rightarrow> Minix3Superblock \<Rightarrow> u8 list \<Rightarrow> MinixVfsNode \<Rightarrow> 'd \<Rightarrow> ((Error + unit) \<times> MinixVfsNode \<times> 'd) option" where
  "minixUnlink D junk sb name node d = do {
     (r, node, d) \<leftarrow> minixInternalLookup D junk sb name node d;
     (case r of
        Inl e \<Rightarrow> Some (Inl e, node, d)
      | Inr (inodenum, offset) \<Rightarrow> do {
          (r, entry, node, d) \<leftarrow> minixReadAt D junk sb node (map junk [0..<sizeof_MinixDirEntry]) (st_size (mn_stat node) - of_nat sizeof_MinixDirEntry) (of_nat sizeof_MinixDirEntry) d;
          (case r of
             Inl e \<Rightarrow> Some (Inl e, node, d)
           | Inr tmp_size \<Rightarrow>
               if unat tmp_size \<noteq> sizeof_MinixDirEntry then Some (Inl EIO, node, d)
               else do {
                 (r, _, node, d) \<leftarrow> minixWriteAt D junk sb node entry offset (of_nat sizeof_MinixDirEntry) d;
                 (case r of
                    Inl e \<Rightarrow> Some (Inl e, node, d)
                  | Inr _ \<Rightarrow> minixTrunc D junk sb node (st_size (mn_stat node) - of_nat sizeof_MinixDirEntry) d) }) }) }"

text \<open>The name in the entry is cut to 59 bytes; the bytes behind its NUL are zero.\<close>

definition new_dir_entry :: "u8 list \<Rightarrow> u64 \<Rightarrow> u8 list" where
  "new_dir_entry name id' = enc 4 (ucast (ucast id' :: u32)) @ (let n = take 59 name in n @ replicate (60 - length n) 0)"

definition minixLink :: "'d MinixDisk \<Rightarrow> (nat \<Rightarrow> u8) \<Rightarrow> Minix3Superblock \<Rightarrow> u8 list \<Rightarrow> u64 \<Rightarrow> MinixVfsNode \<Rightarrow> 'd \<Rightarrow> ((Error + unit) \<times> MinixVfsNode \<times> 'd) option" where
  "minixLink D junk sb name entry_id node d = do {
     let entry = new_dir_entry name entry_id;
     (err, node, d) \<leftarrow> minixInternalLookup D junk sb name node d;
     (if err \<noteq> Inl ENOENT \<and> isl err then Some (Inl (projl err), node, d)
      else do {
        let offset = (case err of Inl _ \<Rightarrow> st_size (mn_stat node) | Inr (_, off) \<Rightarrow> off);
        (r, _, node, d) \<leftarrow> minixWriteAt D junk sb node entry offset (of_nat sizeof_MinixDirEntry) d;
        (case r of
           Inl e \<Rightarrow> Some (Inl e, node, d)
         | Inr tmp_size \<Rightarrow> Some (if unat tmp_size \<noteq> sizeof_MinixDirEntry then Inl EIO else Inr (), node, d)) }) }"

definition sizeof_VfsDirectoryEntry :: nat where "sizeof_VfsDirectoryEntry = 32"

text \<open>\<open>VfsDirectoryEntry\<close>: id, off and len of 64 bits, type of 32 bits, and the name at offset 28.\<close>

definition minixReaddirAt :: "'d MinixDisk \<Rightarrow> (nat \<Rightarrow> u8) \<Rightarrow> Minix3Superblock \<Rightarrow> MinixVfsNode \<Rightarrow> u8 list \<Rightarrow> u64 \<Rightarrow> u64 \<Rightarrow> 'd
    \<Rightarrow> ((Error + u64 \<times> u64) \<times> u8 list \<times> MinixVfsNode \<times> 'd) option" where
  "minixReaddirAt D junk sb node buff offset len d = do {
     (r, entry, node, d) \<leftarrow> minixReadAt D junk sb node (map junk [0..<sizeof_MinixDirEntry]) offset (of_nat sizeof_MinixDirEntry) d;
     (case r of
        Inl e \<Rightarrow> Some (Inl e, buff, node, d)
      | Inr tmp_size \<Rightarrow>
          if tmp_size \<noteq> 0 \<and> unat tmp_size \<noteq> sizeof_MinixDirEntry then Some (Inl EIO, buff, node, d)
          else if tmp_size = 0 then Some (Inr (0, 0), buff, node, d)
          else do {
            let name = drop 4 entry;
            cassert (0 \<in> set name);
            let name_z = takeWhile (\<lambda>c. c \<noteq> 0) name @ [0];
            let vfs_entry_size = sizeof_VfsDirectoryEntry + length name_z;
            let vfs_entry = take vfs_entry_size (enc 8 (field 0 4 entry) @ enc 8 offset @ enc 8 (of_nat vfs_entry_size) @ enc 4 0 @ name_z @ map junk [0..<4]);
            let n = min (unat len) vfs_entry_size;
            Some (Inr (tmp_size, of_nat n), copy_to 0 (take n vfs_entry) buff, node, d) }) }"

end
