(* ===== verification/Spec2Isabelle.thy ===== *)
theory Spec2Isabelle
  imports MemOps StringOps Kalloc PageRef StringMap VirtPtr SchedInv Signals Pipe Cipher Path FdTable VfsNodes NodeCache TaskLock Devices SpecialFiles FileSystem Lookup Timer BlockTable BlockCache BlkFile MinixMaps MinixNode
begin

text \<open>
  Verification of the some-os kernel.

  The kernel (\<^verbatim>\<open>src/kernel/src\<close>) is a small Unix-like system for RISC-V in C. Memory is handed
  out by an allocator of free blocks (pages, and bytes on top of pages); page tables, the
  reference counts of shared pages and memory spaces with copy-on-write are built on it; tasks
  are scheduled from priority queues per hart and wait in a global list; processes receive
  signals; files are nodes of file systems that a generic layer (VFS) checks, caches and counts
  references for, and processes hold them through descriptors; pipes move bytes between tasks.
  Each theory models one part, in the order of its source file, and opens with the conventions it
  adds.

  \<^bold>\<open>Conventions.\<close> Integers are words of their width and wrap around; sizes that the code keeps below
  a capacity are natural numbers where the theory says so. Memory is a total function from
  addresses to bytes. Structures are records; pointers to structures of one kind are addresses
  into a function from addresses to records. A result \<open>None\<close> is a failed assertion, a panic, a read outside
  of a buffer or a loop that does not end; loops over linked structures are partial functions into
  \<open>option\<close>, and the theorems state that they return \<open>Some\<close>. Error codes are the left summand
  of a sum. No fuel is used anywhere. Locks are omitted except in \<open>TaskLock\<close>: the other theories describe
  what one operation does under its lock.

  \<^bold>\<open>Foundations.\<close> \<open>Prelude\<close> has word types, assertions and shared lemmas; \<open>Memory\<close> loads and
  stores of words in byte memory; \<open>MemOps\<close> (\<^verbatim>\<open>libc/lib/memop.c\<close>), \<open>StringOps\<close>
  (\<^verbatim>\<open>libc/lib/string.c\<close>) and \<open>Util\<close> (\<^verbatim>\<open>util/util.c\<close>) the C library and utility functions
  with their functional correctness; \<open>Bytes\<close> the bytes of words pushed on a stack;
  \<open>LinkedList\<close> lists through a successor function.

  \<^bold>\<open>Physical memory.\<close> \<open>Allocator\<close> (\<^verbatim>\<open>memory/allocator.c\<close>) translates the free-list
  allocator, whose list lives inside of the free memory. \<open>FreeList\<close> relates the chain in memory to
  a sorted list of disjoint, non-adjacent chunks and proves what each operation does to that list.
  \<open>RegionAlloc\<close> is the interface (locale \<open>region_allocator\<close>) that clients rely on; it proves once that any run of
  allocations, releases and client writes keeps regions disjoint and loses no byte.
  \<open>PageAlloc\<close> (\<^verbatim>\<open>memory/pagealloc.c\<close>, \<^verbatim>\<open>memory/reclaim.c\<close>) interprets it. \<open>Kalloc\<close>
  (\<^verbatim>\<open>memory/kalloc.c\<close>) adds headers, checks and size computation.

  \<^bold>\<open>Hash tables.\<close> \<open>OpenAddressing\<close> has linear probing in general; \<open>RefCount\<close> the interface of
  reference counts (locale \<open>reference_table\<close>); \<open>PageRef\<close> (\<^verbatim>\<open>memory/pageref.c\<close>) implements it;
  \<open>StringMap\<close> (\<^verbatim>\<open>util/stringmap.c\<close>) refines a finite map between resizes; \<open>NodeCache\<close>
  (\<^verbatim>\<open>files/vfs/cache.c\<close>, \<^verbatim>\<open>files/vfs/super.c\<close>) holds exactly the nodes in use.

  \<^bold>\<open>Virtual memory.\<close> \<open>PageTable\<close> (\<^verbatim>\<open>memory/pagetable.c\<close>) translates the three-level tables;
  \<open>PageMap\<close> proves that mapping a page changes exactly the translation of its addresses;
  \<open>MemSpace\<close> (\<^verbatim>\<open>memory/memspace.c\<close>) has copy-on-write; \<open>VirtPtr\<close> (\<^verbatim>\<open>memory/virtptr.c\<close>)
  the access to buffers of other spaces, over the interface \<open>page_translation\<close>.

  \<^bold>\<open>Tasks.\<close> \<open>Schedule\<close> (\<^verbatim>\<open>task/schedule.c\<close>) translates queues, waiting list and states;
  \<open>ReadyQueue\<close> proves the queue with its table of tails to be a stable priority queue (locale
  \<open>priority_queue\<close>); \<open>SchedInv\<close> has the invariant over all queues and the waiting list and that every
  operation keeps it. \<open>Signals\<close> (\<^verbatim>\<open>process/signals.c\<close>) has pending signals, masks and handlers.

  \<^bold>\<open>Files.\<close> \<open>Path\<close> (\<^verbatim>\<open>files/path.c\<close>), \<open>FdTable\<close> (\<^verbatim>\<open>files/process.c\<close>), \<open>VfsTypes\<close> and \<open>VfsNodes\<close>
  (\<^verbatim>\<open>files/vfs/\<close>: access checks of \<^verbatim>\<open>fs.c\<close>, \<^verbatim>\<open>node.c\<close>, \<^verbatim>\<open>file.c\<close>), \<open>Pipe\<close>
  (\<^verbatim>\<open>files/special/pipe.c\<close>). The functions of a concrete file system are parameters.

  \<^bold>\<open>Random numbers.\<close> \<open>RandomGen\<close> translates \<^verbatim>\<open>util/random.c\<close> and compares its tables with
  arithmetic in the field; \<open>Cipher\<close> proves the cipher injective and the generator correct.

  \<^bold>\<open>Where the code departs from its purpose.\<close> Some theorems prove a defect: a translated address
  loses its offset after a copy-on-write fault, removing a task can empty a ready queue, a pipe can
  lose a waiting reader, clearing signals leaves a dangling tail, the resize of a string map loses
  keys, the carry of the random counter is lost, a failed link leaves the count too high.

  \<^bold>\<open>Not modelled.\<close> Assembly, traps and interrupt controllers, device drivers, boot and device tree, output
  and formatting, the loader, system call decoding, and user space programs: hardware registers,
  generated layout or text output. The path lookup and mounts of \<^verbatim>\<open>files/vfs/fs.c\<close>, the
  block cache, the Minix file system, processes and their system calls are further work, in this order.
\<close>

end
